(* ===== verification/Prelude.thy ===== *)
theory Prelude
  imports Main "HOL-Library.Word" "HOL-Library.Finite_Map"
begin

unbundle bit_operations_syntax

text \<open>
  Shared vocabulary of the development: the machine types of the C++ code, the
  atomic read-modify-write primitives of \<^verbatim>\<open>std::atomic\<close>, the error values of the model
  and the generic lemmas on sums, finite maps and words that the component
  theories use.

  Memory is sequentially consistent: an atomic operation reads and writes one
  cell in one indivisible step and every thread sees the same order of steps.
\<close>

type_synonym u32 = "32 word"
type_synonym u64 = "64 word"

text \<open>Thread identifiers are the small integers that \<^verbatim>\<open>ThreadID\<close> hands out.\<close>

type_synonym tid = nat

text \<open>An address; \<^verbatim>\<open>nullptr\<close> is 0.\<close>

type_synonym ptr = "64 word"

abbreviation nullptr :: ptr where
  "nullptr \<equiv> 0"

section \<open>The primitives of std::atomic\<close>

text \<open>Each primitive takes the current value of the cell; it returns the value handed to the
  caller and the new value of the cell.\<close>

definition fetch_add :: "'a::len word \<Rightarrow> 'a word \<Rightarrow> 'a word \<times> 'a word" where
  "fetch_add x a = (x, x + a)"

definition fetch_sub :: "'a::len word \<Rightarrow> 'a word \<Rightarrow> 'a word \<times> 'a word" where
  "fetch_sub x a = (x, x - a)"

definition exchange :: "'b \<Rightarrow> 'b \<Rightarrow> 'b \<times> 'b" where
  "exchange x v = (x, v)"

text \<open>\<^verbatim>\<open>compare_exchange_strong(expected, desired)\<close>: success, the value left in
  \<^verbatim>\<open>expected\<close>, the new value of the cell.\<close>

definition compare_exchange_strong :: "'b \<Rightarrow> 'b \<Rightarrow> 'b \<Rightarrow> bool \<times> 'b \<times> 'b" where
  "compare_exchange_strong x expected desired =
     (if x = expected then (True, expected, desired) else (False, x, x))"

named_theorems atomic_defs \<open>the atomic primitives, unfolded\<close>

lemmas atomic_prims [atomic_defs] =
  fetch_add_def fetch_sub_def exchange_def compare_exchange_strong_def

section \<open>Errors\<close>

text \<open>
  What the model makes of undefined behaviour and of failed assertions: an access
  to an object that is not allocated, a second destruction of a managed object, an
  \<^verbatim>\<open>assert\<close> that does not hold, a \<^verbatim>\<open>union\<close> read as the member that was not written, and the exit of the thread
  registry.
\<close>

datatype error =
    UseAfterFree ptr
  | DoubleDispose ptr
  | AssertionFailed string
  | WrongMember
  | OutOfThreads

text \<open>Sequencing of fallible steps: the first error wins.\<close>

fun ebind :: "'e + 'a \<Rightarrow> ('a \<Rightarrow> 'e + 'b) \<Rightarrow> 'e + 'b" where
  "ebind (Inl e) f = Inl e"
| "ebind (Inr a) f = f a"

lemma ebind_eq_Inr [simp]: "ebind m f = Inr b \<longleftrightarrow> (\<exists>a. m = Inr a \<and> f a = Inr b)"
  by (cases m) auto

section \<open>Finite maps\<close>

text \<open>Sums over the entries of a finite map, in any commutative monoid (numbers, multisets).\<close>

definition fmsum :: "('a, 'b) fmap \<Rightarrow> ('b \<Rightarrow> 'c::comm_monoid_add) \<Rightarrow> 'c" where
  "fmsum m f = (\<Sum>p\<in>fset (fmdom m). f (the (fmlookup m p)))"

lemma fmsum_empty [simp]: "fmsum fmempty f = 0"
  by (simp add: fmsum_def)

lemma fmsum_upd_new:
  "fmlookup m p = None \<Longrightarrow> fmsum (fmupd p v m) f = f v + fmsum m f"
  unfolding fmsum_def
  by (subst fmdom_fmupd, subst finsert.rep_eq, subst sum.insert)
     (auto simp: fmlookup_dom_iff intro!: arg_cong2 [where f = plus] sum.cong split: if_splits)

lemma fmsum_split:
  "fmlookup m p = Some v \<Longrightarrow>
   fmsum m f = f v + (\<Sum>q\<in>fset (fmdom m) - {p}. f (the (fmlookup m q)))"
  unfolding fmsum_def
  by (subst sum.remove [where x = p]) (auto simp: fmlookup_dom_iff)

lemma fmsum_upd:
  assumes "fmlookup m p = Some v"
  shows "fmsum (fmupd p w m) f + f v = fmsum m f + f w"
proof -
  have dom: "fset (fmdom (fmupd p w m)) = fset (fmdom m)"
    using assms by (auto simp: fmlookup_dom_iff)
  have "fmsum (fmupd p w m) f = f w + (\<Sum>q\<in>fset (fmdom m) - {p}. f (the (fmlookup m q)))"
    by (subst fmsum_split [where p = p and v = w], simp, unfold dom)
       (auto intro!: arg_cong2 [where f = plus] sum.cong split: if_splits)
  with fmsum_split [OF assms, of f] show ?thesis by (simp add: ac_simps)
qed

lemma fmsum_upd_same: "fmlookup m p = Some v \<Longrightarrow> f w = f v \<Longrightarrow> fmsum (fmupd p w m) f = fmsum m f"
  for f :: "'b \<Rightarrow> 'c::cancel_comm_monoid_add"
  using fmsum_upd [of m p v w f] by simp

lemma fmsum_drop:
  assumes "fmlookup m p = Some v"
  shows "fmsum (fmdrop p m) f + f v = fmsum m f"
proof -
  have dom: "fset (fmdom (fmdrop p m)) = fset (fmdom m) - {p}"
    by auto
  have "fmsum (fmdrop p m) f = (\<Sum>q\<in>fset (fmdom m) - {p}. f (the (fmlookup m q)))"
    unfolding fmsum_def dom by (auto intro!: sum.cong)
  with fmsum_split [OF assms, of f] show ?thesis by (simp add: ac_simps)
qed

section \<open>Words\<close>

lemma unat_plus_one_le: "unat (x + 1 :: 'a::len word) \<le> unat x + 1"
  by (simp add: unat_word_ariths)

end
