(* ===== verification/Sticky_Counter.thy ===== *)
theory Sticky_Counter
  imports Prelude
begin

text \<open>
  \<^verbatim>\<open>StickyCounter\<close> of \<^verbatim>\<open>include/cdrc/internal/utils.h\<close>, the reference counter of every
  managed object.

  The operations are given twice. \<open>sc_increment\<close>, \<open>sc_decrement\<close>, \<open>sc_load\<close>,
  \<open>sc_reset\<close> translate whole calls, run without interference, as the composition
  of their atomic accesses. \<open>sc_step\<close> is the same code cut at its atomic accesses, so that
  any number of threads interleave inside the calls; \<open>sc_decrement_solo\<close> shows that a
  whole decrement is one of its runs. The invariant \<open>sc_inv\<close> of the interleaved machine gives the counter's
  contract: one and only one decrement reports the zero, and a reported zero is final.
  The contract for whole calls is the locale \<open>ref_counter\<close>, interpreted on the
  operations at 32 bits, the width \<^verbatim>\<open>counted_object\<close> uses.
\<close>

section \<open>The operations\<close>

definition zero_flag :: "'a::len word" where
  "zero_flag = push_bit (LENGTH('a) - 1) 1"

definition zero_pending_flag :: "'a::len word" where
  "zero_pending_flag = push_bit (LENGTH('a) - 2) 1"

definition max_value :: "'a::len word" where
  "max_value = zero_pending_flag - 1"

definition sc_init :: "'a::len word \<Rightarrow> 'a word" where
  "sc_init desired = (if desired = 0 then zero_flag else desired)"

definition sc_increment :: "'a::len word \<Rightarrow> 'a word \<Rightarrow> bool \<times> 'a word" where
  "sc_increment x arg =
     (let (val, x1) = fetch_add x arg in (val AND zero_flag = 0, x1))"

definition sc_decrement :: "'a::len word \<Rightarrow> 'a word \<Rightarrow> bool \<times> 'a word" where
  "sc_decrement x arg =
     (let (old, x1) = fetch_sub x arg in
      if old = arg then
        (let (ok, expected, x2) = compare_exchange_strong x1 0 zero_flag in
         if ok then (True, x2)
         else if expected AND zero_pending_flag \<noteq> 0 then
           (let (old2, x3) = exchange x2 zero_flag in (old2 AND zero_pending_flag \<noteq> 0, x3))
         else (False, x2))
      else (False, x1))"

definition sc_load :: "'a::len word \<Rightarrow> 'a word \<times> 'a word" where
  "sc_load x =
     (if x = 0 then
        (let (ok, val, x1) = compare_exchange_strong x 0 (zero_flag OR zero_pending_flag) in
         if ok then (0, x1)
         else (if val AND zero_flag \<noteq> 0 then 0 else val, x1))
      else (if x AND zero_flag \<noteq> 0 then 0 else x, x))"

definition sc_reset :: "'a::len word \<Rightarrow> 'a word" where
  "sc_reset desired = (if desired = 0 then zero_flag else desired)"


section \<open>Interleaved execution\<close>

text \<open>
  Where a thread can stand inside a call: \<open>DecCas\<close> after a \<^verbatim>\<open>fetch_sub\<close> that
  took the cell to zero and before the \<^verbatim>\<open>compare_exchange_strong\<close>; \<open>DecXchg\<close> before
  the \<^verbatim>\<open>exchange\<close>; \<open>LoadCas\<close> in \<^verbatim>\<open>load\<close> after a read of zero. \<open>units\<close> is the
  number of references the clients own: the code's assumption that a client
  never decrements below what it owns is the guard of the decrement. \<open>trace\<close> records what each
  finished call returned, latest first. The guard of \<open>inc\<close> keeps the low bits of the cell
  within \<^verbatim>\<open>max_value\<close>, the documented capacity.
\<close>

datatype sc_pc = Idle | DecCas | DecXchg | LoadCas
datatype sc_event = EInc tid bool | EDec tid bool | ELoad tid u32

record sc_state =
  cell :: u32
  pcs :: "tid \<Rightarrow> sc_pc"
  units :: nat
  trace :: "sc_event list"

definition sc_start :: "u32 \<Rightarrow> sc_state" where
  "sc_start desired = \<lparr>cell = sc_init desired, pcs = (\<lambda>_. Idle), units = unat desired, trace = []\<rparr>"

inductive sc_step :: "sc_state \<Rightarrow> sc_state \<Rightarrow> bool" where
  inc: "pcs s t = Idle \<Longrightarrow>
     unat (cell s AND max_value) + unat arg \<le> unat (max_value :: u32) \<Longrightarrow>
     fetch_add (cell s) arg = (val, x) \<Longrightarrow> ok = (val AND zero_flag = 0) \<Longrightarrow>
     sc_step s (s\<lparr>cell := x, units := (if ok then units s + unat arg else units s),
                  trace := EInc t ok # trace s\<rparr>)"
| dec_more: "pcs s t = Idle \<Longrightarrow> 0 < arg \<Longrightarrow> unat arg \<le> units s \<Longrightarrow>
     fetch_sub (cell s) arg = (old, x) \<Longrightarrow> old \<noteq> arg \<Longrightarrow>
     sc_step s (s\<lparr>cell := x, units := units s - unat arg, trace := EDec t False # trace s\<rparr>)"
| dec_zero: "pcs s t = Idle \<Longrightarrow> 0 < arg \<Longrightarrow> unat arg \<le> units s \<Longrightarrow>
     fetch_sub (cell s) arg = (old, x) \<Longrightarrow> old = arg \<Longrightarrow>
     sc_step s (s\<lparr>cell := x, units := units s - unat arg, pcs := (pcs s)(t := DecCas)\<rparr>)"
| dec_cas_won: "pcs s t = DecCas \<Longrightarrow>
     compare_exchange_strong (cell s) 0 zero_flag = (True, expected, x) \<Longrightarrow>
     sc_step s (s\<lparr>cell := x, pcs := (pcs s)(t := Idle), trace := EDec t True # trace s\<rparr>)"
| dec_cas_pending: "pcs s t = DecCas \<Longrightarrow>
     compare_exchange_strong (cell s) 0 zero_flag = (False, expected, x) \<Longrightarrow>
     expected AND zero_pending_flag \<noteq> 0 \<Longrightarrow>
     sc_step s (s\<lparr>cell := x, pcs := (pcs s)(t := DecXchg)\<rparr>)"
| dec_cas_lost: "pcs s t = DecCas \<Longrightarrow>
     compare_exchange_strong (cell s) 0 zero_flag = (False, expected, x) \<Longrightarrow>
     expected AND zero_pending_flag = 0 \<Longrightarrow>
     sc_step s (s\<lparr>cell := x, pcs := (pcs s)(t := Idle), trace := EDec t False # trace s\<rparr>)"
| dec_xchg: "pcs s t = DecXchg \<Longrightarrow> exchange (cell s) zero_flag = (old, x) \<Longrightarrow>
     won = (old AND zero_pending_flag \<noteq> 0) \<Longrightarrow>
     sc_step s (s\<lparr>cell := x, pcs := (pcs s)(t := Idle), trace := EDec t won # trace s\<rparr>)"
| load_read: "pcs s t = Idle \<Longrightarrow> cell s \<noteq> 0 \<Longrightarrow>
     v = (if cell s AND zero_flag \<noteq> 0 then 0 else cell s) \<Longrightarrow>
     sc_step s (s\<lparr>trace := ELoad t v # trace s\<rparr>)"
| load_zero: "pcs s t = Idle \<Longrightarrow> cell s = 0 \<Longrightarrow>
     sc_step s (s\<lparr>pcs := (pcs s)(t := LoadCas)\<rparr>)"
| load_cas: "pcs s t = LoadCas \<Longrightarrow>
     compare_exchange_strong (cell s) 0 (zero_flag OR zero_pending_flag) = (ok, val, x) \<Longrightarrow>
     v = (if ok then 0 else if val AND zero_flag \<noteq> 0 then 0 else val) \<Longrightarrow>
     sc_step s (s\<lparr>cell := x, pcs := (pcs s)(t := Idle), trace := ELoad t v # trace s\<rparr>)"

inductive sc_reach :: "u32 \<Rightarrow> sc_state \<Rightarrow> bool" for desired where
  start: "sc_reach desired (sc_start desired)"
| step: "sc_reach desired s \<Longrightarrow> sc_step s s' \<Longrightarrow> sc_reach desired s'"



section \<open>What a trace says\<close>

fun reports_zero :: "sc_event \<Rightarrow> bool" where
  "reports_zero (EInc t ok) = (\<not> ok)"
| "reports_zero (EDec t won) = won"
| "reports_zero (ELoad t v) = (v = 0)"

fun reports_alive :: "sc_event \<Rightarrow> bool" where
  "reports_alive (EInc t ok) = ok"
| "reports_alive (EDec t won) = False"
| "reports_alive (ELoad t v) = (v \<noteq> 0)"

fun is_win :: "sc_event \<Rightarrow> bool" where
  "is_win (EDec t won) = won"
| "is_win _ = False"

definition wins :: "sc_event list \<Rightarrow> nat" where
  "wins es = length (filter is_win es)"

fun sticky_trace :: "sc_event list \<Rightarrow> bool" where
  "sticky_trace [] = True"
| "sticky_trace (e # es) =
     (sticky_trace es \<and> ((\<exists>z\<in>set es. reports_zero z) \<longrightarrow> \<not> reports_alive e))"


section \<open>The invariant\<close>

text \<open>The two top bits of the cell: 0 while counting, 2 when the zero is final, 3 when a
  reader has made the zero final and a decrement has still to claim it.\<close>

definition top2 :: "u32 \<Rightarrow> nat" where "top2 x = unat x div 2 ^ 30"
definition counting :: "u32 \<Rightarrow> bool" where "counting x \<longleftrightarrow> top2 x = 0"
definition dead :: "u32 \<Rightarrow> bool" where "dead x \<longleftrightarrow> top2 x = 2"
definition pending :: "u32 \<Rightarrow> bool" where "pending x \<longleftrightarrow> top2 x = 3"

definition sc_counting :: "sc_state \<Rightarrow> bool" where
  "sc_counting s \<longleftrightarrow> counting (cell s) \<and> units s = unat (cell s) \<and> wins (trace s) = 0 \<and>
     (\<forall>e\<in>set (trace s). \<not> reports_zero e) \<and>
     (cell s = 0 \<longrightarrow> (\<exists>t. pcs s t = DecCas)) \<and> (\<forall>t. pcs s t \<noteq> DecXchg)"

definition sc_pending :: "sc_state \<Rightarrow> bool" where
  "sc_pending s \<longleftrightarrow> pending (cell s) \<and> units s = 0 \<and> wins (trace s) = 0 \<and>
     (\<exists>t. pcs s t = DecCas \<or> pcs s t = DecXchg)"

definition sc_dead :: "sc_state \<Rightarrow> bool" where
  "sc_dead s \<longleftrightarrow> dead (cell s) \<and> units s = 0 \<and> wins (trace s) = 1"

definition sc_inv :: "sc_state \<Rightarrow> bool" where
  "sc_inv s \<longleftrightarrow> sticky_trace (trace s) \<and> (sc_counting s \<or> sc_pending s \<or> sc_dead s)"

definition sc_rep :: "u32 \<Rightarrow> nat \<Rightarrow> bool" where
  "sc_rep x n \<longleftrightarrow> (if n = 0 then dead x else counting x \<and> unat x = n)"

definition sc_room :: "u32 \<Rightarrow> bool" where
  "sc_room x \<longleftrightarrow> unat (x AND max_value) + 1 \<le> unat (max_value :: u32)"

lemma sc_room_code [code]: "sc_room x \<longleftrightarrow> x AND max_value < max_value"
  by (simp add: sc_room_def word_less_nat_alt Suc_le_eq)


section \<open>Flags and phases\<close>

lemma wins_simps [simp]: "wins [] = 0" "wins (e # es) = (if is_win e then Suc (wins es) else wins es)"
  by (simp_all add: wins_def)

lemma bit_word_odd: "bit (x :: 'a::len word) n \<longleftrightarrow> odd (unat x div 2 ^ n)"
proof -
  have "bit x n \<longleftrightarrow> bit (unat x) n" by (simp add: bit_unsigned_iff)
  then show ?thesis by (simp only: bit_iff_odd)
qed

lemma and_zero_flag: "(x :: u32) AND zero_flag = 0 \<longleftrightarrow> even (unat x div 2 ^ 31)"
proof -
  have "(zero_flag :: u32) = 2 ^ 31" by (simp add: zero_flag_def)
  then have "x AND zero_flag = 0 \<longleftrightarrow> \<not> bit x 31"
    using and_exp_eq_0_iff_not_bit [of x 31] by metis
  then show ?thesis by (simp only: bit_word_odd not_not)
qed

lemma and_pending_flag: "(x :: u32) AND zero_pending_flag = 0 \<longleftrightarrow> even (unat x div 2 ^ 30)"
proof -
  have "(zero_pending_flag :: u32) = 2 ^ 30" by (simp add: zero_pending_flag_def)
  then have "x AND zero_pending_flag = 0 \<longleftrightarrow> \<not> bit x 30"
    using and_exp_eq_0_iff_not_bit [of x 30] by metis
  then show ?thesis by (simp only: bit_word_odd not_not)
qed

lemma unat_flags: "unat (zero_flag :: u32) = 2 ^ 31" "unat (zero_pending_flag :: u32) = 2 ^ 30"
  "unat (max_value :: u32) = 2 ^ 30 - 1"
  by (simp_all add: zero_flag_def zero_pending_flag_def max_value_def)

lemma and_zero_flag': "(x :: u32) AND zero_flag = 0 \<longleftrightarrow> even (top2 x div 2)"
proof -
  have "unat x div 2 ^ 31 = top2 x div 2"
    unfolding top2_def by (simp add: div_mult2_eq [symmetric])
  then show ?thesis by (simp only: and_zero_flag)
qed

lemma and_pending_flag': "(x :: u32) AND zero_pending_flag = 0 \<longleftrightarrow> even (top2 x)"
  by (simp only: and_pending_flag top2_def)

lemma top2_0: "top2 0 = 0" by (simp add: top2_def)

lemma countingD: "counting x \<Longrightarrow> x AND zero_flag = 0 \<and> x AND zero_pending_flag = 0 \<and> \<not> dead x \<and> \<not> pending x"
  by (simp add: counting_def dead_def pending_def and_zero_flag' and_pending_flag')

lemma deadD: "dead x \<Longrightarrow> x AND zero_flag \<noteq> 0 \<and> x AND zero_pending_flag = 0 \<and> x \<noteq> 0"
  by (auto simp: dead_def and_zero_flag' and_pending_flag' top2_0)

lemma pendingD: "pending x \<Longrightarrow> x AND zero_flag \<noteq> 0 \<and> x AND zero_pending_flag \<noteq> 0 \<and> x \<noteq> 0"
  by (auto simp: pending_def and_zero_flag' and_pending_flag' top2_0)

lemma and_max_value: "unat ((x :: u32) AND max_value) = unat x mod 2 ^ 30"
proof -
  have "(max_value :: u32) = mask 30" by (simp add: max_value_def zero_pending_flag_def mask_eq_exp_minus_1)
  then have "unat (x AND max_value) = unat (take_bit 30 x)" by (simp only: take_bit_eq_mask)
  also have "\<dots> = take_bit 30 (unat x)" by (simp add: unsigned_take_bit_eq)
  finally show ?thesis by (simp only: take_bit_eq_mod)
qed


lemma div_add_mod_less: "(a::nat) mod m + b < m \<Longrightarrow> (a + b) div m = a div m"
proof -
  assume a: "a mod m + b < m"
  have "a + b = (a mod m + b) + (a div m) * m" by simp
  then have "(a + b) div m = (a mod m + b) div m + a div m"
    using a by (metis div_mult_self1 add.commute less_nat_zero_code)
  with a show ?thesis by simp
qed

lemma unat_u32_less: "unat (x :: u32) < 2 ^ 32"
  using unsigned_less [of x] by simp

lemma add_phase:
  assumes "unat (x AND max_value) + unat arg \<le> unat (max_value :: u32)"
  shows "unat (x + arg) = unat x + unat arg" and "top2 (x + arg) = top2 x"
proof -
  have m: "unat x mod 2 ^ 30 + unat arg < 2 ^ 30"
    using assms by (simp add: and_max_value unat_flags)
  then have d: "(unat x + unat arg) div 2 ^ 30 = unat x div 2 ^ 30"
    by (rule div_add_mod_less)
  also have "\<dots> < 4" using unat_u32_less [of x] by (simp add: less_mult_imp_div_less)
  finally have "unat x + unat arg < 2 ^ 32" by simp
  then show u: "unat (x + arg) = unat x + unat arg"
    by (simp add: unat_word_ariths)
  show "top2 (x + arg) = top2 x" using d u by (simp add: top2_def)
qed

lemma phase_flags: "dead zero_flag" "pending (zero_flag OR zero_pending_flag)" "counting 0"
proof -
  show "dead zero_flag" "counting 0" by (simp_all add: dead_def counting_def top2_def unat_flags)
  have "(zero_flag OR zero_pending_flag :: u32) = 3221225472"
    by (simp add: zero_flag_def zero_pending_flag_def)
  then show "pending (zero_flag OR zero_pending_flag)"
    by (simp add: pending_def top2_def)
qed

lemma phase_disj: 
  "counting x \<Longrightarrow> \<not> dead x" "counting x \<Longrightarrow> \<not> pending x" "dead x \<Longrightarrow> \<not> pending x" "dead x \<Longrightarrow> \<not> counting x"
  "pending x \<Longrightarrow> \<not> counting x" "pending x \<Longrightarrow> \<not> dead x"
  by (auto simp: dead_def counting_def pending_def)


lemma phase_simps [simp]:
  "counting x \<Longrightarrow> x AND zero_flag = 0" "counting x \<Longrightarrow> x AND zero_pending_flag = 0"
  "dead x \<Longrightarrow> x AND zero_flag \<noteq> 0" "dead x \<Longrightarrow> x AND zero_pending_flag = 0" "dead x \<Longrightarrow> x \<noteq> 0"
  "pending x \<Longrightarrow> x AND zero_flag \<noteq> 0" "pending x \<Longrightarrow> x AND zero_pending_flag \<noteq> 0" "pending x \<Longrightarrow> x \<noteq> 0"
  using countingD deadD pendingD by blast+

lemma phase_0 [simp]: "counting 0" "\<not> dead 0" "\<not> pending 0"
  by (simp_all add: counting_def dead_def pending_def top2_0)

lemma sc_inv_start: "0 < desired \<Longrightarrow> desired \<le> max_value \<Longrightarrow> sc_inv (sc_start desired)"
  by (auto simp: sc_inv_def sc_counting_def sc_start_def sc_init_def counting_def top2_def word_le_nat_alt unat_flags)

lemma sub_counting:
  assumes "counting x" "unat arg \<le> unat x"
  shows "unat (x - arg) = unat x - unat arg" "counting (x - arg)"
proof -
  show u: "unat (x - arg) = unat x - unat arg" using assms(2) by (simp add: unat_sub word_le_nat_alt)
  show "counting (x - arg)" using assms(1) u by (simp add: counting_def top2_def)
qed

lemma sc_invE:
  assumes "sc_inv s"
  obtains "sticky_trace (trace s)" "sc_counting s" | "sticky_trace (trace s)" "sc_pending s"
  | "sticky_trace (trace s)" "sc_dead s"
  using assms by (auto simp: sc_inv_def)

lemmas sc_phase_defs = sc_counting_def sc_pending_def sc_dead_def

lemma sc_counting_claimant:
  "sc_counting s \<Longrightarrow> cell s = 0 \<Longrightarrow> pcs s t \<noteq> DecCas \<Longrightarrow> \<exists>u. u \<noteq> t \<and> pcs s u = DecCas"
  by (auto simp: sc_counting_def)

lemma sc_pending_claimant:
  "sc_pending s \<Longrightarrow> pcs s t = LoadCas \<Longrightarrow> \<exists>u. u \<noteq> t \<and> (pcs s u = DecCas \<or> pcs s u = DecXchg)"
  unfolding sc_pending_def by (metis sc_pc.distinct)

lemma inc_inv:
  assumes "sc_inv s" "unat (cell s AND max_value) + unat arg \<le> unat (max_value :: u32)"
    "ok = (cell s AND zero_flag = 0)"
  shows "sc_inv (s\<lparr>cell := cell s + arg, units := (if ok then units s + unat arg else units s),
                  trace := EInc t ok # trace s\<rparr>)"
  using assms(1)
proof (cases rule: sc_invE)
  case 1
  have "counting (cell s + arg)" using 1 add_phase(2) [OF assms(2)] by (simp add: sc_counting_def counting_def)
  moreover have "cell s + arg = 0 \<Longrightarrow> cell s = 0" 
    using add_phase(1) [OF assms(2)] by (metis add_is_0 unat_eq_0)
  ultimately have "sc_counting (s\<lparr>cell := cell s + arg, units := units s + unat arg, trace := EInc t True # trace s\<rparr>)"
    using 1 add_phase(1) [OF assms(2)] by (auto simp: sc_counting_def)
  with 1 assms(3) show ?thesis by (auto simp: sc_inv_def sc_counting_def)
next
  case 2
  then have "sc_pending (s\<lparr>cell := cell s + arg, trace := EInc t False # trace s\<rparr>)"
    using add_phase(2) [OF assms(2)] by (auto simp: sc_pending_def pending_def)
  with 2 assms(3) show ?thesis by (simp add: sc_inv_def) (auto simp: sc_pending_def)
next
  case 3
  then have "sc_dead (s\<lparr>cell := cell s + arg, trace := EInc t False # trace s\<rparr>)"
    using add_phase(2) [OF assms(2)] by (auto simp: sc_dead_def dead_def)
  with 3 assms(3) show ?thesis by (simp add: sc_inv_def) (auto simp: sc_dead_def)
qed

lemma sub_inv:
  assumes "sc_inv s" "0 < arg" "unat arg \<le> units s"
  shows "cell s \<noteq> arg \<Longrightarrow> sc_inv (s\<lparr>cell := cell s - arg, units := units s - unat arg, trace := EDec t False # trace s\<rparr>)"
    and "cell s = arg \<Longrightarrow> sc_inv (s\<lparr>cell := cell s - arg, units := units s - unat arg, pcs := (pcs s)(t := DecCas)\<rparr>)"
proof -
  have "unat arg \<noteq> 0" using assms(2) by (simp add: unat_eq_0 word_gt_0)
  with assms(3) have "units s \<noteq> 0" by simp
  with assms(1) have c: "sc_counting s" "sticky_trace (trace s)" by (auto simp: sc_inv_def sc_pending_def sc_dead_def)
  then have u: "unat (cell s - arg) = unat (cell s) - unat arg" "counting (cell s - arg)"
    using sub_counting [of "cell s" arg] assms(3) by (simp_all add: sc_counting_def)
  show "cell s \<noteq> arg \<Longrightarrow> sc_inv (s\<lparr>cell := cell s - arg, units := units s - unat arg, trace := EDec t False # trace s\<rparr>)"
    using c u by (auto simp: sc_inv_def sc_counting_def)
  show "cell s = arg \<Longrightarrow> sc_inv (s\<lparr>cell := cell s - arg, units := units s - unat arg, pcs := (pcs s)(t := DecCas)\<rparr>)"
    using c u by (auto simp: sc_inv_def sc_counting_def)
qed

lemma sc_step_inv: "sc_step s s' \<Longrightarrow> sc_inv s \<Longrightarrow> sc_inv s'"
proof (induction rule: sc_step.induct)
  case (inc s t arg val x ok)
  then show ?case using inc_inv [of s arg ok t] by (auto simp: atomic_defs)
next
  case (dec_more s t arg old x)
  then show ?case using sub_inv(1) [of s arg t] by (auto simp: atomic_defs)
next
  case (dec_zero s t arg old x)
  then show ?case using sub_inv(2) [of s arg t] by (auto simp: atomic_defs)
next
  case (dec_cas_won s t expected x)
  then have "cell s = 0" "x = zero_flag" by (simp_all add: atomic_defs split: if_splits)
  moreover from this dec_cas_won have "sc_counting s" "sticky_trace (trace s)"
    by (auto simp: sc_inv_def sc_phase_defs)
  ultimately show ?case using phase_flags(1) by (auto simp: sc_inv_def sc_phase_defs)
next
  case (dec_cas_pending s t expected x)
  then have "x = cell s" "expected = cell s" by (auto simp: atomic_defs split: if_splits)
  with dec_cas_pending have "sc_pending s" "sticky_trace (trace s)"
    by (auto simp: sc_inv_def sc_phase_defs)
  then show ?case using \<open>x = cell s\<close> by (auto simp: sc_inv_def sc_pending_def)
next
  case (dec_cas_lost s t expected x)
  then have x: "x = cell s" "expected = cell s" "cell s \<noteq> 0" by (auto simp: atomic_defs split: if_splits)
  with dec_cas_lost have "sc_counting s \<or> sc_dead s" "sticky_trace (trace s)"
    by (auto simp: sc_inv_def sc_phase_defs)
  then show ?case using x by (auto simp: sc_inv_def sc_phase_defs)
next
  case (dec_xchg s t old x won)
  then have "x = zero_flag" "old = cell s" by (simp_all add: atomic_defs)
  moreover from dec_xchg have "sc_pending s \<or> sc_dead s" "sticky_trace (trace s)"
    by (auto simp: sc_inv_def sc_counting_def)
  ultimately show ?case using dec_xchg.hyps phase_flags(1) by (auto simp: sc_inv_def sc_phase_defs)
next
  case (load_read s t v)
  from load_read.prems show ?case
  proof (cases rule: sc_invE)
    case 1 with load_read.hyps show ?thesis by (auto simp: sc_inv_def sc_counting_def)
  next
    case 2 with load_read.hyps show ?thesis by (auto simp: sc_inv_def sc_pending_def)
  next
    case 3 with load_read.hyps show ?thesis by (auto simp: sc_inv_def sc_dead_def)
  qed
next
  case (load_zero s t)
  then have "sc_counting s" "sticky_trace (trace s)"
    by (auto simp: sc_inv_def sc_phase_defs)
  moreover from this load_zero.hyps obtain u where "u \<noteq> t" "pcs s u = DecCas"
    using sc_counting_claimant [of s t] by auto
  ultimately have "sc_counting (s\<lparr>pcs := (pcs s)(t := LoadCas)\<rparr>)"
    using load_zero.hyps by (auto simp: sc_counting_def)
  with \<open>sticky_trace (trace s)\<close> show ?case by (simp add: sc_inv_def)
next
  case (load_cas s t ok val x v)
  from load_cas.prems show ?case
  proof (cases rule: sc_invE)
    case 1
    then show ?thesis
    proof (cases "cell s = 0")
      case True
      with 1 load_cas.hyps obtain u where "u \<noteq> t" "pcs s u = DecCas"
        using sc_counting_claimant [of s t] by auto
      with True 1 load_cas.hyps show ?thesis using phase_flags(2)
        by (auto simp: sc_inv_def sc_counting_def sc_pending_def atomic_defs)
    next
      case False
      with 1 load_cas.hyps show ?thesis by (auto simp: sc_inv_def sc_counting_def atomic_defs)
    qed
  next
    case 2
    moreover from this load_cas.hyps obtain u where "u \<noteq> t" "pcs s u = DecCas \<or> pcs s u = DecXchg"
      using sc_pending_claimant [of s t] by auto
    ultimately show ?thesis using load_cas.hyps
      by (auto simp: sc_inv_def sc_pending_def atomic_defs)
  next
    case 3 with load_cas.hyps show ?thesis by (auto simp: sc_inv_def sc_dead_def atomic_defs)
  qed
qed

lemma sc_reach_inv: "sc_reach d s \<Longrightarrow> 0 < d \<Longrightarrow> d \<le> max_value \<Longrightarrow> sc_inv s"
  by (induction rule: sc_reach.induct) (auto intro: sc_inv_start sc_step_inv)


section \<open>The contract for whole calls\<close>

text \<open>A counter that represents a number of references; zero is sticky.\<close>

locale ref_counter =
  fixes init :: "'c \<Rightarrow> 'c" and increment :: "'c \<Rightarrow> 'c \<Rightarrow> bool \<times> 'c"
    and decrement :: "'c \<Rightarrow> 'c \<Rightarrow> bool \<times> 'c" and load :: "'c \<Rightarrow> 'c \<times> 'c"
    and one :: 'c and num :: "nat \<Rightarrow> 'c" and limit :: nat
    and rep :: "'c \<Rightarrow> nat \<Rightarrow> bool" and room :: "'c \<Rightarrow> bool"
  assumes rep_init: "0 < n \<Longrightarrow> n \<le> limit \<Longrightarrow> rep (init (num n)) n"
    and rep_load: "rep x n \<Longrightarrow> load x = (num n, x)"
    and rep_increment: "rep x n \<Longrightarrow> room x \<Longrightarrow>
      \<exists>x'. increment x one = (0 < n, x') \<and> rep x' (if 0 < n then Suc n else 0)"
    and rep_decrement: "rep x n \<Longrightarrow> 0 < n \<Longrightarrow>
      \<exists>x'. decrement x one = (n = 1, x') \<and> rep x' (n - 1)"
    and rep_room: "rep x n \<Longrightarrow> 0 < n \<Longrightarrow> n < limit \<Longrightarrow> room x"
    and num_inj: "m \<le> limit \<Longrightarrow> n \<le> limit \<Longrightarrow> num m = num n \<longleftrightarrow> m = n"
    and rep_limit: "rep x n \<Longrightarrow> n \<le> limit"
begin

lemma rep_unique: "rep x m \<Longrightarrow> rep x n \<Longrightarrow> m = n"
  using rep_load [of x m] rep_load [of x n] num_inj rep_limit by auto

lemma load_zero_iff: "rep x n \<Longrightarrow> fst (load x) = num 0 \<longleftrightarrow> n = 0"
  using rep_load [of x n] num_inj [of n 0] rep_limit [of x n] by simp

lemma stuck: "rep x 0 \<Longrightarrow> room x \<Longrightarrow> \<exists>x'. increment x one = (False, x') \<and> rep x' 0"
  using rep_increment [of x 0] by simp

lemma grow_shrink:
  assumes "rep x n" "0 < n" "n < limit"
  shows "\<exists>x' x''. increment x one = (True, x') \<and> decrement x' one = (False, x'') \<and> rep x'' n"
  using rep_increment [OF assms(1) rep_room [OF assms]] assms(2)
    rep_decrement [where n = "Suc n"] by fastforce

end

interpretation sc: ref_counter sc_init sc_increment sc_decrement sc_load 1 of_nat "2 ^ 30 - 1" sc_rep sc_room
proof
  fix n :: nat assume "0 < n" "n \<le> 2 ^ 30 - 1"
  then show "sc_rep (sc_init (of_nat n)) n"
    by (auto simp: sc_rep_def sc_init_def counting_def top2_def unat_of_nat unat_eq_0 word_unat_eq_iff)
next
  fix x n assume "sc_rep x n"
  then show "sc_load x = (of_nat n, x)"
    by (auto simp: sc_rep_def sc_load_def split: if_splits)
next
  fix x n assume r: "sc_rep x n" "sc_room x"
  then have "unat (x + 1) = unat x + 1" "top2 (x + 1) = top2 x"
    using add_phase [of x 1] by (simp_all add: sc_room_def)
  then show "\<exists>x'. sc_increment x 1 = (0 < n, x') \<and> sc_rep x' (if 0 < n then Suc n else 0)"
    using r(1) by (auto simp: sc_rep_def sc_increment_def atomic_defs counting_def dead_def dest: split: if_splits)
next
  fix x n assume r: "sc_rep x n" "0 < n"
  then have c: "counting x" "unat x = n" by (auto simp: sc_rep_def)
  have "x = 1 \<longleftrightarrow> n = 1" using c(2) by (auto simp: word_unat_eq_iff)
  then have "sc_decrement x 1 = (n = 1, if n = 1 then zero_flag else x - 1)"
    by (simp add: sc_decrement_def atomic_defs)
  moreover have "sc_rep (if n = 1 then zero_flag else x - 1) (n - 1)"
    using sub_counting [of x 1] phase_flags(1) c r(2) by (auto simp: sc_rep_def)
  ultimately show "\<exists>x'. sc_decrement x 1 = (n = 1, x') \<and> sc_rep x' (n - 1)" by blast
next
  fix x n assume "sc_rep x n" "0 < n" "n < 2 ^ 30 - 1"
  then show "sc_room x" by (simp add: sc_rep_def sc_room_def and_max_value unat_flags)
next
  fix m n :: nat assume "m \<le> 2 ^ 30 - 1" "n \<le> 2 ^ 30 - 1"
  then show "(of_nat m = (of_nat n :: u32)) = (m = n)" by (simp add: word_of_nat_eq_iff take_bit_nat_eq_self)
next
  fix x n assume "sc_rep x n" then show "n \<le> 2 ^ 30 - 1"
    by (auto simp: sc_rep_def counting_def top2_def split: if_splits)
qed

text \<open>Reading and releasing leave the room there was.\<close>

lemma sc_room_flags: "sc_room zero_flag" "sc_room (zero_flag OR zero_pending_flag)"
proof -
  have "(zero_flag OR zero_pending_flag :: u32) = 3221225472"
    by (simp add: zero_flag_def zero_pending_flag_def)
  then show "sc_room zero_flag" "sc_room (zero_flag OR zero_pending_flag)"
    by (simp_all add: sc_room_def and_max_value unat_flags)
qed

lemma sc_load_room: "sc_room x \<Longrightarrow> sc_room (snd (sc_load x))"
  by (auto simp: sc_load_def atomic_defs sc_room_flags Let_def split: if_splits)

lemma sc_decrement_room:
  assumes "sc_rep x n" "0 < n"
  shows "sc_room (snd (sc_decrement x 1))"
proof -
  obtain x' where x': "sc_decrement x 1 = (n = 1, x')" "sc_rep x' (n - 1)" using sc.rep_decrement [OF assms] by blast
  show ?thesis
  proof (cases "n = 1")
    case True
    with assms have "x = 1" by (auto simp: sc_rep_def word_unat_eq_iff)
    then show ?thesis by (simp add: sc_decrement_def atomic_defs sc_room_flags)
  next
    case False
    with x' assms sc.rep_room [of x' "n - 1"] sc.rep_limit [OF assms(1)] show ?thesis by simp
  qed
qed

section \<open>Properties\<close>

text \<open>
  (C8) Under every interleaving of increments, decrements and loads, at most one decrement
  returns true; a call that reported zero (a decrement that returned true, a failed
  increment, a load of 0) means that no reference is left; and once
  a call has reported zero no later increment succeeds and no later load is non-zero.
\<close>

theorem sticky_counter_safe:
  assumes "sc_reach d s" and "0 < d" and "d \<le> max_value"
  shows "wins (trace s) \<le> 1 \<and> sticky_trace (trace s) \<and>
    ((\<exists>e\<in>set (trace s). reports_zero e) \<longrightarrow> units s = 0)"
  using sc_reach_inv [OF assms] by (auto elim!: sc_invE simp: sc_phase_defs)

text \<open>
  A run with all the hard cases: thread 0 decrements the last reference, thread 1 loads
  and finds the cell zero before thread 0 could mark it, thread 1 marks it, thread 0 claims it, and
  a late increment of thread 1 fails.
\<close>

definition sc_demo :: sc_state where
  "sc_demo = \<lparr>cell = zero_flag + 1, pcs = (\<lambda>_. Idle), units = 0,
     trace = [EInc 1 False, EDec 0 True, ELoad 1 0]\<rparr>"

lemma sc_demo_reach: "sc_reach 1 sc_demo"
proof -
  let ?s0 = "sc_start 1"
  let ?s1 = "?s0\<lparr>cell := 0, units := 0, pcs := (pcs ?s0)(0 := DecCas)\<rparr>"
  let ?s2 = "?s1\<lparr>pcs := (pcs ?s1)(1 := LoadCas)\<rparr>"
  let ?s3 = "?s2\<lparr>cell := zero_flag OR zero_pending_flag, pcs := (pcs ?s2)(1 := Idle), trace := [ELoad 1 0]\<rparr>"
  let ?s4 = "?s3\<lparr>cell := zero_flag OR zero_pending_flag, pcs := (pcs ?s3)(0 := DecXchg)\<rparr>"
  let ?s5 = "?s4\<lparr>cell := zero_flag, pcs := (pcs ?s4)(0 := Idle), trace := [EDec 0 True, ELoad 1 0]\<rparr>"
  note flags = zero_flag_def zero_pending_flag_def max_value_def sc_start_def sc_init_def
  have st1: "sc_step ?s0 ?s1"
    using sc_step.dec_zero [of ?s0 0 1 1 0] by (simp add: flags atomic_defs)
  have st2: "sc_step ?s1 ?s2"
    by (rule sc_step.load_zero) (simp_all add: flags)
  have st3: "sc_step ?s2 ?s3"
    using sc_step.load_cas [of ?s2 1 True 0 "zero_flag OR zero_pending_flag" 0]
    by (simp add: flags atomic_defs)
  have st4: "sc_step ?s3 ?s4"
    by (rule sc_step.dec_cas_pending [where expected = "zero_flag OR zero_pending_flag"])
       (simp_all add: flags atomic_defs)
  have st5: "sc_step ?s4 ?s5"
    using sc_step.dec_xchg [of ?s4 0 "zero_flag OR zero_pending_flag" zero_flag True]
    by (simp add: flags atomic_defs)
  have st6: "sc_step ?s5 (?s5\<lparr>cell := zero_flag + 1, units := 0,
      trace := [EInc 1 False, EDec 0 True, ELoad 1 0]\<rparr>)"
    using sc_step.inc [of ?s5 1 1 zero_flag "zero_flag + 1" False]
    by (simp add: flags atomic_defs)
  have "sc_reach 1 (?s5\<lparr>cell := zero_flag + 1, units := 0,
      trace := [EInc 1 False, EDec 0 True, ELoad 1 0]\<rparr>)"
    by (rule sc_reach.start [THEN sc_reach.step, OF st1, THEN sc_reach.step, OF st2,
        THEN sc_reach.step, OF st3, THEN sc_reach.step, OF st4, THEN sc_reach.step, OF st5,
        THEN sc_reach.step, OF st6])
  then show ?thesis by (simp add: sc_demo_def sc_start_def fun_eq_iff fun_upd_def cong: if_cong)
qed

theorem sticky_counter_safe_witness:
  "sc_reach 1 sc_demo \<and> wins (trace sc_demo) \<le> 1 \<and> sticky_trace (trace sc_demo) \<and> units sc_demo = 0 \<and>
   reports_zero (EDec 0 True)"
  using sticky_counter_safe [OF sc_demo_reach] sc_demo_reach
  by (simp add: sc_demo_def max_value_def zero_pending_flag_def)

text \<open>
  (C22) When no call is in flight, exactly one decrement has returned true if no reference is
  left and none otherwise, and \<^verbatim>\<open>load\<close> returns the number of references.
\<close>

theorem sticky_counter_quiescent:
  assumes "sc_reach d s" and "0 < d" and "d \<le> max_value" and "\<And>t. pcs s t = Idle"
  shows "wins (trace s) = (if units s = 0 then 1 else 0) \<and>
    sc_load (cell s) = (of_nat (units s), cell s)"
  using sc_reach_inv [OF assms(1-3)] assms(4)
  by (auto elim!: sc_invE simp: sc_phase_defs sc_load_def unat_gt_0 unat_eq_0)

theorem sticky_counter_quiescent_witness:
  "sc_reach 1 sc_demo \<and> wins (trace sc_demo) = 1 \<and> sc_load (cell sc_demo) = (0, cell sc_demo)"
  using sticky_counter_quiescent [OF sc_demo_reach] sc_demo_reach
  by (simp add: sc_demo_def max_value_def zero_pending_flag_def)

lemma sc_decrement_solo:
  assumes "pcs s t = Idle" "0 < arg" "unat arg \<le> units s" "sc_decrement (cell s) arg = (won, x)"
  shows "sc_step\<^sup>*\<^sup>* s (s\<lparr>cell := x, units := units s - unat arg, trace := EDec t won # trace s\<rparr>)"
proof (cases "cell s = arg")
  case False
  then show ?thesis using assms sc_step.dec_more [of s t arg "cell s" "cell s - arg"]
    by (auto simp: sc_decrement_def atomic_defs)
next
  case True
  let ?s1 = "s\<lparr>cell := 0, units := units s - unat arg, pcs := (pcs s)(t := DecCas)\<rparr>"
  have "sc_step s ?s1"
    using sc_step.dec_zero [of s t arg "cell s" 0] assms True by (simp add: atomic_defs)
  moreover have "sc_step ?s1 (?s1\<lparr>cell := zero_flag, pcs := (pcs ?s1)(t := Idle), trace := EDec t True # trace ?s1\<rparr>)"
    by (rule sc_step.dec_cas_won [where expected = 0]) (simp_all add: atomic_defs)
  moreover have "?s1\<lparr>cell := zero_flag, pcs := (pcs ?s1)(t := Idle), trace := EDec t True # trace ?s1\<rparr>
      = s\<lparr>cell := zero_flag, units := units s - unat arg, trace := EDec t True # trace s\<rparr>"
    using assms(1) by (cases s) (auto simp: fun_eq_iff)
  moreover have "won" "x = zero_flag" using assms(4) True by (auto simp: sc_decrement_def atomic_defs)
  ultimately show ?thesis by (auto intro: converse_rtranclp_into_rtranclp)
qed

text \<open>
  (C23) Between operations the counter is a natural number with a sticky zero. While it represents \<open>n\<close>: \<^verbatim>\<open>increment\<close> succeeds
  exactly if \<open>n\<close> is not zero and adds its argument then, and leaves a zero a zero; \<^verbatim>\<open>decrement\<close> by at most \<open>n\<close> subtracts its
  argument and reports exactly the step to zero; \<^verbatim>\<open>load\<close> returns \<open>n\<close> and changes nothing; \<^verbatim>\<open>reset\<close> sets the number. (Increments
  within the documented capacity.)
\<close>

theorem sticky_counter_refines_nat:
  assumes "sc_rep x n"
  shows "(unat (x AND max_value) + unat arg \<le> unat (max_value :: u32) \<longrightarrow>
      fst (sc_increment x arg) = (n \<noteq> 0) \<and> sc_rep (snd (sc_increment x arg)) (if n = 0 then 0 else n + unat arg)) \<and>
    (0 < arg \<and> unat arg \<le> n \<longrightarrow>
      fst (sc_decrement x arg) = (n = unat arg) \<and> sc_rep (snd (sc_decrement x arg)) (n - unat arg)) \<and>
    sc_load x = (of_nat n, x) \<and> (desired \<le> max_value \<longrightarrow> sc_rep (sc_reset desired) (unat desired))"
proof (intro conjI impI)
  assume room: "unat (x AND max_value) + unat arg \<le> unat (max_value :: u32)"
  note ph = add_phase [OF room]
  show "fst (sc_increment x arg) = (n \<noteq> 0)" "sc_rep (snd (sc_increment x arg)) (if n = 0 then 0 else n + unat arg)"
    using assms ph by (auto simp: sc_rep_def sc_increment_def atomic_defs dead_def counting_def split: if_splits)
next
  assume arg: "0 < arg \<and> unat arg \<le> n"
  then have x: "counting x" "unat x = n" "n \<noteq> 0" "0 < unat arg" using assms by (auto simp: sc_rep_def word_less_nat_alt split: if_splits)
  note sub = sub_counting [OF x(1), of arg]
  have eq: "x = arg \<longleftrightarrow> n = unat arg" using x(2) by (auto simp: word_unat_eq_iff)
  show "fst (sc_decrement x arg) = (n = unat arg)" "sc_rep (snd (sc_decrement x arg)) (n - unat arg)"
    using arg x sub eq by (auto simp: sc_rep_def sc_decrement_def atomic_defs phase_flags)
next
  show "sc_load x = (of_nat n, x)" by (rule sc.rep_load [OF assms])
next
  assume "desired \<le> max_value"
  then show "sc_rep (sc_reset desired) (unat desired)"
    by (auto simp: sc_rep_def sc_reset_def phase_flags counting_def top2_def word_le_nat_alt unat_flags unat_eq_0)
qed

theorem sticky_counter_refines_nat_witness:
  "sc_rep 3 3 \<and> sc_decrement (3 :: u32) 3 = (True, zero_flag) \<and> sc_rep zero_flag 0 \<and>
   \<not> fst (sc_increment (zero_flag :: u32) 2) \<and> sc_load (zero_flag :: u32) = (0, zero_flag)"
proof -
  have 3: "sc_rep 3 3" by (simp add: sc_rep_def counting_def top2_def)
  have d: "sc_decrement (3 :: u32) 3 = (True, zero_flag)" by (simp add: sc_decrement_def atomic_defs)
  from sticky_counter_refines_nat [OF 3, of 3 0] d have 0: "sc_rep zero_flag 0" by simp
  have "unat (zero_flag AND max_value :: u32) + unat (2 :: u32) \<le> unat (max_value :: u32)"
    by (simp add: and_max_value unat_flags)
  with sticky_counter_refines_nat [OF 0, of 2 0] 3 d 0 show ?thesis by simp
qed

end
