(* ===== verification/Marked_Ptr.thy ===== *)
theory Marked_Ptr
  imports Prelude
begin

text \<open>
  \<^verbatim>\<open>include/cdrc/marked_arc_ptr.h\<close>: pointers that carry a two-bit mark in their lowest bits, and the
  operations that \<^verbatim>\<open>marked_ptr_policy\<close> adds to the atomic pointer types.

  A marked pointer is the 64-bit \<^verbatim>\<open>uintptr_t\<close> of the class. The policy's
  update loops run against other threads: an attempt of \<^verbatim>\<open>compare_exchange_weak\<close> finds
  the cell at some value and may fail spuriously, and the loop is a function of the
  list of these encounters, \<open>None\<close> when the list ends before an attempt succeeds.
\<close>

section \<open>class marked_ptr\<close>

definition ONE_BIT :: ptr where "ONE_BIT = 1"

definition TWO_BIT :: ptr where "TWO_BIT = push_bit 1 1"

definition get_ptr :: "ptr \<Rightarrow> ptr" where
  "get_ptr p = p AND NOT (ONE_BIT OR TWO_BIT)"

definition get_mark :: "ptr \<Rightarrow> ptr" where
  "get_mark p = p AND (ONE_BIT OR TWO_BIT)"

definition set_ptr :: "ptr \<Rightarrow> ptr \<Rightarrow> ptr" where
  "set_ptr p new_ptr = new_ptr OR get_mark p"

definition clear_mark :: "ptr \<Rightarrow> ptr" where
  "clear_mark p = p AND NOT (ONE_BIT OR TWO_BIT)"

definition set_mark :: "ptr \<Rightarrow> ptr \<Rightarrow> error + ptr" where
  "set_mark p mark =
     (if \<not> mark < push_bit 2 1 then Inl (AssertionFailed ''mark < (1 << 2)'')
      else Inr (clear_mark p OR mark))"

definition set_mark_bit :: "ptr \<Rightarrow> int \<Rightarrow> error + ptr" where
  "set_mark_bit p b =
     (if \<not> (b = 1 \<or> b = 2) then Inl (AssertionFailed ''bit == 1 || bit == 2'')
      else Inr (p OR push_bit (nat (b - 1)) 1))"

definition get_mark_bit :: "ptr \<Rightarrow> int \<Rightarrow> error + bool" where
  "get_mark_bit p b =
     (if \<not> (b = 1 \<or> b = 2) then Inl (AssertionFailed ''bit == 1 || bit == 2'')
      else Inr (p AND push_bit (nat (b - 1)) 1 \<noteq> 0))"

text \<open>The two equality operators: on marked pointers, and with a plain pointer.\<close>

definition marked_eq :: "ptr \<Rightarrow> ptr \<Rightarrow> bool" where
  "marked_eq p q \<longleftrightarrow> p = q"

definition marked_eq_raw :: "ptr \<Rightarrow> ptr \<Rightarrow> bool" where
  "marked_eq_raw p other \<longleftrightarrow> get_ptr p = other"

section \<open>marked_ptr_policy::arc_ptr_policy\<close>

text \<open>\<^verbatim>\<open>compare_exchange_weak\<close> meets the cell at a value and may fail spuriously:
  success, the value left in the expected variable, the new value of the cell.\<close>

definition compare_exchange_weak :: "'b \<times> bool \<Rightarrow> 'b \<Rightarrow> 'b \<Rightarrow> bool \<times> 'b \<times> 'b" where
  "compare_exchange_weak enc expected desired =
     (let (x, spurious) = enc in
      if x = expected \<and> \<not> spurious then (True, expected, desired) else (False, x, x))"

text \<open>The loop shared by \<^verbatim>\<open>set_mark\<close> and \<^verbatim>\<open>set_mark_bit\<close>: \<open>upd\<close> makes the new value
  from the expected one. The result is the value found and the value written.\<close>

fun arc_update_loop :: "(ptr \<Rightarrow> error + ptr) \<Rightarrow> ptr \<Rightarrow> (ptr \<times> bool) list \<Rightarrow> (error + ptr \<times> ptr) option" where
  "arc_update_loop upd cur_ptr [] = (case upd cur_ptr of Inl e \<Rightarrow> Some (Inl e) | Inr _ \<Rightarrow> None)"
| "arc_update_loop upd cur_ptr (enc # encs) =
     (case upd cur_ptr of
        Inl e \<Rightarrow> Some (Inl e)
      | Inr new_ptr \<Rightarrow>
          (let (ok, cur', x) = compare_exchange_weak enc cur_ptr new_ptr in
           if ok then Some (Inr (cur_ptr, x)) else arc_update_loop upd cur' encs))"

definition arc_set_mark :: "ptr \<Rightarrow> ptr \<Rightarrow> (ptr \<times> bool) list \<Rightarrow> (error + ptr \<times> ptr) option" where
  "arc_set_mark mark loaded encs = arc_update_loop (\<lambda>p. set_mark p mark) loaded encs"

definition arc_set_mark_bit :: "int \<Rightarrow> ptr \<Rightarrow> (ptr \<times> bool) list \<Rightarrow> (error + ptr \<times> ptr) option" where
  "arc_set_mark_bit b loaded encs =
     (if \<not> (b = 1 \<or> b = 2) then Some (Inl (AssertionFailed ''bit == 1 || bit == 2''))
      else arc_update_loop (\<lambda>p. set_mark_bit p b) loaded encs)"

definition arc_get_mark :: "ptr \<Rightarrow> ptr" where
  "arc_get_mark cell = get_mark cell"

definition arc_get_mark_bit :: "ptr \<Rightarrow> int \<Rightarrow> error + bool" where
  "arc_get_mark_bit cell b = get_mark_bit cell b"

text \<open>Success and the new value of the cell.\<close>

definition compare_and_set_mark :: "ptr \<Rightarrow> ptr \<Rightarrow> ptr \<Rightarrow> error + bool \<times> ptr" where
  "compare_and_set_mark cell expected desired_mark =
     ebind (set_mark expected desired_mark)
       (\<lambda>desired. let (ok, _, x) = compare_exchange_strong cell expected desired in Inr (ok, x))"

definition arc_contains :: "ptr \<Rightarrow> ptr \<Rightarrow> bool" where
  "arc_contains cell other \<longleftrightarrow> marked_eq cell other"

text \<open>\<^verbatim>\<open>rc_ptr_policy\<close> and \<^verbatim>\<open>snapshot_ptr_policy\<close>: the operations of the pointer inside, which no other thread can see.\<close>

definition rc_set_mark :: "ptr \<Rightarrow> ptr \<Rightarrow> error + ptr" where
  "rc_set_mark p mark = set_mark p mark"

definition rc_get_mark :: "ptr \<Rightarrow> ptr" where
  "rc_get_mark p = get_mark p"

definition snapshot_set_mark :: "ptr \<Rightarrow> ptr \<Rightarrow> error + ptr" where
  "snapshot_set_mark p mark = set_mark p mark"

definition snapshot_get_mark :: "ptr \<Rightarrow> ptr" where
  "snapshot_get_mark p = get_mark p"

section \<open>Alignment\<close>

text \<open>An address of a \<^verbatim>\<open>counted_object\<close>, which is aligned to at least four bytes.\<close>

definition aligned4 :: "ptr \<Rightarrow> bool" where
  "aligned4 p \<longleftrightarrow> p AND 3 = 0"

lemmas mark_defs = ONE_BIT_def TWO_BIT_def get_ptr_def get_mark_def set_ptr_def clear_mark_def
  set_mark_def set_mark_bit_def get_mark_bit_def aligned4_def

lemma mark_mask: "ONE_BIT OR TWO_BIT = (mask 2 :: ptr)"
  by (simp add: ONE_BIT_def TWO_BIT_def mask_eq_exp_minus_1)

lemma small_mark_iff: "(m :: ptr) < push_bit 2 1 \<longleftrightarrow> m AND mask 2 = m"
proof -
  have "m < 4 \<longleftrightarrow> m AND mask 2 = m"
    using and_mask_less_size [of 2 m] by (auto simp: word_size less_mask_eq)
  then show ?thesis by simp
qed

lemma mark_3: "(mask 2 :: ptr) = 3"
  by (simp add: mask_eq_exp_minus_1)

lemma get_ptr_aligned: "aligned4 (get_ptr p)"
  unfolding aligned4_def get_ptr_def mark_mask mark_3 by (simp add: word_bw_assocs)

lemma ptr_mark_split: "p = get_ptr p OR get_mark p"
  unfolding get_ptr_def get_mark_def mark_mask by (auto intro!: bit_word_eqI simp: bit_simps)

lemma set_mark_Inr:
  "set_mark p m = Inr q \<Longrightarrow> m < 4 \<and> q = get_ptr p OR m \<and> get_ptr q = get_ptr p \<and> get_mark q = m"
proof -
  assume "set_mark p m = Inr q"
  then have m: "m AND mask 2 = m" "m < 4" and q: "q = (p AND NOT (mask 2)) OR m"
    using small_mark_iff [of m]
    by (auto simp: set_mark_def clear_mark_def mark_mask split: if_splits)
  have "q AND NOT (mask 2) = p AND NOT (mask 2)"
    unfolding q by (subst m(1) [symmetric]) (auto intro!: bit_word_eqI simp: bit_simps)
  moreover have "q AND mask 2 = m"
    unfolding q by (subst (2) m(1) [symmetric], subst m(1) [symmetric])
      (auto intro!: bit_word_eqI simp: bit_simps)
  ultimately show ?thesis
    using m(2) q by (simp add: get_ptr_def get_mark_def mark_mask)
qed

lemma set_ptr_parts:
  assumes "aligned4 a"
  shows "get_ptr (set_ptr q a) = a" and "get_mark (set_ptr q a) = get_mark q"
proof -
  have a: "a AND mask 2 = 0" using assms by (simp add: aligned4_def mark_3)
  have "(a OR q AND mask 2) AND NOT (mask 2) = a AND NOT (mask 2)"
    by (auto intro!: bit_word_eqI simp: bit_simps)
  also have "\<dots> = a"
  proof (rule bit_word_eqI)
    fix n
    have "\<not> bit (a AND mask 2) n" using a by simp
    then show "n < LENGTH(64) \<Longrightarrow> bit (a AND NOT (mask 2)) n = bit a n" by (auto simp: bit_simps)
  qed
  finally show "get_ptr (set_ptr q a) = a"
    by (simp add: get_ptr_def set_ptr_def get_mark_def mark_mask)
  have "(a OR q AND mask 2) AND mask 2 = (a AND mask 2) OR (q AND mask 2)"
    by (auto intro!: bit_word_eqI simp: bit_simps)
  then show "get_mark (set_ptr q a) = get_mark q"
    using a by (simp add: set_ptr_def get_mark_def mark_mask)
qed

lemma set_mark_parts:
  assumes "m < 4"
  shows "\<exists>q. set_mark p m = Inr q \<and> get_mark q = m \<and> get_ptr q = get_ptr p"
proof -
  have "m < push_bit 2 1" using assms by simp
  then obtain q where "set_mark p m = Inr q" by (auto simp: set_mark_def)
  with set_mark_Inr [OF this] show ?thesis by blast
qed

lemma set_mark_bit_parts:
  assumes "b = 1 \<or> b = 2"
  shows "\<exists>q. set_mark_bit p b = Inr q \<and> get_ptr q = get_ptr p \<and> get_mark q = get_mark p OR push_bit (nat (b - 1)) 1"
  using assms unfolding set_mark_bit_def get_ptr_def get_mark_def mark_mask
  by (auto intro!: bit_word_eqI simp: bit_simps)

lemma get_mark_bit_mark:
  assumes "b = 1 \<or> b = 2"
  shows "get_mark_bit p b = Inr (bit (get_mark p) (nat (b - 1)))"
proof -
  have "(p AND push_bit n 1 \<noteq> 0) = bit p n" if "n < 64" for n
    using and_exp_eq_0_iff_not_bit [of p n] by (simp add: push_bit_eq_mult)
  from this [of "nat (b - 1)"] assms show ?thesis
    by (auto simp: get_mark_bit_def get_mark_def mark_mask bit_simps)
qed

lemma clear_mark_parts: "get_ptr (clear_mark p) = get_ptr p" "get_mark (clear_mark p) = 0"
  unfolding clear_mark_def get_ptr_def get_mark_def mark_mask by (auto intro!: bit_word_eqI simp: bit_simps)

text \<open>The loop with an update that cannot fail: it ends at the first attempt that is not spurious and finds the value expected, which is the
  one loaded first or found by the attempt before.\<close>

lemma arc_update_loop_find:
  assumes "\<And>p. upd p = Inr (f p)"
  shows "arc_update_loop upd loaded encs =
    map_option (\<lambda>((x, spurious), expected). Inr (x, f x))
      (find (\<lambda>((x, spurious), expected). x = expected \<and> \<not> spurious) (zip encs (loaded # map fst encs)))"
  by (induction encs arbitrary: loaded)
     (auto simp: assms compare_exchange_weak_def split: prod.splits)

lemma arc_set_mark_bit_atomic:
  "if b = 1 \<or> b = 2 then
     (case find (\<lambda>((found, spurious), expected). found = expected \<and> \<not> spurious) (zip encs (loaded # map fst encs)) of
        None \<Rightarrow> arc_set_mark_bit b loaded encs = None
      | Some ((found, _), _) \<Rightarrow>
          \<exists>new. arc_set_mark_bit b loaded encs = Some (Inr (found, new)) \<and> get_ptr new = get_ptr found \<and>
            get_mark_bit new b = Inr True \<and> get_mark_bit new (3 - b) = get_mark_bit found (3 - b))
   else arc_set_mark_bit b loaded encs = Some (Inl (AssertionFailed ''bit == 1 || bit == 2''))"
proof (cases "b = 1 \<or> b = 2")
  case True
  have "\<exists>q. set_mark_bit p b = Inr q \<and> get_ptr q = get_ptr p \<and> get_mark_bit q b = Inr True \<and>
      get_mark_bit q (3 - b) = get_mark_bit p (3 - b)" for p
    using set_mark_bit_parts [OF True, of p] True by (auto simp: get_mark_bit_mark bit_simps)
  then obtain f where f: "set_mark_bit p b = Inr (f p)" "get_ptr (f p) = get_ptr p" "get_mark_bit (f p) b = Inr True"
      "get_mark_bit (f p) (3 - b) = get_mark_bit p (3 - b)" for p by metis
  show ?thesis
    unfolding arc_set_mark_bit_def using True arc_update_loop_find [of "\<lambda>p. set_mark_bit p b" f, OF f(1)] f
    by (auto split: option.splits)
qed (simp add: arc_set_mark_bit_def)

section \<open>Properties\<close>

text \<open>
  (C25) Pointer and mark of a marked pointer are independent. For every mark below 4 \<^verbatim>\<open>set_mark\<close> stores exactly the mark and keeps the
  pointer; \<^verbatim>\<open>set_ptr\<close> stores exactly an aligned pointer and keeps the mark; \<^verbatim>\<open>clear_mark\<close> keeps the pointer and leaves no mark;
  \<^verbatim>\<open>set_mark_bit\<close> sets one bit of the mark and keeps the pointer and the other bit; the bits that \<^verbatim>\<open>get_mark_bit\<close> reads
  make up the mark.
\<close>

theorem marked_ptr_roundtrip:
  assumes "m < 4" and "aligned4 a" and "b = 1 \<or> b = 2"
  shows "(\<exists>q. set_mark p m = Inr q \<and> get_mark q = m \<and> get_ptr q = get_ptr p) \<and>
    get_ptr (set_ptr p a) = a \<and> get_mark (set_ptr p a) = get_mark p \<and>
    get_ptr (clear_mark p) = get_ptr p \<and> get_mark (clear_mark p) = 0 \<and>
    (\<exists>q. set_mark_bit p b = Inr q \<and> get_ptr q = get_ptr p \<and>
       get_mark_bit q b = Inr True \<and> get_mark_bit q (3 - b) = get_mark_bit p (3 - b)) \<and>
    (\<exists>x y. get_mark_bit p 1 = Inr x \<and> get_mark_bit p 2 = Inr y \<and> get_mark p = (if x then 1 else 0) OR (if y then 2 else 0))"
proof (intro conjI)
  obtain q where q: "set_mark_bit p b = Inr q" "get_ptr q = get_ptr p" "get_mark q = get_mark p OR push_bit (nat (b - 1)) 1"
    using set_mark_bit_parts [OF assms(3), of p] by blast
  have "get_mark_bit q b = Inr True" "get_mark_bit q (3 - b) = get_mark_bit p (3 - b)"
    using assms(3) by (auto simp: get_mark_bit_mark q(3) bit_simps)
  with q show "\<exists>q. set_mark_bit p b = Inr q \<and> get_ptr q = get_ptr p \<and>
       get_mark_bit q b = Inr True \<and> get_mark_bit q (3 - b) = get_mark_bit p (3 - b)" by blast
  have "get_mark p = (if bit (get_mark p) 0 then 1 else 0) OR (if bit (get_mark p) 1 then 2 else 0)"
    by (rule bit_word_eqI, unfold bit_or_iff) (auto simp: get_mark_def mark_mask bit_simps less_2_cases_iff bit_2_iff intro: gr0I)
  then show "\<exists>x y. get_mark_bit p 1 = Inr x \<and> get_mark_bit p 2 = Inr y \<and> get_mark p = (if x then 1 else 0) OR (if y then 2 else 0)"
    by (simp add: get_mark_bit_mark)
qed (use set_mark_parts [OF assms(1), of p] set_ptr_parts [OF assms(2), of p] clear_mark_parts [of p] in simp_all)

theorem marked_ptr_roundtrip_witness:
  "(\<exists>q. set_mark 4097 2 = Inr q \<and> get_mark q = 2 \<and> get_ptr q = get_ptr 4097) \<and>
   get_ptr (set_ptr 4097 8192) = 8192 \<and> get_mark (set_ptr 4097 8192) = get_mark 4097 \<and>
   (\<exists>q. set_mark_bit 4097 2 = Inr q \<and> get_ptr q = get_ptr 4097 \<and>
      get_mark_bit q 2 = Inr True \<and> get_mark_bit q 1 = get_mark_bit 4097 1)"
  using marked_ptr_roundtrip [of 2 8192 2 4097] by (simp add: aligned4_def)

text \<open>
  (C26) \<^verbatim>\<open>set_mark\<close> on an atomic pointer is one atomic update whatever the other threads do: the loop returns at the first attempt that
  finds the value expected (the one loaded, or the one the attempt before found) and does not fail spuriously; the word it replaces is the one
  found there, with the pointer unchanged and the mark set to the requested one. It is still running only if there is no such
  attempt, and a mark of more than two bits fails the assertion.
\<close>

theorem arc_set_mark_atomic:
  "if mark < 4 then
     (case find (\<lambda>((found, spurious), expected). found = expected \<and> \<not> spurious) (zip encs (loaded # map fst encs)) of
        None \<Rightarrow> arc_set_mark mark loaded encs = None
      | Some ((found, _), _) \<Rightarrow>
          \<exists>new. arc_set_mark mark loaded encs = Some (Inr (found, new)) \<and> get_ptr new = get_ptr found \<and> get_mark new = mark)
   else arc_set_mark mark loaded encs = Some (Inl (AssertionFailed ''mark < (1 << 2)''))"
proof (cases "mark < 4")
  case True
  obtain f where f: "set_mark p mark = Inr (f p)" "get_mark (f p) = mark" "get_ptr (f p) = get_ptr p" for p
    using set_mark_parts [OF True] by metis
  show ?thesis
    unfolding arc_set_mark_def using True arc_update_loop_find [of "\<lambda>p. set_mark p mark" f, OF f(1)] f
    by (auto split: option.splits)
next
  case False
  then have "set_mark p mark = Inl (AssertionFailed ''mark < (1 << 2)'')" for p by (simp add: set_mark_def)
  with False show ?thesis by (cases encs) (simp_all add: arc_set_mark_def)
qed

theorem arc_set_mark_atomic_witness:
  "\<exists>new. arc_set_mark 2 4096 [(4098, False), (4097, True), (4097, False), (5000, False)] = Some (Inr (4097, new)) \<and>
     get_ptr new = get_ptr 4097 \<and> get_mark new = 2"
  using arc_set_mark_atomic [of 2 4096 "[(4098, False), (4097, True), (4097, False), (5000, False)]"] by simp

end
