(* ===== verification/Thread_Utils.thy ===== *)
theory Thread_Utils
  imports Prelude
begin

text \<open>
  The helpers of \<^verbatim>\<open>include/cdrc/internal/utils.h\<close> beside the counter: the registry that gives
  threads their small integer identifiers, the 64-bit hash and the pseudo random
  generator.
\<close>

section \<open>ThreadID\<close>

text \<open>
  The vector \<^verbatim>\<open>in_use\<close> has one flag per identifier. A constructor scans it from 0;
  for a free slot it tries to set the flag with \<^verbatim>\<open>compare_exchange_strong\<close>. A step of the
  registry is one atomic access of one thread: \<open>Scan i\<close> is before the read of \<^verbatim>\<open>in_use[i]\<close>,
  \<open>Claim i\<close> between that read and the exchange, \<open>Owns i\<close> after a successful constructor,
  \<open>Exited\<close> after the call of \<^verbatim>\<open>std::exit\<close>, \<open>Gone\<close> before the constructor and after the
  destructor. Threads are named by their handle, a natural number.
\<close>

datatype tid_pc = Gone | Scan nat | Claim nat | Owns nat | Exited

record registry =
  in_use :: "bool list"
  tid_pcs :: "nat \<Rightarrow> tid_pc"

definition registry_start :: "nat \<Rightarrow> registry" where
  "registry_start num_threads = \<lparr>in_use = replicate num_threads False, tid_pcs = (\<lambda>_. Gone)\<rparr>"

inductive tid_step :: "registry \<Rightarrow> registry \<Rightarrow> bool" where
  construct: "tid_pcs r h = Gone \<Longrightarrow> tid_step r (r\<lparr>tid_pcs := (tid_pcs r)(h := Scan 0)\<rparr>)"
| busy: "tid_pcs r h = Scan i \<Longrightarrow> i < length (in_use r) \<Longrightarrow> in_use r ! i \<Longrightarrow>
     tid_step r (r\<lparr>tid_pcs := (tid_pcs r)(h := Scan (Suc i))\<rparr>)"
| free: "tid_pcs r h = Scan i \<Longrightarrow> i < length (in_use r) \<Longrightarrow> \<not> in_use r ! i \<Longrightarrow>
     tid_step r (r\<lparr>tid_pcs := (tid_pcs r)(h := Claim i)\<rparr>)"
| claimed: "tid_pcs r h = Claim i \<Longrightarrow>
     compare_exchange_strong (in_use r ! i) False True = (True, e, b) \<Longrightarrow>
     tid_step r (r\<lparr>in_use := (in_use r)[i := b], tid_pcs := (tid_pcs r)(h := Owns i)\<rparr>)"
| beaten: "tid_pcs r h = Claim i \<Longrightarrow>
     compare_exchange_strong (in_use r ! i) False True = (False, e, b) \<Longrightarrow>
     tid_step r (r\<lparr>tid_pcs := (tid_pcs r)(h := Scan (Suc i))\<rparr>)"
| too_many: "tid_pcs r h = Scan i \<Longrightarrow> length (in_use r) \<le> i \<Longrightarrow>
     tid_step r (r\<lparr>tid_pcs := (tid_pcs r)(h := Exited)\<rparr>)"
| destruct: "tid_pcs r h = Owns i \<Longrightarrow>
     tid_step r (r\<lparr>in_use := (in_use r)[i := False], tid_pcs := (tid_pcs r)(h := Gone)\<rparr>)"

inductive tid_reach :: "nat \<Rightarrow> registry \<Rightarrow> bool" for n where
  start: "tid_reach n (registry_start n)"
| step: "tid_reach n r \<Longrightarrow> tid_step r r' \<Longrightarrow> tid_reach n r'"

section \<open>hash64_2\<close>

definition hash64_2 :: "u64 \<Rightarrow> u64" where
  "hash64_2 x =
     (let x1 = (x XOR drop_bit 30 x) * 0xbf58476d1ce4e5b9;
          x2 = (x1 XOR drop_bit 27 x1) * 0x94d049bb133111eb
      in x2 XOR drop_bit 31 x2)"

text \<open>\<^verbatim>\<open>CustomHash<uint64_t>\<close> and \<^verbatim>\<open>CustomHash<T*>\<close>\<close>

definition custom_hash :: "u64 \<Rightarrow> u64" where
  "custom_hash a = hash64_2 a"

definition custom_hash_ptr :: "ptr \<Rightarrow> u64" where
  "custom_hash_ptr a = hash64_2 a"

section \<open>rand\<close>

record rand_state =
  rx :: u64
  ry :: u64
  rz :: u64

definition rand_start :: rand_state where
  "rand_start = \<lparr>rx = 123456789, ry = 362436069, rz = 521288629\<rparr>"

definition rand_init :: "int \<Rightarrow> rand_state \<Rightarrow> rand_state" where
  "rand_init seed s = s\<lparr>rx := rx s + word_of_int seed\<rparr>"

definition get_rand :: "rand_state \<Rightarrow> u64 \<times> rand_state" where
  "get_rand s =
     (let x1 = rx s XOR push_bit 16 (rx s);
          x2 = x1 XOR drop_bit 5 x1;
          x3 = x2 XOR push_bit 1 x2;
          t = x3;
          x = ry s;
          y = rz s;
          z = t XOR x XOR y
      in (z, \<lparr>rx = x, ry = y, rz = z\<rparr>))"

section \<open>The registry's invariant\<close>

text \<open>A flag is set exactly when some thread owns its index, and an index has one owner.\<close>

definition tid_inv :: "nat \<Rightarrow> registry \<Rightarrow> bool" where
  "tid_inv n r \<longleftrightarrow> length (in_use r) = n \<and>
     (\<forall>h i. tid_pcs r h = Owns i \<longrightarrow> i < n \<and> in_use r ! i) \<and>
     (\<forall>h i. tid_pcs r h = Claim i \<longrightarrow> i < n) \<and>
     (\<forall>h h' i. tid_pcs r h = Owns i \<longrightarrow> tid_pcs r h' = Owns i \<longrightarrow> h = h') \<and>
     (\<forall>i<n. in_use r ! i \<longrightarrow> (\<exists>h. tid_pcs r h = Owns i))"

lemma tid_inv_start: "tid_inv n (registry_start n)"
  by (simp add: tid_inv_def registry_start_def)

lemma tid_inv_pcs:
  assumes "tid_inv n r" and "\<And>k. tid_pcs r h \<noteq> Owns k" and "\<And>k. p \<noteq> Owns k"
    and "\<And>k. p = Claim k \<Longrightarrow> k < n"
  shows "tid_inv n (r\<lparr>tid_pcs := (tid_pcs r)(h := p)\<rparr>)"
  using assms unfolding tid_inv_def by simp metis

lemma tid_step_inv: "tid_step r r' \<Longrightarrow> tid_inv n r \<Longrightarrow> tid_inv n r'"
proof (induction rule: tid_step.induct)
  case (free r h i)
  then have "i < n" by (simp add: tid_inv_def)
  with free show ?case by (intro tid_inv_pcs) auto
next
  case (claimed r h i e b)
  then have f: "\<not> in_use r ! i" "b" "i < n" "length (in_use r) = n"
    by (auto simp: compare_exchange_strong_def tid_inv_def split: if_splits)
  then have "tid_pcs r h' \<noteq> Owns i" for h' using claimed.prems by (auto simp: tid_inv_def)
  with claimed.prems claimed.hyps f show ?case
    unfolding tid_inv_def by (simp add: nth_list_update) (metis tid_pc.distinct(15))
next
  case (destruct r h i)
  then have f: "i < n" "length (in_use r) = n" "\<And>h'. tid_pcs r h' = Owns i \<Longrightarrow> h' = h"
    by (auto simp: tid_inv_def)
  with destruct.prems destruct.hyps show ?case
    unfolding tid_inv_def by (simp add: nth_list_update) (metis tid_pc.inject(3))
qed (auto intro!: tid_inv_pcs)

lemma tid_reach_inv: "tid_reach n r \<Longrightarrow> tid_inv n r"
  by (induction rule: tid_reach.induct) (auto intro: tid_inv_start tid_step_inv)

text \<open>
  (C24) Under every interleaving of constructors and destructors of \<^verbatim>\<open>ThreadID\<close>, the identifiers of
  the threads that have one are below \<^verbatim>\<open>num_threads\<close> and pairwise different, and a slot is marked in use
  exactly when a live thread owns it.
\<close>

theorem thread_ids_unique:
  assumes "tid_reach n r"
  shows "(\<forall>h h' i. tid_pcs r h = Owns i \<longrightarrow> tid_pcs r h' = Owns i \<longrightarrow> h = h') \<and>
    (\<forall>h i. tid_pcs r h = Owns i \<longrightarrow> i < n) \<and>
    (\<forall>i<n. in_use r ! i \<longleftrightarrow> (\<exists>h. tid_pcs r h = Owns i))"
  using tid_reach_inv [OF assms] unfolding tid_inv_def by blast

theorem thread_ids_unique_witness:
  "\<exists>r. tid_reach 2 r \<and> tid_pcs r 5 = Owns 0 \<and>
    (\<forall>h. tid_pcs r h = Owns 0 \<longrightarrow> h = 5)"
proof -
  let ?r1 = "(registry_start 2)\<lparr>tid_pcs := (tid_pcs (registry_start 2))(5 := Scan 0)\<rparr>"
  let ?r2 = "?r1\<lparr>tid_pcs := (tid_pcs ?r1)(5 := Claim 0)\<rparr>"
  let ?r3 = "?r2\<lparr>in_use := (in_use ?r2)[0 := True], tid_pcs := (tid_pcs ?r2)(5 := Owns 0)\<rparr>"
  have "tid_step (registry_start 2) ?r1"
    by (rule tid_step.construct) (simp add: registry_start_def)
  moreover have "tid_step ?r1 ?r2"
    by (rule tid_step.free) (simp_all add: registry_start_def)
  moreover have "tid_step ?r2 ?r3"
    by (rule tid_step.claimed [where e = False])
       (simp_all add: registry_start_def compare_exchange_strong_def)
  ultimately have "tid_reach 2 ?r3"
    by (blast intro: tid_reach.start tid_reach.step)
  moreover have "tid_pcs ?r3 5 = Owns 0" by simp
  ultimately show ?thesis using thread_ids_unique [of 2 ?r3] by blast
qed

section \<open>The mixing steps are injective\<close>

lemma xor_drop_bit_inj:
  assumes n: "0 < n" and eq: "x XOR drop_bit n x = y XOR drop_bit n (y :: 'a::len word)"
  shows "x = y"
proof (rule bit_word_eqI)
  fix i assume "i < LENGTH('a)"
  then show "bit x i = bit y i"
  proof (induction "LENGTH('a) - i" arbitrary: i rule: less_induct)
    case less
    have "bit x (n + i) = bit y (n + i)"
    proof (cases "n + i < LENGTH('a)")
      case True
      then show ?thesis using less.hyps [of "n + i"] n less.prems by simp
    next
      case False
      then show ?thesis by (meson bit_imp_le_length not_le)
    qed
    moreover have "bit (x XOR drop_bit n x) i = bit (y XOR drop_bit n y) i" using eq by simp
    ultimately show ?case by (auto simp: bit_simps)
  qed
qed

lemma xor_push_bit_inj:
  assumes n: "0 < n" and eq: "x XOR push_bit n x = y XOR push_bit n (y :: 'a::len word)"
  shows "x = y"
proof (rule bit_word_eqI)
  fix i assume "i < LENGTH('a)"
  then show "bit x i = bit y i"
  proof (induction i rule: less_induct)
    case (less i)
    have "n \<le> i \<Longrightarrow> bit x (i - n) = bit y (i - n)"
      using less.IH [of "i - n"] n less.prems by simp
    moreover have "bit (x XOR push_bit n x) i = bit (y XOR push_bit n y) i" using eq by simp
    ultimately show ?case using less.prems by (auto simp: bit_simps)
  qed
qed

lemma mult_odd_inj: "(x :: u64) * c = y * c \<Longrightarrow> c * d = 1 \<Longrightarrow> x = y"
proof -
  assume "x * c = y * c" and cd: "c * d = 1"
  then have "(x * c) * d = (y * c) * d" by simp
  then show "x = y" by (simp add: mult.assoc cd)
qed

lemma mix_inj:
  assumes "0 < n" and "c * d = (1 :: u64)" and "(x XOR drop_bit n x) * c = (y XOR drop_bit n y) * c"
  shows "x = y"
  using assms(1) mult_odd_inj [OF assms(3,2)] by (rule xor_drop_bit_inj)

text \<open>
  (C27) \<^verbatim>\<open>hash64_2\<close> maps different 64-bit keys to different hashes.
\<close>

theorem hash64_2_injective: "inj hash64_2"
proof (rule injI)
  fix x y :: u64
  let ?a = "0xbf58476d1ce4e5b9 :: u64"
  let ?b = "0x94d049bb133111eb :: u64"
  define m1 where "m1 = (\<lambda>x :: u64. (x XOR drop_bit 30 x) * ?a)"
  define m2 where "m2 = (\<lambda>x :: u64. (x XOR drop_bit 27 x) * ?b)"
  have h: "hash64_2 v = m2 (m1 v) XOR drop_bit 31 (m2 (m1 v))" for v
    unfolding hash64_2_def Let_def m1_def m2_def by (rule refl)
  assume "hash64_2 x = hash64_2 y"
  then have "m2 (m1 x) = m2 (m1 y)"
    unfolding h by (rule xor_drop_bit_inj [rotated]) simp
  then have "m1 x = m1 y"
    unfolding m2_def by (rule mix_inj [where d = "0x319642b2d24d8ec3", rotated 2]) simp_all
  then show "x = y"
    unfolding m1_def by (rule mix_inj [where d = "0x96de1b173f119089", rotated 2]) simp_all
qed

lemma xor_cancel: "(a :: u64) XOR b = c XOR b \<Longrightarrow> a = c"
proof -
  assume "a XOR b = c XOR b"
  then have "(a XOR b) XOR b = (c XOR b) XOR b" by simp
  then show ?thesis by (simp add: xor.assoc)
qed

lemma get_rand_inj:
  assumes "snd (get_rand s) = snd (get_rand s')"
  shows "s = s'"
proof -
  define m1 where "m1 = (\<lambda>x :: u64. x XOR push_bit 16 x)"
  define m2 where "m2 = (\<lambda>x :: u64. x XOR drop_bit 5 x)"
  define m3 where "m3 = (\<lambda>x :: u64. x XOR push_bit 1 x)"
  have g: "snd (get_rand v) = \<lparr>rx = ry v, ry = rz v, rz = m3 (m2 (m1 (rx v))) XOR ry v XOR rz v\<rparr>" for v
    unfolding get_rand_def Let_def m1_def m2_def m3_def snd_conv by (rule refl)
  from assms have yz: "ry s = ry s'" "rz s = rz s'"
    and t: "m3 (m2 (m1 (rx s))) XOR (ry s XOR rz s) = m3 (m2 (m1 (rx s'))) XOR (ry s XOR rz s)"
    by (auto simp: g)
  from t have "m3 (m2 (m1 (rx s))) = m3 (m2 (m1 (rx s')))" by (rule xor_cancel)
  then have "m2 (m1 (rx s)) = m2 (m1 (rx s'))"
    unfolding m3_def by (rule xor_push_bit_inj [rotated]) simp
  then have "m1 (rx s) = m1 (rx s')"
    unfolding m2_def by (rule xor_drop_bit_inj [rotated]) simp
  then have "rx s = rx s'"
    unfolding m1_def by (rule xor_push_bit_inj [rotated]) simp
  with yz show ?thesis by (cases s, cases s') simp
qed

text \<open>
  The generator never falls into the all-zero state, from which it would return 0 for ever:
  its transition is injective, so two states never merge, and it takes a state other than the zero state
  to another such state.
\<close>

theorem get_rand_never_degenerates:
  assumes "s \<noteq> \<lparr>rx = 0, ry = 0, rz = 0\<rparr>"
  shows "snd (get_rand s) \<noteq> \<lparr>rx = 0, ry = 0, rz = 0\<rparr> \<and> inj (\<lambda>v. snd (get_rand v))"
proof -
  have "snd (get_rand \<lparr>rx = 0, ry = 0, rz = 0\<rparr>) = \<lparr>rx = 0, ry = 0, rz = 0\<rparr>"
    by (simp add: get_rand_def)
  then have "snd (get_rand s) \<noteq> \<lparr>rx = 0, ry = 0, rz = 0\<rparr>"
    using assms get_rand_inj by metis
  then show ?thesis by (auto intro: injI get_rand_inj)
qed

theorem get_rand_never_degenerates_witness:
  "snd (get_rand (rand_init 7 rand_start)) \<noteq> \<lparr>rx = 0, ry = 0, rz = 0\<rparr> \<and> inj (\<lambda>v. snd (get_rand v))"
  by (rule get_rand_never_degenerates) (simp add: rand_start_def rand_init_def)

end
