(* ===== verification/Counted_Object.thy ===== *)
theory Counted_Object
  imports Sticky_Counter
begin

text \<open>
  \<^verbatim>\<open>include/cdrc/internal/counted_object.h\<close>: a managed object with its two reference counts.

  The managed type \<^verbatim>\<open>T\<close> is a value together with the smart pointers it has as
  members, in the order of declaration; running its destructor runs theirs. The
  \<open>storage\<close> is \<open>Some\<close> while the managed object is alive and \<open>None\<close> from the
  start of its destructor on. \<open>disposed\<close> is the debug flag of the same name. An object that
  is not in the heap at all has been deleted.
\<close>

section \<open>Managed objects\<close>

text \<open>The smart pointer members of a managed object: \<^verbatim>\<open>rc_ptr\<close>, \<^verbatim>\<open>atomic_rc_ptr\<close>, \<^verbatim>\<open>weak_ptr\<close>
  and \<^verbatim>\<open>atomic_weak_ptr\<close>, each with the pointer it holds.\<close>

datatype member = M_rc ptr | M_arc ptr | M_weak ptr | M_aweak ptr

record 'v managed =
  payload :: 'v
  members :: "member list"

record 'v counted_object =
  storage :: "'v managed option"
  ref_cnt :: u32
  weak_cnt :: u32
  disposed :: bool

datatype EjectAction = EA_nothing | EA_delay | EA_destroy

section \<open>Operations\<close>

definition new_counted_object :: "'v managed \<Rightarrow> 'v counted_object" where
  "new_counted_object v =
     \<lparr>storage = Some v, ref_cnt = sc_init 1, weak_cnt = sc_init 1, disposed = False\<rparr>"

text \<open>\<^verbatim>\<open>dispose\<close> up to the call of the destructor, which ends the life of the storage and leaves the
  members to be destroyed, and the part after it.\<close>

definition dispose_begin :: "('v, 'x) counted_object_scheme \<Rightarrow> (member list \<times> ('v, 'x) counted_object_scheme) option" where
  "dispose_begin ob =
     (case storage ob of None \<Rightarrow> None | Some m \<Rightarrow> Some (members m, ob\<lparr>storage := None\<rparr>))"

definition dispose_end :: "('v, 'x) counted_object_scheme \<Rightarrow> ('v, 'x) counted_object_scheme" where
  "dispose_end ob = ob\<lparr>disposed := True\<rparr>"

definition get_use_count :: "('v, 'x) counted_object_scheme \<Rightarrow> u32 \<times> ('v, 'x) counted_object_scheme" where
  "get_use_count ob = (let (n, x) = sc_load (ref_cnt ob) in (n, ob\<lparr>ref_cnt := x\<rparr>))"

definition get_weak_count :: "('v, 'x) counted_object_scheme \<Rightarrow> u32 \<times> ('v, 'x) counted_object_scheme" where
  "get_weak_count ob = (let (n, x) = sc_load (weak_cnt ob) in (n, ob\<lparr>weak_cnt := x\<rparr>))"

definition add_refs :: "u64 \<Rightarrow> ('v, 'x) counted_object_scheme \<Rightarrow> bool \<times> ('v, 'x) counted_object_scheme" where
  "add_refs cnt ob =
     (let (ok, x) = sc_increment (ref_cnt ob) (ucast cnt) in (ok, ob\<lparr>ref_cnt := x\<rparr>))"

text \<open>On \<open>EA_destroy\<close> the code runs \<^verbatim>\<open>dispose()\<close> before it returns; the caller of this
  definition continues with \<open>dispose_begin\<close>.\<close>

definition release_refs :: "u64 \<Rightarrow> ('v, 'x) counted_object_scheme \<Rightarrow> EjectAction \<times> ('v, 'x) counted_object_scheme" where
  "release_refs cnt ob =
     (let (zero, x) = sc_decrement (ref_cnt ob) (ucast cnt);
          ob1 = ob\<lparr>ref_cnt := x\<rparr>
      in if zero then
           (let (w, ob2) = get_weak_count ob1
            in if w = 1 then (EA_destroy, ob2) else (EA_delay, ob2))
         else (EA_nothing, ob1))"

definition add_weak_refs :: "u64 \<Rightarrow> ('v, 'x) counted_object_scheme \<Rightarrow> bool \<times> ('v, 'x) counted_object_scheme" where
  "add_weak_refs cnt ob =
     (let (ok, x) = sc_increment (weak_cnt ob) (ucast cnt) in (ok, ob\<lparr>weak_cnt := x\<rparr>))"

definition release_weak_refs :: "u64 \<Rightarrow> ('v, 'x) counted_object_scheme \<Rightarrow> bool \<times> ('v, 'x) counted_object_scheme" where
  "release_weak_refs cnt ob =
     (let (zero, x) = sc_decrement (weak_cnt ob) (ucast cnt) in (zero, ob\<lparr>weak_cnt := x\<rparr>))"

section \<open>Behaviour\<close>

text \<open>The counts as numbers of references, through the counter's contract.\<close>

definition strong_rep :: "('v, 'x) counted_object_scheme \<Rightarrow> nat \<Rightarrow> bool" where
  "strong_rep ob n \<longleftrightarrow> sc_rep (ref_cnt ob) n"

definition weak_rep :: "('v, 'x) counted_object_scheme \<Rightarrow> nat \<Rightarrow> bool" where
  "weak_rep ob n \<longleftrightarrow> sc_rep (weak_cnt ob) n"

lemmas rep_defs = strong_rep_def weak_rep_def

lemma new_counted_object_rep:
  "strong_rep (new_counted_object v) 1" "weak_rep (new_counted_object v) 1"
  using sc.rep_init [of 1] by (simp_all add: rep_defs new_counted_object_def)

lemma sc_room_one: "sc_room (sc_init 1)"
  using sc.rep_room [OF sc.rep_init [of 1]] by simp

lemma get_use_count_rep: "strong_rep ob n \<Longrightarrow> get_use_count ob = (of_nat n, ob)"
  by (simp add: rep_defs get_use_count_def sc.rep_load)

lemma get_weak_count_rep: "weak_rep ob n \<Longrightarrow> get_weak_count ob = (of_nat n, ob)"
  by (simp add: rep_defs get_weak_count_def sc.rep_load)

lemma add_refs_rep:
  assumes "strong_rep ob n" and "sc_room (ref_cnt ob)"
  shows "\<exists>x. add_refs 1 ob = (0 < n, ob\<lparr>ref_cnt := x\<rparr>) \<and> sc_rep x (if 0 < n then Suc n else 0)"
  using sc.rep_increment [of "ref_cnt ob" n] assms by (auto simp: rep_defs add_refs_def)

lemma add_weak_refs_rep:
  assumes "weak_rep ob n" and "sc_room (weak_cnt ob)"
  shows "\<exists>x. add_weak_refs 1 ob = (0 < n, ob\<lparr>weak_cnt := x\<rparr>) \<and> sc_rep x (if 0 < n then Suc n else 0)"
  using sc.rep_increment [of "weak_cnt ob" n] assms by (auto simp: rep_defs add_weak_refs_def)

lemma release_weak_refs_rep:
  assumes "weak_rep ob n" and "0 < n"
  shows "\<exists>x. release_weak_refs 1 ob = (n = 1, ob\<lparr>weak_cnt := x\<rparr>) \<and> sc_rep x (n - 1)"
  using sc.rep_decrement [of "weak_cnt ob" n] assms by (auto simp: rep_defs release_weak_refs_def)

lemma of_nat_eq_1_u32: "n \<le> 2 ^ 30 - 1 \<Longrightarrow> (of_nat n = (1 :: u32)) \<longleftrightarrow> n = 1"
  using sc.num_inj [of n 1] by simp

lemma one_le_u32: "1 \<le> (x :: u32) \<longleftrightarrow> x \<noteq> 0"
  by (metis linorder_not_le word_less_1)

lemma count_zero_iff:
  "strong_rep ob n \<Longrightarrow> (of_nat n = (0 :: u32)) \<longleftrightarrow> n = 0"
  "weak_rep ob n \<Longrightarrow> (of_nat n = (0 :: u32)) \<longleftrightarrow> n = 0"
  using sc.num_inj [of n 0] sc.rep_limit by (auto simp: rep_defs)

text \<open>The three outcomes of releasing a strong reference.\<close>

lemma release_refs_rep:
  assumes "strong_rep ob n" and "0 < n" and "weak_rep ob m"
  shows "\<exists>x. release_refs 1 ob =
      (if n = 1 then (if m = 1 then EA_destroy else EA_delay) else EA_nothing, ob\<lparr>ref_cnt := x\<rparr>) \<and>
    sc_rep x (n - 1)"
proof -
  obtain x where x: "sc_decrement (ref_cnt ob) 1 = (n = 1, x)" "sc_rep x (n - 1)"
    using sc.rep_decrement [of "ref_cnt ob" n] assms by (auto simp: rep_defs)
  have "get_weak_count (ob\<lparr>ref_cnt := x\<rparr>) = (of_nat m, ob\<lparr>ref_cnt := x\<rparr>)"
    using assms(3) by (intro get_weak_count_rep) (simp add: rep_defs)
  moreover have "(of_nat m = (1 :: u32)) \<longleftrightarrow> m = 1"
    using assms(3) sc.rep_limit by (intro of_nat_eq_1_u32) (auto simp: rep_defs)
  ultimately have "release_refs 1 ob =
      (if n = 1 then (if m = 1 then EA_destroy else EA_delay) else EA_nothing, ob\<lparr>ref_cnt := x\<rparr>)"
    using x(1) by (simp add: release_refs_def)
  with x(2) show ?thesis by blast
qed

end
