(* ===== verification/Memory_Manager.thy ===== *)
theory Memory_Manager
  imports Counted_Object "HOL-Library.Multiset"
begin

text \<open>
  \<^verbatim>\<open>include/cdrc/internal/memory_manager_base.h\<close>: what the reclamation schemes share.

  Destroying an object runs the destructors of its members, which release further objects, retire
  them, and so on: the code is a tangle of mutually recursive calls. The
  model keeps the calls that are still to be made on an explicit stack. One definition per
  member function runs the body of the function up to the calls it makes and returns these
  calls, in order, together with the new state; \<open>mm_step\<close> selects the definition for the
  call on top of the stack. The scheme (\<^verbatim>\<open>Derived\<close>) contributes its \<^verbatim>\<open>retire\<close> and its own
  calls as parameters, as it does through the template parameter.

  The second half is the accounting of references: every reference, wherever it is kept, is a
  token, and \<open>mm_inv\<close> says that the counts of every object agree with the
  tokens, that no token refers to a deleted object, and that an object with no
  tokens is gone.
\<close>

section \<open>State and calls\<close>

datatype RetireType = RT_decrement_strong_count | RT_decrement_weak_count | RT_dispose

definition num_retire_types :: nat where "num_retire_types = 3"

text \<open>The enumerators in the order of their values, for \<^verbatim>\<open>static_cast<RetireType>(i)\<close>.\<close>

definition retire_types :: "RetireType list" where
  "retire_types = [RT_decrement_strong_count, RT_decrement_weak_count, RT_dispose]"

record 'o mm =
  heap :: "(ptr, 'o) fmap"
  num_allocated :: "tid \<Rightarrow> int"

datatype 'c mm_call =
    C_eject ptr RetireType
  | C_decrement_ref_cnt ptr
  | C_decrement_weak_cnt ptr
  | C_delayed_decrement_ref_cnt ptr
  | C_delayed_decrement_weak_cnt ptr
  | C_dispose ptr
  | C_dispose_end ptr
  | C_release_end ptr
  | C_destroy ptr
  | C_retire ptr RetireType
  | C_derived 'c

section \<open>Member functions\<close>

definition with_object :: "ptr \<Rightarrow> ('o, 'e) mm_scheme \<Rightarrow> ('o \<Rightarrow> error + 'r) \<Rightarrow> error + 'r" where
  "with_object p s f = (case fmlookup (heap s) p of None \<Rightarrow> Inl (UseAfterFree p) | Some ob \<Rightarrow> f ob)"

definition put_object :: "ptr \<Rightarrow> 'o \<Rightarrow> ('o, 'e) mm_scheme \<Rightarrow> ('o, 'e) mm_scheme" where
  "put_object p ob s = s\<lparr>heap := fmupd p ob (heap s)\<rparr>"

definition increment_allocations :: "tid \<Rightarrow> ('o, 'e) mm_scheme \<Rightarrow> ('o, 'e) mm_scheme" where
  "increment_allocations t s = s\<lparr>num_allocated := (num_allocated s)(t := num_allocated s t + 1)\<rparr>"

definition decrement_allocations :: "tid \<Rightarrow> ('o, 'e) mm_scheme \<Rightarrow> ('o, 'e) mm_scheme" where
  "decrement_allocations t s = s\<lparr>num_allocated := (num_allocated s)(t := num_allocated s t - 1)\<rparr>"

text \<open>\<^verbatim>\<open>currently_allocated\<close> adds the per-thread counters in a \<^verbatim>\<open>size_t\<close>.\<close>

definition currently_allocated :: "nat \<Rightarrow> ('o, 'e) mm_scheme \<Rightarrow> u64" where
  "currently_allocated num_threads s =
     foldl (\<lambda>total t. total + word_of_int (num_allocated s t)) 0 [0..<num_threads]"

text \<open>\<^verbatim>\<open>create_object\<close> and \<^verbatim>\<open>delete_object\<close> of the schemes; the allocator's choice of a
  fresh address is an argument.\<close>

definition create_object :: "tid \<Rightarrow> ptr \<Rightarrow> 'o \<Rightarrow> ('o, 'e) mm_scheme \<Rightarrow> ('o, 'e) mm_scheme" where
  "create_object t p ob s = put_object p ob (increment_allocations t s)"

definition delete_object :: "tid \<Rightarrow> ptr \<Rightarrow> ('o, 'e) mm_scheme \<Rightarrow> ('o, 'e) mm_scheme" where
  "delete_object t p s = decrement_allocations t (s\<lparr>heap := fmdrop p (heap s)\<rparr>)"

text \<open>The destructors of the smart pointer members.\<close>

fun member_dtor :: "member \<Rightarrow> 'c mm_call list" where
  "member_dtor (M_rc q) = (if q \<noteq> nullptr then [C_decrement_ref_cnt q] else [])"
| "member_dtor (M_arc q) = (if q \<noteq> nullptr then [C_delayed_decrement_ref_cnt q] else [])"
| "member_dtor (M_weak q) = (if q \<noteq> nullptr then [C_decrement_weak_cnt q] else [])"
| "member_dtor (M_aweak q) = (if q \<noteq> nullptr then [C_delayed_decrement_weak_cnt q] else [])"

definition members_dtor :: "member list \<Rightarrow> 'c mm_call list" where
  "members_dtor ms = concat (map member_dtor (rev ms))"

definition increment_ref_cnt ::
  "ptr \<Rightarrow> (('v, 'x) counted_object_scheme, 'e) mm_scheme \<Rightarrow> error + bool \<times> (('v, 'x) counted_object_scheme, 'e) mm_scheme" where
  "increment_ref_cnt p s =
     (if p = nullptr then Inl (AssertionFailed ''ptr != nullptr'')
      else with_object p s (\<lambda>ob. let (ok, ob') = add_refs 1 ob in Inr (ok, put_object p ob' s)))"

definition increment_weak_cnt ::
  "ptr \<Rightarrow> (('v, 'x) counted_object_scheme, 'e) mm_scheme \<Rightarrow> error + bool \<times> (('v, 'x) counted_object_scheme, 'e) mm_scheme" where
  "increment_weak_cnt p s =
     (if p = nullptr then Inl (AssertionFailed ''ptr != nullptr'')
      else with_object p s (\<lambda>ob. let (ok, ob') = add_weak_refs 1 ob in Inr (ok, put_object p ob' s)))"

definition mm_eject :: "ptr \<Rightarrow> RetireType \<Rightarrow> 's \<Rightarrow> error + 'c mm_call list \<times> 's" where
  "mm_eject p type s =
     (if p = nullptr then Inl (AssertionFailed ''ptr != nullptr'')
      else if type = RT_decrement_strong_count then Inr ([C_decrement_ref_cnt p], s)
      else if type = RT_decrement_weak_count then Inr ([C_decrement_weak_cnt p], s)
      else Inr ([C_dispose p], s))"

definition decrement_ref_cnt ::
  "ptr \<Rightarrow> (('v, 'x) counted_object_scheme, 'e) mm_scheme \<Rightarrow> error + 'c mm_call list \<times> (('v, 'x) counted_object_scheme, 'e) mm_scheme" where
  "decrement_ref_cnt p s =
     (if p = nullptr then Inl (AssertionFailed ''ptr != nullptr'')
      else with_object p s (\<lambda>ob.
        let (n, ob1) = get_use_count ob in
        if \<not> 1 \<le> n then Inl (AssertionFailed ''ptr->get_use_count() >= 1'')
        else let (result, ob2) = release_refs 1 ob1 in
          (case result of
             EA_destroy \<Rightarrow>
               (case dispose_begin ob2 of
                  None \<Rightarrow> Inl (DoubleDispose p)
                | Some (ms, ob3) \<Rightarrow> Inr (members_dtor ms @ [C_release_end p], put_object p ob3 s))
           | EA_delay \<Rightarrow> Inr ([C_retire p RT_dispose], put_object p ob2 s)
           | EA_nothing \<Rightarrow> Inr ([], put_object p ob2 s))))"

text \<open>The end of \<^verbatim>\<open>counted_object::dispose\<close> inside \<^verbatim>\<open>release_refs\<close>, after the members' destructors, and the
  branch of \<^verbatim>\<open>decrement_ref_cnt\<close> that destroys.\<close>

definition release_end ::
  "ptr \<Rightarrow> (('v, 'x) counted_object_scheme, 'e) mm_scheme \<Rightarrow> error + 'c mm_call list \<times> (('v, 'x) counted_object_scheme, 'e) mm_scheme" where
  "release_end p s =
     with_object p s (\<lambda>ob. Inr ([C_destroy p], put_object p (dispose_end ob) s))"

definition decrement_weak_cnt ::
  "ptr \<Rightarrow> (('v, 'x) counted_object_scheme, 'e) mm_scheme \<Rightarrow> error + 'c mm_call list \<times> (('v, 'x) counted_object_scheme, 'e) mm_scheme" where
  "decrement_weak_cnt p s =
     (if p = nullptr then Inl (AssertionFailed ''ptr != nullptr'')
      else with_object p s (\<lambda>ob.
        let (n, ob1) = get_weak_count ob in
        if \<not> 1 \<le> n then Inl (AssertionFailed ''ptr->get_weak_count() >= 1'')
        else let (zero, ob2) = release_weak_refs 1 ob1 in
          Inr (if zero then [C_destroy p] else [], put_object p ob2 s)))"

definition delayed_decrement_ref_cnt ::
  "ptr \<Rightarrow> (('v, 'x) counted_object_scheme, 'e) mm_scheme \<Rightarrow> error + 'c mm_call list \<times> (('v, 'x) counted_object_scheme, 'e) mm_scheme" where
  "delayed_decrement_ref_cnt p s =
     with_object p s (\<lambda>ob.
       let (n, ob1) = get_use_count ob in
       if \<not> 1 \<le> n then Inl (AssertionFailed ''ptr->get_use_count() >= 1'')
       else Inr ([C_retire p RT_decrement_strong_count], put_object p ob1 s))"

definition delayed_decrement_weak_cnt ::
  "ptr \<Rightarrow> (('v, 'x) counted_object_scheme, 'e) mm_scheme \<Rightarrow> error + 'c mm_call list \<times> (('v, 'x) counted_object_scheme, 'e) mm_scheme" where
  "delayed_decrement_weak_cnt p s =
     with_object p s (\<lambda>ob.
       let (n, ob1) = get_weak_count ob in
       if \<not> 1 \<le> n then Inl (AssertionFailed ''ptr->get_weak_count() >= 1'')
       else Inr ([C_retire p RT_decrement_weak_count], put_object p ob1 s))"

text \<open>\<^verbatim>\<open>dispose\<close>: the assertion and the start of \<^verbatim>\<open>ptr->dispose()\<close>; then, after the members'
  destructors, its end and the release of the weak reference that the strong ones shared.\<close>

definition mm_dispose ::
  "ptr \<Rightarrow> (('v, 'x) counted_object_scheme, 'e) mm_scheme \<Rightarrow> error + 'c mm_call list \<times> (('v, 'x) counted_object_scheme, 'e) mm_scheme" where
  "mm_dispose p s =
     with_object p s (\<lambda>ob.
       let (n, ob1) = get_use_count ob in
       if n \<noteq> 0 then Inl (AssertionFailed ''ptr->get_use_count() == 0'')
       else (case dispose_begin ob1 of
               None \<Rightarrow> Inl (DoubleDispose p)
             | Some (ms, ob2) \<Rightarrow> Inr (members_dtor ms @ [C_dispose_end p], put_object p ob2 s)))"

definition mm_dispose_end ::
  "ptr \<Rightarrow> (('v, 'x) counted_object_scheme, 'e) mm_scheme \<Rightarrow> error + 'c mm_call list \<times> (('v, 'x) counted_object_scheme, 'e) mm_scheme" where
  "mm_dispose_end p s =
     with_object p s (\<lambda>ob.
       let (zero, ob1) = release_weak_refs 1 (dispose_end ob) in
       Inr (if zero then [C_destroy p] else [], put_object p ob1 s))"

definition mm_destroy ::
  "tid \<Rightarrow> ptr \<Rightarrow> (('v, 'x) counted_object_scheme, 'e) mm_scheme \<Rightarrow> error + 'c mm_call list \<times> (('v, 'x) counted_object_scheme, 'e) mm_scheme" where
  "mm_destroy t p s =
     with_object p s (\<lambda>ob.
       let (n, ob1) = get_use_count ob in
       if n \<noteq> 0 then Inl (AssertionFailed ''ptr->get_use_count() == 0'')
       else if \<not> disposed ob1 then Inl (AssertionFailed ''ptr->disposed.load() == true'')
       else Inr ([], delete_object t p s))"

text \<open>One call, with the scheme's \<^verbatim>\<open>retire\<close> and the steps of its own calls as parameters.\<close>

type_synonym ('s, 'c) retire_fn = "tid \<Rightarrow> ptr \<Rightarrow> RetireType \<Rightarrow> 's \<Rightarrow> error + 'c mm_call list \<times> 's"
type_synonym ('s, 'c) derived_fn = "tid \<Rightarrow> 'c \<Rightarrow> 's \<Rightarrow> error + 'c mm_call list \<times> 's"

fun mm_step ::
  "((('v, 'x) counted_object_scheme, 'e) mm_scheme, 'c) retire_fn \<Rightarrow>
   ((('v, 'x) counted_object_scheme, 'e) mm_scheme, 'c) derived_fn \<Rightarrow> tid \<Rightarrow> 'c mm_call \<Rightarrow>
   (('v, 'x) counted_object_scheme, 'e) mm_scheme \<Rightarrow>
   error + 'c mm_call list \<times> (('v, 'x) counted_object_scheme, 'e) mm_scheme" where
  "mm_step retire derived t (C_eject p type) s = mm_eject p type s"
| "mm_step retire derived t (C_decrement_ref_cnt p) s = decrement_ref_cnt p s"
| "mm_step retire derived t (C_decrement_weak_cnt p) s = decrement_weak_cnt p s"
| "mm_step retire derived t (C_delayed_decrement_ref_cnt p) s = delayed_decrement_ref_cnt p s"
| "mm_step retire derived t (C_delayed_decrement_weak_cnt p) s = delayed_decrement_weak_cnt p s"
| "mm_step retire derived t (C_dispose p) s = mm_dispose p s"
| "mm_step retire derived t (C_dispose_end p) s = mm_dispose_end p s"
| "mm_step retire derived t (C_release_end p) s = release_end p s"
| "mm_step retire derived t (C_destroy p) s = mm_destroy t p s"
| "mm_step retire derived t (C_retire p type) s = retire t p type s"
| "mm_step retire derived t (C_derived c) s = derived t c s"

section \<open>A measure for the calls\<close>

text \<open>
  Every call makes smaller calls, if an object that has still to be
  destroyed counts for the destructors of its members, a retired pointer for its eject, and one
  unit of amortized work for each retire. The weights are for the proof of termination only.
\<close>

fun entry_weight :: "RetireType \<Rightarrow> nat" where
  "entry_weight RT_decrement_strong_count = 11"
| "entry_weight RT_decrement_weak_count = 4"
| "entry_weight RT_dispose = 5"

fun member_weight :: "member \<Rightarrow> nat" where
  "member_weight (M_rc q) = 9"
| "member_weight (M_arc q) = 15"
| "member_weight (M_weak q) = 2"
| "member_weight (M_aweak q) = 8"

fun call_weight :: "('c \<Rightarrow> nat) \<Rightarrow> 'c mm_call \<Rightarrow> nat" where
  "call_weight w (C_eject p type) = entry_weight type - 1"
| "call_weight w (C_decrement_ref_cnt p) = 9"
| "call_weight w (C_decrement_weak_cnt p) = 2"
| "call_weight w (C_delayed_decrement_ref_cnt p) = 15"
| "call_weight w (C_delayed_decrement_weak_cnt p) = 8"
| "call_weight w (C_dispose p) = 3"
| "call_weight w (C_dispose_end p) = 2"
| "call_weight w (C_release_end p) = 2"
| "call_weight w (C_destroy p) = 1"
| "call_weight w (C_retire p type) = entry_weight type + 3"
| "call_weight w (C_derived c) = w c"

definition calls_weight :: "('c \<Rightarrow> nat) \<Rightarrow> 'c mm_call list \<Rightarrow> nat" where
  "calls_weight w cs = sum_list (map (call_weight w) cs)"

definition object_weight :: "('v, 'x) counted_object_scheme \<Rightarrow> nat" where
  "object_weight ob =
     (case storage ob of None \<Rightarrow> 0 | Some m \<Rightarrow> sum_list (map member_weight (members m)))"

definition heap_weight :: "(('v, 'x) counted_object_scheme, 'e) mm_scheme \<Rightarrow> nat" where
  "heap_weight s = fmsum (heap s) object_weight"

lemma calls_weight_simps [simp]:
  "calls_weight w [] = 0"
  "calls_weight w (c # cs) = call_weight w c + calls_weight w cs"
  "calls_weight w (cs @ cs') = calls_weight w cs + calls_weight w cs'"
  by (simp_all add: calls_weight_def)

lemma with_object_Inr:
  "with_object p s f = Inr r \<longleftrightarrow> (\<exists>ob. fmlookup (heap s) p = Some ob \<and> f ob = Inr r)"
  by (auto simp: with_object_def split: option.splits)

lemma members_dtor_weight: "calls_weight w (members_dtor ms) \<le> sum_list (map member_weight ms)"
proof -
  have "calls_weight w (member_dtor m) \<le> member_weight m" for m
    by (cases m) auto
  then have "calls_weight w (concat (map member_dtor ms')) \<le> sum_list (map member_weight ms')" for ms'
    by (induction ms') (auto intro: add_mono)
  from this [of "rev ms"] show ?thesis
    by (simp add: members_dtor_def rev_map [symmetric])
qed

lemma heap_weight_put:
  "fmlookup (heap s) p = Some ob \<Longrightarrow>
   heap_weight (put_object p ob' s) + object_weight ob = heap_weight s + object_weight ob'"
  by (simp add: heap_weight_def put_object_def fmsum_upd)

lemma heap_weight_delete: "heap_weight (delete_object t p s) \<le> heap_weight s"
proof (cases "fmlookup (heap s) p")
  case None
  then have "fmdrop p (heap s) = heap s" by (intro fmap_ext) auto
  then show ?thesis by (simp add: heap_weight_def delete_object_def decrement_allocations_def)
next
  case (Some ob)
  from fmsum_drop [OF this, of object_weight] show ?thesis
    by (simp add: heap_weight_def delete_object_def decrement_allocations_def)
qed

lemma object_ops_storage [simp]:
  "get_use_count ob = (n, ob') \<Longrightarrow> storage ob' = storage ob"
  "get_weak_count ob = (n, ob') \<Longrightarrow> storage ob' = storage ob"
  "release_refs c ob = (r, ob') \<Longrightarrow> storage ob' = storage ob"
  "release_weak_refs c ob = (z, ob') \<Longrightarrow> storage ob' = storage ob"
  "storage (dispose_end ob) = storage ob"
  by (auto simp: get_use_count_def get_weak_count_def release_refs_def release_weak_refs_def
      dispose_end_def Let_def split: prod.splits if_splits)

lemma object_ops_storage_snd [simp]:
  "storage (snd (get_use_count ob)) = storage ob"
  "storage (snd (get_weak_count ob)) = storage ob"
  "storage (snd (release_weak_refs c ob)) = storage ob"
  by (rule object_ops_storage(1,2,4) [OF surjective_pairing])+

lemma put_object_same_weight:
  "fmlookup (heap s) p = Some ob \<Longrightarrow> storage ob' = storage ob \<Longrightarrow>
   heap_weight (put_object p ob' s) = heap_weight s"
  using heap_weight_put [of s p ob ob'] by (simp add: object_weight_def)

lemma dispose_begin_weight:
  assumes "fmlookup (heap s) p = Some ob" and "storage ob1 = storage ob"
    and "dispose_begin ob1 = Some (ms, ob2)"
  shows "heap_weight (put_object p ob2 s) + calls_weight w (members_dtor ms) \<le> heap_weight s"
proof -
  from assms(3) obtain m where "storage ob1 = Some m" "ms = members m" "storage ob2 = None"
    by (auto simp: dispose_begin_def split: option.splits)
  then show ?thesis
    using heap_weight_put [OF assms(1), of ob2] members_dtor_weight [of w ms] assms(2)
    by (simp add: object_weight_def)
qed

text \<open>Every base call but \<^verbatim>\<open>retire\<close> makes the sum of the weights smaller.\<close>

lemma mm_step_weight:
  assumes "mm_step retire derived t c s = Inr (new, s')"
    and "\<And>p type. c \<noteq> C_retire p type" and "\<And>d. c \<noteq> C_derived d"
  shows "calls_weight w new + heap_weight s' < call_weight w c + heap_weight s"
proof (cases c)
  case (C_eject p type)
  with assms show ?thesis by (cases type) (auto simp: mm_eject_def split: if_splits)
next
  case (C_decrement_ref_cnt p)
  with assms(1) obtain ob where ob0: "fmlookup (heap s) p = Some ob"
    by (auto simp: decrement_ref_cnt_def with_object_Inr split: if_splits)
  obtain n ob1 r ob2 where ob: "get_use_count ob = (n, ob1)" "release_refs 1 ob1 = (r, ob2)"
    by (metis surj_pair)
  have step: "(case r of
             EA_destroy \<Rightarrow>
               (case dispose_begin ob2 of
                  None \<Rightarrow> Inl (DoubleDispose p)
                | Some (ms, ob3) \<Rightarrow> Inr (members_dtor ms @ [C_release_end p], put_object p ob3 s))
           | EA_delay \<Rightarrow> Inr ([C_retire p RT_dispose], put_object p ob2 s)
           | EA_nothing \<Rightarrow> Inr ([], put_object p ob2 s)) = Inr (new, s')"
    using assms(1) C_decrement_ref_cnt ob0 ob
    by (auto simp: decrement_ref_cnt_def with_object_def split: if_splits)
  have st: "storage ob2 = storage ob" using ob by simp
  show ?thesis using step dispose_begin_weight [OF ob0 st, of _ _ w] put_object_same_weight [OF ob0 st]
    by (auto simp: C_decrement_ref_cnt split: EjectAction.splits option.splits)
next
  case (C_dispose p)
  with assms(1) obtain ob where ob0: "fmlookup (heap s) p = Some ob"
    by (auto simp: mm_dispose_def with_object_Inr)
  obtain n ob1 where ob1: "get_use_count ob = (n, ob1)" by (metis surj_pair)
  with assms(1) C_dispose ob0 obtain ms ob2 where ob: "dispose_begin ob1 = Some (ms, ob2)"
      "new = members_dtor ms @ [C_dispose_end p]" "s' = put_object p ob2 s"
    by (auto simp: mm_dispose_def with_object_def split: if_splits option.splits)
  then show ?thesis using dispose_begin_weight [OF ob0 _ ob(1), of w] C_dispose ob1 by simp
next
  case (C_destroy p)
  with assms(1) obtain ob where ob0: "fmlookup (heap s) p = Some ob"
    by (auto simp: mm_destroy_def with_object_Inr)
  obtain n ob1 where "get_use_count ob = (n, ob1)" by (metis surj_pair)
  with assms(1) C_destroy ob0 show ?thesis using heap_weight_delete [of t p s]
    by (auto simp: mm_destroy_def with_object_def split: if_splits)
next
  case (C_decrement_weak_cnt p)
  with assms show ?thesis
    by (auto simp: decrement_weak_cnt_def with_object_Inr put_object_same_weight case_prod_beta Let_def split: if_splits)
next
  case (C_delayed_decrement_ref_cnt p)
  with assms show ?thesis
    by (auto simp: delayed_decrement_ref_cnt_def with_object_Inr put_object_same_weight case_prod_beta Let_def split: if_splits)
next
  case (C_delayed_decrement_weak_cnt p)
  with assms show ?thesis
    by (auto simp: delayed_decrement_weak_cnt_def with_object_Inr put_object_same_weight case_prod_beta Let_def split: if_splits)
next
  case (C_dispose_end p)
  with assms show ?thesis
    by (auto simp: mm_dispose_end_def with_object_Inr put_object_same_weight case_prod_beta Let_def split: if_splits)
next
  case (C_release_end p)
  with assms show ?thesis
    by (auto simp: release_end_def with_object_Inr put_object_same_weight case_prod_beta Let_def split: if_splits)
qed (use assms in auto)


section \<open>Tokens: who owns what\<close>

text \<open>
  A token is one unit of ownership of an object: a strong or a weak reference, or the duty to dispose it
  (once the last strong reference is gone while weak ones remain), to finish a disposal, or to
  delete it.
\<close>

datatype tkind = T_strong | T_weak | T_dispose | T_dispose_end | T_release_end | T_destroy

type_synonym tokens = "(tkind \<times> ptr) multiset"

fun retire_kind :: "RetireType \<Rightarrow> tkind" where
  "retire_kind RT_decrement_strong_count = T_strong"
| "retire_kind RT_decrement_weak_count = T_weak"
| "retire_kind RT_dispose = T_dispose"

definition entry_token :: "ptr \<times> RetireType \<Rightarrow> tkind \<times> ptr" where
  "entry_token e = (retire_kind (snd e), fst e)"

fun call_tokens :: "('c \<Rightarrow> tokens) \<Rightarrow> 'c mm_call \<Rightarrow> tokens" where
  "call_tokens w (C_eject p type) = {#(retire_kind type, p)#}"
| "call_tokens w (C_decrement_ref_cnt p) = {#(T_strong, p)#}"
| "call_tokens w (C_decrement_weak_cnt p) = {#(T_weak, p)#}"
| "call_tokens w (C_delayed_decrement_ref_cnt p) = {#(T_strong, p)#}"
| "call_tokens w (C_delayed_decrement_weak_cnt p) = {#(T_weak, p)#}"
| "call_tokens w (C_dispose p) = {#(T_dispose, p)#}"
| "call_tokens w (C_dispose_end p) = {#(T_dispose_end, p)#}"
| "call_tokens w (C_release_end p) = {#(T_release_end, p)#}"
| "call_tokens w (C_destroy p) = {#(T_destroy, p)#}"
| "call_tokens w (C_retire p type) = {#(retire_kind type, p)#}"
| "call_tokens w (C_derived c) = w c"

definition calls_tokens :: "('c \<Rightarrow> tokens) \<Rightarrow> 'c mm_call list \<Rightarrow> tokens" where
  "calls_tokens w cs = sum_list (map (call_tokens w) cs)"

fun member_tokens :: "member \<Rightarrow> tokens" where
  "member_tokens (M_rc q) = (if q \<noteq> nullptr then {#(T_strong, q)#} else {#})"
| "member_tokens (M_arc q) = (if q \<noteq> nullptr then {#(T_strong, q)#} else {#})"
| "member_tokens (M_weak q) = (if q \<noteq> nullptr then {#(T_weak, q)#} else {#})"
| "member_tokens (M_aweak q) = (if q \<noteq> nullptr then {#(T_weak, q)#} else {#})"

definition members_tokens :: "member list \<Rightarrow> tokens" where
  "members_tokens ms = sum_list (map member_tokens ms)"

definition object_tokens :: "('v, 'x) counted_object_scheme \<Rightarrow> tokens" where
  "object_tokens ob = (case storage ob of None \<Rightarrow> {#} | Some m \<Rightarrow> members_tokens (members m))"

definition heap_tokens :: "(('v, 'x) counted_object_scheme, 'e) mm_scheme \<Rightarrow> tokens" where
  "heap_tokens s = fmsum (heap s) object_tokens"

text \<open>The weak count is the number of weak references and one for all strong references together, which
  passes to the duty of disposal when the last strong reference goes.\<close>

definition weak_total :: "(tkind \<Rightarrow> nat) \<Rightarrow> nat" where
  "weak_total c = c T_weak + (if 0 < c T_strong then 1 else 0) + c T_dispose + c T_dispose_end"

definition object_ok :: "('v, 'x) counted_object_scheme \<Rightarrow> (tkind \<Rightarrow> nat) \<Rightarrow> bool" where
  "object_ok ob c \<longleftrightarrow>
     strong_rep ob (c T_strong) \<and>
     c T_dispose + c T_dispose_end + c T_release_end + c T_destroy + (if 0 < c T_strong then 1 else 0) \<le> 1 \<and>
     (if c T_release_end = 0 \<and> c T_destroy = 0 then 0 < weak_total c \<and> weak_rep ob (weak_total c)
      else c T_weak = 0) \<and>
     (storage ob \<noteq> None \<longleftrightarrow> 0 < c T_strong + c T_dispose) \<and>
     (disposed ob \<longleftrightarrow> storage ob = None \<and> c T_dispose_end = 0 \<and> c T_release_end = 0)"

definition token_count :: "tokens \<Rightarrow> ptr \<Rightarrow> tkind \<Rightarrow> nat" where
  "token_count T p k = count T (k, p)"

definition mm_inv :: "tokens \<Rightarrow> (('v, 'x) counted_object_scheme, 'e) mm_scheme \<Rightarrow> bool" where
  "mm_inv T s \<longleftrightarrow>
     (\<forall>p. case fmlookup (heap s) p of
            None \<Rightarrow> (\<forall>k. token_count T p k = 0)
          | Some ob \<Rightarrow> p \<noteq> nullptr \<and> object_ok ob (token_count T p))"

section \<open>Every call keeps the accounts\<close>

lemma calls_tokens_simps [simp]:
  "calls_tokens w [] = {#}"
  "calls_tokens w (c # cs) = call_tokens w c + calls_tokens w cs"
  "calls_tokens w (cs @ cs') = calls_tokens w cs + calls_tokens w cs'"
  by (simp_all add: calls_tokens_def)

lemma token_count_simps [simp]:
  "token_count (A + B) p k = token_count A p k + token_count B p k"
  "token_count {#} p k = 0"
  "token_count {#(k', q)#} p k = (if k' = k \<and> q = p then 1 else 0)"
  "token_count (add_mset (k', q) A) p k = (if k' = k \<and> q = p then 1 else 0) + token_count A p k"
  by (auto simp: token_count_def)

lemma token_count_sum: "token_count (A + B) p = (\<lambda>k. token_count A p k + token_count B p k)"
  by (simp add: fun_eq_iff)

lemma members_dtor_tokens: "calls_tokens w (members_dtor ms) = members_tokens ms"
proof -
  have "calls_tokens w (member_dtor m) = member_tokens m" for m
    by (cases m) auto
  then have "calls_tokens w (concat (map member_dtor ms')) = members_tokens ms'" for ms'
    by (induction ms') (auto simp: members_tokens_def)
  from this [of "rev ms"] show ?thesis
    by (simp add: members_dtor_def members_tokens_def rev_map [symmetric] sum_list_rev)
qed

lemma heap_tokens_put:
  "fmlookup (heap s) p = Some ob \<Longrightarrow>
   heap_tokens (put_object p ob' s) + object_tokens ob = heap_tokens s + object_tokens ob'"
  by (simp add: heap_tokens_def put_object_def fmsum_upd)

lemma heap_tokens_put_same:
  "fmlookup (heap s) p = Some ob \<Longrightarrow> storage ob' = storage ob \<Longrightarrow>
   heap_tokens (put_object p ob' s) = heap_tokens s"
  using heap_tokens_put [of s p ob ob'] by (simp add: object_tokens_def)

lemma mm_invD:
  "mm_inv T s \<Longrightarrow> 0 < token_count T p k \<Longrightarrow>
   \<exists>ob. fmlookup (heap s) p = Some ob \<and> p \<noteq> nullptr \<and> object_ok ob (token_count T p)"
  by (auto simp: mm_inv_def split: option.splits) (metis neq0_conv option.exhaust)

lemma mm_inv_put:
  assumes "mm_inv T s" and "fmlookup (heap s) p = Some ob"
    and "object_ok ob' (token_count T' p)" and "\<And>q. q \<noteq> p \<Longrightarrow> token_count T' q = token_count T q"
  shows "mm_inv T' (put_object p ob' s)"
  unfolding mm_inv_def
proof
  fix q
  have "case fmlookup (heap s) q of None \<Rightarrow> \<forall>k. token_count T q k = 0
      | Some ob \<Rightarrow> q \<noteq> nullptr \<and> object_ok ob (token_count T q)" for q
    using assms(1) by (simp add: mm_inv_def)
  from this [of p] this [of q] assms(2,3) assms(4) [of q]
  show "case fmlookup (heap (put_object p ob' s)) q of None \<Rightarrow> \<forall>k. token_count T' q k = 0
      | Some ob \<Rightarrow> q \<noteq> nullptr \<and> object_ok ob (token_count T' q)"
    by (cases "q = p"; cases "fmlookup (heap s) q") (simp_all add: put_object_def)
qed

text \<open>The tokens outside the heap account for everything together with those inside.\<close>

definition mm_ok :: "tokens \<Rightarrow> (('v, 'x) counted_object_scheme, 'e) mm_scheme \<Rightarrow> bool" where
  "mm_ok R s \<longleftrightarrow> mm_inv (R + heap_tokens s) s"

lemma mm_ok_object:
  assumes "mm_ok (add_mset (k, p) R) s"
  obtains ob c where "fmlookup (heap s) p = Some ob" "p \<noteq> nullptr"
    "c = token_count (R + heap_tokens s) p" "object_ok ob (c(k := Suc (c k)))"
proof -
  let ?c = "token_count (R + heap_tokens s) p"
  have "token_count (add_mset (k, p) R + heap_tokens s) p = ?c(k := Suc (?c k))"
    by (auto simp: fun_eq_iff)
  with mm_invD [OF assms [unfolded mm_ok_def], of p k] that show thesis by auto
qed

text \<open>An update of an object that spends one token and gives out the tokens \<open>K\<close> of the same
  object, with the members \<open>M\<close> that left the heap.\<close>

lemma mm_ok_replace:
  assumes ok: "mm_ok (add_mset (k, p) R) s" and ob: "fmlookup (heap s) p = Some ob"
    and M: "object_tokens ob = object_tokens ob' + M" and K: "\<And>q. q \<noteq> p \<Longrightarrow> token_count K q = (\<lambda>_. 0)"
    and obk: "object_ok ob' (\<lambda>j. token_count K p j + token_count (R + heap_tokens s) p j)"
  shows "mm_ok (K + M + R) (put_object p ob' s)"
proof -
  have heap: "heap_tokens s = heap_tokens (put_object p ob' s) + M"
    using heap_tokens_put [OF ob, of ob'] M by (simp add: ac_simps)
  then have T: "K + M + R + heap_tokens (put_object p ob' s) = K + R + heap_tokens s"
    by (simp add: ac_simps)
  show ?thesis
    unfolding mm_ok_def T using ok K obk
    by (intro mm_inv_put [OF ok [unfolded mm_ok_def] ob]) (auto simp: fun_eq_iff token_count_sum ac_simps)
qed

lemmas mm_ok_update = mm_ok_replace [where M = "{#}", simplified]

text \<open>What a call must do: it does not fail, and the calls it makes account for its token.\<close>

definition spends ::
  "('c \<Rightarrow> tokens) \<Rightarrow> tkind \<times> ptr \<Rightarrow> ((('v, 'x) counted_object_scheme, 'e) mm_scheme \<Rightarrow>
     error + 'c mm_call list \<times> (('v, 'x) counted_object_scheme, 'e) mm_scheme) \<Rightarrow> bool" where
  "spends w tok f \<longleftrightarrow>
     (\<forall>R s. mm_ok (add_mset tok R) s \<longrightarrow>
        (\<exists>new s'. f s = Inr (new, s') \<and> mm_ok (calls_tokens w new + R) s' \<and> mm.more s' = mm.more s))"

lemma spendsI:
  assumes "\<And>R s. mm_ok (add_mset tok R) s \<Longrightarrow>
      \<exists>new s'. f s = Inr (new, s') \<and> mm_ok (calls_tokens w new + R) s' \<and> mm.more s' = mm.more s"
  shows "spends w tok f"
  using assms by (auto simp: spends_def)

lemma spendsD:
  "spends w tok f \<Longrightarrow> mm_ok (add_mset tok R) s \<Longrightarrow>
   \<exists>new s'. f s = Inr (new, s') \<and> mm_ok (calls_tokens w new + R) s' \<and> mm.more s' = mm.more s"
  by (simp add: spends_def)

lemma more_put_object [simp]: "mm.more (put_object p ob s) = mm.more s"
  by (simp add: put_object_def)

lemma put_object_same: "fmlookup (heap s) p = Some ob \<Longrightarrow> put_object p ob s = s"
  by (cases s) (auto simp: put_object_def intro!: fmap_ext)

lemma eject_spends:
  fixes w :: "'c \<Rightarrow> tokens"
  shows "spends w (retire_kind type, p) (mm_eject p type)"
proof (rule spendsI)
  fix R and s :: "(('v, 'x) counted_object_scheme, 'e) mm_scheme"
  assume ok: "mm_ok (add_mset (retire_kind type, p) R) s"
  then obtain ob c where "p \<noteq> nullptr" by (rule mm_ok_object)
  with ok show "\<exists>new s'. mm_eject p type s = Inr (new, s') \<and> mm_ok (calls_tokens w new + R) s' \<and>
      mm.more s' = mm.more s"
    by (cases type) (auto simp: mm_eject_def)
qed

lemma decrement_ref_cnt_spends:
  fixes w :: "'c \<Rightarrow> tokens"
  shows "spends w (T_strong, p) (decrement_ref_cnt p)"
proof (rule spendsI)
  fix R and s :: "(('v, 'x) counted_object_scheme, 'e) mm_scheme"
  assume ok: "mm_ok (add_mset (T_strong, p) R) s"
  then obtain ob c where ob: "fmlookup (heap s) p = Some ob" "p \<noteq> nullptr"
      and c: "c = token_count (R + heap_tokens s) p" "object_ok ob (c(T_strong := Suc (c T_strong)))"
    by (rule mm_ok_object)
  let ?n = "Suc (c T_strong)" and ?m = "Suc (c T_weak)"
  have rep: "strong_rep ob ?n" "weak_rep ob ?m" and z: "c T_dispose = 0" "c T_dispose_end = 0"
      "c T_release_end = 0" "c T_destroy = 0"
    and st: "storage ob \<noteq> None" "\<not> disposed ob"
    using c(2) by (auto simp: object_ok_def weak_total_def)
  obtain x where x: "release_refs 1 ob =
      (if c T_strong = 0 then (if c T_weak = 0 then EA_destroy else EA_delay) else EA_nothing, ob\<lparr>ref_cnt := x\<rparr>)"
      "sc_rep x (c T_strong)"
    using release_refs_rep [OF rep(1) _ rep(2)] by (auto cong: if_cong)
  let ?ob = "ob\<lparr>ref_cnt := x\<rparr>"
  from st obtain m where m: "storage ob = Some m" by auto
  let ?cont = "case fst (release_refs 1 ob) of
             EA_destroy \<Rightarrow>
               (case dispose_begin ?ob of
                  None \<Rightarrow> Inl (DoubleDispose p)
                | Some (ms, ob3) \<Rightarrow> Inr (members_dtor ms @ [C_release_end p :: 'c mm_call], put_object p ob3 s))
           | EA_delay \<Rightarrow> Inr ([C_retire p RT_dispose], put_object p ?ob s)
           | EA_nothing \<Rightarrow> Inr ([], put_object p ?ob s)"
  have run: "decrement_ref_cnt p s = ?cont"
    using ob count_zero_iff(1) [OF rep(1)]
    by (simp add: decrement_ref_cnt_def with_object_def get_use_count_rep [OF rep(1)] x(1) one_le_u32 del: of_nat_Suc)
  have obt: "object_tokens ob = object_tokens ?ob"
    by (simp add: object_tokens_def)
  consider (more) "0 < c T_strong" | (delay) "c T_strong = 0" "0 < c T_weak" | (last) "c T_strong = 0" "c T_weak = 0"
    by auto
  then show "\<exists>new s'. decrement_ref_cnt p s = Inr (new, s') \<and> mm_ok (calls_tokens w new + R) s' \<and>
      mm.more s' = mm.more s"
  proof cases
    case more
    have "object_ok ?ob c"
      using more rep z st x(2) m by (simp add: object_ok_def weak_total_def rep_defs)
    then have "mm_ok R (put_object p ?ob s)"
      using mm_ok_update [OF ok ob(1), of ?ob "{#}"] obt by (simp add: c(1) fun_eq_iff token_count_sum)
    with more x(1) show ?thesis unfolding run by simp
  next
    case delay
    have "object_ok ?ob (\<lambda>j. token_count {#(T_dispose, p)#} p j + c j)"
      using delay rep z st x(2) m by (simp add: object_ok_def weak_total_def rep_defs)
    then have "mm_ok ({#(T_dispose, p)#} + R) (put_object p ?ob s)"
      by (intro mm_ok_update [OF ok ob(1)] obt) (auto simp: c(1) fun_eq_iff)
    with delay x(1) show ?thesis unfolding run by simp
  next
    case last
    let ?ob' = "?ob\<lparr>storage := None\<rparr>" and ?M = "members_tokens (members m)"
    have "object_ok ?ob' (\<lambda>j. token_count {#(T_release_end, p)#} p j + c j)"
      using last rep z st x(2) m by (simp add: object_ok_def weak_total_def rep_defs)
    then have "mm_ok ({#(T_release_end, p)#} + ?M + R) (put_object p ?ob' s)"
      using m by (intro mm_ok_replace [OF ok ob(1)]) (auto simp: c(1) fun_eq_iff object_tokens_def)
    with last x(1) m show ?thesis
      unfolding run by (simp add: dispose_begin_def members_dtor_tokens)
  qed
qed

text \<open>Releasing one weak reference, from a weak pointer or at the end of a disposal.\<close>

lemma release_weak_object_ok:
  assumes "object_ok ob (c(k := Suc (c k)))"
    and "k = T_weak \<and> ob' = ob \<or> k = T_dispose_end \<and> ob' = dispose_end ob" and "sc_rep x (weak_total c)"
    and wt: "weak_total (c(k := Suc (c k))) = Suc (weak_total c)"
  shows "object_ok (ob'\<lparr>weak_cnt := x\<rparr>) (if weak_total c = 0 then c(T_destroy := Suc (c T_destroy)) else c)"
  using assms(2)
proof
  assume k: "k = T_weak \<and> ob' = ob"
  then have z: "c T_release_end = 0" "c T_destroy = 0"
    using assms(1) by (simp_all add: object_ok_def split: if_splits)
  with assms k show ?thesis
    by (cases "weak_total c = 0") (simp_all add: object_ok_def rep_defs, simp_all add: weak_total_def split: if_splits)
next
  assume k: "k = T_dispose_end \<and> ob' = dispose_end ob"
  then have z: "c T_release_end = 0" "c T_destroy = 0" "c T_dispose = 0" "c T_strong = 0" "c T_dispose_end = 0"
    using assms(1) by (auto simp: object_ok_def split: if_splits)
  with assms k show ?thesis
    by (cases "weak_total c = 0")
      (simp_all add: object_ok_def rep_defs dispose_end_def, simp_all add: weak_total_def split: if_splits)
qed

lemma object_ok_weak:
  "object_ok ob c \<Longrightarrow> 0 < c T_weak \<or> 0 < c T_dispose_end \<Longrightarrow> 0 < weak_total c \<and> weak_rep ob (weak_total c)"
  by (auto simp: object_ok_def split: if_splits)

lemma release_weak_spends:
  assumes ok: "mm_ok (add_mset (k, p) R) s" and k: "k = T_weak \<and> ob' = ob \<or> k = T_dispose_end \<and> ob' = dispose_end ob"
    and ob: "fmlookup (heap s) p = Some ob" and rel: "release_weak_refs 1 ob' = (zero, ob2)"
  shows "mm_ok (calls_tokens w (if zero then [C_destroy p] else []) + R) (put_object p ob2 s)"
proof -
  obtain c where c: "c = token_count (R + heap_tokens s) p" "object_ok ob (c(k := Suc (c k)))"
    using ok ob by (auto elim!: mm_ok_object)
  have wt: "weak_total (c(k := Suc (c k))) = Suc (weak_total c)"
    using k by (auto simp: weak_total_def)
  have rep: "weak_rep ob' (Suc (weak_total c))"
    using object_ok_weak [OF c(2)] k unfolding wt by (auto simp: rep_defs dispose_end_def)
  then obtain x where x: "zero = (weak_total c = 0)" "ob2 = ob'\<lparr>weak_cnt := x\<rparr>" "sc_rep x (weak_total c)"
    using release_weak_refs_rep [OF rep] rel by auto
  let ?K = "if zero then {#(T_destroy, p)#} else {#}"
  have K: "(\<lambda>j. token_count ?K p j + c j) = (if weak_total c = 0 then c(T_destroy := Suc (c T_destroy)) else c)"
    by (auto simp: x(1) fun_eq_iff)
  have "object_ok ob2 (\<lambda>j. token_count ?K p j + c j)"
    unfolding K x(2) by (rule release_weak_object_ok [OF c(2) k x(3) wt])
  moreover have "object_tokens ob = object_tokens ob2"
    using k x(2) by (auto simp: object_tokens_def dispose_end_def)
  ultimately have "mm_ok (?K + R) (put_object p ob2 s)"
    by (intro mm_ok_update [OF ok ob]) (auto simp: c(1) fun_eq_iff)
  then show ?thesis by (cases zero) simp_all
qed

lemma decrement_weak_cnt_spends:
  fixes w :: "'c \<Rightarrow> tokens"
  shows "spends w (T_weak, p) (decrement_weak_cnt p)"
proof (rule spendsI)
  fix R and s :: "(('v, 'x) counted_object_scheme, 'e) mm_scheme"
  assume ok: "mm_ok (add_mset (T_weak, p) R) s"
  then obtain ob c where ob: "fmlookup (heap s) p = Some ob" "p \<noteq> nullptr"
      and c: "object_ok ob (c(T_weak := Suc (c T_weak)))"
    by (rule mm_ok_object)
  then have rep: "weak_rep ob (weak_total (c(T_weak := Suc (c T_weak))))"
      "0 < weak_total (c(T_weak := Suc (c T_weak)))"
    by (auto simp: object_ok_def split: if_splits)
  obtain zero ob2 where rel: "release_weak_refs 1 ob = (zero, ob2)" by (metis surj_pair)
  have "decrement_weak_cnt p s = Inr (if zero then [C_destroy p :: 'c mm_call] else [], put_object p ob2 s)"
    using ob rep count_zero_iff(2) [OF rep(1)]
    by (simp add: decrement_weak_cnt_def with_object_def get_weak_count_rep [OF rep(1)] rel one_le_u32)
  with release_weak_spends [OF ok _ ob(1) rel, of w]
  show "\<exists>new s'. decrement_weak_cnt p s = Inr (new, s') \<and> mm_ok (calls_tokens w new + R) s' \<and>
      mm.more s' = mm.more s" by simp
qed

lemma delayed_decrement_ref_cnt_spends:
  fixes w :: "'c \<Rightarrow> tokens"
  shows "spends w (T_strong, p) (delayed_decrement_ref_cnt p)"
proof (rule spendsI)
  fix R and s :: "(('v, 'x) counted_object_scheme, 'e) mm_scheme"
  assume ok: "mm_ok (add_mset (T_strong, p) R) s"
  then obtain ob c where ob: "fmlookup (heap s) p = Some ob" "p \<noteq> nullptr"
      and c: "object_ok ob (c(T_strong := Suc (c T_strong)))"
    by (rule mm_ok_object)
  then have rep: "strong_rep ob (Suc (c T_strong))" by (simp add: object_ok_def)
  have "delayed_decrement_ref_cnt p s = Inr ([C_retire p RT_decrement_strong_count :: 'c mm_call], s)"
    using ob count_zero_iff(1) [OF rep]
    by (simp add: delayed_decrement_ref_cnt_def with_object_def get_use_count_rep [OF rep] one_le_u32
        put_object_same del: of_nat_Suc)
  with ok show "\<exists>new s'. delayed_decrement_ref_cnt p s = Inr (new, s') \<and> mm_ok (calls_tokens w new + R) s' \<and>
      mm.more s' = mm.more s" by simp
qed

lemma delayed_decrement_weak_cnt_spends:
  fixes w :: "'c \<Rightarrow> tokens"
  shows "spends w (T_weak, p) (delayed_decrement_weak_cnt p)"
proof (rule spendsI)
  fix R and s :: "(('v, 'x) counted_object_scheme, 'e) mm_scheme"
  assume ok: "mm_ok (add_mset (T_weak, p) R) s"
  then obtain ob c where ob: "fmlookup (heap s) p = Some ob" "p \<noteq> nullptr"
      and c: "object_ok ob (c(T_weak := Suc (c T_weak)))"
    by (rule mm_ok_object)
  then have rep: "weak_rep ob (weak_total (c(T_weak := Suc (c T_weak))))"
      "0 < weak_total (c(T_weak := Suc (c T_weak)))"
    by (auto simp: object_ok_def split: if_splits)
  have "delayed_decrement_weak_cnt p s = Inr ([C_retire p RT_decrement_weak_count :: 'c mm_call], s)"
    using ob count_zero_iff(2) [OF rep(1)] rep(2)
    by (simp add: delayed_decrement_weak_cnt_def with_object_def get_weak_count_rep [OF rep(1)] one_le_u32
        put_object_same)
  with ok show "\<exists>new s'. delayed_decrement_weak_cnt p s = Inr (new, s') \<and> mm_ok (calls_tokens w new + R) s' \<and>
      mm.more s' = mm.more s" by simp
qed

lemma dispose_spends:
  fixes w :: "'c \<Rightarrow> tokens"
  shows "spends w (T_dispose, p) (mm_dispose p)"
proof (rule spendsI)
  fix R and s :: "(('v, 'x) counted_object_scheme, 'e) mm_scheme"
  assume ok: "mm_ok (add_mset (T_dispose, p) R) s"
  then obtain ob c where ob: "fmlookup (heap s) p = Some ob"
      and c: "c = token_count (R + heap_tokens s) p" "object_ok ob (c(T_dispose := Suc (c T_dispose)))"
    by (rule mm_ok_object)
  have rep: "strong_rep ob 0" using c(2) by (auto simp: object_ok_def split: if_splits)
  from c(2) obtain m where m: "storage ob = Some m" by (auto simp: object_ok_def)
  let ?ob = "ob\<lparr>storage := None\<rparr>" and ?M = "members_tokens (members m)"
  have "object_ok ?ob (\<lambda>j. token_count {#(T_dispose_end, p)#} p j + c j)"
    using c(2) m by (auto simp: object_ok_def weak_total_def rep_defs split: if_splits)
  then have "mm_ok ({#(T_dispose_end, p)#} + ?M + R) (put_object p ?ob s)"
    using m by (intro mm_ok_replace [OF ok ob]) (auto simp: c(1) fun_eq_iff object_tokens_def)
  moreover have "mm_dispose p s = Inr (members_dtor (members m) @ [C_dispose_end p :: 'c mm_call], put_object p ?ob s)"
    using ob m by (simp add: mm_dispose_def with_object_def get_use_count_rep [OF rep] dispose_begin_def)
  ultimately show "\<exists>new s'. mm_dispose p s = Inr (new, s') \<and> mm_ok (calls_tokens w new + R) s' \<and>
      mm.more s' = mm.more s" by (simp add: members_dtor_tokens)
qed

lemma dispose_end_spends:
  fixes w :: "'c \<Rightarrow> tokens"
  shows "spends w (T_dispose_end, p) (mm_dispose_end p)"
proof (rule spendsI)
  fix R and s :: "(('v, 'x) counted_object_scheme, 'e) mm_scheme"
  assume ok: "mm_ok (add_mset (T_dispose_end, p) R) s"
  then obtain ob c where ob: "fmlookup (heap s) p = Some ob" by (rule mm_ok_object)
  obtain zero ob2 where rel: "release_weak_refs 1 (dispose_end ob) = (zero, ob2)" by (metis surj_pair)
  have "mm_dispose_end p s = Inr (if zero then [C_destroy p :: 'c mm_call] else [], put_object p ob2 s)"
    using ob by (simp add: mm_dispose_end_def with_object_def rel)
  with release_weak_spends [OF ok _ ob rel, of w]
  show "\<exists>new s'. mm_dispose_end p s = Inr (new, s') \<and> mm_ok (calls_tokens w new + R) s' \<and>
      mm.more s' = mm.more s" by simp
qed

lemma release_end_spends:
  fixes w :: "'c \<Rightarrow> tokens"
  shows "spends w (T_release_end, p) (release_end p)"
proof (rule spendsI)
  fix R and s :: "(('v, 'x) counted_object_scheme, 'e) mm_scheme"
  assume ok: "mm_ok (add_mset (T_release_end, p) R) s"
  then obtain ob c where ob: "fmlookup (heap s) p = Some ob"
      and c: "c = token_count (R + heap_tokens s) p" "object_ok ob (c(T_release_end := Suc (c T_release_end)))"
    by (rule mm_ok_object)
  have "object_ok (dispose_end ob) (\<lambda>j. token_count {#(T_destroy, p)#} p j + c j)"
    using c(2) by (auto simp: object_ok_def dispose_end_def rep_defs split: if_splits)
  then have "mm_ok ({#(T_destroy, p)#} + R) (put_object p (dispose_end ob) s)"
    by (intro mm_ok_update [OF ok ob]) (auto simp: c(1) fun_eq_iff object_tokens_def)
  moreover have "release_end p s = Inr ([C_destroy p :: 'c mm_call], put_object p (dispose_end ob) s)"
    using ob by (simp add: release_end_def with_object_def)
  ultimately show "\<exists>new s'. release_end p s = Inr (new, s') \<and> mm_ok (calls_tokens w new + R) s' \<and>
      mm.more s' = mm.more s" by simp
qed

lemma mm_ok_delete:
  assumes ok: "mm_ok (add_mset (T_destroy, p) R) s" and ob: "fmlookup (heap s) p = Some ob"
  shows "mm_ok R (delete_object t p s)"
proof -
  obtain c where c: "c = token_count (R + heap_tokens s) p" "object_ok ob (c(T_destroy := Suc (c T_destroy)))"
    using ok ob by (auto elim!: mm_ok_object)
  have st: "object_tokens ob = {#}" and z: "c T_strong = 0" "c T_weak = 0" "c T_dispose = 0"
      "c T_dispose_end = 0" "c T_release_end = 0" "c T_destroy = 0"
    using c(2) by (auto simp: object_ok_def object_tokens_def split: if_splits option.splits)
  have zero: "token_count (R + heap_tokens s) p k = 0" for k
    using z by (cases k) (simp_all add: c(1))
  have eq: "heap_tokens (delete_object t p s) = heap_tokens s"
    using fmsum_drop [OF ob, of object_tokens] st
    by (simp add: heap_tokens_def delete_object_def decrement_allocations_def)
  show ?thesis
    unfolding mm_ok_def eq mm_inv_def
  proof
    fix q
    have "case fmlookup (heap s) q of None \<Rightarrow> \<forall>k. token_count (add_mset (T_destroy, p) R + heap_tokens s) q k = 0
        | Some ob \<Rightarrow> q \<noteq> nullptr \<and> object_ok ob (token_count (add_mset (T_destroy, p) R + heap_tokens s) q)"
      using ok unfolding mm_ok_def mm_inv_def by blast
    moreover have "q \<noteq> p \<Longrightarrow> token_count (add_mset (T_destroy, p) R + heap_tokens s) q = token_count (R + heap_tokens s) q"
      by (simp add: fun_eq_iff)
    ultimately show "case fmlookup (heap (delete_object t p s)) q of
          None \<Rightarrow> \<forall>k. token_count (R + heap_tokens s) q k = 0
        | Some ob \<Rightarrow> q \<noteq> nullptr \<and> object_ok ob (token_count (R + heap_tokens s) q)"
      using zero by (cases "q = p"; cases "fmlookup (heap s) q")
        (simp_all add: delete_object_def decrement_allocations_def)
  qed
qed

lemma destroy_spends:
  fixes w :: "'c \<Rightarrow> tokens"
  shows "spends w (T_destroy, p) (mm_destroy t p)"
proof (rule spendsI)
  fix R and s :: "(('v, 'x) counted_object_scheme, 'e) mm_scheme"
  assume ok: "mm_ok (add_mset (T_destroy, p) R) s"
  then obtain ob c where ob: "fmlookup (heap s) p = Some ob"
      and c: "object_ok ob (c(T_destroy := Suc (c T_destroy)))"
    by (rule mm_ok_object)
  then have rep: "strong_rep ob 0" "disposed ob" by (auto simp: object_ok_def split: if_splits)
  have "mm_destroy t p s = Inr ([] :: 'c mm_call list, delete_object t p s)"
    using ob rep by (simp add: mm_destroy_def with_object_def get_use_count_rep [OF rep(1)])
  with mm_ok_delete [OF ok ob]
  show "\<exists>new s'. mm_destroy t p s = Inr (new, s') \<and> mm_ok (calls_tokens w new + R) s' \<and>
      mm.more s' = mm.more s" by (simp add: delete_object_def decrement_allocations_def)
qed

lemmas spends_rules = eject_spends decrement_ref_cnt_spends decrement_weak_cnt_spends
  delayed_decrement_ref_cnt_spends delayed_decrement_weak_cnt_spends dispose_spends
  dispose_end_spends release_end_spends destroy_spends

text \<open>Every call of the base class: it does not fail and it keeps the accounts.\<close>

lemma mm_step_ok:
  assumes "mm_ok (call_tokens w c + R) s"
    and "\<And>p type. c \<noteq> C_retire p type" and "\<And>d. c \<noteq> C_derived d"
  shows "\<exists>new s'. mm_step retire derived t c s = Inr (new, s') \<and> mm_ok (calls_tokens w new + R) s' \<and>
    mm.more s' = mm.more s"
  using assms by (cases c) (simp_all add: spendsD [OF spends_rules(1)] spendsD [OF spends_rules(2)]
    spendsD [OF spends_rules(3)] spendsD [OF spends_rules(4)] spendsD [OF spends_rules(5)] spendsD [OF spends_rules(6)]
    spendsD [OF spends_rules(7)] spendsD [OF spends_rules(8)] spendsD [OF spends_rules(9)], blast+)

section \<open>Creating objects and taking references\<close>

definition strong_room :: "ptr \<Rightarrow> (('v, 'x) counted_object_scheme, 'e) mm_scheme \<Rightarrow> bool" where
  "strong_room p s \<longleftrightarrow> (case fmlookup (heap s) p of None \<Rightarrow> True | Some ob \<Rightarrow> sc_room (ref_cnt ob))"

definition weak_room :: "ptr \<Rightarrow> (('v, 'x) counted_object_scheme, 'e) mm_scheme \<Rightarrow> bool" where
  "weak_room p s \<longleftrightarrow> (case fmlookup (heap s) p of None \<Rightarrow> True | Some ob \<Rightarrow> sc_room (weak_cnt ob))"

lemma mm_ok_put:
  assumes ok: "mm_ok R s" and ob: "fmlookup (heap s) p = Some ob" and st: "storage ob' = storage ob"
    and "\<And>q. q \<noteq> p \<Longrightarrow> token_count R' q = token_count R q"
    and "object_ok ob' (token_count (R' + heap_tokens s) p)"
  shows "mm_ok R' (put_object p ob' s)"
  unfolding mm_ok_def heap_tokens_put_same [OF ob st] using assms(4,5)
  by (intro mm_inv_put [OF ok [unfolded mm_ok_def] ob]) (auto simp: token_count_sum)

lemma heap_dom_put: "fmlookup (heap s) p = Some ob \<Longrightarrow> fmdom (heap (put_object p ob' s)) = fmdom (heap s)"
  by (auto simp: put_object_def fmlookup_dom_iff)

lemma mm_ok_lookup:
  "mm_ok R s \<Longrightarrow> fmlookup (heap s) p = Some ob \<Longrightarrow> p \<noteq> nullptr \<and> object_ok ob (token_count (R + heap_tokens s) p)"
  unfolding mm_ok_def mm_inv_def by (metis (mono_tags, lifting) option.simps(5))

lemma object_ok_add_ref:
  assumes "object_ok ob c" and "sc_rep x (if 0 < c T_strong then Suc (c T_strong) else 0)"
  shows "object_ok (ob\<lparr>ref_cnt := x\<rparr>) (if 0 < c T_strong then c(T_strong := Suc (c T_strong)) else c)"
  using assms by (cases "0 < c T_strong") (auto simp: object_ok_def rep_defs weak_total_def cong: if_cong)

lemma object_ok_add_weak:
  assumes "object_ok ob c" and "sc_rep x (Suc (weak_total c))" and "c T_release_end = 0" "c T_destroy = 0"
  shows "object_ok (ob\<lparr>weak_cnt := x\<rparr>) (c(T_weak := Suc (c T_weak)))"
  using assms by (simp add: object_ok_def rep_defs weak_total_def)

text \<open>\<^verbatim>\<open>increment_ref_cnt\<close> gives a new reference while there is one, and
  \<^verbatim>\<open>false\<close> for an object whose strong references are gone.\<close>

lemma increment_ref_cnt_ok:
  assumes ok: "mm_ok R s" and ob: "fmlookup (heap s) p = Some ob" and room: "strong_room p s"
    and alive: "alive = (0 < token_count (R + heap_tokens s) p T_strong)"
  shows "\<exists>s'. increment_ref_cnt p s = Inr (alive, s') \<and>
    mm_ok (if alive then add_mset (T_strong, p) R else R) s' \<and>
    heap_tokens s' = heap_tokens s \<and> mm.more s' = mm.more s \<and> fmdom (heap s') = fmdom (heap s)"
proof -
  let ?c = "token_count (R + heap_tokens s) p"
  from mm_ok_lookup [OF ok ob] have p: "p \<noteq> nullptr" and c: "object_ok ob ?c" by simp_all
  then have "strong_rep ob (?c T_strong)" by (simp add: object_ok_def)
  then obtain x where x: "add_refs 1 ob = (alive, ob\<lparr>ref_cnt := x\<rparr>)" "sc_rep x (if alive then Suc (?c T_strong) else 0)"
    using add_refs_rep [of ob "?c T_strong"] ob room alive by (auto simp: strong_room_def)
  let ?R = "if alive then add_mset (T_strong, p) R else R"
  have R: "token_count (?R + heap_tokens s) p = (if alive then ?c(T_strong := Suc (?c T_strong)) else ?c)"
    by (auto simp: fun_eq_iff)
  have "object_ok (ob\<lparr>ref_cnt := x\<rparr>) (token_count (?R + heap_tokens s) p)"
    unfolding R using object_ok_add_ref [OF c, of x] x(2) by (simp only: alive)
  then have "mm_ok ?R (put_object p (ob\<lparr>ref_cnt := x\<rparr>) s)"
    by (intro mm_ok_put [OF ok ob]) (auto simp: fun_eq_iff)
  moreover have "increment_ref_cnt p s = Inr (alive, put_object p (ob\<lparr>ref_cnt := x\<rparr>) s)"
    using p ob x(1) by (simp add: increment_ref_cnt_def with_object_def)
  ultimately show ?thesis
    using ob by (auto simp: heap_tokens_put_same heap_dom_put)
qed

text \<open>\<^verbatim>\<open>increment_weak_cnt\<close> succeeds for an owner of a strong or weak reference.\<close>

lemma increment_weak_cnt_ok:
  assumes ok: "mm_ok R s" and room: "weak_room p s"
    and owner: "0 < token_count (R + heap_tokens s) p T_strong \<or> 0 < token_count (R + heap_tokens s) p T_weak"
  shows "\<exists>s'. increment_weak_cnt p s = Inr (True, s') \<and> mm_ok (add_mset (T_weak, p) R) s' \<and>
    heap_tokens s' = heap_tokens s \<and> mm.more s' = mm.more s \<and> fmdom (heap s') = fmdom (heap s)"
proof -
  let ?c = "token_count (R + heap_tokens s) p"
  from owner obtain ob where ob: "fmlookup (heap s) p = Some ob" "p \<noteq> nullptr" and c: "object_ok ob ?c"
    using mm_invD [OF ok [unfolded mm_ok_def], of p] by blast
  have z: "?c T_release_end = 0" "?c T_destroy = 0"
    using c owner by (auto simp: object_ok_def split: if_splits)
  with c have rep: "weak_rep ob (weak_total ?c)" "0 < weak_total ?c" by (simp_all add: object_ok_def)
  then obtain x where x: "add_weak_refs 1 ob = (True, ob\<lparr>weak_cnt := x\<rparr>)" "sc_rep x (Suc (weak_total ?c))"
    using add_weak_refs_rep [OF rep(1)] ob room by (auto simp: weak_room_def)
  have R: "token_count (add_mset (T_weak, p) R + heap_tokens s) p = ?c(T_weak := Suc (?c T_weak))"
    by (auto simp: fun_eq_iff)
  have "object_ok (ob\<lparr>weak_cnt := x\<rparr>) (token_count (add_mset (T_weak, p) R + heap_tokens s) p)"
    unfolding R using object_ok_add_weak [OF c x(2) z] .
  then have "mm_ok (add_mset (T_weak, p) R) (put_object p (ob\<lparr>weak_cnt := x\<rparr>) s)"
    by (intro mm_ok_put [OF ok ob(1)]) (auto simp: fun_eq_iff)
  moreover have "increment_weak_cnt p s = Inr (True, put_object p (ob\<lparr>weak_cnt := x\<rparr>) s)"
    using ob x(1) by (simp add: increment_weak_cnt_def with_object_def)
  ultimately show ?thesis
    using ob by (auto simp: heap_tokens_put_same heap_dom_put)
qed

text \<open>A new object starts with one strong reference and owns what its members hold.\<close>

definition fresh_object :: "'v managed \<Rightarrow> ('v, 'x) counted_object_scheme \<Rightarrow> bool" where
  "fresh_object v ob \<longleftrightarrow>
     storage ob = Some v \<and> ref_cnt ob = sc_init 1 \<and> weak_cnt ob = sc_init 1 \<and> \<not> disposed ob"

lemma fresh_new_counted_object: "fresh_object v (new_counted_object v)"
  by (simp add: fresh_object_def new_counted_object_def)

lemma create_object_ok:
  assumes ok: "mm_ok (members_tokens (members v) + R) s" and fresh: "fresh_object v ob"
    and p: "p \<noteq> nullptr" "fmlookup (heap s) p = None"
  shows "mm_ok (add_mset (T_strong, p) R) (create_object t p ob s)"
proof -
  have heap: "heap_tokens (create_object t p ob s) = members_tokens (members v) + heap_tokens s"
    using p(2) fresh fmsum_upd_new [of "heap s" p ob object_tokens]
    by (simp add: heap_tokens_def create_object_def put_object_def increment_allocations_def
        object_tokens_def fresh_object_def)
  let ?T = "members_tokens (members v) + R + heap_tokens s"
  have T: "add_mset (T_strong, p) R + heap_tokens (create_object t p ob s) = add_mset (T_strong, p) ?T"
    by (simp add: heap ac_simps)
  have inv: "case fmlookup (heap s) q of None \<Rightarrow> \<forall>k. token_count ?T q k = 0
      | Some ob \<Rightarrow> q \<noteq> nullptr \<and> object_ok ob (token_count ?T q)" for q
    using ok unfolding mm_ok_def mm_inv_def by blast
  have zero: "\<forall>k. token_count ?T p k = 0" using inv [of p] p(2) by simp
  then have c: "token_count (add_mset (T_strong, p) ?T) p = (\<lambda>_. 0)(T_strong := 1)"
    by (auto simp: fun_eq_iff)
  have "object_ok ob ((\<lambda>_. 0)(T_strong := 1))"
    using fresh sc.rep_init [of 1] by (simp add: object_ok_def fresh_object_def rep_defs weak_total_def)
  then show ?thesis
    unfolding mm_ok_def T mm_inv_def
  proof (intro allI)
    fix q
    assume ob: "object_ok ob ((\<lambda>_. 0)(T_strong := 1))"
    have "q \<noteq> p \<Longrightarrow> token_count (add_mset (T_strong, p) ?T) q = token_count ?T q"
      by (simp add: fun_eq_iff)
    with inv [of q] ob show "case fmlookup (heap (create_object t p ob s)) q of
          None \<Rightarrow> \<forall>k. token_count (add_mset (T_strong, p) ?T) q k = 0
        | Some ob \<Rightarrow> q \<noteq> nullptr \<and> object_ok ob (token_count (add_mset (T_strong, p) ?T) q)"
      using p(1) c by (cases "q = p"; cases "fmlookup (heap s) q")
        (simp_all add: create_object_def put_object_def increment_allocations_def)
  qed
qed

lemma mm_ok_empty: "heap s = fmempty \<Longrightarrow> mm_ok {#} s"
  by (simp add: mm_ok_def mm_inv_def heap_tokens_def)

text \<open>When nobody holds a token the heap is empty, unless objects form a cycle.\<close>

lemma mm_ok_no_leak:
  assumes "mm_ok R s" and "fmlookup (heap s) p = Some ob"
  shows "\<exists>k. (k, p) \<in># R + heap_tokens s"
proof (rule ccontr)
  assume "\<not> ?thesis"
  then have "token_count (R + heap_tokens s) p = (\<lambda>_. 0)"
    by (simp add: fun_eq_iff token_count_def not_in_iff)
  with mm_ok_lookup [OF assms] show False by (simp add: object_ok_def weak_total_def)
qed

section \<open>The allocation counters\<close>

definition alloc_ok :: "nat \<Rightarrow> ('o, 'e) mm_scheme \<Rightarrow> bool" where
  "alloc_ok n s \<longleftrightarrow> (\<Sum>t<n. num_allocated s t) = int (fcard (fmdom (heap s)))"

lemma sum_fun_upd: "t < n \<Longrightarrow> (\<Sum>i<n. (f(t := f t + d)) i) = (\<Sum>i<n. f i) + d"
  for f :: "nat \<Rightarrow> int"
  by (simp add: sum.remove [where x = t] add.assoc [symmetric] cong: sum.cong_simp)

lemma currently_allocated_exact:
  assumes "alloc_ok n s"
  shows "currently_allocated n s = of_nat (fcard (fmdom (heap s)))"
proof -
  have "foldl (\<lambda>total t. total + word_of_int (f t)) (x :: u64) [0..<n] = x + word_of_int (\<Sum>t<n. f t)" for f x
    by (induction n) (simp_all add: ac_simps)
  with assms show ?thesis by (simp add: currently_allocated_def alloc_ok_def del: of_int_sum)
qed

lemma create_object_alloc:
  assumes "alloc_ok n s" "t < n" "fmlookup (heap s) p = None"
  shows "alloc_ok n (create_object t p ob s)"
proof -
  have "fcard (finsert p (fmdom (heap s))) = Suc (fcard (fmdom (heap s)))"
    using assms(3) by (subst fcard_finsert_disjoint) (auto simp: fmlookup_dom_iff)
  with assms sum_fun_upd [of t n "num_allocated s" 1] show ?thesis
    by (simp add: alloc_ok_def create_object_def put_object_def increment_allocations_def)
qed

lemma delete_object_alloc:
  assumes "alloc_ok n s" "t < n" "fmlookup (heap s) p = Some ob"
  shows "alloc_ok n (delete_object t p s)"
proof -
  have "p |\<in>| fmdom (heap s)" using assms(3) by (auto simp: fmlookup_dom_iff)
  then have "Suc (fcard (fmdom (heap s) |-| {|p|})) = fcard (fmdom (heap s))"
    by (rule fcard_Suc_fminus1)
  with assms sum_fun_upd [of t n "num_allocated s" "-1"] show ?thesis
    by (simp add: alloc_ok_def delete_object_def decrement_allocations_def)
qed

lemma put_object_alloc:
  "fmlookup (heap s) p = Some ob \<Longrightarrow> alloc_ok n (put_object p ob' s) = alloc_ok n s"
  by (simp add: alloc_ok_def heap_dom_put) (simp add: put_object_def)

lemma mm_step_alloc:
  assumes "mm_step retire derived t c s = Inr (new, s')" and "alloc_ok n s" and "t < n"
    and "\<And>p type. c \<noteq> C_retire p type" and "\<And>d. c \<noteq> C_derived d"
  shows "alloc_ok n s'"
proof (cases c)
  case (C_eject p type)
  with assms show ?thesis by (auto simp: mm_eject_def split: if_splits)
next
  case (C_destroy p)
  with assms show ?thesis
    by (auto simp: mm_destroy_def with_object_Inr delete_object_alloc case_prod_beta Let_def split: if_splits)
next
  case (C_decrement_ref_cnt p)
  with assms show ?thesis
    by (auto simp: decrement_ref_cnt_def with_object_Inr put_object_alloc case_prod_beta Let_def
        split: if_splits EjectAction.splits option.splits)
next
  case (C_dispose p)
  with assms show ?thesis
    by (auto simp: mm_dispose_def with_object_Inr put_object_alloc case_prod_beta Let_def
        split: if_splits option.splits)
qed (use assms in \<open>auto simp: decrement_weak_cnt_def delayed_decrement_ref_cnt_def
    delayed_decrement_weak_cnt_def mm_dispose_end_def release_end_def with_object_Inr put_object_alloc
    case_prod_beta Let_def split: if_splits\<close>)

section \<open>The base class does not call into the scheme, but for retire\<close>

lemma members_dtor_base: "C_derived d \<notin> set (members_dtor ms)"
proof -
  have "C_derived d \<notin> set (member_dtor m)" for m by (cases m) auto
  then show ?thesis by (auto simp: members_dtor_def)
qed

lemma mm_step_base:
  assumes "mm_step retire derived t c s = Inr (new, s')"
    and "\<And>p type. c \<noteq> C_retire p type" and "\<And>d. c \<noteq> C_derived d"
  shows "C_derived d \<notin> set new"
proof (cases c)
  case (C_eject p type)
  with assms show ?thesis by (auto simp: mm_eject_def split: if_splits)
next
  case (C_decrement_ref_cnt p)
  with assms show ?thesis
    by (auto simp: members_dtor_base decrement_ref_cnt_def with_object_Inr case_prod_beta Let_def
        split: if_splits EjectAction.splits option.splits)
next
  case (C_dispose p)
  with assms show ?thesis
    by (auto simp: members_dtor_base mm_dispose_def with_object_Inr case_prod_beta Let_def
        split: if_splits option.splits)
qed (use assms in \<open>auto simp: decrement_weak_cnt_def delayed_decrement_ref_cnt_def mm_destroy_def
    delayed_decrement_weak_cnt_def mm_dispose_end_def release_end_def with_object_Inr
    case_prod_beta Let_def split: if_splits\<close>)

section \<open>What a scheme adds to an object is left alone\<close>

definition stamps_le :: "(('v, 'x) counted_object_scheme, 'e) mm_scheme \<Rightarrow> (('v, 'x) counted_object_scheme, 'e) mm_scheme \<Rightarrow> bool" where
  "stamps_le s' s \<longleftrightarrow> (\<forall>q ob'. fmlookup (heap s') q = Some ob' \<longrightarrow>
     (\<exists>ob. fmlookup (heap s) q = Some ob \<and> counted_object.more ob' = counted_object.more ob))"

lemma object_counts_more [simp]:
  "counted_object.more (snd (get_use_count ob)) = counted_object.more ob"
  "counted_object.more (snd (get_weak_count ob)) = counted_object.more ob"
  "counted_object.more (snd (release_weak_refs n ob)) = counted_object.more ob"
  "counted_object.more (dispose_end ob) = counted_object.more ob"
  by (simp_all add: get_use_count_def get_weak_count_def release_weak_refs_def dispose_end_def Let_def case_prod_beta)

lemma release_refs_more [simp]: "counted_object.more (snd (release_refs n ob)) = counted_object.more ob"
  by (simp add: release_refs_def get_weak_count_def Let_def case_prod_beta)

lemma dispose_begin_more: "dispose_begin ob = Some (ms, ob') \<Longrightarrow> counted_object.more ob' = counted_object.more ob"
  by (auto simp: dispose_begin_def split: option.splits)

lemma stamps_le_put:
  "fmlookup (heap s) p = Some ob \<Longrightarrow> counted_object.more ob' = counted_object.more ob \<Longrightarrow> stamps_le (put_object p ob' s) s"
  by (auto simp: stamps_le_def put_object_def)

lemma stamps_le_delete: "stamps_le (delete_object t p s) s"
  by (auto simp: stamps_le_def delete_object_def decrement_allocations_def)

lemma mm_step_stamps:
  assumes "mm_step retire derived t c s = Inr (new, s')"
    and "\<And>p type. c \<noteq> C_retire p type" and "\<And>d. c \<noteq> C_derived d"
  shows "stamps_le s' s"
proof (cases c)
  case (C_eject p type)
  with assms show ?thesis by (auto simp: mm_eject_def stamps_le_def split: if_splits)
next
  case (C_destroy p)
  with assms show ?thesis
    by (auto simp: mm_destroy_def with_object_Inr stamps_le_delete case_prod_beta Let_def split: if_splits)
next
  case (C_decrement_ref_cnt p)
  with assms show ?thesis
    by (auto simp: decrement_ref_cnt_def with_object_Inr stamps_le_put dispose_begin_more case_prod_beta Let_def
        split: if_splits EjectAction.splits option.splits)
next
  case (C_dispose p)
  with assms show ?thesis
    by (auto simp: mm_dispose_def with_object_Inr stamps_le_put dispose_begin_more case_prod_beta Let_def
        split: if_splits option.splits)
qed (use assms in \<open>auto simp: decrement_weak_cnt_def delayed_decrement_ref_cnt_def
    delayed_decrement_weak_cnt_def mm_dispose_end_def release_end_def with_object_Inr stamps_le_put
    case_prod_beta Let_def split: if_splits\<close>)

section \<open>Calls leave room in the counts\<close>

definition leaves_room :: "('v, 'x) counted_object_scheme \<Rightarrow> ('v, 'x) counted_object_scheme \<Rightarrow> bool" where
  "leaves_room ob ob' \<longleftrightarrow>
     (sc_room (ref_cnt ob) \<longrightarrow> sc_room (ref_cnt ob')) \<and> (sc_room (weak_cnt ob) \<longrightarrow> sc_room (weak_cnt ob'))"

definition keeps_room :: "ptr \<Rightarrow> (('v, 'x) counted_object_scheme, 'e) mm_scheme \<Rightarrow> (('v, 'x) counted_object_scheme, 'e) mm_scheme \<Rightarrow> bool" where
  "keeps_room p s s' \<longleftrightarrow> (strong_room p s \<longrightarrow> strong_room p s') \<and> (weak_room p s \<longrightarrow> weak_room p s')"

lemma keeps_room_trans: "keeps_room p s s' \<Longrightarrow> keeps_room p s' s'' \<Longrightarrow> keeps_room p s s''"
  by (simp add: keeps_room_def)

lemma keeps_room_cong: "heap s' = heap s \<Longrightarrow> keeps_room p s s'"
  by (simp add: keeps_room_def strong_room_def weak_room_def)

lemma keeps_room_put: "fmlookup (heap s) q = Some ob \<Longrightarrow> leaves_room ob ob' \<Longrightarrow> keeps_room p s (put_object q ob' s)"
  by (auto simp: keeps_room_def leaves_room_def strong_room_def weak_room_def put_object_def)

lemma keeps_room_delete: "keeps_room p s (delete_object t q s)"
  by (auto simp: keeps_room_def strong_room_def weak_room_def delete_object_def decrement_allocations_def)

lemma leaves_room_loads [simp]:
  "leaves_room ob (snd (get_use_count ob))" "leaves_room ob (snd (get_weak_count ob))"
  "leaves_room ob (dispose_end ob)"
  using sc_load_room [of "ref_cnt ob"] sc_load_room [of "weak_cnt ob"]
  by (simp_all add: leaves_room_def get_use_count_def get_weak_count_def dispose_end_def case_prod_beta Let_def)

lemma release_refs_room:
  assumes "strong_rep ob n" "0 < n" "weak_rep ob m"
  shows "leaves_room ob (snd (release_refs 1 ob))"
  using sc_decrement_room [of "ref_cnt ob" n] sc_load_room [of "weak_cnt ob"] assms
  by (simp add: leaves_room_def rep_defs release_refs_def get_weak_count_def case_prod_beta Let_def)

lemma release_weak_room: "weak_rep ob n \<Longrightarrow> 0 < n \<Longrightarrow> leaves_room ob (snd (release_weak_refs 1 ob))"
  using sc_decrement_room [of "weak_cnt ob" n]
  by (simp add: leaves_room_def rep_defs release_weak_refs_def case_prod_beta Let_def)

lemma dispose_begin_room: "dispose_begin ob = Some (ms, ob') \<Longrightarrow> leaves_room ob0 ob \<Longrightarrow> leaves_room ob0 ob'"
  by (auto simp: leaves_room_def dispose_begin_def split: option.splits)

lemma mm_step_room:
  assumes step: "mm_step retire derived t c s = Inr (new, s')" and ok: "mm_ok (call_tokens w c + R) s"
    and "\<And>p type. c \<noteq> C_retire p type" and "\<And>d. c \<noteq> C_derived d"
  shows "keeps_room p s s'"
proof (cases c)
  case (C_eject q type)
  with step show ?thesis by (auto simp: mm_eject_def keeps_room_def split: if_splits)
next
  case (C_decrement_ref_cnt q)
  with ok obtain ob c0 where ob: "fmlookup (heap s) q = Some ob"
      and c0: "object_ok ob (c0(T_strong := Suc (c0 T_strong)))"
    by (auto elim!: mm_ok_object)
  from c0 have rep: "strong_rep ob (Suc (c0 T_strong))" "weak_rep ob (Suc (c0 T_weak))"
    by (auto simp: object_ok_def weak_total_def)
  obtain r ob2 where rel: "release_refs 1 ob = (r, ob2)" by (metis surj_pair)
  then have room: "leaves_room ob ob2" using release_refs_room [OF rep(1) _ rep(2)] by simp
  show ?thesis using step C_decrement_ref_cnt ob rel room
    by (auto simp: decrement_ref_cnt_def with_object_def get_use_count_rep [OF rep(1)] intro!: keeps_room_put
        dest: dispose_begin_room split: if_splits EjectAction.splits option.splits)
next
  case (C_decrement_weak_cnt q)
  with ok obtain ob c0 where ob: "fmlookup (heap s) q = Some ob" and c0: "object_ok ob (c0(T_weak := Suc (c0 T_weak)))"
    by (auto elim!: mm_ok_object)
  let ?n = "weak_total (c0(T_weak := Suc (c0 T_weak)))"
  from object_ok_weak [OF c0] have rep: "weak_rep ob ?n" "0 < ?n" by simp_all
  with step C_decrement_weak_cnt ob show ?thesis
    by (auto simp: decrement_weak_cnt_def with_object_def get_weak_count_rep [OF rep(1)] release_weak_room case_prod_beta Let_def
        intro!: keeps_room_put split: if_splits)
next
  case (C_dispose_end q)
  with ok obtain ob c0 where ob: "fmlookup (heap s) q = Some ob" and c0: "object_ok ob (c0(T_dispose_end := Suc (c0 T_dispose_end)))"
    by (auto elim!: mm_ok_object)
  let ?n = "weak_total (c0(T_dispose_end := Suc (c0 T_dispose_end)))"
  from object_ok_weak [OF c0] have "weak_rep (dispose_end ob) ?n" "0 < ?n" by (simp_all add: rep_defs dispose_end_def)
  from release_weak_room [OF this] have "leaves_room ob (snd (release_weak_refs 1 (dispose_end ob)))"
    by (simp add: leaves_room_def dispose_end_def)
  with step C_dispose_end ob show ?thesis
    by (auto simp: mm_dispose_end_def with_object_def case_prod_beta Let_def intro!: keeps_room_put)
next
  case (C_dispose q)
  with step show ?thesis
    by (auto simp: mm_dispose_def with_object_Inr case_prod_beta Let_def intro!: keeps_room_put
        dest: dispose_begin_room [OF _ leaves_room_loads(1)] split: if_splits option.splits)
qed (use assms in \<open>auto simp: delayed_decrement_ref_cnt_def delayed_decrement_weak_cnt_def release_end_def mm_destroy_def
    with_object_Inr keeps_room_delete case_prod_beta Let_def intro!: keeps_room_put split: if_splits\<close>)

section \<open>Calls leave the members of a live object alone\<close>

definition storage_le :: "(('v, 'x) counted_object_scheme, 'e) mm_scheme \<Rightarrow> (('v, 'x) counted_object_scheme, 'e) mm_scheme \<Rightarrow> bool" where
  "storage_le s' s \<longleftrightarrow>
     (\<forall>p ob' m. fmlookup (heap s') p = Some ob' \<and> storage ob' = Some m \<longrightarrow>
        (\<exists>ob. fmlookup (heap s) p = Some ob \<and> storage ob = Some m))"

lemma storage_le_refl: "storage_le s s"
  by (simp add: storage_le_def)

lemma storage_le_trans: "storage_le s' s \<Longrightarrow> storage_le s'' s' \<Longrightarrow> storage_le s'' s"
  by (fastforce simp: storage_le_def)

lemma storage_le_cong: "heap s' = heap s \<Longrightarrow> storage_le s' s"
  by (simp add: storage_le_def)

lemma storage_le_put:
  "fmlookup (heap s) q = Some ob \<Longrightarrow> storage ob' = storage ob \<or> storage ob' = None \<Longrightarrow> storage_le (put_object q ob' s) s"
  by (auto simp: storage_le_def put_object_def)

lemma storage_le_delete: "storage_le (delete_object t q s) s"
  by (auto simp: storage_le_def delete_object_def decrement_allocations_def)

lemma dispose_begin_storage: "dispose_begin ob = Some (ms, ob') \<Longrightarrow> storage ob' = None"
  by (auto simp: dispose_begin_def split: option.splits)

lemma mm_step_storage:
  assumes step: "mm_step retire derived t c s = Inr (new, s')"
    and "\<And>p type. c \<noteq> C_retire p type" and "\<And>d. c \<noteq> C_derived d"
  shows "storage_le s' s"
proof (cases c)
  case (C_decrement_ref_cnt q)
  with step obtain ob where ob: "fmlookup (heap s) q = Some ob"
    by (auto simp: decrement_ref_cnt_def with_object_Inr split: if_splits)
  obtain n ob1 r ob2 where ob2: "get_use_count ob = (n, ob1)" "release_refs 1 ob1 = (r, ob2)"
    by (metis surj_pair)
  then have "storage ob2 = storage ob" by simp
  with step C_decrement_ref_cnt ob ob2 show ?thesis
    by (auto simp: decrement_ref_cnt_def with_object_def intro!: storage_le_put dest: dispose_begin_storage
        split: if_splits EjectAction.splits option.splits)
qed (use assms in \<open>auto simp: mm_eject_def mm_dispose_def decrement_weak_cnt_def mm_dispose_end_def
    delayed_decrement_ref_cnt_def delayed_decrement_weak_cnt_def release_end_def mm_destroy_def storage_le_refl storage_le_delete
    with_object_Inr case_prod_beta Let_def intro!: storage_le_put dest: dispose_begin_storage split: if_splits option.splits\<close>)

end
