(* ===== verification/Call_Machine.thy ===== *)
theory Call_Machine
  imports Memory_Manager
begin

text \<open>
  Running the calls of \<^verbatim>\<open>memory_manager_base\<close> and of a reclamation scheme to the end: the
  stack of calls that are still to be made is worked off from the top. Nothing in the code bounds this
  recursion, so \<open>mm_run\<close> is partial: \<open>None\<close> would be a run that never returns. The locale
  \<open>call_machine\<close> is what a scheme has to show of its single calls; its lemmas
  are the properties of whole runs: they return, without an error, in a state that keeps the invariant.
\<close>

type_synonym ('c, 's) step_fn = "tid \<Rightarrow> 'c mm_call \<Rightarrow> 's \<Rightarrow> error + 'c mm_call list \<times> 's"

partial_function (option) mm_run :: "('c, 's) step_fn \<Rightarrow> tid \<Rightarrow> 'c mm_call list \<Rightarrow> 's \<Rightarrow> (error + 's) option" where
  [code]: "mm_run step t cs s =
     (case cs of
        [] \<Rightarrow> Some (Inr s)
      | c # cs' \<Rightarrow> (case step t c s of Inl e \<Rightarrow> Some (Inl e) | Inr (new, s') \<Rightarrow> mm_run step t (new @ cs') s'))"

lemma mm_run_Nil [simp]: "mm_run step t [] s = Some (Inr s)"
  by (simp add: mm_run.simps)

lemma mm_run_Cons:
  "mm_run step t (c # cs) s =
     (case step t c s of Inl e \<Rightarrow> Some (Inl e) | Inr (new, s') \<Rightarrow> mm_run step t (new @ cs) s')"
  by (subst mm_run.simps) simp

text \<open>A stack can be run in two parts.\<close>

lemma mm_run_append:
  fixes step :: "('c, 's) step_fn"
  assumes "mm_run step t cs s = Some r"
  shows "mm_run step t (cs @ cs') s = (case r of Inl e \<Rightarrow> Some (Inl e) | Inr s' \<Rightarrow> mm_run step t cs' s')"
proof (rule mm_run.raw_induct [OF _ assms])
  fix rec :: "('c, 's) step_fn \<Rightarrow> tid \<Rightarrow> 'c mm_call list \<Rightarrow> 's \<Rightarrow> (error + 's) option"
    and step :: "('c, 's) step_fn" and t cs s r
  assume IH: "\<And>step t cs s r. rec step t cs s = Some r \<Longrightarrow>
      mm_run step t (cs @ cs') s = (case r of Inl e \<Rightarrow> Some (Inl e) | Inr s' \<Rightarrow> mm_run step t cs' s')"
    and run: "(case cs of [] \<Rightarrow> Some (Inr s)
      | c # cs' \<Rightarrow> (case step t c s of Inl e \<Rightarrow> Some (Inl e) | Inr (new, s') \<Rightarrow> rec step t (new @ cs') s')) = Some r"
  show "mm_run step t (cs @ cs') s = (case r of Inl e \<Rightarrow> Some (Inl e) | Inr s' \<Rightarrow> mm_run step t cs' s')"
    using run IH [of step t "_ @ _" _ r]
    by (cases cs; cases "step t (hd cs) s") (auto simp: mm_run_Cons)
qed

locale call_machine =
  fixes step :: "('c, 's) step_fn" and inv :: "'r \<Rightarrow> tid \<Rightarrow> 'c mm_call list \<Rightarrow> 's \<Rightarrow> bool"
    and rank1 rank2 :: "'c mm_call list \<Rightarrow> 's \<Rightarrow> nat"
  assumes step_ok: "inv R t (c # cs) s \<Longrightarrow>
      \<exists>new s'. step t c s = Inr (new, s') \<and> inv R t (new @ cs) s' \<and>
        (rank1 (new @ cs) s' < rank1 (c # cs) s \<or>
         rank1 (new @ cs) s' = rank1 (c # cs) s \<and> rank2 (new @ cs) s' < rank2 (c # cs) s)"
begin

text \<open>What every step keeps, the whole run keeps.\<close>

lemma run_keeps:
  assumes "inv R t cs s" and "P cs s"
    and "\<And>c cs s new s'. inv R t (c # cs) s \<Longrightarrow> P (c # cs) s \<Longrightarrow> step t c s = Inr (new, s') \<Longrightarrow> P (new @ cs) s'"
  shows "\<exists>s'. mm_run step t cs s = Some (Inr s') \<and> inv R t [] s' \<and> P [] s'"
  using assms(1,2)
proof (induction "(rank1 cs s, rank2 cs s)" arbitrary: cs s rule: wf_induct_rule [OF wf_lex_prod [OF wf_less_than wf_less_than]])
  case 1
  show ?case
  proof (cases cs)
    case Nil
    with 1 show ?thesis by simp
  next
    case (Cons c cs')
    from step_ok [OF 1(2) [unfolded Cons]] obtain new s' where
      s': "step t c s = Inr (new, s')" "inv R t (new @ cs') s'"
        "((rank1 (new @ cs') s', rank2 (new @ cs') s'), (rank1 cs s, rank2 cs s)) \<in> less_than <*lex*> less_than"
      by (auto simp: Cons)
    with assms(3) 1(2,3) have "P (new @ cs') s'" by (simp add: Cons)
    from 1(1) [OF s'(3,2) this] show ?thesis
      by (simp add: Cons mm_run_Cons s'(1))
  qed
qed

corollary run_ok: "inv R t cs s \<Longrightarrow> \<exists>s'. mm_run step t cs s = Some (Inr s') \<and> inv R t [] s'"
  using run_keeps [of R t cs s "\<lambda>_ _. True"] by simp

end

section \<open>Reclamation schemes\<close>

text \<open>
  What a scheme adds to the base class: \<^verbatim>\<open>retire\<close> and calls of its own, which move tokens between the calls and the
  scheme's own state and leave the heap alone.
\<close>

definition scheme_progress ::
  "('c \<Rightarrow> tokens) \<Rightarrow> ('c \<Rightarrow> nat) \<Rightarrow> ('c mm_call \<Rightarrow> nat) \<Rightarrow>
   (('o, 'e) mm_scheme \<Rightarrow> tokens) \<Rightarrow> (('o, 'e) mm_scheme \<Rightarrow> nat) \<Rightarrow> (('o, 'e) mm_scheme \<Rightarrow> nat) \<Rightarrow>
   'c mm_call \<Rightarrow> ('o, 'e) mm_scheme \<Rightarrow> 'c mm_call list \<Rightarrow> ('o, 'e) mm_scheme \<Rightarrow> bool" where
  "scheme_progress ctoks cweight clen etoks eweight elen c s new s' \<longleftrightarrow>
     heap s' = heap s \<and> num_allocated s' = num_allocated s \<and>
     calls_tokens ctoks new + etoks s' = call_tokens ctoks c + etoks s \<and>
     (calls_weight cweight new + eweight s' < call_weight cweight c + eweight s \<or>
      calls_weight cweight new + eweight s' = call_weight cweight c + eweight s \<and>
      sum_list (map clen new) + elen s' < clen c + elen s)"

lemma mm_ok_cong: "heap s' = heap s \<Longrightarrow> mm_ok R s' \<longleftrightarrow> mm_ok R s"
  by (simp add: mm_ok_def mm_inv_def heap_tokens_def)

lemma heap_weight_cong: "heap s' = heap s \<Longrightarrow> heap_weight s' = heap_weight s"
  by (simp add: heap_weight_def)

locale reclamation_scheme =
  fixes retire :: "((('v, 'x) counted_object_scheme, 'e) mm_scheme, 'c) retire_fn"
    and derived :: "((('v, 'x) counted_object_scheme, 'e) mm_scheme, 'c) derived_fn"
    and ctoks :: "'c \<Rightarrow> tokens" and cweight :: "'c \<Rightarrow> nat" and clen :: "'c mm_call \<Rightarrow> nat"
    and etoks :: "(('v, 'x) counted_object_scheme, 'e) mm_scheme \<Rightarrow> tokens"
    and eweight elen :: "(('v, 'x) counted_object_scheme, 'e) mm_scheme \<Rightarrow> nat"
    and ok :: "tid \<Rightarrow> (('v, 'x) counted_object_scheme, 'e) mm_scheme \<Rightarrow> bool"
  assumes ext: "mm.more s' = mm.more s \<Longrightarrow>
      etoks s' = etoks s \<and> eweight s' = eweight s \<and> elen s' = elen s \<and> ok t s' = ok t s"
    and retire_progress: "ok t s \<Longrightarrow> fmlookup (heap s) p = Some ob \<Longrightarrow> \<exists>new s'. retire t p type s = Inr (new, s') \<and>
      scheme_progress ctoks cweight clen etoks eweight elen (C_retire p type) s new s' \<and> (\<forall>u. ok u s \<longrightarrow> ok u s')"
    and derived_progress: "ok t s \<Longrightarrow> \<exists>new s'. derived t d s = Inr (new, s') \<and>
      scheme_progress ctoks cweight clen etoks eweight elen (C_derived d) s new s' \<and> (\<forall>u. ok u s \<longrightarrow> ok u s')"
begin

lemma base_step:
  assumes ok: "ok t s" "mm_ok (R + calls_tokens ctoks (c # cs) + etoks s) s"
    and c: "\<And>p type. c \<noteq> C_retire p type" "\<And>d. c \<noteq> C_derived d"
  shows "\<exists>new s'. mm_step retire derived t c s = Inr (new, s') \<and> mm.more s' = mm.more s \<and> ok t s' \<and>
    mm_ok (R + calls_tokens ctoks (new @ cs) + etoks s') s' \<and>
    calls_weight cweight new + heap_weight s' < call_weight cweight c + heap_weight s"
proof -
  let ?R = "R + calls_tokens ctoks cs + etoks s"
  have "mm_ok (call_tokens ctoks c + ?R) s" using ok(2) by (simp add: ac_simps)
  from mm_step_ok [OF this c] obtain new s' where
    s': "mm_step retire derived t c s = Inr (new, s')" "mm_ok (calls_tokens ctoks new + ?R) s'" "mm.more s' = mm.more s"
    by blast
  note w = mm_step_weight [OF s'(1) c, of cweight]
  from s' w ext [OF s'(3)] ok(1) show ?thesis by (simp add: ac_simps)
qed

lemma progress_ok:
  assumes "scheme_progress ctoks cweight clen etoks eweight elen c s new s'"
    and "mm_ok (R + calls_tokens ctoks (c # cs) + etoks s) s"
  shows "mm_ok (R + calls_tokens ctoks (new @ cs) + etoks s') s'"
proof -
  have eq: "R + calls_tokens ctoks (new @ cs) + etoks s' = R + calls_tokens ctoks (c # cs) + etoks s"
    using assms(1) by (simp add: scheme_progress_def)
  show ?thesis using assms mm_ok_cong [of s' s] unfolding eq by (simp add: scheme_progress_def)
qed

lemma retire_object:
  assumes "mm_ok (R + calls_tokens ctoks (C_retire p type # cs) + etoks s) s"
  shows "\<exists>ob. fmlookup (heap s) p = Some ob"
proof -
  have "mm_ok (add_mset (retire_kind type, p) (R + calls_tokens ctoks cs + etoks s)) s"
    using assms by (simp add: ac_simps)
  then show ?thesis by (auto elim!: mm_ok_object)
qed

lemma step_cases:
  assumes "mm_step retire derived t c s = Inr (new, s')" and "ok t s"
    and "mm_ok (R + calls_tokens ctoks (c # cs) + etoks s) s"
  obtains (scheme) "scheme_progress ctoks cweight clen etoks eweight elen c s new s'"
  | (base) "\<And>p type. c \<noteq> C_retire p type" "\<And>d. c \<noteq> C_derived d" "mm.more s' = mm.more s"
proof -
  consider (retire) q type where "c = C_retire q type" | (derived) d where "c = C_derived d"
    | (base) "\<And>p type. c \<noteq> C_retire p type" "\<And>d. c \<noteq> C_derived d"
    by blast
  then show thesis
  proof cases
    case retire
    with retire_object assms(3) obtain ob where "fmlookup (heap s) q = Some ob" by blast
    with retire assms(1) retire_progress [OF assms(2), of q ob type] that(1) show thesis by auto
  next
    case derived
    with assms(1) derived_progress [OF assms(2), of d] that(1) show thesis by auto
  next
    case base
    with base_step [OF assms(2,3) base] assms(1) that(2) show thesis by auto
  qed
qed

lemma step_oks:
  assumes "mm_step retire derived t c s = Inr (new, s')" and "ok t s"
    and "mm_ok (R + calls_tokens ctoks (c # cs) + etoks s) s" and "ok u s"
  shows "ok u s'"
proof -
  consider (retire) q type where "c = C_retire q type" | (derived) d where "c = C_derived d"
    | (base) "\<And>p type. c \<noteq> C_retire p type" "\<And>d. c \<noteq> C_derived d"
    by blast
  then show ?thesis
  proof cases
    case retire
    with retire_object assms(3) obtain ob where "fmlookup (heap s) q = Some ob" by blast
    with retire assms(1,4) retire_progress [OF assms(2), of q ob type] show ?thesis by auto
  next
    case derived
    with assms(1,4) derived_progress [OF assms(2), of d] show ?thesis by auto
  next
    case base
    from base_step [OF assms(2,3) base] assms(1) have "mm.more s' = mm.more s" by auto
    from ext [OF this] assms(4) show ?thesis by blast
  qed
qed

lemma step_alloc:
  assumes "mm_step retire derived t c s = Inr (new, s')" and "ok t s"
    and "mm_ok (R + calls_tokens ctoks (c # cs) + etoks s) s" and "t < n" and "alloc_ok n s"
  shows "alloc_ok n s'"
  using assms(1,2,3)
proof (cases rule: step_cases)
  case scheme
  with assms(5) show ?thesis by (simp add: scheme_progress_def alloc_ok_def)
next
  case base
  with mm_step_alloc [OF assms(1,5,4)] show ?thesis by blast
qed

end

sublocale reclamation_scheme \<subseteq> machine: call_machine "mm_step retire derived"
  "\<lambda>R t cs s. ok t s \<and> mm_ok (R + calls_tokens ctoks cs + etoks s) s"
  "\<lambda>cs s. calls_weight cweight cs + heap_weight s + eweight s"
  "\<lambda>cs s. sum_list (map clen cs) + elen s"
proof
  fix R t c cs s
  assume inv: "ok t s \<and> mm_ok (R + calls_tokens ctoks (c # cs) + etoks s) s"
  let ?goal = "\<lambda>new s'. mm_step retire derived t c s = Inr (new, s') \<and>
      (ok t s' \<and> mm_ok (R + calls_tokens ctoks (new @ cs) + etoks s') s') \<and>
      (calls_weight cweight (new @ cs) + heap_weight s' + eweight s'
         < calls_weight cweight (c # cs) + heap_weight s + eweight s \<or>
       calls_weight cweight (new @ cs) + heap_weight s' + eweight s'
         = calls_weight cweight (c # cs) + heap_weight s + eweight s \<and>
       sum_list (map clen (new @ cs)) + elen s' < sum_list (map clen (c # cs)) + elen s)"
  have scheme: "?goal new s'" if "mm_step retire derived t c s = Inr (new, s')" "ok t s'"
      "scheme_progress ctoks cweight clen etoks eweight elen c s new s'" for new s'
    using that progress_ok [OF that(3), of R cs] inv heap_weight_cong [of s' s]
    by (auto simp: scheme_progress_def)
  consider (retire) q type where "c = C_retire q type" | (derived) d where "c = C_derived d"
    | (base) "\<And>p type. c \<noteq> C_retire p type" "\<And>d. c \<noteq> C_derived d"
    by blast
  then show "\<exists>new s'. ?goal new s'"
  proof cases
    case retire
    with retire_object inv obtain ob where ob: "fmlookup (heap s) q = Some ob" by blast
    from retire_progress [OF conjunct1 [OF inv] ob, of type] obtain new s' where
      "retire t q type s = Inr (new, s')" "scheme_progress ctoks cweight clen etoks eweight elen (C_retire q type) s new s'" "ok t s'"
      using inv by blast
    with retire have "?goal new s'" by (intro scheme) simp_all
    then show ?thesis by blast
  next
    case derived
    from derived_progress [OF conjunct1 [OF inv], of d] obtain new s' where
      "derived t d s = Inr (new, s')" "scheme_progress ctoks cweight clen etoks eweight elen (C_derived d) s new s'" "ok t s'"
      using inv by blast
    with derived have "?goal new s'" by (intro scheme) simp_all
    then show ?thesis by blast
  next
    case base
    from base_step [OF conjunct1 [OF inv] conjunct2 [OF inv] base] obtain new s' where
      s': "mm_step retire derived t c s = Inr (new, s')" "mm.more s' = mm.more s" "ok t s'"
        "mm_ok (R + calls_tokens ctoks (new @ cs) + etoks s') s'"
        "calls_weight cweight new + heap_weight s' < call_weight cweight c + heap_weight s"
      by blast
    with ext [OF s'(2)] have "?goal new s'" by simp
    then show ?thesis by blast
  qed
qed

context reclamation_scheme
begin

text \<open>What holds from before each step to after it, in whatever company, holds for a run.\<close>

lemma run_relates:
  assumes "ok t s" and "mm_ok (R + calls_tokens ctoks cs + etoks s) s"
    and refl: "Q s s" and trans: "\<And>s1 s2. Q s s1 \<Longrightarrow> Q s1 s2 \<Longrightarrow> Q s s2"
    and quiet: "\<And>s1 s2. heap s2 = heap s1 \<Longrightarrow> num_allocated s2 = num_allocated s1 \<Longrightarrow> Q s1 s2"
    and base: "\<And>c R s1 new s2. mm_step retire derived t c s1 = Inr (new, s2) \<Longrightarrow> mm_ok (call_tokens ctoks c + R) s1 \<Longrightarrow>
      (\<And>p type. c \<noteq> C_retire p type) \<Longrightarrow> (\<And>d. c \<noteq> C_derived d) \<Longrightarrow> Q s1 s2"
  shows "\<exists>s'. mm_run (mm_step retire derived) t cs s = Some (Inr s') \<and> ok t s' \<and> mm_ok (R + etoks s') s' \<and> Q s s'"
proof -
  have inv: "ok t s \<and> mm_ok (R + calls_tokens ctoks cs + etoks s) s" using assms(1,2) by simp
  have "\<exists>s'. mm_run (mm_step retire derived) t cs s = Some (Inr s') \<and>
      (ok t s' \<and> mm_ok (R + calls_tokens ctoks [] + etoks s') s') \<and> Q s s'"
  proof (rule machine.run_keeps [where P = "\<lambda>_ s1. Q s s1" and R = R, OF inv refl])
    fix c cs s1 new s2
    assume inv: "ok t s1 \<and> mm_ok (R + calls_tokens ctoks (c # cs) + etoks s1) s1" and Q: "Q s s1"
      and step: "mm_step retire derived t c s1 = Inr (new, s2)"
    from step inv have "Q s1 s2"
    proof (cases rule: step_cases [OF step conjunct1 [OF inv] conjunct2 [OF inv], case_names scheme base])
      case scheme
      then show ?thesis by (intro quiet) (simp_all add: scheme_progress_def)
    next
      case base
      have "mm_ok (call_tokens ctoks c + (R + calls_tokens ctoks cs + etoks s1)) s1" using inv by (simp add: ac_simps)
      from assms(6) [OF step this base(1,2)] show ?thesis .
    qed
    with trans [OF Q] show "Q s s2" .
  qed
  then show ?thesis by simp
qed

text \<open>Whole calls: they return, keep the accounts, and leave other threads and the room in the counts alone. An
  object that is alive afterwards has the value and the members it had.\<close>

lemma run_accounts:
  assumes "ok t s" and "mm_ok (R + calls_tokens ctoks cs + etoks s) s"
  shows "\<exists>s'. mm_run (mm_step retire derived) t cs s = Some (Inr s') \<and> (\<forall>u. ok u s \<longrightarrow> ok u s') \<and>
    mm_ok (R + etoks s') s' \<and> (\<forall>p. keeps_room p s s') \<and> storage_le s' s"
proof -
  let ?Q = "\<lambda>s s'. (\<forall>p. keeps_room p s s') \<and> storage_le s' s"
  have "\<exists>s'. mm_run (mm_step retire derived) t cs s = Some (Inr s') \<and> ok t s' \<and> mm_ok (R + etoks s') s' \<and> ?Q s s'"
  proof (rule run_relates [OF assms])
    fix s1 s2 assume "?Q s s1" "?Q s1 s2"
    then show "?Q s s2" by (metis keeps_room_trans storage_le_trans)
  next
    fix c R s1 new s2
    assume "mm_step retire derived t c s1 = Inr (new, s2)" "mm_ok (call_tokens ctoks c + R) s1"
      "\<And>p type. c \<noteq> C_retire p type" "\<And>d. c \<noteq> C_derived d"
    then show "?Q s1 s2" using mm_step_room mm_step_storage by metis
  qed (simp_all add: keeps_room_cong storage_le_cong)
  then obtain s' where
    s': "mm_run (mm_step retire derived) t cs s = Some (Inr s')" "mm_ok (R + etoks s') s'" "?Q s s'" by blast
  have "ok u s'" if u: "ok u s" for u
  proof -
    have inv: "ok t s \<and> mm_ok (R + calls_tokens ctoks cs + etoks s) s" using assms by simp
    have "\<exists>s'. mm_run (mm_step retire derived) t cs s = Some (Inr s') \<and>
        (ok t s' \<and> mm_ok (R + calls_tokens ctoks [] + etoks s') s') \<and> ok u s'"
      by (rule machine.run_keeps [where P = "\<lambda>_ s. ok u s" and R = R, OF inv u]) (blast intro: step_oks)
    with s'(1) show ?thesis by simp
  qed
  with s' show ?thesis by blast
qed

end

end
