(* ===== verification/Places.thy ===== *)
theory Places
  imports Call_Machine
begin

text \<open>
  Where the client of the library keeps its smart pointers: in variables of its own and in the members of
  managed objects. Both are lists of \<open>member\<close>s; a \<open>place\<close> names one of them, the way a C++
  reference does, so that two references to the same smart pointer are equal places. A
  program state is the list of the variables and the state of the memory manager.

  Every token of a program state is in a place, in the hand of the operation that is under way (\<open>R\<close> in the
  lemmas), or with the scheme.
\<close>

type_synonym 's prog = "member list \<times> 's"

datatype place = Var nat | Field ptr nat

fun member_ptr :: "member \<Rightarrow> ptr" where
  "member_ptr (M_rc p) = p"
| "member_ptr (M_arc p) = p"
| "member_ptr (M_weak p) = p"
| "member_ptr (M_aweak p) = p"

text \<open>The managed object behind a counted pointer, as \<^verbatim>\<open>ptr->get()\<close> reaches it.\<close>

definition with_storage ::
  "ptr \<Rightarrow> (('v, 'x) counted_object_scheme, 'e) mm_scheme \<Rightarrow>
   (('v, 'x) counted_object_scheme \<Rightarrow> 'v managed \<Rightarrow> error + 'r) \<Rightarrow> error + 'r" where
  "with_storage p s f =
     with_object p s (\<lambda>ob. case storage ob of None \<Rightarrow> Inl (UseAfterFree p) | Some m \<Rightarrow> f ob m)"

fun place_get :: "place \<Rightarrow> (('v, 'x) counted_object_scheme, 'e) mm_scheme prog \<Rightarrow> error + member" where
  "place_get (Var x) (vs, s) =
     (if x < length vs then Inr (vs ! x) else Inl (AssertionFailed ''no such variable''))"
| "place_get (Field p i) (vs, s) =
     with_storage p s (\<lambda>ob m. if i < length (members m) then Inr (members m ! i)
       else Inl (AssertionFailed ''no such member''))"

fun place_put :: "place \<Rightarrow> member \<Rightarrow> (('v, 'x) counted_object_scheme, 'e) mm_scheme prog \<Rightarrow>
    error + (('v, 'x) counted_object_scheme, 'e) mm_scheme prog" where
  "place_put (Var x) v (vs, s) =
     (if x < length vs then Inr (vs[x := v], s) else Inl (AssertionFailed ''no such variable''))"
| "place_put (Field p i) v (vs, s) =
     with_storage p s (\<lambda>ob m. if i < length (members m)
       then Inr (vs, put_object p (ob\<lparr>storage := Some (m\<lparr>members := (members m)[i := v]\<rparr>)\<rparr>) s)
       else Inl (AssertionFailed ''no such member''))"

text \<open>What a write does to the variables.\<close>

fun put_vars :: "place \<Rightarrow> member \<Rightarrow> member list \<Rightarrow> member list" where
  "put_vars (Var x) v vs = vs[x := v]"
| "put_vars (Field p i) v vs = vs"

section \<open>Sequencing\<close>

text \<open>Results of whole operations: \<open>None\<close> if a call never returns, an error, or a value.\<close>

type_synonym 'a res = "(error + 'a) option"

fun rbind :: "'a res \<Rightarrow> ('a \<Rightarrow> 'b res) \<Rightarrow> 'b res" where
  "rbind None f = None"
| "rbind (Some (Inl e)) f = Some (Inl e)"
| "rbind (Some (Inr a)) f = f a"

definition ret :: "'a \<Rightarrow> 'a res" where
  "ret a = Some (Inr a)"

lemma rbind_ret [simp]: "rbind (ret a) f = f a"
  by (simp add: ret_def)

lemma ret_inj [simp]: "ret a = ret b \<longleftrightarrow> a = b"
  by (simp add: ret_def)

lemma rbind_eq_ret: "rbind m f = ret b \<longleftrightarrow> (\<exists>a. m = ret a \<and> f a = ret b)"
  by (cases "(m, f)" rule: rbind.cases) (auto simp: ret_def)

text \<open>The calls \<open>cs\<close> of the memory manager, made by thread \<open>t\<close> and run to the end.\<close>

definition run_calls :: "('c, 's) step_fn \<Rightarrow> tid \<Rightarrow> 'c mm_call list \<Rightarrow> 's prog \<Rightarrow> 's prog res" where
  "run_calls step t cs st = rbind (mm_run step t cs (snd st)) (\<lambda>s'. ret (fst st, s'))"

lemma run_calls_eq_ret:
  "run_calls step t cs st = ret st' \<longleftrightarrow> fst st' = fst st \<and> mm_run step t cs (snd st) = ret (snd st')"
  by (cases st') (auto simp: run_calls_def rbind_eq_ret)

section \<open>Accounts of a program state\<close>

definition prog_ok :: "((('v, 'x) counted_object_scheme, 'e) mm_scheme \<Rightarrow> tokens) \<Rightarrow> tokens \<Rightarrow>
    (('v, 'x) counted_object_scheme, 'e) mm_scheme prog \<Rightarrow> bool" where
  "prog_ok etoks R st \<longleftrightarrow> mm_ok (R + members_tokens (fst st) + etoks (snd st)) (snd st)"

lemma with_storage_Inr:
  "with_storage p s f = Inr r \<longleftrightarrow>
   (\<exists>ob m. fmlookup (heap s) p = Some ob \<and> storage ob = Some m \<and> f ob m = Inr r)"
  by (auto simp: with_storage_def with_object_Inr split: option.splits)

lemma members_tokens_simps [simp]:
  "members_tokens [] = {#}"
  "members_tokens (m # ms) = member_tokens m + members_tokens ms"
  "members_tokens (ms @ ms') = members_tokens ms + members_tokens ms'"
  by (simp_all add: members_tokens_def)

lemma members_tokens_update:
  "i < length ms \<Longrightarrow> members_tokens (ms[i := m]) + member_tokens (ms ! i) = members_tokens ms + member_tokens m"
  by (induction ms arbitrary: i) (auto simp: nth_Cons ac_simps split: nat.splits)

text \<open>Writing a place exchanges the tokens in hand for those of the old value.\<close>

lemma object_ok_storage:
  "object_ok ob c \<Longrightarrow> storage ob \<noteq> None \<Longrightarrow> object_ok (ob\<lparr>storage := Some m\<rparr>) c"
  by (auto simp: object_ok_def rep_defs split: if_splits)

lemma place_swap:
  assumes "place_get pl st = Inr m" and "mm_ok (member_tokens m' + R + members_tokens (fst st)) (snd st)"
  shows "\<exists>st'. place_put pl m' st = Inr st' \<and> mm_ok (member_tokens m + R + members_tokens (fst st')) (snd st') \<and>
    mm.more (snd st') = mm.more (snd st) \<and> length (fst st') = length (fst st)"
proof (cases pl)
  case (Var x)
  obtain vs s where st: "st = (vs, s)" by (cases st)
  from assms(1) Var st have x: "x < length vs" "vs ! x = m" by (auto split: if_splits)
  then have "member_tokens m + members_tokens (vs[x := m']) = members_tokens vs + member_tokens m'"
    using members_tokens_update [of x vs m'] by (simp add: ac_simps)
  then have "member_tokens m + R + members_tokens (vs[x := m']) = member_tokens m' + R + members_tokens vs"
    by (metis add.assoc add.commute)
  then have "mm_ok (member_tokens m + R + members_tokens (vs[x := m'])) s"
    using assms(2) st by (simp only: fst_conv snd_conv)
  with Var st x show ?thesis by simp
next
  case (Field p i)
  obtain vs s where st: "st = (vs, s)" by (cases st)
  from assms(1) Field st obtain ob mg where ob: "fmlookup (heap s) p = Some ob" "storage ob = Some mg"
      "i < length (members mg)" "members mg ! i = m"
    by (auto simp: with_storage_Inr split: if_splits)
  let ?mg = "mg\<lparr>members := (members mg)[i := m']\<rparr>"
  let ?ob = "ob\<lparr>storage := Some ?mg\<rparr>" and ?s = "put_object p (ob\<lparr>storage := Some ?mg\<rparr>) s"
  have obt: "object_tokens ?ob + member_tokens m = object_tokens ob + member_tokens m'"
    using members_tokens_update [OF ob(3), of m'] ob by (simp add: object_tokens_def)
  have "(heap_tokens ?s + member_tokens m) + object_tokens ob = heap_tokens s + (object_tokens ?ob + member_tokens m)"
    using heap_tokens_put [OF ob(1), of ?ob] by (simp add: ac_simps)
  then have heap: "heap_tokens ?s + member_tokens m = heap_tokens s + member_tokens m'"
    unfolding obt by simp
  let ?T = "member_tokens m' + R + members_tokens vs + heap_tokens s"
  have T: "member_tokens m + R + members_tokens vs + heap_tokens ?s = ?T"
  proof -
    have "member_tokens m + R + members_tokens vs + heap_tokens ?s = R + members_tokens vs + (heap_tokens ?s + member_tokens m)"
      by (simp only: ac_simps)
    then show ?thesis unfolding heap by (simp only: ac_simps)
  qed
  have inv: "mm_inv ?T s" using assms(2) st by (simp add: mm_ok_def)
  have "object_ok ob (token_count ?T p)"
    using mm_ok_lookup [OF assms(2) [unfolded st, simplified] ob(1)] by (simp add: ac_simps)
  then have "mm_inv ?T ?s"
    using ob by (intro mm_inv_put [OF inv ob(1)] object_ok_storage) simp_all
  then have "mm_ok (member_tokens m + R + members_tokens vs) ?s"
    unfolding mm_ok_def T .
  with Field st ob show ?thesis by (simp add: with_storage_def with_object_def)
qed

lemma place_put_vars: "place_put pl m st = Inr st' \<Longrightarrow> fst st' = put_vars pl m (fst st)"
  by (cases "(pl, m, st)" rule: place_put.cases) (auto simp: with_storage_Inr split: if_splits)

lemma place_get_put_other:
  assumes "place_put pl' m st = Inr st'" and "pl \<noteq> pl'"
  shows "place_get pl st' = place_get pl st"
  using assms
  by (cases "(pl, st)" rule: place_get.cases; cases "(pl', m, st)" rule: place_put.cases)
    (auto simp: with_storage_Inr with_storage_def with_object_def put_object_def split: if_splits option.splits)

lemma place_get_put:
  assumes "place_put pl m st = Inr st'"
  shows "place_get pl st' = Inr m"
  using assms
  by (cases "(pl, m, st)" rule: place_put.cases)
    (auto simp: with_storage_Inr with_storage_def with_object_def put_object_def split: if_splits option.splits)

lemma place_put_iff_get: "(\<exists>st'. place_put pl m' st = Inr st') \<longleftrightarrow> (\<exists>m. place_get pl st = Inr m)"
  by (cases "(pl, st)" rule: place_get.cases) (auto simp: with_storage_Inr split: if_splits)

lemma members_tokens_nth: "i < length ms \<Longrightarrow> x \<in># member_tokens (ms ! i) \<Longrightarrow> x \<in># members_tokens ms"
  by (induction ms arbitrary: i) (auto simp: nth_Cons split: nat.splits)

lemma place_get_token:
  assumes "place_get pl st = Inr m" and "x \<in># member_tokens m"
  shows "x \<in># members_tokens (fst st) + heap_tokens (snd st)"
proof (cases pl)
  case (Var y)
  with assms show ?thesis by (cases st) (auto intro: members_tokens_nth split: if_splits)
next
  case (Field p i)
  with assms obtain ob mg where ob: "fmlookup (heap (snd st)) p = Some ob" "storage ob = Some mg"
      "i < length (members mg)" "members mg ! i = m"
    by (cases st) (auto simp: with_storage_Inr split: if_splits)
  then have "x \<in># object_tokens ob" using assms(2) by (auto simp: object_tokens_def intro: members_tokens_nth)
  with fmsum_split [OF ob(1), of object_tokens] show ?thesis by (simp add: heap_tokens_def)
qed

context reclamation_scheme
begin

lemma place_exchange:
  assumes "place_get pl st = Inr m" and "ok t (snd st)" and "prog_ok etoks (member_tokens m' + R) st"
  shows "\<exists>st'. place_put pl m' st = Inr st' \<and> prog_ok etoks (member_tokens m + R) st' \<and> ok t (snd st')"
proof -
  have "mm_ok (member_tokens m' + (R + etoks (snd st)) + members_tokens (fst st)) (snd st)"
    using assms(3) by (simp add: prog_ok_def ac_simps)
  from place_swap [OF assms(1) this] obtain st' where
    st': "place_put pl m' st = Inr st'" "mm_ok (member_tokens m + (R + etoks (snd st)) + members_tokens (fst st')) (snd st')"
      "mm.more (snd st') = mm.more (snd st)" by blast
  with ext [OF st'(3)] assms(2) show ?thesis by (auto simp: prog_ok_def ac_simps)
qed

text \<open>Calls pay with the tokens in hand.\<close>

lemma run_calls_ok:
  assumes "ok t (snd st)" and "prog_ok etoks (calls_tokens ctoks cs + R) st"
  shows "\<exists>st'. run_calls (mm_step retire derived) t cs st = ret st' \<and> fst st' = fst st \<and>
    ok t (snd st') \<and> prog_ok etoks R st' \<and> (\<forall>p. keeps_room p (snd st) (snd st')) \<and> storage_le (snd st') (snd st)"
proof -
  have "mm_ok (R + members_tokens (fst st) + calls_tokens ctoks cs + etoks (snd st)) (snd st)"
    using assms(2) by (simp add: prog_ok_def ac_simps)
  from run_accounts [OF assms(1) this] assms(1) show ?thesis
    by (auto simp: run_calls_def ret_def prog_ok_def ac_simps)
qed

end

end
