(* ===== verification/Rc_Ptr.thy ===== *)
theory Rc_Ptr
  imports Places
begin

text \<open>
  \<^verbatim>\<open>include/cdrc/rc_ptr.h\<close> and \<^verbatim>\<open>include/cdrc/weak_ptr.h\<close>: the owning smart pointers. A constructor returns the
  counted pointer of the new object; operations on an existing one take the place it is in, so
  that an argument may be the same object as \<^verbatim>\<open>this\<close>. The two classes differ only in the count
  they own a share of: the operations they have in common are written once, with the increment \<open>inc\<close>, the call \<open>dec\<close>
  of the decrement and the constructor \<open>mk\<close> of the member as arguments.
\<close>

section \<open>The template parameter memory_manager\<close>

type_synonym ('v, 'x, 'e) mm_state = "(('v, 'x) counted_object_scheme, 'e) mm_scheme"

text \<open>The members of a memory manager that the smart pointers use: \<open>'a\<close> is its \<^verbatim>\<open>acquired_pointer\<close>. The
  location that \<^verbatim>\<open>acquire\<close> and \<^verbatim>\<open>protect_snapshot\<close> read is given by the pointer that it holds throughout
  the call; what they do when it changes under their hands is with the schemes.\<close>

record ('c, 'a, 'v, 's) memory_manager =
  mg_step :: "('c, 's) step_fn"
  mg_create_object :: "tid \<Rightarrow> ptr \<Rightarrow> 'v managed \<Rightarrow> 's \<Rightarrow> 's"
  mg_acquire :: "tid \<Rightarrow> ptr \<Rightarrow> 's \<Rightarrow> ('a \<times> 's) res"
  mg_reserve :: "tid \<Rightarrow> ptr \<Rightarrow> 's \<Rightarrow> 'a \<times> 's"
  mg_reserve_nothing :: 'a
  mg_protect_snapshot :: "tid \<Rightarrow> ptr \<Rightarrow> 's \<Rightarrow> ('a \<times> 's) res"
  mg_get :: "'a \<Rightarrow> ptr"
  mg_is_protected :: "'a \<Rightarrow> bool"
  mg_clear :: "'a \<Rightarrow> 's \<Rightarrow> 'a \<times> 's"
  mg_destruct :: "'a \<Rightarrow> 's \<Rightarrow> 's"

type_synonym ('c, 'a, 'v, 'x, 'e) backend = "('c, 'a, 'v, ('v, 'x, 'e) mm_state) memory_manager"

text \<open>A member function of the memory manager in a program state.\<close>

definition lift_mm :: "('s \<Rightarrow> error + 'b \<times> 's) \<Rightarrow> 's prog \<Rightarrow> ('b \<times> 's prog) res" where
  "lift_mm f st = Some (ebind (f (snd st)) (\<lambda>(b, s'). Inr (b, (fst st, s'))))"

section \<open>What the two classes have in common\<close>

datatype AddRef = AddRef_yes | AddRef_no

definition ptr_copy :: "(ptr \<Rightarrow> 's \<Rightarrow> error + bool \<times> 's) \<Rightarrow> ptr \<Rightarrow> 's prog \<Rightarrow> (ptr \<times> 's prog) res" where
  "ptr_copy inc other st =
     (if other \<noteq> nullptr then rbind (lift_mm (inc other) st) (\<lambda>(_, st1). ret (other, st1)) else ret (other, st))"

text \<open>\<^verbatim>\<open>release\<close>: the pointer is handed out and the place is empty.\<close>

definition ptr_release :: "(ptr \<Rightarrow> member) \<Rightarrow> place \<Rightarrow> ('v, 'x, 'e) mm_state prog \<Rightarrow> (ptr \<times> ('v, 'x, 'e) mm_state prog) res" where
  "ptr_release mk this st =
     rbind (Some (place_get this st)) (\<lambda>m.
     rbind (Some (place_put this (mk nullptr) st)) (\<lambda>st1. ret (member_ptr m, st1)))"

definition ptr_clear :: "('c, ('v, 'x, 'e) mm_state) step_fn \<Rightarrow> (ptr \<Rightarrow> 'c mm_call) \<Rightarrow> (ptr \<Rightarrow> member) \<Rightarrow>
    tid \<Rightarrow> place \<Rightarrow> ('v, 'x, 'e) mm_state prog \<Rightarrow> ('v, 'x, 'e) mm_state prog res" where
  "ptr_clear step dec mk t this st =
     rbind (Some (place_get this st)) (\<lambda>m.
     rbind (if member_ptr m \<noteq> nullptr then run_calls step t [dec (member_ptr m)] st else ret st) (\<lambda>st1.
     Some (place_put this (mk nullptr) st1)))"

definition ptr_copy_assign :: "('c, ('v, 'x, 'e) mm_state) step_fn \<Rightarrow>
    (ptr \<Rightarrow> ('v, 'x, 'e) mm_state \<Rightarrow> error + bool \<times> ('v, 'x, 'e) mm_state) \<Rightarrow> (ptr \<Rightarrow> 'c mm_call) \<Rightarrow> (ptr \<Rightarrow> member) \<Rightarrow>
    tid \<Rightarrow> place \<Rightarrow> place \<Rightarrow> ('v, 'x, 'e) mm_state prog \<Rightarrow> ('v, 'x, 'e) mm_state prog res" where
  "ptr_copy_assign step inc dec mk t this other st =
     rbind (Some (place_get this st)) (\<lambda>tmp.
     rbind (Some (place_get other st)) (\<lambda>m.
     rbind (Some (place_put this (mk (member_ptr m)) st)) (\<lambda>st1.
     rbind (ptr_copy inc (member_ptr m) st1) (\<lambda>(_, st2).
     if member_ptr tmp \<noteq> nullptr then run_calls step t [dec (member_ptr tmp)] st2 else ret st2))))"

definition ptr_move_assign :: "('c, ('v, 'x, 'e) mm_state) step_fn \<Rightarrow> (ptr \<Rightarrow> 'c mm_call) \<Rightarrow> (ptr \<Rightarrow> member) \<Rightarrow>
    tid \<Rightarrow> place \<Rightarrow> place \<Rightarrow> ('v, 'x, 'e) mm_state prog \<Rightarrow> ('v, 'x, 'e) mm_state prog res" where
  "ptr_move_assign step dec mk t this other st =
     rbind (Some (place_get this st)) (\<lambda>tmp.
     rbind (ptr_release mk other st) (\<lambda>(p, st1).
     rbind (Some (place_put this (mk p) st1)) (\<lambda>st2.
     if member_ptr tmp \<noteq> nullptr then run_calls step t [dec (member_ptr tmp)] st2 else ret st2)))"

text \<open>Assignment from a temporary, whose pointer is at hand.\<close>

definition ptr_assign_from :: "('c, ('v, 'x, 'e) mm_state) step_fn \<Rightarrow> (ptr \<Rightarrow> 'c mm_call) \<Rightarrow> (ptr \<Rightarrow> member) \<Rightarrow>
    tid \<Rightarrow> place \<Rightarrow> ptr \<Rightarrow> ('v, 'x, 'e) mm_state prog \<Rightarrow> ('v, 'x, 'e) mm_state prog res" where
  "ptr_assign_from step dec mk t this p st =
     rbind (Some (place_get this st)) (\<lambda>tmp.
     rbind (Some (place_put this (mk p) st)) (\<lambda>st1.
     if member_ptr tmp \<noteq> nullptr then run_calls step t [dec (member_ptr tmp)] st1 else ret st1))"

definition ptr_swap :: "(ptr \<Rightarrow> member) \<Rightarrow> place \<Rightarrow> place \<Rightarrow> ('v, 'x, 'e) mm_state prog \<Rightarrow> ('v, 'x, 'e) mm_state prog res" where
  "ptr_swap mk this other st =
     rbind (Some (place_get this st)) (\<lambda>a.
     rbind (Some (place_get other st)) (\<lambda>b.
     rbind (Some (place_put this (mk (member_ptr b)) st)) (\<lambda>st1.
     Some (place_put other (mk (member_ptr a)) st1))))"

section \<open>rc_ptr\<close>

definition rc_from_snapshot :: "ptr \<Rightarrow> ('v, 'x, 'e) mm_state prog \<Rightarrow> (ptr \<times> ('v, 'x, 'e) mm_state prog) res" where
  "rc_from_snapshot other st = ptr_copy increment_ref_cnt other st"

definition rc_copy :: "ptr \<Rightarrow> ('v, 'x, 'e) mm_state prog \<Rightarrow> (ptr \<times> ('v, 'x, 'e) mm_state prog) res" where
  "rc_copy other st = ptr_copy increment_ref_cnt other st"

text \<open>The constructor from a counted pointer: the result of the increment is not looked at.\<close>

definition rc_construct :: "ptr \<Rightarrow> AddRef \<Rightarrow> ('v, 'x, 'e) mm_state prog \<Rightarrow> (ptr \<times> ('v, 'x, 'e) mm_state prog) res" where
  "rc_construct p add_ref st =
     (if p \<noteq> nullptr \<and> add_ref = AddRef_yes
      then rbind (lift_mm (increment_ref_cnt p) st) (\<lambda>(_, st1). ret (p, st1)) else ret (p, st))"

definition rc_release :: "place \<Rightarrow> ('v, 'x, 'e) mm_state prog \<Rightarrow> (ptr \<times> ('v, 'x, 'e) mm_state prog) res" where
  "rc_release this st = ptr_release M_rc this st"

definition rc_move :: "place \<Rightarrow> ('v, 'x, 'e) mm_state prog \<Rightarrow> (ptr \<times> ('v, 'x, 'e) mm_state prog) res" where
  "rc_move other st = rc_release other st"

definition rc_clear :: "('c, 'a, 'v, 'x, 'e) backend \<Rightarrow> tid \<Rightarrow> place \<Rightarrow> ('v, 'x, 'e) mm_state prog \<Rightarrow> ('v, 'x, 'e) mm_state prog res" where
  "rc_clear M t this st = ptr_clear (mg_step M) C_decrement_ref_cnt M_rc t this st"

definition rc_assign_null :: "('c, 'a, 'v, 'x, 'e) backend \<Rightarrow> tid \<Rightarrow> place \<Rightarrow> ('v, 'x, 'e) mm_state prog \<Rightarrow> ('v, 'x, 'e) mm_state prog res" where
  "rc_assign_null M t this st = rc_clear M t this st"

definition rc_copy_assign :: "('c, 'a, 'v, 'x, 'e) backend \<Rightarrow> tid \<Rightarrow> place \<Rightarrow> place \<Rightarrow> ('v, 'x, 'e) mm_state prog \<Rightarrow> ('v, 'x, 'e) mm_state prog res" where
  "rc_copy_assign M t this other st = ptr_copy_assign (mg_step M) increment_ref_cnt C_decrement_ref_cnt M_rc t this other st"

definition rc_move_assign :: "('c, 'a, 'v, 'x, 'e) backend \<Rightarrow> tid \<Rightarrow> place \<Rightarrow> place \<Rightarrow> ('v, 'x, 'e) mm_state prog \<Rightarrow> ('v, 'x, 'e) mm_state prog res" where
  "rc_move_assign M t this other st = ptr_move_assign (mg_step M) C_decrement_ref_cnt M_rc t this other st"

definition rc_assign_from :: "('c, 'a, 'v, 'x, 'e) backend \<Rightarrow> tid \<Rightarrow> place \<Rightarrow> ptr \<Rightarrow> ('v, 'x, 'e) mm_state prog \<Rightarrow> ('v, 'x, 'e) mm_state prog res" where
  "rc_assign_from M t this p st = ptr_assign_from (mg_step M) C_decrement_ref_cnt M_rc t this p st"

definition rc_swap :: "place \<Rightarrow> place \<Rightarrow> ('v, 'x, 'e) mm_state prog \<Rightarrow> ('v, 'x, 'e) mm_state prog res" where
  "rc_swap this other st = ptr_swap M_rc this other st"

text \<open>\<^verbatim>\<open>operator*\<close>, \<^verbatim>\<open>operator->\<close>: the managed object.\<close>

definition rc_deref :: "ptr \<Rightarrow> ('v, 'x, 'e) mm_state prog \<Rightarrow> error + 'v managed" where
  "rc_deref p st = with_storage p (snd st) (\<lambda>ob m. Inr m)"

text \<open>\<^verbatim>\<open>get\<close>, as a comparison sees it: the address of the managed object, which is that of its counted object.\<close>

definition rc_eq :: "ptr \<Rightarrow> ptr \<Rightarrow> bool" where
  "rc_eq this other \<longleftrightarrow> this = other"

definition rc_use_count :: "ptr \<Rightarrow> ('v, 'x, 'e) mm_state prog \<Rightarrow> (u64 \<times> ('v, 'x, 'e) mm_state prog) res" where
  "rc_use_count p st =
     (if p = nullptr then ret (0, st)
      else lift_mm (\<lambda>s. with_object p s (\<lambda>ob. let (n, ob') = get_use_count ob in Inr (ucast n, put_object p ob' s))) st)"

definition rc_weak_count :: "ptr \<Rightarrow> ('v, 'x, 'e) mm_state prog \<Rightarrow> (u64 \<times> ('v, 'x, 'e) mm_state prog) res" where
  "rc_weak_count p st =
     (if p = nullptr then ret (0, st)
      else lift_mm (\<lambda>s. with_object p s (\<lambda>ob. let (n, ob') = get_weak_count ob in Inr (ucast (n - 1), put_object p ob' s))) st)"

text \<open>\<^verbatim>\<open>make_shared\<close>; the address from the allocator and the constructed value are arguments.\<close>

definition rc_make_shared :: "('c, 'a, 'v, 'x, 'e) backend \<Rightarrow> tid \<Rightarrow> ptr \<Rightarrow> 'v managed \<Rightarrow> ('v, 'x, 'e) mm_state prog \<Rightarrow> (ptr \<times> ('v, 'x, 'e) mm_state prog) res" where
  "rc_make_shared M t p v st = rc_construct p AddRef_no (fst st, mg_create_object M t p v (snd st))"

section \<open>weak_ptr\<close>

text \<open>The constructor from a counted pointer, and from a weak snapshot: empty if the increment fails.\<close>

definition weak_construct :: "ptr \<Rightarrow> AddRef \<Rightarrow> ('v, 'x, 'e) mm_state prog \<Rightarrow> (ptr \<times> ('v, 'x, 'e) mm_state prog) res" where
  "weak_construct p add_ref st =
     (if p \<noteq> nullptr \<and> add_ref = AddRef_yes
      then rbind (lift_mm (increment_weak_cnt p) st) (\<lambda>(ok, st1). ret (if ok then p else nullptr, st1)) else ret (p, st))"

definition weak_from_snapshot :: "ptr \<Rightarrow> ('v, 'x, 'e) mm_state prog \<Rightarrow> (ptr \<times> ('v, 'x, 'e) mm_state prog) res" where
  "weak_from_snapshot other st =
     (if other \<noteq> nullptr
      then rbind (lift_mm (increment_weak_cnt other) st) (\<lambda>(ok, st1). ret (if ok then other else nullptr, st1)) else ret (other, st))"

definition weak_from_rc :: "ptr \<Rightarrow> ('v, 'x, 'e) mm_state prog \<Rightarrow> (ptr \<times> ('v, 'x, 'e) mm_state prog) res" where
  "weak_from_rc other st = ptr_copy increment_weak_cnt other st"

definition weak_copy :: "ptr \<Rightarrow> ('v, 'x, 'e) mm_state prog \<Rightarrow> (ptr \<times> ('v, 'x, 'e) mm_state prog) res" where
  "weak_copy other st = ptr_copy increment_weak_cnt other st"

definition weak_release :: "place \<Rightarrow> ('v, 'x, 'e) mm_state prog \<Rightarrow> (ptr \<times> ('v, 'x, 'e) mm_state prog) res" where
  "weak_release this st = ptr_release M_weak this st"

definition weak_move :: "place \<Rightarrow> ('v, 'x, 'e) mm_state prog \<Rightarrow> (ptr \<times> ('v, 'x, 'e) mm_state prog) res" where
  "weak_move other st = weak_release other st"

definition weak_clear :: "('c, 'a, 'v, 'x, 'e) backend \<Rightarrow> tid \<Rightarrow> place \<Rightarrow> ('v, 'x, 'e) mm_state prog \<Rightarrow> ('v, 'x, 'e) mm_state prog res" where
  "weak_clear M t this st = ptr_clear (mg_step M) C_decrement_weak_cnt M_weak t this st"

definition weak_copy_assign :: "('c, 'a, 'v, 'x, 'e) backend \<Rightarrow> tid \<Rightarrow> place \<Rightarrow> place \<Rightarrow> ('v, 'x, 'e) mm_state prog \<Rightarrow> ('v, 'x, 'e) mm_state prog res" where
  "weak_copy_assign M t this other st = ptr_copy_assign (mg_step M) increment_weak_cnt C_decrement_weak_cnt M_weak t this other st"

definition weak_move_assign :: "('c, 'a, 'v, 'x, 'e) backend \<Rightarrow> tid \<Rightarrow> place \<Rightarrow> place \<Rightarrow> ('v, 'x, 'e) mm_state prog \<Rightarrow> ('v, 'x, 'e) mm_state prog res" where
  "weak_move_assign M t this other st = ptr_move_assign (mg_step M) C_decrement_weak_cnt M_weak t this other st"

definition weak_assign_from :: "('c, 'a, 'v, 'x, 'e) backend \<Rightarrow> tid \<Rightarrow> place \<Rightarrow> ptr \<Rightarrow> ('v, 'x, 'e) mm_state prog \<Rightarrow> ('v, 'x, 'e) mm_state prog res" where
  "weak_assign_from M t this p st = ptr_assign_from (mg_step M) C_decrement_weak_cnt M_weak t this p st"

definition weak_swap :: "place \<Rightarrow> place \<Rightarrow> ('v, 'x, 'e) mm_state prog \<Rightarrow> ('v, 'x, 'e) mm_state prog res" where
  "weak_swap this other st = ptr_swap M_weak this other st"

text \<open>\<^verbatim>\<open>lock\<close>: a strong reference if one is left.\<close>

definition weak_lock :: "ptr \<Rightarrow> ('v, 'x, 'e) mm_state prog \<Rightarrow> (ptr \<times> ('v, 'x, 'e) mm_state prog) res" where
  "weak_lock p st =
     (if p = nullptr then ret (nullptr, st)
      else rbind (lift_mm (increment_ref_cnt p) st) (\<lambda>(ok, st1).
        if ok then rc_construct p AddRef_no st1 else ret (nullptr, st1)))"

definition rc_from_weak :: "ptr \<Rightarrow> ('v, 'x, 'e) mm_state prog \<Rightarrow> (ptr \<times> ('v, 'x, 'e) mm_state prog) res" where
  "rc_from_weak other st = weak_lock other st"

definition weak_use_count :: "ptr \<Rightarrow> ('v, 'x, 'e) mm_state prog \<Rightarrow> (u64 \<times> ('v, 'x, 'e) mm_state prog) res" where
  "weak_use_count p st = rc_use_count p st"

definition weak_expired :: "ptr \<Rightarrow> ('v, 'x, 'e) mm_state prog \<Rightarrow> (bool \<times> ('v, 'x, 'e) mm_state prog) res" where
  "weak_expired p st = rbind (weak_use_count p st) (\<lambda>(n, st1). ret (n = 0, st1))"

section \<open>The shared contract\<close>

declare split_paired_Ex [simp del] split_paired_All [simp del]

text \<open>Taking a reference commutes with writing a place: the one changes a count, the other a variable or a member.\<close>

lemma count_update_put:
  assumes inc: "\<And>p s. inc p s = (if p = nullptr then Inl e else with_object p s (\<lambda>ob. Inr (fst (upd ob), put_object p (snd (upd ob)) s)))"
    and upd: "\<And>ob x. upd (ob\<lparr>storage := x\<rparr>) = (fst (upd ob), (snd (upd ob))\<lparr>storage := x\<rparr>)"
      "\<And>ob. storage (snd (upd ob)) = storage ob"
    and get: "inc p (snd st) = Inr (b, s')" and put: "place_put pl m st = Inr st1"
  shows "\<exists>s2. inc p (snd st1) = Inr (b, s2) \<and> place_put pl m (fst st, s') = Inr (fst st1, s2)"
proof -
  obtain vs s where st: "st = (vs, s)" by (cases st)
  from get st obtain ob where p: "p \<noteq> nullptr" "fmlookup (heap s) p = Some ob" "b = fst (upd ob)" "s' = put_object p (snd (upd ob)) s"
    by (auto simp: inc with_object_Inr split: if_splits)
  show ?thesis
  proof (cases pl)
    case (Var x)
    with put st get show ?thesis by (auto split: if_splits)
  next
    case (Field q i)
    with put st obtain ob1 mg where q: "fmlookup (heap s) q = Some ob1" "storage ob1 = Some mg" "i < length (members mg)"
        "st1 = (vs, put_object q (ob1\<lparr>storage := Some (mg\<lparr>members := (members mg)[i := m]\<rparr>)\<rparr>) s)"
      by (auto simp: with_storage_Inr split: if_splits)
    show ?thesis
    proof (cases "p = q")
      case True
      with p q st Field upd show ?thesis
        by (auto simp: inc with_object_def with_storage_def put_object_def)
    next
      case False
      then have "put_object p a (put_object q c s) = put_object q c (put_object p a s)" for a c
        by (simp add: put_object_def fmupd_reorder_neq)
      with False p q st Field show ?thesis
        by (auto simp: inc with_object_def with_storage_def put_object_def)
    qed
  qed
qed

lemma increment_ref_cnt_put:
  fixes st :: "('v, 'x, 'e) mm_state prog"
  assumes "increment_ref_cnt p (snd st) = Inr (b, s')" and "place_put pl m st = Inr st1"
  shows "\<exists>s2. increment_ref_cnt p (snd st1) = Inr (b, s2) \<and> place_put pl m (fst st, s') = Inr (fst st1, s2)"
proof (rule count_update_put [where inc = increment_ref_cnt and upd = "add_refs 1", OF _ _ _ assms])
  fix p and s :: "('v, 'x, 'e) mm_state"
  show "increment_ref_cnt p s = (if p = nullptr then Inl (AssertionFailed ''ptr != nullptr'')
      else with_object p s (\<lambda>ob. Inr (fst (add_refs 1 ob), put_object p (snd (add_refs 1 ob)) s)))"
    by (simp add: increment_ref_cnt_def case_prod_beta Let_def)
qed (simp_all add: add_refs_def case_prod_beta Let_def)

lemma increment_weak_cnt_put:
  fixes st :: "('v, 'x, 'e) mm_state prog"
  assumes "increment_weak_cnt p (snd st) = Inr (b, s')" and "place_put pl m st = Inr st1"
  shows "\<exists>s2. increment_weak_cnt p (snd st1) = Inr (b, s2) \<and> place_put pl m (fst st, s') = Inr (fst st1, s2)"
proof (rule count_update_put [where inc = increment_weak_cnt and upd = "add_weak_refs 1", OF _ _ _ assms])
  fix p and s :: "('v, 'x, 'e) mm_state"
  show "increment_weak_cnt p s = (if p = nullptr then Inl (AssertionFailed ''ptr != nullptr'')
      else with_object p s (\<lambda>ob. Inr (fst (add_weak_refs 1 ob), put_object p (snd (add_weak_refs 1 ob)) s)))"
    by (simp add: increment_weak_cnt_def case_prod_beta Let_def)
qed (simp_all add: add_weak_refs_def case_prod_beta Let_def)

lemma increments_get:
  fixes s :: "('v, 'x, 'e) mm_state"
  shows "increment_ref_cnt p s = Inr (b, s') \<Longrightarrow> place_get pl (vs, s') = place_get pl (vs, s)"
    and "increment_weak_cnt p s = Inr (b, s') \<Longrightarrow> place_get pl (vs, s') = place_get pl (vs, s)"
  by (cases pl; force simp: increment_ref_cnt_def increment_weak_cnt_def with_object_Inr with_storage_def with_object_def
      put_object_def add_refs_def add_weak_refs_def case_prod_beta Let_def split: if_splits option.splits)+

locale owning_pointer = reclamation_scheme retire derived ctoks cweight clen etoks eweight elen ok
  for retire :: "(('v, 'x, 'e) mm_state, 'c) retire_fn" and derived :: "(('v, 'x, 'e) mm_state, 'c) derived_fn"
    and ctoks cweight clen etoks eweight elen ok +
  fixes kind :: tkind and mk :: "ptr \<Rightarrow> member" and dec :: "ptr \<Rightarrow> 'c mm_call"
    and inc :: "ptr \<Rightarrow> ('v, 'x, 'e) mm_state \<Rightarrow> error + bool \<times> ('v, 'x, 'e) mm_state"
    and room :: "ptr \<Rightarrow> ('v, 'x, 'e) mm_state \<Rightarrow> bool"
  assumes mk_tokens: "member_tokens (mk p) = (if p = nullptr then {#} else {#(kind, p)#})"
    and mk_ptr: "member_ptr (mk p) = p"
    and dec_tokens: "call_tokens ctoks (dec p) = {#(kind, p)#}"
    and inc_ok: "mm_ok R s \<Longrightarrow> (kind, p) \<in># R + heap_tokens s \<Longrightarrow> room p s \<Longrightarrow>
      \<exists>s'. inc p s = Inr (True, s') \<and> mm_ok (add_mset (kind, p) R) s' \<and> mm.more s' = mm.more s"
    and inc_put: "inc p (snd st) = Inr (b, s') \<Longrightarrow> place_put pl m st = Inr st1 \<Longrightarrow>
      \<exists>s2. inc p (snd st1) = Inr (b, s2) \<and> place_put pl m (fst st, s') = Inr (fst st1, s2)"
    and inc_get: "inc p (snd st) = Inr (b, s') \<Longrightarrow> place_get pl (fst st, s') = place_get pl st"
    and room_kept: "keeps_room p s s' \<Longrightarrow> room p s \<Longrightarrow> room p s'"
begin

lemma mk_inj [simp]: "mk a = mk b \<longleftrightarrow> a = b"
  by (metis mk_ptr)

lemma inc_prog:
  assumes "ok t (snd st)" and "prog_ok etoks R st" and "room p (snd st)"
    and "(kind, p) \<in># R + members_tokens (fst st) + etoks (snd st) + heap_tokens (snd st)"
  shows "\<exists>s'. inc p (snd st) = Inr (True, s') \<and> prog_ok etoks (add_mset (kind, p) R) (fst st, s') \<and> ok t s'"
proof -
  from inc_ok [OF assms(2) [unfolded prog_ok_def] assms(4,3)] obtain s' where
    s': "inc p (snd st) = Inr (True, s')" "mm.more s' = mm.more (snd st)"
      "mm_ok (add_mset (kind, p) (R + members_tokens (fst st) + etoks (snd st))) s'" by blast
  with ext [OF s'(2)] assms(1) show ?thesis by (auto simp: prog_ok_def)
qed

lemma copy_ok:
  assumes "ok t (snd st)" and "prog_ok etoks R st" and "p \<noteq> nullptr \<Longrightarrow> room p (snd st)"
    and "p \<noteq> nullptr \<Longrightarrow> (kind, p) \<in># R + members_tokens (fst st) + etoks (snd st) + heap_tokens (snd st)"
  shows "\<exists>st'. ptr_copy inc p st = ret (p, st') \<and> fst st' = fst st \<and> ok t (snd st') \<and>
    prog_ok etoks (member_tokens (mk p) + R) st' \<and> (\<forall>pl. place_get pl st' = place_get pl st)"
proof (cases "p = nullptr")
  case True
  with assms show ?thesis by (simp add: ptr_copy_def mk_tokens)
next
  case False
  from inc_prog [OF assms(1,2) assms(3,4)] False obtain s' where
    s': "inc p (snd st) = Inr (True, s')" "prog_ok etoks (add_mset (kind, p) R) (fst st, s')" "ok t s'" by blast
  with False inc_get [OF s'(1)] show ?thesis
    by (auto simp: ptr_copy_def lift_mm_def mk_tokens)
qed

lemma release_ok:
  assumes "ok t (snd st)" and "prog_ok etoks R st" and "place_get this st = Inr (mk p)"
  shows "\<exists>st'. ptr_release mk this st = ret (p, st') \<and> fst st' = put_vars this (mk nullptr) (fst st) \<and> ok t (snd st') \<and>
    prog_ok etoks (member_tokens (mk p) + R) st' \<and> place_put this (mk nullptr) st = Inr st'"
proof -
  have "prog_ok etoks (member_tokens (mk nullptr) + R) st" using assms(2) by (simp add: mk_tokens)
  from place_exchange [OF assms(3,1) this] assms(3) show ?thesis
    by (auto simp: ptr_release_def mk_ptr dest: place_put_vars)
qed

lemma drop_ok:
  assumes "ok t (snd st)" and "prog_ok etoks (member_tokens (mk p) + R) st"
  shows "\<exists>st'. (if p \<noteq> nullptr then run_calls (mm_step retire derived) t [dec p] st else ret st) = ret st' \<and>
    fst st' = fst st \<and> ok t (snd st') \<and> prog_ok etoks R st'"
proof (cases "p = nullptr")
  case True
  with assms show ?thesis by (simp add: mk_tokens)
next
  case False
  with assms(2) have "prog_ok etoks (calls_tokens ctoks [dec p] + R) st" by (simp add: mk_tokens dec_tokens)
  from run_calls_ok [OF assms(1) this] False show ?thesis by auto
qed

lemma assign_from_ok:
  assumes "ok t (snd st)" and "prog_ok etoks (member_tokens (mk p) + R) st" and "place_get this st = Inr (mk a)"
  shows "\<exists>st'. ptr_assign_from (mm_step retire derived) dec mk t this p st = ret st' \<and>
    fst st' = put_vars this (mk p) (fst st) \<and> ok t (snd st') \<and> prog_ok etoks R st'"
proof -
  from place_exchange [OF assms(3,1,2)] obtain st1 where
    st1: "place_put this (mk p) st = Inr st1" "prog_ok etoks (member_tokens (mk a) + R) st1" "ok t (snd st1)" by blast
  from drop_ok [OF st1(3,2)] place_put_vars [OF st1(1)] st1(1) assms(3) show ?thesis
    by (auto simp: ptr_assign_from_def mk_ptr)
qed

text \<open>A place is written first and the reference taken afterwards: the order does not matter.\<close>

lemma put_then_copy:
  assumes ok: "ok t (snd st)" "prog_ok etoks R st" and self: "place_get this st = Inr m"
    and put: "place_put this m' st = Inr st1" and m': "member_tokens m' = member_tokens (mk b)"
    and room: "b \<noteq> nullptr \<Longrightarrow> room b (snd st)"
    and owned: "b \<noteq> nullptr \<Longrightarrow> (kind, b) \<in># R + members_tokens (fst st) + etoks (snd st) + heap_tokens (snd st)"
  shows "\<exists>st2. ptr_copy inc b st1 = ret (b, st2) \<and> ok t (snd st2) \<and> prog_ok etoks (member_tokens m + R) st2 \<and>
    fst st2 = put_vars this m' (fst st)"
proof (cases "b = nullptr")
  case True
  with place_exchange [OF self ok(1), of m' R] ok(2) put place_put_vars [OF put] m' show ?thesis
    by (auto simp: mk_tokens ptr_copy_def)
next
  case False
  from inc_prog [OF ok room owned] False obtain s' where
    s': "inc b (snd st) = Inr (True, s')" "prog_ok etoks (add_mset (kind, b) R) (fst st, s')" "ok t s'" by blast
  from inc_put [OF s'(1) put] obtain s2 where
    s2: "inc b (snd st1) = Inr (True, s2)" "place_put this m' (fst st, s') = Inr (fst st1, s2)" by blast
  have "place_get this (fst st, s') = Inr m" using self inc_get [OF s'(1), of this] by simp
  from place_exchange [OF this, of t m' R] s' s2 False place_put_vars [OF put] m' show ?thesis
    by (auto simp: ptr_copy_def lift_mm_def mk_tokens)
qed

lemma copy_assign_ok:
  assumes ok: "ok t (snd st)" "prog_ok etoks R st"
    and self: "place_get this st = Inr (mk a)" and other: "place_get other st = Inr (mk b)"
    and room: "b \<noteq> nullptr \<Longrightarrow> room b (snd st)"
  shows "\<exists>st'. ptr_copy_assign (mm_step retire derived) inc dec mk t this other st = ret st' \<and>
    fst st' = put_vars this (mk b) (fst st) \<and> ok t (snd st') \<and> prog_ok etoks R st'"
proof -
  have owned: "(kind, b) \<in># R + members_tokens (fst st) + etoks (snd st) + heap_tokens (snd st)" if "b \<noteq> nullptr"
    using place_get_token [OF other, of "(kind, b)"] that by (auto simp: mk_tokens)
  obtain st1 where st1: "place_put this (mk b) st = Inr st1"
    using place_put_iff_get [of this "mk b" st] self by auto
  from put_then_copy [OF ok self st1 refl room owned] obtain st2 where
    st2: "ptr_copy inc b st1 = ret (b, st2)" "ok t (snd st2)"
      "prog_ok etoks (member_tokens (mk a) + R) st2" "fst st2 = put_vars this (mk b) (fst st)" by blast
  from drop_ok [OF st2(2,3)] st2 st1 self other show ?thesis
    by (auto simp: ptr_copy_assign_def mk_ptr)
qed

lemma move_assign_ok:
  assumes "ok t (snd st)" and "prog_ok etoks R st"
    and self: "place_get this st = Inr (mk a)" and other: "place_get other st = Inr (mk b)" and ne: "this \<noteq> other"
  shows "\<exists>st'. ptr_move_assign (mm_step retire derived) dec mk t this other st = ret st' \<and>
    fst st' = put_vars this (mk b) (put_vars other (mk nullptr) (fst st)) \<and> ok t (snd st') \<and> prog_ok etoks R st'"
proof -
  from release_ok [OF assms(1,2) other] obtain st1 where
    st1: "ptr_release mk other st = ret (b, st1)" "fst st1 = put_vars other (mk nullptr) (fst st)" "ok t (snd st1)"
      "prog_ok etoks (member_tokens (mk b) + R) st1" "place_put other (mk nullptr) st = Inr st1" by blast
  have self1: "place_get this st1 = Inr (mk a)" using place_get_put_other [OF st1(5) ne] self by simp
  from assign_from_ok [OF st1(3,4) self1] st1(1,2) self self1 show ?thesis
    by (auto simp: ptr_move_assign_def ptr_assign_from_def)
qed

lemma clear_ok:
  assumes "ok t (snd st)" and "prog_ok etoks R st" and x: "x < length (fst st)" "fst st ! x = mk a"
  shows "\<exists>st'. ptr_clear (mm_step retire derived) dec mk t (Var x) st = ret st' \<and>
    fst st' = (fst st)[x := mk nullptr] \<and> ok t (snd st') \<and> prog_ok etoks R st'"
proof -
  obtain vs s where st: "st = (vs, s)" by (cases st)
  have get: "place_get (Var x) st = Inr (mk a)" using x st by simp
  from release_ok [OF assms(1,2) get] st x have rel:
    "ok t s" "prog_ok etoks (member_tokens (mk a) + R) (vs[x := mk nullptr], s)" by auto
  from drop_ok [of t "(vs[x := mk nullptr], s)", simplified, OF rel] obtain st' where
    st': "(if a \<noteq> nullptr then run_calls (mm_step retire derived) t [dec a] (vs[x := mk nullptr], s)
       else ret (vs[x := mk nullptr], s)) = ret st'" "fst st' = vs[x := mk nullptr]" "ok t (snd st')" "prog_ok etoks R st'"
    by (auto split: if_splits)
  then have "(if a \<noteq> nullptr then run_calls (mm_step retire derived) t [dec a] (vs, s) else ret (vs, s)) = ret (vs, snd st')"
    by (auto simp: run_calls_eq_ret split: if_splits)
  with get st x st' show ?thesis by (cases st') (auto simp: ptr_clear_def mk_ptr ret_def)
qed

end

lemma increment_ref_cnt_owner:
  assumes "mm_ok R s" and "(T_strong, p) \<in># R + heap_tokens s" and "strong_room p s"
  shows "\<exists>s'. increment_ref_cnt p s = Inr (True, s') \<and> mm_ok (add_mset (T_strong, p) R) s' \<and> mm.more s' = mm.more s"
proof -
  have pos: "0 < token_count (R + heap_tokens s) p T_strong"
    using assms(2) by (simp add: token_count_def del: count_union)
  with mm_invD [OF assms(1) [unfolded mm_ok_def] pos] obtain ob where "fmlookup (heap s) p = Some ob" by blast
  from increment_ref_cnt_ok [OF assms(1) this assms(3) refl] pos show ?thesis by auto
qed

lemma increment_weak_cnt_owner:
  assumes "mm_ok R s" and "(T_weak, p) \<in># R + heap_tokens s" and "weak_room p s"
  shows "\<exists>s'. increment_weak_cnt p s = Inr (True, s') \<and> mm_ok (add_mset (T_weak, p) R) s' \<and> mm.more s' = mm.more s"
proof -
  have "0 < token_count (R + heap_tokens s) p T_weak"
    using assms(2) by (simp add: token_count_def del: count_union)
  with increment_weak_cnt_ok [OF assms(1,3)] show ?thesis by blast
qed

sublocale reclamation_scheme \<subseteq> strong: owning_pointer retire derived ctoks cweight clen etoks eweight elen ok
  T_strong M_rc C_decrement_ref_cnt increment_ref_cnt strong_room
  by unfold_locales (auto simp: increments_get keeps_room_def intro: increment_ref_cnt_owner increment_ref_cnt_put)

sublocale reclamation_scheme \<subseteq> weak: owning_pointer retire derived ctoks cweight clen etoks eweight elen ok
  T_weak M_weak C_decrement_weak_cnt increment_weak_cnt weak_room
  by unfold_locales (auto simp: increments_get keeps_room_def intro: increment_weak_cnt_owner increment_weak_cnt_put)

section \<open>What the counts tell\<close>

lemma ucast_count: "n \<le> 2 ^ 30 - 1 \<Longrightarrow> ucast (of_nat n :: u32) = (of_nat n :: u64)"
  by (rule word_unat_eq_iff [THEN iffD2]) (simp add: unat_of_nat unsigned_ucast_eq take_bit_nat_eq_self)

lemma token_object:
  assumes "mm_ok R s" and "(k, p) \<in># R + heap_tokens s"
  shows "\<exists>ob. fmlookup (heap s) p = Some ob \<and> p \<noteq> nullptr \<and> object_ok ob (token_count (R + heap_tokens s) p)"
proof -
  have "0 < token_count (R + heap_tokens s) p k" using assms(2) by (simp add: token_count_def del: count_union)
  from mm_invD [OF assms(1) [unfolded mm_ok_def] this] show ?thesis .
qed

lemma object_ok_count: "object_ok ob c \<Longrightarrow> strong_rep ob (c T_strong)"
  by (simp add: object_ok_def)

lemma use_count_exact:
  assumes "mm_ok R s" and "(k, p) \<in># R + heap_tokens s"
  shows "rc_use_count p (vs, s) = ret (of_nat (token_count (R + heap_tokens s) p T_strong), (vs, s))"
proof -
  define n where "n = token_count (R + heap_tokens s) p T_strong"
  from token_object [OF assms] obtain ob where ob: "fmlookup (heap s) p = Some ob" "p \<noteq> nullptr" "strong_rep ob n"
    using object_ok_count n_def by blast
  moreover from ob(3) have "n \<le> 2 ^ 30 - 1" using sc.rep_limit by (auto simp: rep_defs)
  ultimately show ?thesis unfolding n_def [symmetric]
    by (simp add: rc_use_count_def lift_mm_def with_object_def get_use_count_rep put_object_same ucast_count ret_def)
qed

lemma use_count_bound:
  assumes "mm_ok R s" and "(k, p) \<in># R + heap_tokens s"
  shows "token_count (R + heap_tokens s) p T_strong \<le> 2 ^ 30 - 1"
proof -
  from token_object [OF assms] obtain ob where "fmlookup (heap s) p = Some ob" "object_ok ob (token_count (R + heap_tokens s) p)" by blast
  then have "strong_rep ob (token_count (R + heap_tokens s) p T_strong)" by (intro object_ok_count)
  from sc.rep_limit [OF this [unfolded strong_rep_def]] show ?thesis .
qed

lemma count_pos_u64: "n \<le> 2 ^ 30 - 1 \<Longrightarrow> (0 < (of_nat n :: u64)) \<longleftrightarrow> n \<noteq> 0"
  by (simp add: word_less_nat_alt unat_of_nat)

lemma weak_count_exact:
  assumes "mm_ok R s" and "(T_strong, p) \<in># R + heap_tokens s"
  shows "rc_weak_count p (vs, s) = ret (of_nat (token_count (R + heap_tokens s) p T_weak), (vs, s))"
proof -
  define c where "c = token_count (R + heap_tokens s) p"
  have "0 < c T_strong" using assms(2) by (simp add: c_def token_count_def del: count_union)
  moreover from token_object [OF assms] obtain ob where ob: "fmlookup (heap s) p = Some ob" "p \<noteq> nullptr" "object_ok ob c"
    by (auto simp: c_def)
  ultimately have rep: "weak_rep ob (Suc (c T_weak))" by (auto simp: object_ok_def weak_total_def)
  from sc.rep_limit [OF rep [unfolded weak_rep_def]] have "c T_weak \<le> 2 ^ 30 - 1" by simp
  with ob rep show ?thesis unfolding c_def [symmetric]
    by (simp add: rc_weak_count_def lift_mm_def with_object_def get_weak_count_rep [OF rep] put_object_same ucast_count ret_def)
qed

end
