(* ===== verification/Snapshot_Ptr.thy ===== *)
theory Snapshot_Ptr
  imports Rc_Ptr
begin

text \<open>
  \<^verbatim>\<open>include/cdrc/snapshot_ptr.h\<close> and \<^verbatim>\<open>include/cdrc/weak_snapshot_ptr.h\<close>: a snapshot wraps an acquired pointer of the
  memory manager. It owns a reference only if the acquired pointer is not protected by an announcement.
\<close>

definition snapshot_empty :: "('c, 'a, 'v, 'x, 'e) backend \<Rightarrow> 'a" where
  "snapshot_empty M = mg_reserve_nothing M"

text \<open>The move constructor: the new snapshot and what is left of the other.\<close>

definition snapshot_move :: "('c, 'a, 'v, 'x, 'e) backend \<Rightarrow> 'a \<Rightarrow> 'a \<times> 'a" where
  "snapshot_move M other = (other, mg_reserve_nothing M)"

definition snapshot_bool :: "('c, 'a, 'v, 'x, 'e) backend \<Rightarrow> 'a \<Rightarrow> bool" where
  "snapshot_bool M a \<longleftrightarrow> mg_get M a \<noteq> nullptr"

definition snapshot_get_counted :: "('c, 'a, 'v, 'x, 'e) backend \<Rightarrow> 'a \<Rightarrow> ptr" where
  "snapshot_get_counted M a = mg_get M a"

definition snapshot_is_protected :: "('c, 'a, 'v, 'x, 'e) backend \<Rightarrow> 'a \<Rightarrow> bool" where
  "snapshot_is_protected M a = mg_is_protected M a"

definition snapshot_clear :: "('c, 'a, 'v, 'x, 'e) backend \<Rightarrow> tid \<Rightarrow> 'a \<Rightarrow> ('v, 'x, 'e) mm_state prog \<Rightarrow> ('a \<times> ('v, 'x, 'e) mm_state prog) res" where
  "snapshot_clear M t a st =
     (let p = mg_get M a in
      rbind (if \<not> mg_is_protected M a \<and> p \<noteq> nullptr then run_calls (mg_step M) t [C_decrement_ref_cnt p] st else ret st) (\<lambda>st1.
      let (a', s') = mg_clear M a (snd st1) in ret (a', (fst st1, s'))))"

text \<open>Move assignment of the snapshot \<open>other\<close> to \<open>this\<close>: the new values of both.\<close>

definition snapshot_move_assign :: "('c, 'a, 'v, 'x, 'e) backend \<Rightarrow> tid \<Rightarrow> 'a \<Rightarrow> 'a \<Rightarrow> ('v, 'x, 'e) mm_state prog \<Rightarrow>
    ('a \<times> 'a \<times> ('v, 'x, 'e) mm_state prog) res" where
  "snapshot_move_assign M t this other st =
     rbind (snapshot_clear M t this st) (\<lambda>(this', st1). ret (other, this', st1))"

definition snapshot_swap :: "'a \<Rightarrow> 'a \<Rightarrow> 'a \<times> 'a" where
  "snapshot_swap this other = (other, this)"

text \<open>The destructor: \<^verbatim>\<open>clear\<close>, then the destructor of the acquired pointer.\<close>

definition snapshot_dtor :: "('c, 'a, 'v, 'x, 'e) backend \<Rightarrow> tid \<Rightarrow> 'a \<Rightarrow> ('v, 'x, 'e) mm_state prog \<Rightarrow> ('v, 'x, 'e) mm_state prog res" where
  "snapshot_dtor M t a st =
     rbind (snapshot_clear M t a st) (\<lambda>(a', st1). ret (fst st1, mg_destruct M a' (snd st1)))"

definition snapshot_deref :: "('c, 'a, 'v, 'x, 'e) backend \<Rightarrow> 'a \<Rightarrow> ('v, 'x, 'e) mm_state prog \<Rightarrow> error + 'v managed" where
  "snapshot_deref M a st = with_storage (mg_get M a) (snd st) (\<lambda>ob m. Inr m)"

definition snapshot_eq :: "('c, 'a, 'v, 'x, 'e) backend \<Rightarrow> 'a \<Rightarrow> 'a \<Rightarrow> bool" where
  "snapshot_eq M this other \<longleftrightarrow> mg_get M this = mg_get M other"

section \<open>weak_snapshot_ptr\<close>

text \<open>\<^verbatim>\<open>clear\<close>, move assignment, \<^verbatim>\<open>swap\<close> and the destructor are those of \<^verbatim>\<open>snapshot_ptr\<close>, word for word.\<close>

definition weak_snapshot_empty :: "('c, 'a, 'v, 'x, 'e) backend \<Rightarrow> 'a" where
  "weak_snapshot_empty M = mg_reserve_nothing M"

definition weak_snapshot_move :: "('c, 'a, 'v, 'x, 'e) backend \<Rightarrow> 'a \<Rightarrow> 'a \<times> 'a" where
  "weak_snapshot_move M other = (other, mg_reserve_nothing M)"

definition weak_snapshot_bool :: "('c, 'a, 'v, 'x, 'e) backend \<Rightarrow> 'a \<Rightarrow> bool" where
  "weak_snapshot_bool M a \<longleftrightarrow> mg_get M a \<noteq> nullptr"

definition weak_snapshot_eq :: "('c, 'a, 'v, 'x, 'e) backend \<Rightarrow> 'a \<Rightarrow> 'a \<Rightarrow> bool" where
  "weak_snapshot_eq M this other \<longleftrightarrow> mg_get M this = mg_get M other"

definition weak_snapshot_swap :: "'a \<Rightarrow> 'a \<Rightarrow> 'a \<times> 'a" where
  "weak_snapshot_swap this other = (other, this)"

definition weak_snapshot_get_counted :: "('c, 'a, 'v, 'x, 'e) backend \<Rightarrow> 'a \<Rightarrow> ptr" where
  "weak_snapshot_get_counted M a = mg_get M a"

definition weak_snapshot_is_protected :: "('c, 'a, 'v, 'x, 'e) backend \<Rightarrow> 'a \<Rightarrow> bool" where
  "weak_snapshot_is_protected M a = mg_is_protected M a"

definition weak_snapshot_clear :: "('c, 'a, 'v, 'x, 'e) backend \<Rightarrow> tid \<Rightarrow> 'a \<Rightarrow> ('v, 'x, 'e) mm_state prog \<Rightarrow> ('a \<times> ('v, 'x, 'e) mm_state prog) res" where
  "weak_snapshot_clear M t a st = snapshot_clear M t a st"

definition weak_snapshot_move_assign :: "('c, 'a, 'v, 'x, 'e) backend \<Rightarrow> tid \<Rightarrow> 'a \<Rightarrow> 'a \<Rightarrow> ('v, 'x, 'e) mm_state prog \<Rightarrow>
    ('a \<times> 'a \<times> ('v, 'x, 'e) mm_state prog) res" where
  "weak_snapshot_move_assign M t this other st =
     rbind (weak_snapshot_clear M t this st) (\<lambda>(this', st1). ret (other, this', st1))"

definition weak_snapshot_dtor :: "('c, 'a, 'v, 'x, 'e) backend \<Rightarrow> tid \<Rightarrow> 'a \<Rightarrow> ('v, 'x, 'e) mm_state prog \<Rightarrow> ('v, 'x, 'e) mm_state prog res" where
  "weak_snapshot_dtor M t a st =
     rbind (weak_snapshot_clear M t a st) (\<lambda>(a', st1). ret (fst st1, mg_destruct M a' (snd st1)))"

definition weak_snapshot_lock :: "('c, 'a, 'v, 'x, 'e) backend \<Rightarrow> 'a \<Rightarrow> ('v, 'x, 'e) mm_state prog \<Rightarrow> (ptr \<times> ('v, 'x, 'e) mm_state prog) res" where
  "weak_snapshot_lock M a st =
     (let p = mg_get M a in
      if p = nullptr then ret (nullptr, st)
      else rbind (lift_mm (increment_ref_cnt p) st) (\<lambda>(ok, st1).
        if ok then rc_construct p AddRef_no st1 else ret (nullptr, st1)))"

definition weak_snapshot_deref :: "('c, 'a, 'v, 'x, 'e) backend \<Rightarrow> 'a \<Rightarrow> ('v, 'x, 'e) mm_state prog \<Rightarrow> error + 'v managed" where
  "weak_snapshot_deref M a st = with_storage (mg_get M a) (snd st) (\<lambda>ob m. Inr m)"

end
