(* ===== verification/Atomic_Ptr.thy ===== *)
theory Atomic_Ptr
  imports Snapshot_Ptr
begin

text \<open>
  \<^verbatim>\<open>include/cdrc/atomic_rc_ptr.h\<close> and \<^verbatim>\<open>include/cdrc/atomic_weak_ptr.h\<close>: shared locations. A location is a
  place that holds an \<open>M_arc\<close> or \<open>M_aweak\<close>; \<^verbatim>\<open>std::atomic\<close> accesses it in one step. What a location
  gives up is released with delay, because readers may have announced it, except in \<^verbatim>\<open>exchange\<close> and \<^verbatim>\<open>swap\<close>.

  The two classes differ in the counts they use, so that \<^verbatim>\<open>store\<close>, \<^verbatim>\<open>exchange\<close> and
  \<^verbatim>\<open>compare_and_swap_impl\<close> are written once, with the delayed decrement \<open>ddec\<close> and the member
  constructor \<open>mk\<close> as arguments.
\<close>

section \<open>The underlying std::atomic\<close>

definition atomic_load :: "place \<Rightarrow> ('v, 'x, 'e) mm_state prog \<Rightarrow> ptr res" where
  "atomic_load this st = Some (ebind (place_get this st) (\<lambda>m. Inr (member_ptr m)))"

definition atomic_exchange :: "(ptr \<Rightarrow> member) \<Rightarrow> place \<Rightarrow> ptr \<Rightarrow> ('v, 'x, 'e) mm_state prog \<Rightarrow> (ptr \<times> ('v, 'x, 'e) mm_state prog) res" where
  "atomic_exchange mk this p st =
     rbind (atomic_load this st) (\<lambda>old. rbind (Some (place_put this (mk p) st)) (\<lambda>st1. ret (old, st1)))"

text \<open>\<^verbatim>\<open>compare_exchange_strong\<close>: success, the value left in \<^verbatim>\<open>expected\<close>, the new state.\<close>

definition atomic_compare_exchange :: "(ptr \<Rightarrow> member) \<Rightarrow> place \<Rightarrow> ptr \<Rightarrow> ptr \<Rightarrow> ('v, 'x, 'e) mm_state prog \<Rightarrow>
    (bool \<times> ptr \<times> ('v, 'x, 'e) mm_state prog) res" where
  "atomic_compare_exchange mk this expected desired st =
     rbind (atomic_load this st) (\<lambda>current.
       let (success, expected', new) = compare_exchange_strong current expected desired in
       rbind (Some (place_put this (mk new) st)) (\<lambda>st1. ret (success, expected', st1)))"

section \<open>Common to both classes\<close>

definition drop_delayed :: "('c, ('v, 'x, 'e) mm_state) step_fn \<Rightarrow> (ptr \<Rightarrow> 'c mm_call) \<Rightarrow> tid \<Rightarrow> ptr \<Rightarrow>
    ('v, 'x, 'e) mm_state prog \<Rightarrow> ('v, 'x, 'e) mm_state prog res" where
  "drop_delayed step ddec t p st = (if p \<noteq> nullptr then run_calls step t [ddec p] st else ret st)"

text \<open>\<^verbatim>\<open>store\<close> of a pointer whose reference is at hand: by value, or \<^verbatim>\<open>nullptr\<close>.\<close>

definition loc_store :: "('c, ('v, 'x, 'e) mm_state) step_fn \<Rightarrow> (ptr \<Rightarrow> 'c mm_call) \<Rightarrow> (ptr \<Rightarrow> member) \<Rightarrow>
    tid \<Rightarrow> place \<Rightarrow> ptr \<Rightarrow> ('v, 'x, 'e) mm_state prog \<Rightarrow> ('v, 'x, 'e) mm_state prog res" where
  "loc_store step ddec mk t this new_ptr st =
     rbind (atomic_exchange mk this new_ptr st) (\<lambda>(old_ptr, st1). drop_delayed step ddec t old_ptr st1)"

definition loc_store_non_racy :: "('c, ('v, 'x, 'e) mm_state) step_fn \<Rightarrow> (ptr \<Rightarrow> 'c mm_call) \<Rightarrow> (ptr \<Rightarrow> member) \<Rightarrow>
    tid \<Rightarrow> place \<Rightarrow> ptr \<Rightarrow> ('v, 'x, 'e) mm_state prog \<Rightarrow> ('v, 'x, 'e) mm_state prog res" where
  "loc_store_non_racy step ddec mk t this new_ptr st =
     rbind (atomic_load this st) (\<lambda>old_ptr.
     rbind (Some (place_put this (mk new_ptr) st)) (\<lambda>st1. drop_delayed step ddec t old_ptr st1))"

definition loc_dtor :: "('c, ('v, 'x, 'e) mm_state) step_fn \<Rightarrow> (ptr \<Rightarrow> 'c mm_call) \<Rightarrow> (ptr \<Rightarrow> member) \<Rightarrow>
    tid \<Rightarrow> place \<Rightarrow> ('v, 'x, 'e) mm_state prog \<Rightarrow> ('v, 'x, 'e) mm_state prog res" where
  "loc_dtor step ddec mk t this st =
     rbind (atomic_load this st) (\<lambda>p. rbind (drop_delayed step ddec t p st) (\<lambda>st1. Some (place_put this (mk nullptr) st1)))"

definition loc_cas_impl :: "('c, ('v, 'x, 'e) mm_state) step_fn \<Rightarrow> (ptr \<Rightarrow> 'c mm_call) \<Rightarrow> (ptr \<Rightarrow> member) \<Rightarrow>
    tid \<Rightarrow> place \<Rightarrow> ptr \<Rightarrow> ptr \<Rightarrow> ('v, 'x, 'e) mm_state prog \<Rightarrow> (bool \<times> ('v, 'x, 'e) mm_state prog) res" where
  "loc_cas_impl step ddec mk t this expected_ptr desired_ptr st =
     rbind (atomic_compare_exchange mk this expected_ptr desired_ptr st) (\<lambda>(success, expected', st1).
       if success then rbind (drop_delayed step ddec t expected' st1) (\<lambda>st2. ret (True, st2)) else ret (False, st1))"

text \<open>\<^verbatim>\<open>compare_and_swap\<close> with a copy of \<^verbatim>\<open>desired\<close>: a reservation for the time between the exchange and the
  increment, unless \<^verbatim>\<open>desired\<close> is protected already. The reservation ends with the function.\<close>

definition loc_cas_copy :: "('c, 'a, 'v, 'x, 'e) backend \<Rightarrow> (ptr \<Rightarrow> ('v, 'x, 'e) mm_state \<Rightarrow> error + bool \<times> ('v, 'x, 'e) mm_state) \<Rightarrow>
    (ptr \<Rightarrow> 'c mm_call) \<Rightarrow> (ptr \<Rightarrow> member) \<Rightarrow> tid \<Rightarrow> place \<Rightarrow> ptr \<Rightarrow> ptr \<Rightarrow> bool \<Rightarrow> ('v, 'x, 'e) mm_state prog \<Rightarrow>
    (bool \<times> ('v, 'x, 'e) mm_state prog) res" where
  "loc_cas_copy M inc ddec mk t this expected desired desired_protected st =
     (let (reservation, s1) = if \<not> desired_protected then mg_reserve M t desired (snd st) else (mg_reserve_nothing M, snd st) in
      rbind (loc_cas_impl (mg_step M) ddec mk t this expected desired (fst st, s1)) (\<lambda>(success, st2).
      rbind (if success \<and> desired \<noteq> nullptr then rbind (lift_mm (inc desired) st2) (\<lambda>(_, st3). ret st3) else ret st2) (\<lambda>st3.
      ret (success, (fst st3, mg_destruct M reservation (snd st3))))))"

text \<open>\<^verbatim>\<open>compare_and_swap\<close> that moves \<^verbatim>\<open>desired\<close>, an owning pointer in a place.\<close>

definition loc_cas_move :: "('c, ('v, 'x, 'e) mm_state) step_fn \<Rightarrow> (ptr \<Rightarrow> 'c mm_call) \<Rightarrow> (ptr \<Rightarrow> member) \<Rightarrow> (ptr \<Rightarrow> member) \<Rightarrow>
    tid \<Rightarrow> place \<Rightarrow> ptr \<Rightarrow> place \<Rightarrow> ('v, 'x, 'e) mm_state prog \<Rightarrow> (bool \<times> ('v, 'x, 'e) mm_state prog) res" where
  "loc_cas_move step ddec mk omk t this expected desired st =
     rbind (Some (place_get desired st)) (\<lambda>d.
     rbind (loc_cas_impl step ddec mk t this expected (member_ptr d) st) (\<lambda>(success, st1).
     if success then rbind (ptr_release omk desired st1) (\<lambda>(_, st2). ret (True, st2)) else ret (False, st1)))"

section \<open>atomic_rc_ptr\<close>

definition arc_dtor :: "('c, 'a, 'v, 'x, 'e) backend \<Rightarrow> tid \<Rightarrow> place \<Rightarrow> ('v, 'x, 'e) mm_state prog \<Rightarrow> ('v, 'x, 'e) mm_state prog res" where
  "arc_dtor M t this st = loc_dtor (mg_step M) C_delayed_decrement_ref_cnt M_arc t this st"

definition arc_store_null :: "('c, 'a, 'v, 'x, 'e) backend \<Rightarrow> tid \<Rightarrow> place \<Rightarrow> ('v, 'x, 'e) mm_state prog \<Rightarrow> ('v, 'x, 'e) mm_state prog res" where
  "arc_store_null M t this st = loc_store (mg_step M) C_delayed_decrement_ref_cnt M_arc t this nullptr st"

definition arc_store :: "('c, 'a, 'v, 'x, 'e) backend \<Rightarrow> tid \<Rightarrow> place \<Rightarrow> ptr \<Rightarrow> ('v, 'x, 'e) mm_state prog \<Rightarrow> ('v, 'x, 'e) mm_state prog res" where
  "arc_store M t this desired st = loc_store (mg_step M) C_delayed_decrement_ref_cnt M_arc t this desired st"

definition arc_store_non_racy :: "('c, 'a, 'v, 'x, 'e) backend \<Rightarrow> tid \<Rightarrow> place \<Rightarrow> ptr \<Rightarrow> ('v, 'x, 'e) mm_state prog \<Rightarrow> ('v, 'x, 'e) mm_state prog res" where
  "arc_store_non_racy M t this desired st = loc_store_non_racy (mg_step M) C_delayed_decrement_ref_cnt M_arc t this desired st"

text \<open>\<^verbatim>\<open>store\<close> of a snapshot: if it is protected, equal pointers need no reference counting.\<close>

definition arc_store_snapshot :: "('c, 'a, 'v, 'x, 'e) backend \<Rightarrow> tid \<Rightarrow> place \<Rightarrow> 'a \<Rightarrow> ('v, 'x, 'e) mm_state prog \<Rightarrow> ('v, 'x, 'e) mm_state prog res" where
  "arc_store_snapshot M t this desired st =
     (let new_ptr = snapshot_get_counted M desired in
      if snapshot_is_protected M desired then
        rbind (atomic_exchange M_arc this new_ptr st) (\<lambda>(old_ptr, st1).
          if old_ptr \<noteq> new_ptr then
            rbind (if new_ptr \<noteq> nullptr then rbind (lift_mm (increment_ref_cnt new_ptr) st1) (\<lambda>(_, st2). ret st2) else ret st1) (\<lambda>st2.
            drop_delayed (mg_step M) C_delayed_decrement_ref_cnt t old_ptr st2)
          else ret st1)
      else
        rbind (if new_ptr \<noteq> nullptr then rbind (lift_mm (increment_ref_cnt new_ptr) st) (\<lambda>(_, st1). ret st1) else ret st) (\<lambda>st1.
        loc_store (mg_step M) C_delayed_decrement_ref_cnt M_arc t this new_ptr st1))"

definition arc_load :: "('c, 'a, 'v, 'x, 'e) backend \<Rightarrow> tid \<Rightarrow> place \<Rightarrow> ('v, 'x, 'e) mm_state prog \<Rightarrow> (ptr \<times> ('v, 'x, 'e) mm_state prog) res" where
  "arc_load M t this st =
     rbind (atomic_load this st) (\<lambda>p.
     rbind (mg_acquire M t p (snd st)) (\<lambda>(acquired, s1).
     rbind (rc_construct (mg_get M acquired) AddRef_yes (fst st, s1)) (\<lambda>(result, st2).
     ret (result, (fst st2, mg_destruct M acquired (snd st2))))))"

definition arc_get_snapshot :: "('c, 'a, 'v, 'x, 'e) backend \<Rightarrow> tid \<Rightarrow> place \<Rightarrow> ('v, 'x, 'e) mm_state prog \<Rightarrow> ('a \<times> ('v, 'x, 'e) mm_state prog) res" where
  "arc_get_snapshot M t this st =
     rbind (atomic_load this st) (\<lambda>p. rbind (mg_protect_snapshot M t p (snd st)) (\<lambda>(a, s1). ret (a, (fst st, s1))))"

definition arc_cas_copy :: "('c, 'a, 'v, 'x, 'e) backend \<Rightarrow> tid \<Rightarrow> place \<Rightarrow> ptr \<Rightarrow> ptr \<Rightarrow> bool \<Rightarrow> ('v, 'x, 'e) mm_state prog \<Rightarrow>
    (bool \<times> ('v, 'x, 'e) mm_state prog) res" where
  "arc_cas_copy M t this expected desired desired_protected st =
     loc_cas_copy M increment_ref_cnt C_delayed_decrement_ref_cnt M_arc t this expected desired desired_protected st"

definition arc_cas_move :: "('c, 'a, 'v, 'x, 'e) backend \<Rightarrow> tid \<Rightarrow> place \<Rightarrow> ptr \<Rightarrow> place \<Rightarrow> ('v, 'x, 'e) mm_state prog \<Rightarrow>
    (bool \<times> ('v, 'x, 'e) mm_state prog) res" where
  "arc_cas_move M t this expected desired st = loc_cas_move (mg_step M) C_delayed_decrement_ref_cnt M_arc M_rc t this expected desired st"

text \<open>\<^verbatim>\<open>compare_exchange_weak\<close>: on failure \<^verbatim>\<open>expected\<close>, an \<^verbatim>\<open>rc_ptr\<close> or a snapshot, becomes the current value.\<close>

definition arc_compare_exchange_weak :: "('c, 'a, 'v, 'x, 'e) backend \<Rightarrow> tid \<Rightarrow> place \<Rightarrow> place \<Rightarrow> ptr \<Rightarrow> ('v, 'x, 'e) mm_state prog \<Rightarrow>
    (bool \<times> ('v, 'x, 'e) mm_state prog) res" where
  "arc_compare_exchange_weak M t this expected desired st =
     rbind (Some (place_get expected st)) (\<lambda>e.
     rbind (arc_cas_copy M t this (member_ptr e) desired False st) (\<lambda>(success, st1).
     if success then ret (True, st1)
     else rbind (arc_load M t this st1) (\<lambda>(p, st2).
          rbind (rc_assign_from M t expected p st2) (\<lambda>st3. ret (False, st3)))))"

definition arc_compare_exchange_weak_snapshot :: "('c, 'a, 'v, 'x, 'e) backend \<Rightarrow> tid \<Rightarrow> place \<Rightarrow> 'a \<Rightarrow> ptr \<Rightarrow> ('v, 'x, 'e) mm_state prog \<Rightarrow>
    (bool \<times> 'a \<times> ('v, 'x, 'e) mm_state prog) res" where
  "arc_compare_exchange_weak_snapshot M t this expected desired st =
     rbind (arc_cas_copy M t this (snapshot_get_counted M expected) desired False st) (\<lambda>(success, st1).
     if success then ret (True, expected, st1)
     else rbind (arc_get_snapshot M t this st1) (\<lambda>(a, st2).
          rbind (snapshot_move_assign M t expected a st2) (\<lambda>(expected', _, st3). ret (False, expected', st3))))"

text \<open>\<^verbatim>\<open>swap\<close>: \<open>spurious\<close> tells which attempts of \<^verbatim>\<open>compare_exchange_weak\<close> fail for no reason.\<close>

fun arc_swap_loop :: "place \<Rightarrow> place \<Rightarrow> ptr \<Rightarrow> bool list \<Rightarrow> ('v, 'x, 'e) mm_state prog \<Rightarrow> ('v, 'x, 'e) mm_state prog res" where
  "arc_swap_loop this desired desired_ptr [] st = None"
| "arc_swap_loop this desired desired_ptr (spurious # script) st =
     rbind (Some (place_get desired st)) (\<lambda>d.
     rbind (if spurious then rbind (atomic_load this st) (\<lambda>p. ret (False, p, st))
            else atomic_compare_exchange M_arc this (member_ptr d) desired_ptr st) (\<lambda>(success, expected', st1).
     rbind (Some (place_put desired (M_rc expected') st1)) (\<lambda>st2.
     if success then ret st2 else arc_swap_loop this desired desired_ptr script st2)))"

definition arc_swap :: "('c, 'a, 'v, 'x, 'e) backend \<Rightarrow> tid \<Rightarrow> place \<Rightarrow> place \<Rightarrow> bool list \<Rightarrow> ('v, 'x, 'e) mm_state prog \<Rightarrow> ('v, 'x, 'e) mm_state prog res" where
  "arc_swap M t this desired spurious st =
     rbind (rc_release desired st) (\<lambda>(desired_ptr, st1).
     rbind (atomic_load this st1) (\<lambda>current_ptr.
     rbind (rc_construct current_ptr AddRef_no st1) (\<lambda>(p, st2).
     rbind (rc_assign_from M t desired p st2) (\<lambda>st3.
     arc_swap_loop this desired desired_ptr spurious st3))))"

definition arc_exchange :: "place \<Rightarrow> ptr \<Rightarrow> ('v, 'x, 'e) mm_state prog \<Rightarrow> (ptr \<times> ('v, 'x, 'e) mm_state prog) res" where
  "arc_exchange this desired st =
     rbind (atomic_exchange M_arc this desired st) (\<lambda>(old_ptr, st1). rc_construct old_ptr AddRef_no st1)"

definition arc_assign :: "('c, 'a, 'v, 'x, 'e) backend \<Rightarrow> tid \<Rightarrow> place \<Rightarrow> ptr \<Rightarrow> ('v, 'x, 'e) mm_state prog \<Rightarrow> ('v, 'x, 'e) mm_state prog res" where
  "arc_assign M t this desired st = arc_store M t this desired st"

definition arc_eq_null :: "place \<Rightarrow> ('v, 'x, 'e) mm_state prog \<Rightarrow> bool res" where
  "arc_eq_null this st = rbind (atomic_load this st) (\<lambda>p. ret (p = nullptr))"

section \<open>atomic_weak_ptr\<close>

definition aweak_dtor :: "('c, 'a, 'v, 'x, 'e) backend \<Rightarrow> tid \<Rightarrow> place \<Rightarrow> ('v, 'x, 'e) mm_state prog \<Rightarrow> ('v, 'x, 'e) mm_state prog res" where
  "aweak_dtor M t this st = loc_dtor (mg_step M) C_delayed_decrement_weak_cnt M_aweak t this st"

definition aweak_store_null :: "('c, 'a, 'v, 'x, 'e) backend \<Rightarrow> tid \<Rightarrow> place \<Rightarrow> ('v, 'x, 'e) mm_state prog \<Rightarrow> ('v, 'x, 'e) mm_state prog res" where
  "aweak_store_null M t this st = loc_store (mg_step M) C_delayed_decrement_weak_cnt M_aweak t this nullptr st"

definition aweak_store :: "('c, 'a, 'v, 'x, 'e) backend \<Rightarrow> tid \<Rightarrow> place \<Rightarrow> ptr \<Rightarrow> ('v, 'x, 'e) mm_state prog \<Rightarrow> ('v, 'x, 'e) mm_state prog res" where
  "aweak_store M t this desired st = loc_store (mg_step M) C_delayed_decrement_weak_cnt M_aweak t this desired st"

definition aweak_store_non_racy :: "('c, 'a, 'v, 'x, 'e) backend \<Rightarrow> tid \<Rightarrow> place \<Rightarrow> ptr \<Rightarrow> ('v, 'x, 'e) mm_state prog \<Rightarrow> ('v, 'x, 'e) mm_state prog res" where
  "aweak_store_non_racy M t this desired st = loc_store_non_racy (mg_step M) C_delayed_decrement_weak_cnt M_aweak t this desired st"

text \<open>\<^verbatim>\<open>store\<close> of a weak snapshot or of a snapshot.\<close>

definition aweak_store_snapshot :: "('c, 'a, 'v, 'x, 'e) backend \<Rightarrow> tid \<Rightarrow> place \<Rightarrow> 'a \<Rightarrow> ('v, 'x, 'e) mm_state prog \<Rightarrow> ('v, 'x, 'e) mm_state prog res" where
  "aweak_store_snapshot M t this desired st =
     (let new_ptr = snapshot_get_counted M desired in
      rbind (if new_ptr \<noteq> nullptr then rbind (lift_mm (increment_weak_cnt new_ptr) st) (\<lambda>(_, st1). ret st1) else ret st) (\<lambda>st1.
      loc_store (mg_step M) C_delayed_decrement_weak_cnt M_aweak t this new_ptr st1))"

definition aweak_load :: "('c, 'a, 'v, 'x, 'e) backend \<Rightarrow> tid \<Rightarrow> place \<Rightarrow> ('v, 'x, 'e) mm_state prog \<Rightarrow> (ptr \<times> ('v, 'x, 'e) mm_state prog) res" where
  "aweak_load M t this st =
     rbind (atomic_load this st) (\<lambda>p.
     rbind (mg_acquire M t p (snd st)) (\<lambda>(acquired, s1).
     rbind (weak_construct (mg_get M acquired) AddRef_yes (fst st, s1)) (\<lambda>(result, st2).
     ret (result, (fst st2, mg_destruct M acquired (snd st2))))))"

text \<open>The loop of \<^verbatim>\<open>get_snapshot\<close> ends in its first round if the location does not change meanwhile.\<close>

definition aweak_get_snapshot :: "('c, 'a, 'v, 'x, 'e) backend \<Rightarrow> tid \<Rightarrow> place \<Rightarrow> ('v, 'x, 'e) mm_state prog \<Rightarrow> ('a \<times> ('v, 'x, 'e) mm_state prog) res" where
  "aweak_get_snapshot M t this st =
     rbind (atomic_load this st) (\<lambda>loaded.
     rbind (mg_protect_snapshot M t loaded (snd st)) (\<lambda>(p, s1).
     rbind (rc_use_count (mg_get M p) (fst st, s1)) (\<lambda>(n, st2).
     if mg_get M p \<noteq> nullptr \<and> n > 0 then ret (p, st2)
     else ret (mg_reserve_nothing M, (fst st2, mg_destruct M p (snd st2))))))"

definition aweak_cas_copy :: "('c, 'a, 'v, 'x, 'e) backend \<Rightarrow> tid \<Rightarrow> place \<Rightarrow> ptr \<Rightarrow> ptr \<Rightarrow> bool \<Rightarrow> ('v, 'x, 'e) mm_state prog \<Rightarrow>
    (bool \<times> ('v, 'x, 'e) mm_state prog) res" where
  "aweak_cas_copy M t this expected desired desired_protected st =
     loc_cas_copy M increment_weak_cnt C_delayed_decrement_weak_cnt M_aweak t this expected desired desired_protected st"

definition aweak_cas_move :: "('c, 'a, 'v, 'x, 'e) backend \<Rightarrow> tid \<Rightarrow> place \<Rightarrow> ptr \<Rightarrow> place \<Rightarrow> ('v, 'x, 'e) mm_state prog \<Rightarrow>
    (bool \<times> ('v, 'x, 'e) mm_state prog) res" where
  "aweak_cas_move M t this expected desired st = loc_cas_move (mg_step M) C_delayed_decrement_weak_cnt M_aweak M_weak t this expected desired st"

definition aweak_compare_exchange_weak :: "('c, 'a, 'v, 'x, 'e) backend \<Rightarrow> tid \<Rightarrow> place \<Rightarrow> place \<Rightarrow> ptr \<Rightarrow> ('v, 'x, 'e) mm_state prog \<Rightarrow>
    (bool \<times> ('v, 'x, 'e) mm_state prog) res" where
  "aweak_compare_exchange_weak M t this expected desired st =
     rbind (Some (place_get expected st)) (\<lambda>e.
     rbind (aweak_cas_copy M t this (member_ptr e) desired False st) (\<lambda>(success, st1).
     if success then ret (True, st1)
     else rbind (aweak_load M t this st1) (\<lambda>(p, st2).
          rbind (weak_assign_from M t expected p st2) (\<lambda>st3. ret (False, st3)))))"

definition aweak_compare_exchange_weak_snapshot :: "('c, 'a, 'v, 'x, 'e) backend \<Rightarrow> tid \<Rightarrow> place \<Rightarrow> 'a \<Rightarrow> ptr \<Rightarrow> ('v, 'x, 'e) mm_state prog \<Rightarrow>
    (bool \<times> 'a \<times> ('v, 'x, 'e) mm_state prog) res" where
  "aweak_compare_exchange_weak_snapshot M t this expected desired st =
     rbind (aweak_cas_copy M t this (snapshot_get_counted M expected) desired False st) (\<lambda>(success, st1).
     if success then ret (True, expected, st1)
     else rbind (aweak_get_snapshot M t this st1) (\<lambda>(a, st2).
          rbind (weak_snapshot_move_assign M t expected a st2) (\<lambda>(expected', _, st3). ret (False, expected', st3))))"

definition aweak_exchange :: "place \<Rightarrow> ptr \<Rightarrow> ('v, 'x, 'e) mm_state prog \<Rightarrow> (ptr \<times> ('v, 'x, 'e) mm_state prog) res" where
  "aweak_exchange this desired st =
     rbind (atomic_exchange M_aweak this desired st) (\<lambda>(old_ptr, st1). weak_construct old_ptr AddRef_no st1)"

definition aweak_assign :: "('c, 'a, 'v, 'x, 'e) backend \<Rightarrow> tid \<Rightarrow> place \<Rightarrow> ptr \<Rightarrow> ('v, 'x, 'e) mm_state prog \<Rightarrow> ('v, 'x, 'e) mm_state prog res" where
  "aweak_assign M t this desired st = aweak_store M t this desired st"

section \<open>Accounts of a location\<close>

declare split_paired_Ex [simp del] split_paired_All [simp del]

lemma storage_same: "storage ob = Some m \<Longrightarrow> ob\<lparr>storage := Some m\<rparr> = ob"
  by (cases ob) simp

lemma place_put_same: "place_get pl st = Inr m \<Longrightarrow> place_put pl m st = Inr st"
  by (cases "(pl, st)" rule: place_get.cases)
    (auto simp: with_storage_Inr put_object_same storage_same split: if_splits)

text \<open>A variable other than the location takes no part in an exchange.\<close>

lemma place_put_other_var:
  assumes "place_put pl m (vs, s) = Inr (vs', s')" and "pl \<noteq> Var y"
  shows "place_put pl m (vs[y := w], s) = Inr (vs'[y := w], s')"
  using assms by (cases pl) (auto simp: with_storage_Inr list_update_swap split: if_splits)

lemma place_get_other_var: "pl \<noteq> Var y \<Longrightarrow> place_get pl (vs[y := w], s) = place_get pl (vs, s)"
  by (cases pl) auto

locale shared_location = owning_pointer retire derived ctoks cweight clen etoks eweight elen ok kind mk dec inc room
  for retire :: "(('v, 'x, 'e) mm_state, 'c) retire_fn" and derived :: "(('v, 'x, 'e) mm_state, 'c) derived_fn"
    and ctoks cweight clen etoks eweight elen ok kind mk dec inc room +
  fixes lmk :: "ptr \<Rightarrow> member" and ddec :: "ptr \<Rightarrow> 'c mm_call"
  assumes lmk_tokens: "member_tokens (lmk p) = member_tokens (mk p)"
    and lmk_ptr: "member_ptr (lmk p) = p"
    and ddec_tokens: "call_tokens ctoks (ddec p) = {#(kind, p)#}"
begin

lemma load_loc: "place_get this st = Inr (lmk p) \<Longrightarrow> atomic_load this st = ret p"
  by (simp add: atomic_load_def lmk_ptr ret_def)

lemma exchange_ok:
  assumes "ok t (snd st)" and "prog_ok etoks (member_tokens (mk p) + R) st" and "place_get this st = Inr (lmk old)"
  shows "\<exists>st'. place_put this (lmk p) st = Inr st' \<and> fst st' = put_vars this (lmk p) (fst st) \<and>
    ok t (snd st') \<and> prog_ok etoks (member_tokens (mk old) + R) st'"
  using place_exchange [OF assms(3,1), of "lmk p" R] assms(2) by (auto simp: lmk_tokens dest: place_put_vars)

lemma drop_delayed_ok:
  assumes "ok t (snd st)" and "prog_ok etoks (member_tokens (mk p) + R) st"
  shows "\<exists>st'. drop_delayed (mm_step retire derived) ddec t p st = ret st' \<and> fst st' = fst st \<and>
    ok t (snd st') \<and> prog_ok etoks R st' \<and> (\<forall>q. keeps_room q (snd st) (snd st'))"
proof (cases "p = nullptr")
  case True
  with assms show ?thesis by (simp add: drop_delayed_def mk_tokens keeps_room_cong)
next
  case False
  with assms(2) have "prog_ok etoks (calls_tokens ctoks [ddec p] + R) st" by (simp add: mk_tokens ddec_tokens)
  from run_calls_ok [OF assms(1) this] False show ?thesis by (auto simp: drop_delayed_def)
qed

lemma store_ok:
  assumes "ok t (snd st)" and "prog_ok etoks (member_tokens (mk p) + R) st" and "place_get this st = Inr (lmk old)"
  shows "\<exists>st'. loc_store (mm_step retire derived) ddec lmk t this p st = ret st' \<and>
    fst st' = put_vars this (lmk p) (fst st) \<and> ok t (snd st') \<and> prog_ok etoks R st'"
proof -
  from exchange_ok [OF assms] obtain st1 where st1: "place_put this (lmk p) st = Inr st1"
    "fst st1 = put_vars this (lmk p) (fst st)" "ok t (snd st1)" "prog_ok etoks (member_tokens (mk old) + R) st1" by blast
  from drop_delayed_ok [OF st1(3,4)] st1 assms(3) show ?thesis
    by (auto simp: loc_store_def atomic_exchange_def load_loc)
qed

lemma store_non_racy_eq:
  "loc_store_non_racy step ddec' lmk' t this p st = loc_store step ddec' lmk' t this p st"
  by (cases "place_get this st"; cases "place_put this (lmk' p) st")
    (auto simp: loc_store_non_racy_def loc_store_def atomic_exchange_def atomic_load_def)

lemma cas_impl_success:
  assumes "ok t (snd st)" and "prog_ok etoks (member_tokens (mk p) + R) st" and "place_get this st = Inr (lmk expected)"
  shows "\<exists>st'. loc_cas_impl (mm_step retire derived) ddec lmk t this expected p st = ret (True, st') \<and>
    fst st' = put_vars this (lmk p) (fst st) \<and> ok t (snd st') \<and> prog_ok etoks R st'"
proof -
  from exchange_ok [OF assms] obtain st1 where st1: "place_put this (lmk p) st = Inr st1"
    "fst st1 = put_vars this (lmk p) (fst st)" "ok t (snd st1)" "prog_ok etoks (member_tokens (mk expected) + R) st1" by blast
  from drop_delayed_ok [OF st1(3,4)] st1 assms(3) show ?thesis
    by (auto simp: loc_cas_impl_def atomic_compare_exchange_def load_loc compare_exchange_strong_def)
qed

lemma cas_impl_failure:
  assumes "place_get this st = Inr (lmk current)" and "current \<noteq> expected"
  shows "loc_cas_impl step ddec' lmk t this expected p st = ret (False, st)"
  using assms place_put_same [OF assms(1)]
  by (simp add: loc_cas_impl_def atomic_compare_exchange_def load_loc compare_exchange_strong_def)

lemma dtor_ok:
  assumes "ok t (snd st)" and "prog_ok etoks R st" and x: "x < length (fst st)" "fst st ! x = lmk p"
  shows "\<exists>st'. loc_dtor (mm_step retire derived) ddec lmk t (Var x) st = ret st' \<and>
    fst st' = (fst st)[x := lmk nullptr] \<and> ok t (snd st') \<and> prog_ok etoks R st'"
proof -
  obtain vs s where st: "st = (vs, s)" by (cases st)
  have get: "place_get (Var x) st = Inr (lmk p)" using x st by simp
  have "prog_ok etoks (member_tokens (mk nullptr) + R) st" using assms(2) by (simp add: mk_tokens)
  from exchange_ok [OF assms(1) this get] st x have
    1: "ok t s" "prog_ok etoks (member_tokens (mk p) + R) (vs[x := lmk nullptr], s)" by auto
  from drop_delayed_ok [of t "(vs[x := lmk nullptr], s)", simplified, OF 1] obtain st' where
    "drop_delayed (mm_step retire derived) ddec t p (vs[x := lmk nullptr], s) = ret st'"
    and st': "fst st' = vs[x := lmk nullptr]" "ok t (snd st')" "prog_ok etoks R st'" by blast
  then have "drop_delayed (mm_step retire derived) ddec t p (vs, s) = ret (vs, snd st')"
    by (auto simp: drop_delayed_def run_calls_eq_ret split: if_splits)
  with st get x st' show ?thesis by (cases st') (auto simp: loc_dtor_def load_loc ret_def)
qed

text \<open>Moving \<^verbatim>\<open>desired\<close>, a variable, into the location.\<close>

lemma drop_delayed_vars:
  "drop_delayed step ddec' t p (vs, s) = ret (vs, s') \<Longrightarrow> drop_delayed step ddec' t p (vs', s) = ret (vs', s')"
  by (auto simp: drop_delayed_def run_calls_eq_ret split: if_splits)

lemma cas_impl_other_var:
  assumes "loc_cas_impl step ddec' lmk t this expected p (vs, s) = ret (True, st')" and "this \<noteq> Var y"
    and "place_get this (vs, s) = Inr (lmk expected)"
  shows "loc_cas_impl step ddec' lmk t this expected p (vs[y := w], s) = ret (True, ((fst st')[y := w], snd st'))"
proof -
  obtain vs1 s1 where put: "place_put this (lmk p) (vs, s) = Inr (vs1, s1)"
    using place_put_iff_get [of this "lmk p" "(vs, s)"] assms(3) by auto
  have "drop_delayed step ddec' t expected (vs1, s1) = ret st'"
    using assms(1) put load_loc [OF assms(3)]
    by (simp add: loc_cas_impl_def atomic_compare_exchange_def compare_exchange_strong_def rbind_eq_ret)
  moreover from this have "st' = (vs1, snd st')"
    by (cases st') (auto simp: drop_delayed_def run_calls_eq_ret split: if_splits)
  ultimately have "drop_delayed step ddec' t expected (vs1[y := w], s1) = ret ((fst st')[y := w], snd st')"
    using drop_delayed_vars by (metis fst_conv)
  moreover have "atomic_load this (vs[y := w], s) = ret expected"
    using assms(2,3) by (intro load_loc) (simp add: place_get_other_var)
  ultimately show ?thesis using place_put_other_var [OF put assms(2), of w]
    by (simp add: loc_cas_impl_def atomic_compare_exchange_def compare_exchange_strong_def)
qed

lemma cas_move_ok:
  assumes "ok t (snd st)" and "prog_ok etoks R st" and self: "place_get this st = Inr (lmk current)"
    and y: "y < length (fst st)" "fst st ! y = mk d" "this \<noteq> Var y"
  shows "\<exists>st'. loc_cas_move (mm_step retire derived) ddec lmk mk t this expected (Var y) st = ret (current = expected, st') \<and>
    fst st' = (if current = expected then (put_vars this (lmk d) (fst st))[y := mk nullptr] else fst st) \<and>
    ok t (snd st') \<and> prog_ok etoks R st'"
proof (cases "current = expected")
  case False
  with cas_impl_failure [OF self False, of "mm_step retire derived" ddec t d] y assms(1,2) show ?thesis
    by (cases st) (simp add: loc_cas_move_def mk_ptr)
next
  case True
  obtain vs s where st: "st = (vs, s)" by (cases st)
  have get: "place_get (Var y) st = Inr (mk d)" using y st by simp
  from release_ok [OF assms(1,2) get] st y have
    1: "ok t s" "prog_ok etoks (member_tokens (mk d) + R) (vs[y := mk nullptr], s)" by auto
  have loc: "place_get this (vs[y := mk nullptr], s) = Inr (lmk expected)"
    using self y st True by (simp add: place_get_other_var)
  from cas_impl_success [of t "(vs[y := mk nullptr], s)", simplified, OF 1 loc] obtain st1 where
    run1: "loc_cas_impl (mm_step retire derived) ddec lmk t this expected d (vs[y := mk nullptr], s) = ret (True, st1)"
    and st1: "fst st1 = put_vars this (lmk d) (vs[y := mk nullptr])" "ok t (snd st1)" "prog_ok etoks R st1" by blast
  have "vs[y := mk d] = vs" using y st by (metis fst_conv list_update_id)
  with cas_impl_other_var [OF run1 y(3) loc, of "mk d"] have run: "loc_cas_impl (mm_step retire derived) ddec lmk t this expected d (vs, s) = ret (True, ((fst st1)[y := mk d], snd st1))"
    by simp
  have fst1: "fst st1 = (put_vars this (lmk d) vs)[y := mk nullptr]"
    using st1(1) y(3) by (cases this) (simp_all add: list_update_swap)
  have "y < length (fst st1)" using y st fst1 by (cases this) simp_all
  with run True get st fst1 st1(2,3) show ?thesis
    by (cases st1) (auto simp: loc_cas_move_def ptr_release_def mk_ptr ret_def)
qed

end

text \<open>
  \<^verbatim>\<open>compare_and_swap\<close> with a copy of \<^verbatim>\<open>desired\<close>, on a location that is a variable. Between the exchange and the increment the
  new reference of the location is not counted yet: meanwhile the delayed decrement of the old value runs, and an owner
  of \<^verbatim>\<open>desired\<close> that is still there afterwards keeps the object alive.
\<close>

context shared_location
begin

lemma cas_copy_owner:
  fixes M :: "('c, 'a, 'v, 'x, 'e) backend"
  assumes M: "mg_step M = mm_step retire derived"
      "\<And>s t p. heap (snd (mg_reserve M t p s)) = heap s \<and> etoks (snd (mg_reserve M t p s)) = etoks s \<and> (\<forall>u. ok u s \<longrightarrow> ok u (snd (mg_reserve M t p s)))"
      "\<And>s a. heap (mg_destruct M a s) = heap s \<and> etoks (mg_destruct M a s) = etoks s \<and> (\<forall>u. ok u s \<longrightarrow> ok u (mg_destruct M a s))"
    and st: "ok t s" "prog_ok etoks R (vs, s)" and x: "x < length vs" "vs ! x = lmk current"
    and d: "d \<noteq> nullptr \<Longrightarrow> room d s"
    and owner: "\<And>s2. d \<noteq> nullptr \<Longrightarrow> current = expected \<Longrightarrow>
      drop_delayed (mm_step retire derived) ddec t current
        (vs[x := lmk nullptr], snd (if \<not> prot then mg_reserve M t d s else (mg_reserve_nothing M, s))) = ret (vs[x := lmk nullptr], s2) \<Longrightarrow>
      prog_ok etoks R (vs[x := lmk nullptr], s2) \<Longrightarrow>
      (kind, d) \<in># R + members_tokens (vs[x := lmk nullptr]) + etoks s2 + heap_tokens s2"
  shows "\<exists>s'. loc_cas_copy M inc ddec lmk t (Var x) expected d prot (vs, s) =
      ret (current = expected, (if current = expected then vs[x := lmk d] else vs, s')) \<and>
    ok t s' \<and> prog_ok etoks R (if current = expected then vs[x := lmk d] else vs, s') \<and> (current \<noteq> expected \<longrightarrow> heap s' = heap s)"
proof -
  obtain a s1 where res: "(if \<not> prot then mg_reserve M t d s else (mg_reserve_nothing M, s)) = (a, s1)"
    by (metis surj_pair)
  have eq: "loc_cas_copy M inc ddec lmk t (Var x) expected d prot (vs, s) =
      rbind (loc_cas_impl (mg_step M) ddec lmk t (Var x) expected d (vs, s1)) (\<lambda>(success, st2).
      rbind (if success \<and> d \<noteq> nullptr then rbind (lift_mm (inc d) st2) (\<lambda>(_, st3). ret st3) else ret st2) (\<lambda>st3.
      ret (success, (fst st3, mg_destruct M a (snd st3)))))"
    by (simp only: loc_cas_copy_def fst_conv snd_conv res Let_def prod.case)
  from res have s1: "heap s1 = heap s" "etoks s1 = etoks s" "ok t s1"
    using M(2) [of t d s] st(1) by (auto split: if_splits)
  then have ok1: "prog_ok etoks R (vs, s1)" using st(2) mm_ok_cong [of s1 s] by (simp add: prog_ok_def)
  have get: "place_get (Var x) (vs', s1) = Inr (vs' ! x)" if "length vs' = length vs" for vs' using x that by simp
  have dtor: "ok t (mg_destruct M a s3) \<and> prog_ok etoks R (vs', mg_destruct M a s3)"
    if "ok t s3" "prog_ok etoks R (vs', s3)" for vs' s3
    using that M(3) [of a s3] mm_ok_cong [of "mg_destruct M a s3" s3] by (simp add: prog_ok_def)
  show ?thesis
  proof (cases "current = expected")
    case False
    have "loc_cas_impl (mg_step M) ddec lmk t (Var x) expected d (vs, s1) = ret (False, (vs, s1))"
      using False x by (intro cas_impl_failure) simp_all
    with False dtor [OF s1(3) ok1] M(3) [of a s1] s1(1) show ?thesis by (simp add: eq)
  next
    case True
    let ?vs0 = "vs[x := lmk nullptr]"
    have "prog_ok etoks (member_tokens (mk nullptr) + R) (vs, s1)" using ok1 by (simp add: mk_tokens)
    from exchange_ok [of t "(vs, s1)", OF _ this, of "Var x" current] x s1(3)
    have 0: "prog_ok etoks (member_tokens (mk current) + R) (?vs0, s1)" by auto
    from drop_delayed_ok [of t "(?vs0, s1)", OF _ 0] s1(3) obtain s2 where
      s2: "drop_delayed (mm_step retire derived) ddec t current (?vs0, s1) = ret (?vs0, s2)" "ok t s2"
        "prog_ok etoks R (?vs0, s2)" "\<forall>q. keeps_room q s1 s2"
      by (metis fst_conv prod.collapse snd_conv)
    have run: "loc_cas_impl (mg_step M) ddec lmk t (Var x) expected d (vs, s1) = ret (True, (vs[x := lmk d], s2))"
      using drop_delayed_vars [OF s2(1), of "vs[x := lmk d]"] x True M(1)
      by (simp add: loc_cas_impl_def atomic_compare_exchange_def atomic_load_def compare_exchange_strong_def lmk_ptr ret_def [symmetric])
    have "\<exists>s3. (if d \<noteq> nullptr then rbind (lift_mm (inc d) (vs[x := lmk d], s2)) (\<lambda>(_, st3). ret st3) else ret (vs[x := lmk d], s2))
        = ret (vs[x := lmk d], s3) \<and> ok t s3 \<and> prog_ok etoks (member_tokens (mk d) + R) (?vs0, s3)"
    proof (cases "d = nullptr")
      case True
      with s2 show ?thesis by (simp add: mk_tokens)
    next
      case False
      have "room d s2" using d [OF False] s2(4) keeps_room_cong [OF s1(1)] by (metis keeps_room_trans room_kept)
      have "(kind, d) \<in># R + members_tokens ?vs0 + etoks s2 + heap_tokens s2"
        by (rule owner [OF False True _ s2(3)]) (use s2(1) res in simp)
      with inc_prog [of t "(?vs0, s2)" R d] s2 \<open>room d s2\<close> False show ?thesis
        by (auto simp: lift_mm_def mk_tokens)
    qed
    then obtain s3 where s3: "(if d \<noteq> nullptr then rbind (lift_mm (inc d) (vs[x := lmk d], s2)) (\<lambda>(_, st3). ret st3)
        else ret (vs[x := lmk d], s2)) = ret (vs[x := lmk d], s3)" "ok t s3" "prog_ok etoks (member_tokens (mk d) + R) (?vs0, s3)"
      by blast
    from exchange_ok [of t "(?vs0, s3)", OF _ s3(3), of "Var x" nullptr] x s3(2)
    have "prog_ok etoks R (vs[x := lmk d], s3)" by (auto simp: mk_tokens)
    from dtor [OF s3(2) this] run s3(1) True show ?thesis by (simp add: eq)
  qed
qed

end

sublocale reclamation_scheme \<subseteq> arc: shared_location retire derived ctoks cweight clen etoks eweight elen ok
  T_strong M_rc C_decrement_ref_cnt increment_ref_cnt strong_room M_arc C_delayed_decrement_ref_cnt
  by unfold_locales simp_all

sublocale reclamation_scheme \<subseteq> aweak: shared_location retire derived ctoks cweight clen etoks eweight elen ok
  T_weak M_weak C_decrement_weak_cnt increment_weak_cnt weak_room M_aweak C_delayed_decrement_weak_cnt
  by unfold_locales simp_all

end
