(* ===== verification/Smart_Backend.thy ===== *)
theory Smart_Backend
  imports Atomic_Ptr
begin

text \<open>
  What the smart pointers rely on when they use a memory manager, as the locale \<open>smart_backend\<close>, and
  what they promise in return: every operation on a place, whatever it holds, runs to the end without an error and
  leaves every reference accounted for. The backends are interpreted in the theory \<open>Backends\<close>.
\<close>

declare split_paired_Ex [simp del] split_paired_All [simp del]

section \<open>The contract of a backend\<close>

text \<open>A snapshot owns a reference if it is not protected.\<close>

definition snapshot_tokens :: "('c, 'a, 'v, 'x, 'e) backend \<Rightarrow> 'a \<Rightarrow> tokens" where
  "snapshot_tokens M a =
     (if \<not> mg_is_protected M a \<and> mg_get M a \<noteq> nullptr then {#(T_strong, mg_get M a)#} else {#})"

text \<open>A change of announcements only.\<close>

definition quiet :: "(('v, 'x, 'e) mm_state \<Rightarrow> tokens) \<Rightarrow> (tid \<Rightarrow> ('v, 'x, 'e) mm_state \<Rightarrow> bool) \<Rightarrow>
    ('v, 'x, 'e) mm_state \<Rightarrow> ('v, 'x, 'e) mm_state \<Rightarrow> bool" where
  "quiet etoks ok s s' \<longleftrightarrow>
     heap s' = heap s \<and> num_allocated s' = num_allocated s \<and> etoks s' = etoks s \<and> (\<forall>u. ok u s \<longrightarrow> ok u s')"

lemma quiet_trans: "quiet etoks ok s s' \<Longrightarrow> quiet etoks ok s' s'' \<Longrightarrow> quiet etoks ok s s''"
  by (simp add: quiet_def)

lemma quiet_prog: "quiet etoks ok (snd st) s' \<Longrightarrow> prog_ok etoks R (fst st, s') \<longleftrightarrow> prog_ok etoks R st"
  using mm_ok_cong [of s' "snd st"] by (simp add: quiet_def prog_ok_def)

lemma quiet_get: "quiet etoks ok s s' \<Longrightarrow> place_get pl (vs, s') = place_get pl (vs, s)"
  by (cases pl) (simp_all add: quiet_def with_storage_def with_object_def)

lemma quiet_room:
  "quiet etoks ok s s' \<Longrightarrow> strong_room p s' = strong_room p s" "quiet etoks ok s s' \<Longrightarrow> weak_room p s' = weak_room p s"
  by (simp_all add: quiet_def strong_room_def weak_room_def)

lemma quiet_heap_tokens: "quiet etoks ok s s' \<Longrightarrow> heap_tokens s' = heap_tokens s"
  by (simp add: quiet_def heap_tokens_def)

locale smart_backend = reclamation_scheme retire derived ctoks cweight clen etoks eweight elen ok
  for retire :: "(('v, 'x, 'e) mm_state, 'c) retire_fn" and derived :: "(('v, 'x, 'e) mm_state, 'c) derived_fn"
    and ctoks cweight clen etoks eweight elen ok +
  fixes M :: "('c, 'a, 'v, 'x, 'e) backend"
  assumes step: "mg_step M = mm_step retire derived"
    and create: "ok t s \<Longrightarrow> mm_ok (members_tokens (members v) + R + etoks s) s \<Longrightarrow> p \<noteq> nullptr \<Longrightarrow> fmlookup (heap s) p = None \<Longrightarrow>
      ok t (mg_create_object M t p v s) \<and>
      mm_ok (add_mset (T_strong, p) (R + etoks (mg_create_object M t p v s))) (mg_create_object M t p v s)"
    and acquire: "ok t s \<Longrightarrow> mm_ok (R + etoks s) s \<Longrightarrow>
      (p \<noteq> nullptr \<Longrightarrow> (k, p) \<in># R + etoks s + heap_tokens s \<and> k \<in> {T_strong, T_weak}) \<Longrightarrow>
      \<exists>a s'. mg_acquire M t p s = ret (a, s') \<and> quiet etoks ok s s' \<and>
        (mg_get M a = p \<or> k = T_weak \<and> mg_get M a = nullptr)"
    and protect: "ok t s \<Longrightarrow> mm_ok (R + etoks s) s \<Longrightarrow>
      (p \<noteq> nullptr \<Longrightarrow> (k, p) \<in># R + etoks s + heap_tokens s \<and> k \<in> {T_strong, T_weak} \<and> strong_room p s) \<Longrightarrow>
      \<exists>a s'. mg_protect_snapshot M t p s = ret (a, s') \<and> ok t s' \<and> mm_ok (snapshot_tokens M a + R + etoks s') s' \<and>
        etoks s' = etoks s \<and> heap_tokens s' = heap_tokens s \<and>
        (mg_get M a = p \<or> k = T_weak \<and> mg_get M a = nullptr)"
    and reserve: "quiet etoks ok s (snd (mg_reserve M t p s))"
    and destruct: "quiet etoks ok s (mg_destruct M a s)"
    and clear: "quiet etoks ok s (snd (mg_clear M a s))" "mg_get M (fst (mg_clear M a s)) = nullptr"
    and empty_snapshot: "mg_get M (mg_reserve_nothing M) = nullptr"
begin

section \<open>Owning pointers\<close>

lemma make_shared_ok:
  assumes "ok t (snd st)" and "prog_ok etoks (members_tokens (members v) + R) st"
    and "p \<noteq> nullptr" and "fmlookup (heap (snd st)) p = None"
  shows "\<exists>st'. rc_make_shared M t p v st = ret (p, st') \<and> fst st' = fst st \<and> ok t (snd st') \<and>
    prog_ok etoks (member_tokens (M_rc p) + R) st'"
proof -
  have "mm_ok (members_tokens (members v) + (R + members_tokens (fst st)) + etoks (snd st)) (snd st)"
    using assms(2) by (simp add: prog_ok_def ac_simps)
  from create [OF assms(1) this assms(3,4)] assms(3) show ?thesis
    by (simp add: rc_make_shared_def rc_construct_def prog_ok_def)
qed

lemma construct_eq: "rc_construct p AddRef_yes st = rc_copy p st" "rc_construct p AddRef_no st = ret (p, st)"
  by (auto simp: rc_construct_def rc_copy_def ptr_copy_def)

text \<open>\<^verbatim>\<open>lock\<close> by the owner of a weak reference: a strong one exactly if there is one left.\<close>

lemma lock_ok:
  assumes ok: "ok t (snd st)" "prog_ok etoks R st"
    and p: "p \<noteq> nullptr \<Longrightarrow> (k, p) \<in># R + members_tokens (fst st) + etoks (snd st) + heap_tokens (snd st) \<and> strong_room p (snd st)"
  defines "alive \<equiv> p \<noteq> nullptr \<and> (T_strong, p) \<in># R + members_tokens (fst st) + etoks (snd st) + heap_tokens (snd st)"
  shows "\<exists>st'. weak_lock p st = ret (if alive then p else nullptr, st') \<and> fst st' = fst st \<and> ok t (snd st') \<and>
    prog_ok etoks (member_tokens (M_rc (if alive then p else nullptr)) + R) st'"
proof (cases "p = nullptr")
  case True
  with ok show ?thesis by (simp add: weak_lock_def alive_def)
next
  case False
  let ?X = "R + members_tokens (fst st) + etoks (snd st)"
  have mm: "mm_ok ?X (snd st)" using ok(2) by (simp add: prog_ok_def)
  have "0 < token_count (?X + heap_tokens (snd st)) p k"
    using p [OF False] by (simp add: token_count_def del: count_union)
  from mm_invD [OF mm [unfolded mm_ok_def] this] obtain ob where ob: "fmlookup (heap (snd st)) p = Some ob" by blast
  have alive: "alive = (0 < token_count (?X + heap_tokens (snd st)) p T_strong)"
    using False by (simp add: alive_def token_count_def del: count_union)
  from increment_ref_cnt_ok [OF mm ob _ alive] p [OF False] obtain s' where
    s': "increment_ref_cnt p (snd st) = Inr (alive, s')" "mm_ok (if alive then add_mset (T_strong, p) ?X else ?X) s'"
      "mm.more s' = mm.more (snd st)" by blast
  with ext [OF s'(3)] ok(1) False show ?thesis
    by (cases alive) (auto simp: weak_lock_def lift_mm_def construct_eq prog_ok_def)
qed

section \<open>Snapshots\<close>

lemma snapshot_clear_ok:
  assumes "ok t (snd st)" and "prog_ok etoks (snapshot_tokens M a + R) st"
  shows "\<exists>a' st'. snapshot_clear M t a st = ret (a', st') \<and> mg_get M a' = nullptr \<and> fst st' = fst st \<and> ok t (snd st') \<and>
    prog_ok etoks R st'"
proof -
  have "\<exists>st1. (if \<not> mg_is_protected M a \<and> mg_get M a \<noteq> nullptr
        then run_calls (mg_step M) t [C_decrement_ref_cnt (mg_get M a)] st else ret st) = ret st1 \<and>
      fst st1 = fst st \<and> ok t (snd st1) \<and> prog_ok etoks R st1"
    using strong.drop_ok [OF assms(1), of "mg_get M a" R] assms by (auto simp: step snapshot_tokens_def)
  then obtain st1 where st1: "(if \<not> mg_is_protected M a \<and> mg_get M a \<noteq> nullptr
        then run_calls (mg_step M) t [C_decrement_ref_cnt (mg_get M a)] st else ret st) = ret st1"
      "fst st1 = fst st" "ok t (snd st1)" "prog_ok etoks R st1" by blast
  have q: "quiet etoks ok (snd st1) (snd (mg_clear M a (snd st1)))" by (rule clear)
  have "prog_ok etoks R (fst st1, snd (mg_clear M a (snd st1)))" using quiet_prog [OF q] st1(4) by simp
  moreover have "ok t (snd (mg_clear M a (snd st1)))" using q st1(3) by (simp add: quiet_def)
  ultimately show ?thesis using st1 clear(2)
    by (auto simp: snapshot_clear_def Let_def case_prod_beta intro!: exI)
qed

lemma snapshot_dtor_ok:
  assumes "ok t (snd st)" and "prog_ok etoks (snapshot_tokens M a + R) st"
  shows "\<exists>st'. snapshot_dtor M t a st = ret st' \<and> fst st' = fst st \<and> ok t (snd st') \<and> prog_ok etoks R st'"
proof -
  from snapshot_clear_ok [OF assms] obtain a' st1 where st1: "snapshot_clear M t a st = ret (a', st1)"
    "fst st1 = fst st" "ok t (snd st1)" "prog_ok etoks R st1" by blast
  from destruct [of "snd st1" a'] st1 quiet_prog [OF destruct [of "snd st1" a'], of R] show ?thesis
    by (simp add: snapshot_dtor_def quiet_def)
qed

section \<open>Locations\<close>

lemma arc_load_ok:
  assumes ok: "ok t (snd st)" "prog_ok etoks R st" and self: "place_get this st = Inr (M_arc p)"
    and room: "p \<noteq> nullptr \<Longrightarrow> strong_room p (snd st)"
  shows "\<exists>st'. arc_load M t this st = ret (p, st') \<and> fst st' = fst st \<and> ok t (snd st') \<and>
    prog_ok etoks (member_tokens (M_rc p) + R) st' \<and> (\<forall>pl. place_get pl st' = place_get pl st)"
proof -
  obtain vs s where st: "st = (vs, s)" by (cases st)
  have tok: "(T_strong, p) \<in># R + members_tokens vs + etoks s + heap_tokens s" if "p \<noteq> nullptr"
    using place_get_token [OF self, of "(T_strong, p)"] that st by auto
  from acquire [of t s "R + members_tokens vs" p T_strong] ok tok st obtain a s1 where
    a: "mg_acquire M t p s = ret (a, s1)" "quiet etoks ok s s1" "mg_get M a = p"
    by (auto simp: prog_ok_def)
  have 1: "ok t s1" "prog_ok etoks R (vs, s1)" "p \<noteq> nullptr \<Longrightarrow> strong_room p s1"
    using a(2) ok quiet_prog [of etoks ok st s1 R] room st by (auto simp: quiet_def quiet_room [OF a(2)])
  have "(T_strong, p) \<in># R + members_tokens vs + etoks s1 + heap_tokens s1" if "p \<noteq> nullptr"
    using tok [OF that] a(2) by (simp add: quiet_heap_tokens [OF a(2)] quiet_def)
  with strong.copy_ok [of t "(vs, s1)" R p] 1 obtain st2 where
    st2: "ptr_copy increment_ref_cnt p (vs, s1) = ret (p, st2)" "fst st2 = vs" "ok t (snd st2)"
      "prog_ok etoks (member_tokens (M_rc p) + R) st2" "\<forall>pl. place_get pl st2 = place_get pl (vs, s1)" by auto
  note d = destruct [of "snd st2" a]
  have "arc_load M t this st = ret (p, (vs, mg_destruct M a (snd st2)))"
    using st2 a st arc.load_loc [OF self] by (simp add: arc_load_def construct_eq rc_copy_def)
  moreover have "place_get pl (vs, mg_destruct M a (snd st2)) = place_get pl st" for pl
    using quiet_get [OF d, of pl vs] st2(2,5) quiet_get [OF a(2), of pl vs] st by (cases st2) simp
  ultimately show ?thesis
    using quiet_prog [OF d, of "member_tokens (M_rc p) + R"] d st2 st by (auto simp: quiet_def)
qed

lemma arc_get_snapshot_ok:
  assumes ok: "ok t (snd st)" "prog_ok etoks R st" and self: "place_get this st = Inr (M_arc p)"
    and room: "p \<noteq> nullptr \<Longrightarrow> strong_room p (snd st)"
  shows "\<exists>a st'. arc_get_snapshot M t this st = ret (a, st') \<and> mg_get M a = p \<and> fst st' = fst st \<and> ok t (snd st') \<and>
    prog_ok etoks (snapshot_tokens M a + R) st'"
proof -
  obtain vs s where st: "st = (vs, s)" by (cases st)
  have tok: "(T_strong, p) \<in># R + members_tokens vs + etoks s + heap_tokens s" if "p \<noteq> nullptr"
    using place_get_token [OF self, of "(T_strong, p)"] that st by auto
  from protect [of t s "R + members_tokens vs" p T_strong] ok tok st room obtain a s1 where
    a: "mg_protect_snapshot M t p s = ret (a, s1)" "ok t s1" "mg_get M a = p"
      "mm_ok (snapshot_tokens M a + (R + members_tokens vs) + etoks s1) s1"
    by (auto simp: prog_ok_def)
  then have "prog_ok etoks (snapshot_tokens M a + R) (vs, s1)" by (simp only: prog_ok_def fst_conv snd_conv add.assoc)
  with a st arc.load_loc [OF self] show ?thesis by (simp add: arc_get_snapshot_def)
qed

text \<open>The reference of a location's pointer, among the tokens.\<close>

lemma place_get_owner:
  assumes "place_get this st = Inr m" and "x \<in># member_tokens m"
  shows "x \<in># R + members_tokens (fst st) + etoks (snd st) + heap_tokens (snd st)"
  using place_get_token [OF assms] by auto

lemma cas_owner_ok:
  "\<lbrakk>ok t s; prog_ok etoks R (vs, s); x < length vs; vs ! x = M_arc current; d \<noteq> nullptr \<Longrightarrow> strong_room d s;
    \<And>s2. d \<noteq> nullptr \<Longrightarrow> current = expected \<Longrightarrow>
      drop_delayed (mm_step retire derived) C_delayed_decrement_ref_cnt t current
        (vs[x := M_arc nullptr], snd (if \<not> prot then mg_reserve M t d s else (mg_reserve_nothing M, s))) = ret (vs[x := M_arc nullptr], s2) \<Longrightarrow>
      prog_ok etoks R (vs[x := M_arc nullptr], s2) \<Longrightarrow>
      (T_strong, d) \<in># R + members_tokens (vs[x := M_arc nullptr]) + etoks s2 + heap_tokens s2\<rbrakk> \<Longrightarrow>
   \<exists>s'. arc_cas_copy M t (Var x) expected d prot (vs, s) =
      ret (current = expected, (if current = expected then vs[x := M_arc d] else vs, s')) \<and>
    ok t s' \<and> prog_ok etoks R (if current = expected then vs[x := M_arc d] else vs, s') \<and> (current \<noteq> expected \<longrightarrow> heap s' = heap s)"
  unfolding arc_cas_copy_def
  by (rule arc.cas_copy_owner [OF step]) (use reserve destruct in \<open>simp_all add: quiet_def\<close>)

lemma cas_ok:
  "\<lbrakk>ok t s; prog_ok etoks R (vs, s); x < length vs; vs ! x = M_arc current;
    d \<noteq> nullptr \<Longrightarrow> (T_strong, d) \<in># R + members_tokens (vs[x := M_arc nullptr]) \<and> strong_room d s\<rbrakk> \<Longrightarrow>
   \<exists>s'. arc_cas_copy M t (Var x) expected d prot (vs, s) =
      ret (current = expected, (if current = expected then vs[x := M_arc d] else vs, s')) \<and>
    ok t s' \<and> prog_ok etoks R (if current = expected then vs[x := M_arc d] else vs, s') \<and> (current \<noteq> expected \<longrightarrow> heap s' = heap s)"
  by (rule cas_owner_ok) auto

lemma aweak_cas_ok:
  "\<lbrakk>ok t s; prog_ok etoks R (vs, s); x < length vs; vs ! x = M_aweak current;
    d \<noteq> nullptr \<Longrightarrow> (T_weak, d) \<in># R + members_tokens (vs[x := M_aweak nullptr]) \<and> weak_room d s\<rbrakk> \<Longrightarrow>
   \<exists>s'. aweak_cas_copy M t (Var x) expected d prot (vs, s) =
      ret (current = expected, (if current = expected then vs[x := M_aweak d] else vs, s')) \<and>
    ok t s' \<and> prog_ok etoks R (if current = expected then vs[x := M_aweak d] else vs, s') \<and> (current \<noteq> expected \<longrightarrow> heap s' = heap s)"
  unfolding aweak_cas_copy_def
  by (rule aweak.cas_copy_owner [OF step]) (use reserve destruct in \<open>auto simp: quiet_def\<close>)

lemma store_snapshot_ok:
  assumes ok: "ok t (snd st)" "prog_ok etoks R st" and self: "place_get this st = Inr (M_arc old)"
    and p: "p = mg_get M a" "p \<noteq> nullptr \<Longrightarrow> strong_room p (snd st)"
      "p \<noteq> nullptr \<Longrightarrow> (T_strong, p) \<in># R + members_tokens (fst st) + etoks (snd st) + heap_tokens (snd st)"
  shows "\<exists>st'. arc_store_snapshot M t this a st = ret st' \<and> fst st' = put_vars this (M_arc p) (fst st) \<and>
    ok t (snd st') \<and> prog_ok etoks R st'"
proof -
  have copy: "(if p \<noteq> nullptr then rbind (lift_mm (increment_ref_cnt p) st1) (\<lambda>(_, st2). ret st2) else ret st1) = ret st2"
    if "ptr_copy increment_ref_cnt p st1 = ret (p, st2)" for st1 st2
    using that by (auto simp: ptr_copy_def rbind_eq_ret split: if_splits)
  obtain st1 where st1: "place_put this (M_arc p) st = Inr st1" "atomic_exchange M_arc this p st = ret (old, st1)"
    using place_put_iff_get [of this "M_arc p" st] self arc.load_loc [OF self] by (auto simp: atomic_exchange_def)
  show ?thesis
  proof (cases "mg_is_protected M a")
    case False
    from strong.copy_ok [OF ok p(2,3)] obtain st2 where st2: "ptr_copy increment_ref_cnt p st = ret (p, st2)"
      "fst st2 = fst st" "ok t (snd st2)" "prog_ok etoks (member_tokens (M_rc p) + R) st2"
      "place_get this st2 = place_get this st" by blast
    then have "place_get this st2 = Inr (M_arc old)" using self by simp
    from arc.store_ok [OF st2(3,4) this] False copy [OF st2(1)] st2(2) show ?thesis
      by (simp add: arc_store_snapshot_def snapshot_get_counted_def snapshot_is_protected_def step p(1) [symmetric])
  next
    case True
    show ?thesis
    proof (cases "old = p")
      case same: True
      then have "st1 = st" using place_put_same [OF self] st1(1) by simp
      with same True st1 ok place_put_vars [OF st1(1)] show ?thesis
        by (simp add: arc_store_snapshot_def snapshot_get_counted_def snapshot_is_protected_def p(1) [symmetric])
    next
      case False
      from strong.put_then_copy [OF ok self st1(1) _ p(2,3)] obtain st2 where
        st2: "ptr_copy increment_ref_cnt p st1 = ret (p, st2)" "ok t (snd st2)"
          "prog_ok etoks (member_tokens (M_arc old) + R) st2" "fst st2 = put_vars this (M_arc p) (fst st)" by auto
      from arc.drop_delayed_ok [OF st2(2), of old R] st2(3) obtain st3 where
        "drop_delayed (mm_step retire derived) C_delayed_decrement_ref_cnt t old st2 = ret st3"
        "fst st3 = fst st2" "ok t (snd st3)" "prog_ok etoks R st3" by auto
      with False True st1(2) copy [OF st2(1)] st2(4) show ?thesis
        by (simp add: arc_store_snapshot_def snapshot_get_counted_def snapshot_is_protected_def step p(1) [symmetric])
    qed
  qed
qed

lemma quiet_ok: "quiet etoks ok s s' \<Longrightarrow> ok t s \<Longrightarrow> ok t s'"
  by (simp add: quiet_def)

lemma aweak_load_ok:
  assumes ok: "ok t (snd st)" "prog_ok etoks R st" and self: "place_get this st = Inr (M_aweak p)"
    and room: "p \<noteq> nullptr \<Longrightarrow> weak_room p (snd st)"
  shows "\<exists>q st'. aweak_load M t this st = ret (q, st') \<and> (q = p \<or> q = nullptr) \<and> fst st' = fst st \<and> ok t (snd st') \<and>
    prog_ok etoks (member_tokens (M_weak q) + R) st'"
proof -
  obtain vs s where st: "st = (vs, s)" by (cases st)
  have tok: "(T_weak, p) \<in># R + members_tokens vs + etoks s + heap_tokens s" if "p \<noteq> nullptr"
    using place_get_owner [OF self, of "(T_weak, p)" R] that st by simp
  from acquire [of t s "R + members_tokens vs" p T_weak] ok tok st obtain a s1 where
    a: "mg_acquire M t p s = ret (a, s1)" "quiet etoks ok s s1" "mg_get M a = p \<or> mg_get M a = nullptr"
    by (auto simp: prog_ok_def)
  let ?q = "mg_get M a"
  have 1: "ok t s1" "prog_ok etoks R (vs, s1)" "?q \<noteq> nullptr \<Longrightarrow> weak_room ?q s1"
    using a(2,3) ok quiet_prog [of etoks ok st s1 R] room st by (auto simp: quiet_def quiet_room [OF a(2)])
  have "(T_weak, ?q) \<in># R + members_tokens vs + etoks s1 + heap_tokens s1" if "?q \<noteq> nullptr"
    using tok that a by (auto simp: quiet_heap_tokens [OF a(2)] quiet_def)
  then have "\<exists>st2. weak_construct ?q AddRef_yes (vs, s1) = ret (?q, st2) \<and> fst st2 = vs \<and> ok t (snd st2) \<and>
      prog_ok etoks (member_tokens (M_weak ?q) + R) st2"
    using weak.inc_prog [of t "(vs, s1)" R ?q] 1 by (cases "?q = nullptr") (auto simp: weak_construct_def lift_mm_def)
  then obtain st2 where st2: "weak_construct ?q AddRef_yes (vs, s1) = ret (?q, st2)" "fst st2 = vs" "ok t (snd st2)"
      "prog_ok etoks (member_tokens (M_weak ?q) + R) st2" by blast
  note d = destruct [of "snd st2" a]
  have "aweak_load M t this st = ret (?q, (vs, mg_destruct M a (snd st2)))"
    using st2 a(1) st aweak.load_loc [OF self] by (simp add: aweak_load_def)
  with quiet_prog [OF d, of "member_tokens (M_weak ?q) + R"] quiet_ok [OF d st2(3)] st2(2,4) a(3) st show ?thesis by auto
qed

lemma aweak_get_snapshot_ok:
  assumes ok: "ok t (snd st)" "prog_ok etoks R st" and self: "place_get this st = Inr (M_aweak p)"
    and room: "p \<noteq> nullptr \<Longrightarrow> strong_room p (snd st)"
  shows "\<exists>a st'. aweak_get_snapshot M t this st = ret (a, st') \<and> (mg_get M a = p \<or> mg_get M a = nullptr) \<and> fst st' = fst st \<and>
    ok t (snd st') \<and> prog_ok etoks (snapshot_tokens M a + R) st' \<and>
    (mg_get M a \<noteq> nullptr \<longrightarrow> (T_strong, p) \<in># snapshot_tokens M a + R + members_tokens (fst st') + etoks (snd st') + heap_tokens (snd st'))"
proof -
  obtain vs s where st: "st = (vs, s)" by (cases st)
  have tok: "(T_weak, p) \<in># R + members_tokens vs + etoks s + heap_tokens s" if "p \<noteq> nullptr"
    using place_get_owner [OF self, of "(T_weak, p)" R] that st by simp
  from protect [of t s "R + members_tokens vs" p T_weak] ok tok st room obtain a s1 where
    a: "mg_protect_snapshot M t p s = ret (a, s1)" "ok t s1" "mg_get M a = p \<or> mg_get M a = nullptr"
      "mm_ok (snapshot_tokens M a + (R + members_tokens vs) + etoks s1) s1"
    and e: "etoks s1 = etoks s" "heap_tokens s1 = heap_tokens s"
    by (auto simp: prog_ok_def)
  then have ok1: "prog_ok etoks (snapshot_tokens M a + R) (vs, s1)" by (simp only: prog_ok_def fst_conv snd_conv add.assoc)
  let ?X = "snapshot_tokens M a + (R + members_tokens vs) + etoks s1" and ?q = "mg_get M a"
  define n where "n = token_count (?X + heap_tokens s1) p T_strong"
  have count: "rc_use_count ?q (vs, s1) = ret (of_nat n, (vs, s1)) \<and> (0 < (of_nat n :: u64) \<longleftrightarrow> n \<noteq> 0)" if "?q \<noteq> nullptr"
  proof -
    have "(T_weak, p) \<in># ?X + heap_tokens s1" using tok that a(3) e by auto
    with use_count_exact [OF a(4) this, of vs, folded n_def] count_pos_u64 [OF use_count_bound [OF a(4) this, folded n_def]]
      that a(3) show ?thesis by simp
  qed
  have run: "aweak_get_snapshot M t this st = rbind (rc_use_count ?q (vs, s1)) (\<lambda>(n, st2).
     if ?q \<noteq> nullptr \<and> n > 0 then ret (a, st2) else ret (mg_reserve_nothing M, (fst st2, mg_destruct M a (snd st2))))"
    using a(1) st aweak.load_loc [OF self] by (simp add: aweak_get_snapshot_def)
  show ?thesis
  proof (cases "?q \<noteq> nullptr \<and> n \<noteq> 0")
    case True
    with run count have "aweak_get_snapshot M t this st = ret (a, (vs, s1))" by simp
    moreover from True have "(T_strong, p) \<in># ?X + heap_tokens s1" by (simp add: n_def token_count_def del: count_union)
    ultimately show ?thesis using a ok1 st by (auto simp: add.assoc intro!: exI)
  next
    case False
    have uc0: "rc_use_count nullptr (vs, s1) = ret (0, (vs, s1))" by (simp add: rc_use_count_def)
    have none: "snapshot_tokens M a = {#}"
    proof (rule ccontr)
      assume "snapshot_tokens M a \<noteq> {#}"
      then have "?q \<noteq> nullptr" "(T_strong, ?q) \<in># ?X + heap_tokens s1" by (auto simp: snapshot_tokens_def split: if_splits)
      with a(3) False show False by (auto simp: n_def token_count_def)
    qed
    have "aweak_get_snapshot M t this st = ret (mg_reserve_nothing M, (vs, mg_destruct M a s1))"
      using run count False uc0 by (cases "?q = nullptr") auto
    moreover note quiet_prog [of etoks ok "(vs, s1)" "mg_destruct M a s1" R, unfolded snd_conv, OF destruct] quiet_ok [OF destruct a(2), of a]
    ultimately show ?thesis using ok1 st none by (auto simp: empty_snapshot snapshot_tokens_def intro!: exI)
  qed
qed

lemma compare_exchange_weak_ok:
  assumes ok: "ok t s" "prog_ok etoks R (vs, s)" and x: "x < length vs" "vs ! x = M_arc current"
    and y: "place_get expected (vs, s) = Inr (M_rc e)" "expected \<noteq> Var x"
    and d: "d \<noteq> nullptr \<Longrightarrow> (T_strong, d) \<in># R + members_tokens (vs[x := M_arc nullptr]) \<and> strong_room d s"
    and room: "current \<noteq> nullptr \<Longrightarrow> strong_room current s"
  shows "\<exists>st'. arc_compare_exchange_weak M t (Var x) expected d (vs, s) = ret (current = e, st') \<and> ok t (snd st') \<and>
    prog_ok etoks R st' \<and>
    fst st' = (if current = e then vs[x := M_arc d] else put_vars expected (M_rc current) vs)"
proof (cases "current = e")
  case True
  with cas_ok [OF ok x d, of e False] y show ?thesis by (auto simp: arc_compare_exchange_weak_def)
next
  case False
  from cas_ok [OF ok x d, of e False] False obtain s1 where
    s1: "arc_cas_copy M t (Var x) e d False (vs, s) = ret (False, (vs, s1))" "ok t s1" "prog_ok etoks R (vs, s1)" "heap s1 = heap s"
    by auto
  have get: "place_get pl (vs, s1) = place_get pl (vs, s)" for pl
    using s1(4) by (cases pl) (simp_all add: with_storage_def with_object_def)
  from arc_load_ok [of t "(vs, s1)" R "Var x" current] s1 x room obtain st2 where
    st2: "arc_load M t (Var x) (vs, s1) = ret (current, st2)" "fst st2 = vs" "ok t (snd st2)"
      "prog_ok etoks (member_tokens (M_rc current) + R) st2" "\<forall>pl. place_get pl st2 = place_get pl (vs, s1)"
    by (auto simp: strong_room_def)
  have "place_get expected st2 = Inr (M_rc e)" using st2(5) get y(1) by simp
  from strong.assign_from_ok [OF st2(3,4) this] s1(1) st2(1,2) y(1) False show ?thesis
    by (auto simp: arc_compare_exchange_weak_def rc_assign_from_def step)
qed

end

end
