(* ===== verification/Client.thy ===== *)
theory Client
  imports Smart_Backend
begin

text \<open>
  Programs over the smart pointers. A client has variables of the four owning types and snapshots; an operation
  of one of its threads is a statement such as \<^verbatim>\<open>x = y\<close>, \<^verbatim>\<open>x = l.load()\<close> or \<^verbatim>\<open>l.compare_exchange_weak(x, y)\<close>, where
  \<^verbatim>\<open>l\<close> is a variable or a member of a managed object. \<open>exec\<close> runs it with the definitions of the pointer
  classes; \<open>enabled\<close> says that it is well typed, that an address from the allocator is fresh and that no count is at its limit.
  The threads take turns with whole operations.
\<close>

declare split_paired_Ex [simp del] split_paired_All [simp del]

section \<open>Operations\<close>

datatype 'v client_op =
    Op_make nat ptr 'v "nat list" "nat list"
  | Op_copy nat nat
  | Op_move nat nat
  | Op_clear nat
  | Op_swap nat nat
  | Op_weak_from nat nat
  | Op_weak_copy nat nat
  | Op_weak_move nat nat
  | Op_weak_clear nat
  | Op_lock nat nat
  | Op_store place nat
  | Op_store_move place nat
  | Op_store_null place
  | Op_load nat place
  | Op_cas nat nat nat
  | Op_cas_move nat nat nat
  | Op_exchange nat place nat
  | Op_aweak_store place nat
  | Op_aweak_store_null place
  | Op_aweak_load nat place
  | Op_aweak_cas nat nat nat
  | Op_snapshot nat place
  | Op_snapshot_clear nat

type_synonym ('a, 's) client = "'a list \<times> 's prog"

text \<open>The pointer in a variable.\<close>

definition var_ptr :: "nat \<Rightarrow> 's prog \<Rightarrow> ptr" where
  "var_ptr x st = (if x < length (fst st) then member_ptr (fst st ! x) else nullptr)"

text \<open>Moving variables out, one after the other: the arguments of a constructor.\<close>

fun move_out :: "nat list \<Rightarrow> ('v, 'x, 'e) mm_state prog \<Rightarrow> (ptr list \<times> ('v, 'x, 'e) mm_state prog) res" where
  "move_out [] st = ret ([], st)"
| "move_out (y # ys) st =
     rbind (rc_move (Var y) st) (\<lambda>(p, st1). rbind (move_out ys st1) (\<lambda>(ps, st2). ret (p # ps, st2)))"

fun exec_prog :: "('c, 'a, 'v, 'x, 'e) backend \<Rightarrow> tid \<Rightarrow> 'v client_op \<Rightarrow> ('v, 'x, 'e) mm_state prog \<Rightarrow> ('v, 'x, 'e) mm_state prog res" where
  "exec_prog M t (Op_make x p v ys zs) st =
     rbind (move_out ys st) (\<lambda>(ps, st1).
     rbind (move_out zs st1) (\<lambda>(qs, st2).
     rbind (rc_make_shared M t p \<lparr>payload = v, members = map M_rc ps @ map M_arc qs\<rparr> st2) (\<lambda>(r, st3).
     rc_assign_from M t (Var x) r st3)))"
| "exec_prog M t (Op_copy x y) st = rc_copy_assign M t (Var x) (Var y) st"
| "exec_prog M t (Op_move x y) st = rc_move_assign M t (Var x) (Var y) st"
| "exec_prog M t (Op_clear x) st = rc_clear M t (Var x) st"
| "exec_prog M t (Op_swap x y) st = rc_swap (Var x) (Var y) st"
| "exec_prog M t (Op_weak_from w x) st =
     rbind (weak_from_rc (var_ptr x st) st) (\<lambda>(p, st1). weak_assign_from M t (Var w) p st1)"
| "exec_prog M t (Op_weak_copy w u) st = weak_copy_assign M t (Var w) (Var u) st"
| "exec_prog M t (Op_weak_move w u) st = weak_move_assign M t (Var w) (Var u) st"
| "exec_prog M t (Op_weak_clear w) st = weak_clear M t (Var w) st"
| "exec_prog M t (Op_lock x w) st =
     rbind (weak_lock (var_ptr w st) st) (\<lambda>(p, st1). rc_assign_from M t (Var x) p st1)"
| "exec_prog M t (Op_store l x) st =
     rbind (rc_copy (var_ptr x st) st) (\<lambda>(p, st1). arc_store M t l p st1)"
| "exec_prog M t (Op_store_move l x) st =
     rbind (rc_move (Var x) st) (\<lambda>(p, st1). arc_store M t l p st1)"
| "exec_prog M t (Op_store_null l) st = arc_store_null M t l st"
| "exec_prog M t (Op_load x l) st =
     rbind (arc_load M t l st) (\<lambda>(p, st1). rc_assign_from M t (Var x) p st1)"
| "exec_prog M t (Op_cas l x y) st =
     rbind (arc_compare_exchange_weak M t (Var l) (Var x) (var_ptr y st) st) (\<lambda>(_, st1). ret st1)"
| "exec_prog M t (Op_cas_move l x y) st =
     rbind (arc_cas_move M t (Var l) (var_ptr x st) (Var y) st) (\<lambda>(_, st1). ret st1)"
| "exec_prog M t (Op_exchange x l y) st =
     rbind (rc_move (Var y) st) (\<lambda>(p, st1).
     rbind (arc_exchange l p st1) (\<lambda>(q, st2). rc_assign_from M t (Var x) q st2))"
| "exec_prog M t (Op_aweak_store l w) st =
     rbind (weak_copy (var_ptr w st) st) (\<lambda>(p, st1). aweak_store M t l p st1)"
| "exec_prog M t (Op_aweak_store_null l) st = aweak_store_null M t l st"
| "exec_prog M t (Op_aweak_load w l) st =
     rbind (aweak_load M t l st) (\<lambda>(p, st1). weak_assign_from M t (Var w) p st1)"
| "exec_prog M t (Op_aweak_cas l w u) st =
     rbind (aweak_cas_copy M t (Var l) (var_ptr w st) (var_ptr u st) False st) (\<lambda>(_, st1). ret st1)"
| "exec_prog M t _ st = ret st"

fun exec :: "('c, 'a, 'v, 'x, 'e) backend \<Rightarrow> tid \<Rightarrow> 'v client_op \<Rightarrow> ('a, ('v, 'x, 'e) mm_state) client \<Rightarrow>
    ('a, ('v, 'x, 'e) mm_state) client res" where
  "exec M t (Op_snapshot i l) (sn, st) =
     rbind (arc_get_snapshot M t l st) (\<lambda>(a, st1).
     rbind (snapshot_move_assign M t (sn ! i) a st1) (\<lambda>(this, _, st2). ret (sn[i := this], st2)))"
| "exec M t (Op_snapshot_clear i) (sn, st) =
     rbind (snapshot_clear M t (sn ! i) st) (\<lambda>(this, st1). ret (sn[i := this], st1))"
| "exec M t op (sn, st) = rbind (exec_prog M t op st) (\<lambda>st1. ret (sn, st1))"

section \<open>Well-typed operations\<close>

fun is_rc :: "member \<Rightarrow> bool" where
  "is_rc (M_rc p) = True" | "is_rc _ = False"

fun is_arc :: "member \<Rightarrow> bool" where
  "is_arc (M_arc p) = True" | "is_arc _ = False"

fun is_weak :: "member \<Rightarrow> bool" where
  "is_weak (M_weak p) = True" | "is_weak _ = False"

fun is_aweak :: "member \<Rightarrow> bool" where
  "is_aweak (M_aweak p) = True" | "is_aweak _ = False"

definition typed :: "(member \<Rightarrow> bool) \<Rightarrow> place \<Rightarrow> ('v, 'x, 'e) mm_state prog \<Rightarrow> bool" where
  "typed P l st \<longleftrightarrow> (case place_get l st of Inl e \<Rightarrow> False | Inr m \<Rightarrow> P m)"

definition room_strong :: "ptr \<Rightarrow> ('v, 'x, 'e) mm_state prog \<Rightarrow> bool" where
  "room_strong p st \<longleftrightarrow> p = nullptr \<or> strong_room p (snd st)"

definition room_weak :: "ptr \<Rightarrow> ('v, 'x, 'e) mm_state prog \<Rightarrow> bool" where
  "room_weak p st \<longleftrightarrow> p = nullptr \<or> weak_room p (snd st)"

definition loc_ptr :: "place \<Rightarrow> ('v, 'x, 'e) mm_state prog \<Rightarrow> ptr" where
  "loc_ptr l st = (case place_get l st of Inl e \<Rightarrow> nullptr | Inr m \<Rightarrow> member_ptr m)"

fun enabled :: "'v client_op \<Rightarrow> ('a, ('v, 'x, 'e) mm_state) client \<Rightarrow> bool" where
  "enabled (Op_make x p v ys zs) (sn, st) \<longleftrightarrow>
     typed is_rc (Var x) st \<and> list_all (\<lambda>y. typed is_rc (Var y) st) (ys @ zs) \<and> distinct (ys @ zs) \<and>
     p \<noteq> nullptr \<and> fmlookup (heap (snd st)) p = None"
| "enabled (Op_copy x y) (sn, st) \<longleftrightarrow> typed is_rc (Var x) st \<and> typed is_rc (Var y) st \<and> room_strong (var_ptr y st) st"
| "enabled (Op_move x y) (sn, st) \<longleftrightarrow> typed is_rc (Var x) st \<and> typed is_rc (Var y) st \<and> x \<noteq> y"
| "enabled (Op_clear x) (sn, st) \<longleftrightarrow> typed is_rc (Var x) st"
| "enabled (Op_swap x y) (sn, st) \<longleftrightarrow> typed is_rc (Var x) st \<and> typed is_rc (Var y) st"
| "enabled (Op_weak_from w x) (sn, st) \<longleftrightarrow> typed is_weak (Var w) st \<and> typed is_rc (Var x) st \<and> room_weak (var_ptr x st) st"
| "enabled (Op_weak_copy w u) (sn, st) \<longleftrightarrow> typed is_weak (Var w) st \<and> typed is_weak (Var u) st \<and> room_weak (var_ptr u st) st"
| "enabled (Op_weak_move w u) (sn, st) \<longleftrightarrow> typed is_weak (Var w) st \<and> typed is_weak (Var u) st \<and> w \<noteq> u"
| "enabled (Op_weak_clear w) (sn, st) \<longleftrightarrow> typed is_weak (Var w) st"
| "enabled (Op_lock x w) (sn, st) \<longleftrightarrow> typed is_rc (Var x) st \<and> typed is_weak (Var w) st \<and> room_strong (var_ptr w st) st"
| "enabled (Op_store l x) (sn, st) \<longleftrightarrow> typed is_arc l st \<and> typed is_rc (Var x) st \<and> room_strong (var_ptr x st) st"
| "enabled (Op_store_move l x) (sn, st) \<longleftrightarrow> typed is_arc l st \<and> typed is_rc (Var x) st"
| "enabled (Op_store_null l) (sn, st) \<longleftrightarrow> typed is_arc l st"
| "enabled (Op_load x l) (sn, st) \<longleftrightarrow> typed is_rc (Var x) st \<and> typed is_arc l st \<and> room_strong (loc_ptr l st) st"
| "enabled (Op_cas l x y) (sn, st) \<longleftrightarrow> typed is_arc (Var l) st \<and> typed is_rc (Var x) st \<and> typed is_rc (Var y) st \<and>
     room_strong (var_ptr y st) st \<and> room_strong (var_ptr l st) st"
| "enabled (Op_cas_move l x y) (sn, st) \<longleftrightarrow> typed is_arc (Var l) st \<and> typed is_rc (Var x) st \<and> typed is_rc (Var y) st"
| "enabled (Op_exchange x l y) (sn, st) \<longleftrightarrow> typed is_rc (Var x) st \<and> typed is_arc l st \<and> typed is_rc (Var y) st"
| "enabled (Op_aweak_store l w) (sn, st) \<longleftrightarrow> typed is_aweak l st \<and> typed is_weak (Var w) st \<and> room_weak (var_ptr w st) st"
| "enabled (Op_aweak_store_null l) (sn, st) \<longleftrightarrow> typed is_aweak l st"
| "enabled (Op_aweak_load w l) (sn, st) \<longleftrightarrow> typed is_weak (Var w) st \<and> typed is_aweak l st \<and> room_weak (loc_ptr l st) st"
| "enabled (Op_aweak_cas l w u) (sn, st) \<longleftrightarrow> typed is_aweak (Var l) st \<and> typed is_weak (Var w) st \<and> typed is_weak (Var u) st \<and>
     room_weak (var_ptr u st) st"
| "enabled (Op_snapshot i l) (sn, st) \<longleftrightarrow> i < length sn \<and> typed is_arc l st \<and> room_strong (loc_ptr l st) st"
| "enabled (Op_snapshot_clear i) (sn, st) \<longleftrightarrow> i < length sn"

section \<open>The client under garbage collection\<close>

text \<open>
  What the operations do to the variables if one forgets about reference counts, announcements and destruction: plain
  pointers move about. \<open>at\<close> is the pointer that a location holds. Only the result of \<^verbatim>\<open>lock\<close> and of loading a weak
  location depends on more: it may be empty because the object has expired.
\<close>

definition ptr_of :: "member list \<Rightarrow> nat \<Rightarrow> ptr" where
  "ptr_of vs x = member_ptr (vs ! x)"

definition null_out :: "nat list \<Rightarrow> member list \<Rightarrow> member list" where
  "null_out ys vs = foldl (\<lambda>vs y. vs[y := M_rc nullptr]) vs ys"

fun gc_step :: "'v client_op \<Rightarrow> (place \<Rightarrow> ptr) \<Rightarrow> member list \<Rightarrow> member list \<Rightarrow> bool" where
  "gc_step (Op_make x p v ys zs) at vs vs' \<longleftrightarrow> vs' = (null_out (ys @ zs) vs)[x := M_rc p]"
| "gc_step (Op_copy x y) at vs vs' \<longleftrightarrow> vs' = vs[x := M_rc (ptr_of vs y)]"
| "gc_step (Op_move x y) at vs vs' \<longleftrightarrow> vs' = vs[y := M_rc nullptr, x := M_rc (ptr_of vs y)]"
| "gc_step (Op_clear x) at vs vs' \<longleftrightarrow> vs' = vs[x := M_rc nullptr]"
| "gc_step (Op_swap x y) at vs vs' \<longleftrightarrow> vs' = vs[x := M_rc (ptr_of vs y), y := M_rc (ptr_of vs x)]"
| "gc_step (Op_weak_from w x) at vs vs' \<longleftrightarrow> vs' = vs[w := M_weak (ptr_of vs x)]"
| "gc_step (Op_weak_copy w u) at vs vs' \<longleftrightarrow> vs' = vs[w := M_weak (ptr_of vs u)]"
| "gc_step (Op_weak_move w u) at vs vs' \<longleftrightarrow> vs' = vs[u := M_weak nullptr, w := M_weak (ptr_of vs u)]"
| "gc_step (Op_weak_clear w) at vs vs' \<longleftrightarrow> vs' = vs[w := M_weak nullptr]"
| "gc_step (Op_lock x w) at vs vs' \<longleftrightarrow> vs' = vs[x := M_rc (ptr_of vs w)] \<or> vs' = vs[x := M_rc nullptr]"
| "gc_step (Op_store l x) at vs vs' \<longleftrightarrow> vs' = put_vars l (M_arc (ptr_of vs x)) vs"
| "gc_step (Op_store_move l x) at vs vs' \<longleftrightarrow> vs' = put_vars l (M_arc (ptr_of vs x)) (vs[x := M_rc nullptr])"
| "gc_step (Op_store_null l) at vs vs' \<longleftrightarrow> vs' = put_vars l (M_arc nullptr) vs"
| "gc_step (Op_load x l) at vs vs' \<longleftrightarrow> vs' = vs[x := M_rc (at l)]"
| "gc_step (Op_cas l x y) at vs vs' \<longleftrightarrow>
     vs' = (if ptr_of vs l = ptr_of vs x then vs[l := M_arc (ptr_of vs y)] else vs[x := M_rc (ptr_of vs l)])"
| "gc_step (Op_cas_move l x y) at vs vs' \<longleftrightarrow>
     vs' = (if ptr_of vs l = ptr_of vs x then vs[l := M_arc (ptr_of vs y), y := M_rc nullptr] else vs)"
| "gc_step (Op_exchange x l y) at vs vs' \<longleftrightarrow>
     vs' = (put_vars l (M_arc (ptr_of vs y)) (vs[y := M_rc nullptr]))[x := M_rc (at l)]"
| "gc_step (Op_aweak_store l w) at vs vs' \<longleftrightarrow> vs' = put_vars l (M_aweak (ptr_of vs w)) vs"
| "gc_step (Op_aweak_store_null l) at vs vs' \<longleftrightarrow> vs' = put_vars l (M_aweak nullptr) vs"
| "gc_step (Op_aweak_load w l) at vs vs' \<longleftrightarrow> vs' = vs[w := M_weak (at l)] \<or> vs' = vs[w := M_weak nullptr]"
| "gc_step (Op_aweak_cas l w u) at vs vs' \<longleftrightarrow>
     vs' = (if ptr_of vs l = ptr_of vs w then vs[l := M_aweak (ptr_of vs u)] else vs)"
| "gc_step (Op_snapshot i l) at vs vs' \<longleftrightarrow> vs' = vs"
| "gc_step (Op_snapshot_clear i) at vs vs' \<longleftrightarrow> vs' = vs"

section \<open>Runs\<close>

inductive client_run :: "('c, 'a, 'v, 'x, 'e) backend \<Rightarrow> nat \<Rightarrow> ('a, ('v, 'x, 'e) mm_state) client \<Rightarrow> ('a, ('v, 'x, 'e) mm_state) client \<Rightarrow> bool"
  for M n c0 where
  start: "client_run M n c0 c0"
| oper: "client_run M n c0 c \<Longrightarrow> t < n \<Longrightarrow> enabled op c \<Longrightarrow> exec M t op c = ret c' \<Longrightarrow> client_run M n c0 c'"

text \<open>Running a list of operations, each by its thread, as long as they are enabled.\<close>

fun execs :: "('c, 'a, 'v, 'x, 'e) backend \<Rightarrow> nat \<Rightarrow> (tid \<times> 'v client_op) list \<Rightarrow> ('a, ('v, 'x, 'e) mm_state) client \<Rightarrow>
    ('a, ('v, 'x, 'e) mm_state) client res" where
  "execs M n [] c = ret c"
| "execs M n ((t, op) # ops) c =
     (if t < n \<and> enabled op c then rbind (exec M t op c) (execs M n ops) else None)"

lemma None_ret [simp]: "None \<noteq> ret c"
  by (simp add: ret_def)

lemma execs_run: "execs M n ops c = ret c' \<Longrightarrow> client_run M n c0 c \<Longrightarrow> client_run M n c0 c'"
proof (induction ops arbitrary: c)
  case Nil
  then show ?case by (simp add: ret_def)
next
  case (Cons top ops)
  then obtain t op c1 where "top = (t, op)" "t < n" "enabled op c" "exec M t op c = ret c1" "execs M n ops c1 = ret c'"
    by (cases top) (auto simp: rbind_eq_ret split: if_splits)
  with Cons client_run.oper show ?case by metis
qed

text \<open>The accounts of a client: its snapshots own what they are not protected for.\<close>

definition snapshots_tokens :: "('c, 'a, 'v, 'x, 'e) backend \<Rightarrow> 'a list \<Rightarrow> tokens" where
  "snapshots_tokens M sn = sum_list (map (snapshot_tokens M) sn)"

definition client_tokens :: "('c, 'a, 'v, 'x, 'e) backend \<Rightarrow> (('v, 'x, 'e) mm_state \<Rightarrow> tokens) \<Rightarrow>
    ('a, ('v, 'x, 'e) mm_state) client \<Rightarrow> tokens" where
  "client_tokens M etoks c =
     snapshots_tokens M (fst c) + members_tokens (fst (snd c)) + etoks (snd (snd c)) + heap_tokens (snd (snd c))"

definition client_ok :: "('c, 'a, 'v, 'x, 'e) backend \<Rightarrow> (('v, 'x, 'e) mm_state \<Rightarrow> tokens) \<Rightarrow> (('v, 'x, 'e) mm_state \<Rightarrow> bool) \<Rightarrow>
    ('a, ('v, 'x, 'e) mm_state) client \<Rightarrow> bool" where
  "client_ok M etoks good c \<longleftrightarrow> good (snd (snd c)) \<and> prog_ok etoks (snapshots_tokens M (fst c)) (snd c)"

lemma snapshots_tokens_update:
  "i < length sn \<Longrightarrow>
   snapshots_tokens M (sn[i := a]) + snapshot_tokens M (sn ! i) = snapshots_tokens M sn + snapshot_tokens M a"
  unfolding snapshots_tokens_def by (induction sn arbitrary: i) (auto simp: nth_Cons ac_simps split: nat.splits)

lemma typed_iff:
  "typed is_rc l st \<longleftrightarrow> (\<exists>p. place_get l st = Inr (M_rc p))"
  "typed is_arc l st \<longleftrightarrow> (\<exists>p. place_get l st = Inr (M_arc p))"
  "typed is_weak l st \<longleftrightarrow> (\<exists>p. place_get l st = Inr (M_weak p))"
  "typed is_aweak l st \<longleftrightarrow> (\<exists>p. place_get l st = Inr (M_aweak p))"
  by (auto simp: typed_def elim!: is_rc.elims is_arc.elims is_weak.elims is_aweak.elims split: sum.splits)

lemma get_var_iff: "place_get (Var x) st = Inr m \<longleftrightarrow> x < length (fst st) \<and> fst st ! x = m"
  by (cases st) auto

lemma var_ptr_eq: "place_get (Var x) st = Inr m \<Longrightarrow> var_ptr x st = member_ptr m"
  by (auto simp: get_var_iff var_ptr_def)

lemma ptr_of_eq: "place_get (Var x) st = Inr m \<Longrightarrow> ptr_of (fst st) x = member_ptr m"
  by (auto simp: get_var_iff ptr_of_def)

lemma loc_ptr_eq: "place_get l st = Inr m \<Longrightarrow> loc_ptr l st = member_ptr m"
  by (simp add: loc_ptr_def)

lemma roomD:
  "room_strong p st \<Longrightarrow> p \<noteq> nullptr \<Longrightarrow> strong_room p (snd st)"
  "room_weak p st \<Longrightarrow> p \<noteq> nullptr \<Longrightarrow> weak_room p (snd st)"
  by (auto simp: room_strong_def room_weak_def)

locale smart_client = smart_backend retire derived ctoks cweight clen etoks eweight elen "\<lambda>t s. t < n \<and> good s" M
  for retire :: "(('v, 'x, 'e) mm_state, 'c) retire_fn" and derived :: "(('v, 'x, 'e) mm_state, 'c) derived_fn"
    and ctoks cweight clen etoks eweight elen and n :: nat and good and M :: "('c, 'a, 'v, 'x, 'e) backend"
begin

lemma rc_ops_ok:
  assumes st: "t < n \<and> good (snd st)" "prog_ok etoks R st" and en: "enabled op (sn, st)"
    and op: "op = Op_copy x y \<or> op = Op_move x y \<or> op = Op_clear x"
  shows "\<exists>st'. exec_prog M t op st = ret st' \<and> good (snd st') \<and> prog_ok etoks R st' \<and>
    gc_step op (\<lambda>l. loc_ptr l st) (fst st) (fst st')"
  using op
proof (elim disjE)
  assume op: "op = Op_copy x y"
  with en obtain a b where "place_get (Var x) st = Inr (M_rc a)" and b: "place_get (Var y) st = Inr (M_rc b)"
      "room_strong b st" by (auto simp: typed_iff var_ptr_eq)
  from strong.copy_assign_ok [OF st this(1,2) roomD(1) [OF b(2)]] op ptr_of_eq [OF b(1)] show ?thesis
    by (auto simp: rc_copy_assign_def step)
next
  assume op: "op = Op_move x y"
  with en obtain a b where "place_get (Var x) st = Inr (M_rc a)" "place_get (Var y) st = Inr (M_rc b)" "Var x \<noteq> Var y"
    by (auto simp: typed_iff)
  from strong.move_assign_ok [OF st this] op ptr_of_eq [OF this(2)] show ?thesis by (auto simp: rc_move_assign_def step)
next
  assume op: "op = Op_clear x"
  with en obtain a where "x < length (fst st)" "fst st ! x = M_rc a" by (auto simp: typed_iff get_var_iff)
  from strong.clear_ok [OF st this] op show ?thesis by (auto simp: rc_clear_def step)
qed

lemma weak_ops_ok:
  assumes st: "t < n \<and> good (snd st)" "prog_ok etoks R st" and en: "enabled op (sn, st)"
    and op: "op = Op_weak_copy x y \<or> op = Op_weak_move x y \<or> op = Op_weak_clear x"
  shows "\<exists>st'. exec_prog M t op st = ret st' \<and> good (snd st') \<and> prog_ok etoks R st' \<and>
    gc_step op (\<lambda>l. loc_ptr l st) (fst st) (fst st')"
  using op
proof (elim disjE)
  assume op: "op = Op_weak_copy x y"
  with en obtain a b where "place_get (Var x) st = Inr (M_weak a)" and b: "place_get (Var y) st = Inr (M_weak b)"
      "room_weak b st" by (auto simp: typed_iff var_ptr_eq)
  from weak.copy_assign_ok [OF st this(1,2) roomD(2) [OF b(2)]] op ptr_of_eq [OF b(1)] show ?thesis
    by (auto simp: weak_copy_assign_def step)
next
  assume op: "op = Op_weak_move x y"
  with en obtain a b where "place_get (Var x) st = Inr (M_weak a)" "place_get (Var y) st = Inr (M_weak b)" "Var x \<noteq> Var y"
    by (auto simp: typed_iff)
  from weak.move_assign_ok [OF st this] op ptr_of_eq [OF this(2)] show ?thesis by (auto simp: weak_move_assign_def step)
next
  assume op: "op = Op_weak_clear x"
  with en obtain a where "x < length (fst st)" "fst st ! x = M_weak a" by (auto simp: typed_iff get_var_iff)
  from weak.clear_ok [OF st this] op show ?thesis by (auto simp: weak_clear_def step)
qed

text \<open>A reference at hand ends in a variable.\<close>

lemma assign_rc:
  assumes "t < n \<and> good (snd st)" "prog_ok etoks (member_tokens (M_rc p) + R) st" "place_get (Var x) st = Inr (M_rc a)"
  shows "\<exists>st'. rc_assign_from M t (Var x) p st = ret st' \<and> good (snd st') \<and> prog_ok etoks R st' \<and>
    fst st' = (fst st)[x := M_rc p]"
  using strong.assign_from_ok [OF assms] by (auto simp: rc_assign_from_def step)

lemma assign_weak:
  assumes "t < n \<and> good (snd st)" "prog_ok etoks (member_tokens (M_weak p) + R) st" "place_get (Var x) st = Inr (M_weak a)"
  shows "\<exists>st'. weak_assign_from M t (Var x) p st = ret st' \<and> good (snd st') \<and> prog_ok etoks R st' \<and>
    fst st' = (fst st)[x := M_weak p]"
  using weak.assign_from_ok [OF assms] by (auto simp: weak_assign_from_def step)

lemma same_vars: "fst st' = fst st \<Longrightarrow> place_get (Var x) st' = place_get (Var x) st"
  by (cases st; cases st') simp

lemma weak_from_ok:
  assumes st: "t < n \<and> good (snd st)" "prog_ok etoks R st" and en: "enabled (Op_weak_from w x) (sn, st)"
  shows "\<exists>st'. exec_prog M t (Op_weak_from w x) st = ret st' \<and> good (snd st') \<and> prog_ok etoks R st' \<and>
    gc_step (Op_weak_from w x) (\<lambda>l. loc_ptr l st) (fst st) (fst st')"
proof -
  from en obtain a p where w: "place_get (Var w) st = Inr (M_weak a)" and x: "place_get (Var x) st = Inr (M_rc p)" "room_weak p st"
    by (auto simp: typed_iff var_ptr_eq)
  have "\<exists>st1. ptr_copy increment_weak_cnt p st = ret (p, st1) \<and> (t < n \<and> good (snd st1)) \<and> fst st1 = fst st \<and>
      prog_ok etoks (member_tokens (M_weak p) + R) st1"
  proof (cases "p = nullptr")
    case True
    with st show ?thesis by (simp add: ptr_copy_def)
  next
    case False
    let ?X = "R + members_tokens (fst st) + etoks (snd st)"
    have "0 < token_count (?X + heap_tokens (snd st)) p T_strong"
      using place_get_owner [OF x(1), of "(T_strong, p)" R] False by (simp add: token_count_def del: count_union)
    with increment_weak_cnt_ok [OF st(2) [unfolded prog_ok_def] roomD(2) [OF x(2) False]] obtain s' where
      s': "increment_weak_cnt p (snd st) = Inr (True, s')" "mm_ok (add_mset (T_weak, p) ?X) s'" "mm.more s' = mm.more (snd st)"
      by blast
    with ext [OF s'(3)] st(1) False show ?thesis
      by (auto simp: ptr_copy_def lift_mm_def prog_ok_def)
  qed
  then obtain st1 where st1: "ptr_copy increment_weak_cnt p st = ret (p, st1)" "t < n \<and> good (snd st1)" "fst st1 = fst st"
    "prog_ok etoks (member_tokens (M_weak p) + R) st1" by blast
  from assign_weak [OF st1(2,4), of w a] same_vars [OF st1(3), of w] w st1(1,3) var_ptr_eq [OF x(1)] ptr_of_eq [OF x(1)] show ?thesis
    by (simp add: weak_from_rc_def)
qed

lemma lock_op_ok:
  assumes st: "t < n \<and> good (snd st)" "prog_ok etoks R st" and en: "enabled (Op_lock x w) (sn, st)"
  shows "\<exists>st'. exec_prog M t (Op_lock x w) st = ret st' \<and> good (snd st') \<and> prog_ok etoks R st' \<and>
    gc_step (Op_lock x w) (\<lambda>l. loc_ptr l st) (fst st) (fst st')"
proof -
  from en obtain a p where x: "place_get (Var x) st = Inr (M_rc a)" and w: "place_get (Var w) st = Inr (M_weak p)" "room_strong p st"
    by (auto simp: typed_iff var_ptr_eq)
  from place_get_owner [OF w(1), of "(T_weak, p)" R] roomD(1) [OF w(2)]
  have "p \<noteq> nullptr \<Longrightarrow> (T_weak, p) \<in># R + members_tokens (fst st) + etoks (snd st) + heap_tokens (snd st) \<and> strong_room p (snd st)"
    by simp
  note owner = this
  define q where "q = (if p \<noteq> nullptr \<and> (T_strong, p) \<in># R + members_tokens (fst st) + etoks (snd st) + heap_tokens (snd st) then p else nullptr)"
  have "\<exists>st1. weak_lock p st = ret (q, st1) \<and> fst st1 = fst st \<and> (t < n \<and> good (snd st1)) \<and>
      prog_ok etoks (member_tokens (M_rc q) + R) st1"
    unfolding q_def by (rule lock_ok [OF st owner])
  moreover have "q = p \<or> q = nullptr" by (simp add: q_def)
  ultimately obtain st1 where st1: "weak_lock p st = ret (q, st1)" "fst st1 = fst st" "t < n \<and> good (snd st1)"
    "prog_ok etoks (member_tokens (M_rc q) + R) st1" "q = p \<or> q = nullptr" by blast
  from assign_rc [OF st1(3,4), of x a] same_vars [OF st1(2), of x] x st1(1,2,5) var_ptr_eq [OF w(1)] ptr_of_eq [OF w(1)] show ?thesis by auto
qed

lemma load_ops_ok:
  assumes st: "t < n \<and> good (snd st)" "prog_ok etoks R st" and en: "enabled op (sn, st)"
    and op: "op = Op_load x l \<or> op = Op_aweak_load x l"
  shows "\<exists>st'. exec_prog M t op st = ret st' \<and> good (snd st') \<and> prog_ok etoks R st' \<and>
    gc_step op (\<lambda>l. loc_ptr l st) (fst st) (fst st')"
  using op
proof
  assume op: "op = Op_load x l"
  with en obtain a p where x: "place_get (Var x) st = Inr (M_rc a)" and l: "place_get l st = Inr (M_arc p)" "room_strong p st"
    by (auto simp: typed_iff loc_ptr_eq)
  from arc_load_ok [OF st l(1) roomD(1) [OF l(2)]] obtain st1 where st1: "arc_load M t l st = ret (p, st1)" "fst st1 = fst st"
    "t < n \<and> good (snd st1)" "prog_ok etoks (member_tokens (M_rc p) + R) st1" by blast
  from assign_rc [OF st1(3,4), of x a] same_vars [OF st1(2), of x] x st1(1,2) op loc_ptr_eq [OF l(1)] show ?thesis by simp
next
  assume op: "op = Op_aweak_load x l"
  with en obtain a p where x: "place_get (Var x) st = Inr (M_weak a)" and l: "place_get l st = Inr (M_aweak p)" "room_weak p st"
    by (auto simp: typed_iff loc_ptr_eq)
  from aweak_load_ok [OF st l(1) roomD(2) [OF l(2)]] obtain q st1 where st1: "aweak_load M t l st = ret (q, st1)" "fst st1 = fst st"
    "t < n \<and> good (snd st1)" "prog_ok etoks (member_tokens (M_weak q) + R) st1" "q = p \<or> q = nullptr" by blast
  from assign_weak [OF st1(3,4), of x a] same_vars [OF st1(2), of x] x st1(1,2,5) op loc_ptr_eq [OF l(1)] show ?thesis by auto
qed

lemma store_op_ok:
  assumes st: "t < n \<and> good (snd st)" "prog_ok etoks R st" and en: "enabled op (sn, st)"
    and op: "op = Op_store l x \<or> op = Op_aweak_store l x"
  shows "\<exists>st'. exec_prog M t op st = ret st' \<and> good (snd st') \<and> prog_ok etoks R st' \<and>
    gc_step op (\<lambda>l. loc_ptr l st) (fst st) (fst st')"
  using op
proof
  assume op: "op = Op_store l x"
  with en obtain a p where l: "place_get l st = Inr (M_arc a)" and x: "place_get (Var x) st = Inr (M_rc p)" "room_strong p st"
    by (auto simp: typed_iff var_ptr_eq)
  from strong.copy_ok [OF st roomD(1) [OF x(2)] place_get_owner [OF x(1)]] obtain st1 where
    st1: "ptr_copy increment_ref_cnt p st = ret (p, st1)" "t < n \<and> good (snd st1)"
      "prog_ok etoks (member_tokens (M_rc p) + R) st1" "place_get l st1 = place_get l st" "fst st1 = fst st" by auto
  from arc.store_ok [OF st1(2,3), of l a] st1(1,4,5) l op var_ptr_eq [OF x(1)] ptr_of_eq [OF x(1)] show ?thesis
    by (auto simp: rc_copy_def arc_store_def step)
next
  assume op: "op = Op_aweak_store l x"
  with en obtain a p where l: "place_get l st = Inr (M_aweak a)" and x: "place_get (Var x) st = Inr (M_weak p)" "room_weak p st"
    by (auto simp: typed_iff var_ptr_eq)
  from weak.copy_ok [OF st roomD(2) [OF x(2)] place_get_owner [OF x(1)]] obtain st1 where
    st1: "ptr_copy increment_weak_cnt p st = ret (p, st1)" "t < n \<and> good (snd st1)"
      "prog_ok etoks (member_tokens (M_weak p) + R) st1" "place_get l st1 = place_get l st" "fst st1 = fst st" by auto
  from aweak.store_ok [OF st1(2,3), of l a] st1(1,4,5) l op var_ptr_eq [OF x(1)] ptr_of_eq [OF x(1)] show ?thesis
    by (auto simp: weak_copy_def aweak_store_def step)
qed

lemma store_null_ok:
  assumes st: "t < n \<and> good (snd st)" "prog_ok etoks R st" and en: "enabled op (sn, st)"
    and op: "op = Op_store_null l \<or> op = Op_aweak_store_null l"
  shows "\<exists>st'. exec_prog M t op st = ret st' \<and> good (snd st') \<and> prog_ok etoks R st' \<and>
    gc_step op (\<lambda>l. loc_ptr l st) (fst st) (fst st')"
  using op
proof
  assume op: "op = Op_store_null l"
  with en obtain a where l: "place_get l st = Inr (M_arc a)" by (auto simp: typed_iff)
  from arc.store_ok [OF st(1) _ l, of nullptr R] st(2) op show ?thesis by (auto simp: arc_store_null_def step)
next
  assume op: "op = Op_aweak_store_null l"
  with en obtain a where l: "place_get l st = Inr (M_aweak a)" by (auto simp: typed_iff)
  from aweak.store_ok [OF st(1) _ l, of nullptr R] st(2) op show ?thesis by (auto simp: aweak_store_null_def step)
qed

text \<open>Moving a variable out leaves every other place alone.\<close>

lemma move_var:
  assumes "t < n \<and> good (snd st)" "prog_ok etoks R st" and "place_get (Var x) st = Inr (M_rc p)"
  shows "\<exists>st1. rc_move (Var x) st = ret (p, st1) \<and> (t < n \<and> good (snd st1)) \<and>
    prog_ok etoks (member_tokens (M_rc p) + R) st1 \<and> heap (snd st1) = heap (snd st) \<and>
    fst st1 = (fst st)[x := M_rc nullptr] \<and> place_get (Var x) st1 = Inr (M_rc nullptr) \<and> (\<forall>l. l \<noteq> Var x \<longrightarrow> place_get l st1 = place_get l st)"
proof -
  from strong.release_ok [OF assms] obtain st1 where st1: "ptr_release M_rc (Var x) st = ret (p, st1)" "t < n \<and> good (snd st1)"
    "prog_ok etoks (member_tokens (M_rc p) + R) st1" "place_put (Var x) (M_rc nullptr) st = Inr st1" by blast
  moreover from st1(4) have "snd st1 = snd st" "fst st1 = (fst st)[x := M_rc nullptr]" by (cases st; auto split: if_splits)+
  ultimately show ?thesis using place_get_put_other [OF st1(4)] place_get_put [OF st1(4)]
    by (auto simp: rc_move_def rc_release_def)
qed

lemma store_move_ok:
  assumes st: "t < n \<and> good (snd st)" "prog_ok etoks R st" and en: "enabled (Op_store_move l x) (sn, st)"
  shows "\<exists>st'. exec_prog M t (Op_store_move l x) st = ret st' \<and> good (snd st') \<and> prog_ok etoks R st' \<and>
    gc_step (Op_store_move l x) (\<lambda>l. loc_ptr l st) (fst st) (fst st')"
proof -
  from en obtain a p where l: "place_get l st = Inr (M_arc a)" and x: "place_get (Var x) st = Inr (M_rc p)"
    by (auto simp: typed_iff)
  then have "l \<noteq> Var x" by auto
  with move_var [OF st x] l obtain st1 where st1: "rc_move (Var x) st = ret (p, st1)" "t < n \<and> good (snd st1)"
    "prog_ok etoks (member_tokens (M_rc p) + R) st1" "place_get l st1 = Inr (M_arc a)" "fst st1 = (fst st)[x := M_rc nullptr]" by auto
  from arc.store_ok [OF st1(2,3,4)] st1(1,5) ptr_of_eq [OF x] show ?thesis by (auto simp: arc_store_def step)
qed

lemma exchange_op_ok:
  assumes st: "t < n \<and> good (snd st)" "prog_ok etoks R st" and en: "enabled (Op_exchange x l y) (sn, st)"
  shows "\<exists>st'. exec_prog M t (Op_exchange x l y) st = ret st' \<and> good (snd st') \<and> prog_ok etoks R st' \<and>
    gc_step (Op_exchange x l y) (\<lambda>l. loc_ptr l st) (fst st) (fst st')"
proof -
  from en obtain a b p where x: "place_get (Var x) st = Inr (M_rc a)" and l: "place_get l st = Inr (M_arc b)"
    and y: "place_get (Var y) st = Inr (M_rc p)" by (auto simp: typed_iff)
  then have ne: "l \<noteq> Var y" "l \<noteq> Var x" by auto
  with move_var [OF st y] l x obtain st1 where st1: "rc_move (Var y) st = ret (p, st1)" "t < n \<and> good (snd st1)"
    "prog_ok etoks (member_tokens (M_rc p) + R) st1" "place_get l st1 = Inr (M_arc b)" "\<exists>a. place_get (Var x) st1 = Inr (M_rc a)"
    "fst st1 = (fst st)[y := M_rc nullptr]"
    by (metis place.inject(1))
  from arc.exchange_ok [OF st1(2,3,4)] obtain st2 where st2: "place_put l (M_arc p) st1 = Inr st2" "t < n \<and> good (snd st2)"
    "prog_ok etoks (member_tokens (M_rc b) + R) st2" "fst st2 = put_vars l (M_arc p) (fst st1)" by blast
  from st1(5) obtain c where "place_get (Var x) st2 = Inr (M_rc c)" using place_get_put_other [OF st2(1)] ne(2) by metis
  from assign_rc [OF st2(2,3) this] st1(1,4,6) st2(1,4) ptr_of_eq [OF y] loc_ptr_eq [OF l] show ?thesis
    by (simp add: arc_exchange_def atomic_exchange_def atomic_load_def construct_eq ret_def [symmetric])
qed

lemma cas_ops_ok:
  assumes st: "t < n \<and> good (snd st)" "prog_ok etoks R st" and en: "enabled op (sn, st)"
    and op: "op = Op_cas l x y \<or> op = Op_cas_move l x y \<or> op = Op_aweak_cas l x y"
  shows "\<exists>st'. exec_prog M t op st = ret st' \<and> good (snd st') \<and> prog_ok etoks R st' \<and>
    gc_step op (\<lambda>l. loc_ptr l st) (fst st) (fst st')"
proof -
  obtain vs s where vs: "st = (vs, s)" by (cases st)
  have other: "k \<in># R + members_tokens (vs[l := m])" if "y < length vs" "y \<noteq> l" "k \<in># member_tokens (vs ! y)" for k m
    using that members_tokens_nth [of y "vs[l := m]" k] by simp
  from op show ?thesis
  proof (elim disjE)
    assume op: "op = Op_cas l x y"
    with en vs obtain cur e d where l: "l < length vs" "vs ! l = M_arc cur" and x: "place_get (Var x) (vs, s) = Inr (M_rc e)"
      and y: "y < length vs" "vs ! y = M_rc d" and rooms: "room_strong d st" "room_strong cur st"
      by (auto simp: typed_iff get_var_iff var_ptr_def simp del: place_get.simps)
    have ne: "y \<noteq> l" "Var x \<noteq> Var l" using l x y by (auto simp: get_var_iff)
    have "d \<noteq> nullptr \<Longrightarrow> (T_strong, d) \<in># R + members_tokens (vs[l := M_arc nullptr]) \<and> strong_room d s"
      using other [OF y(1) ne(1), of "(T_strong, d)"] y(2) roomD(1) [OF rooms(1)] vs by auto
    from compare_exchange_weak_ok [OF st(1) [unfolded vs snd_conv] st(2) [unfolded vs] l x ne(2) this roomD(1) [OF rooms(2), unfolded vs snd_conv]]
      vs op l y x show ?thesis by (auto simp: var_ptr_def ptr_of_def get_var_iff simp del: place_get.simps)
  next
    assume op: "op = Op_cas_move l x y"
    with en obtain cur e d where l: "place_get (Var l) st = Inr (M_arc cur)" and e: "place_get (Var x) st = Inr (M_rc e)" and y: "y < length (fst st)" "fst st ! y = M_rc d"
      by (auto simp: typed_iff get_var_iff simp del: place_get.simps)
    have "Var l \<noteq> Var y" using l y by (auto simp: get_var_iff)
    from arc.cas_move_ok [OF st l y this, of "var_ptr x st"] op e var_ptr_eq [OF e] l y show ?thesis
      by (auto simp: arc_cas_move_def step ptr_of_def get_var_iff simp del: place_get.simps)
  next
    assume op: "op = Op_aweak_cas l x y"
    with en vs obtain cur d where l: "l < length vs" "vs ! l = M_aweak cur" and x: "x < length vs"
      and y: "y < length vs" "vs ! y = M_weak d" and room: "room_weak d st"
      by (auto simp: typed_iff get_var_iff var_ptr_def simp del: place_get.simps)
    have ne: "y \<noteq> l" using l y by auto
    have "d \<noteq> nullptr \<Longrightarrow> (T_weak, d) \<in># R + members_tokens (vs[l := M_aweak nullptr]) \<and> weak_room d s"
      using other [OF y(1) ne, of "(T_weak, d)"] y(2) roomD(2) [OF room] vs by auto
    from aweak_cas_ok [OF st(1) [unfolded vs snd_conv] st(2) [unfolded vs] l this, of "var_ptr x st" False] vs op l y x show ?thesis
      by (auto simp: var_ptr_def ptr_of_def)
  qed
qed

lemma move_out_ok:
  assumes "t < n \<and> good (snd st)" "prog_ok etoks R st" and "list_all (\<lambda>y. typed is_rc (Var y) st) (ys @ zs)" and "distinct (ys @ zs)"
    and "typed is_rc (Var x) st"
  shows "\<exists>ps st1. move_out ys st = ret (ps, st1) \<and> (t < n \<and> good (snd st1)) \<and>
    prog_ok etoks (members_tokens (map M_rc ps) + R) st1 \<and> heap (snd st1) = heap (snd st) \<and>
    list_all (\<lambda>y. typed is_rc (Var y) st1) zs \<and> typed is_rc (Var x) st1 \<and> fst st1 = null_out ys (fst st)"
  using assms
proof (induction ys arbitrary: st R)
  case (Cons y ys)
  from Cons.prems(3) obtain p where "place_get (Var y) st = Inr (M_rc p)" by (auto simp: typed_iff)
  from move_var [OF Cons.prems(1,2) this] obtain st1 where st1: "rc_move (Var y) st = ret (p, st1)" "t < n \<and> good (snd st1)"
    "prog_ok etoks (member_tokens (M_rc p) + R) st1" "heap (snd st1) = heap (snd st)"
    "place_get (Var y) st1 = Inr (M_rc nullptr)" "\<forall>l. l \<noteq> Var y \<longrightarrow> place_get l st1 = place_get l st"
    "fst st1 = (fst st)[y := M_rc nullptr]" by blast
  have "typed is_rc (Var z) st1" if "typed is_rc (Var z) st" for z
    using st1(5,6) that by (cases "z = y") (auto simp: typed_iff)
  then have "list_all (\<lambda>y. typed is_rc (Var y) st1) (ys @ zs)" "typed is_rc (Var x) st1"
    using Cons.prems(3,5) by (auto simp: list_all_iff)
  from Cons.IH [OF st1(2,3) this(1) _ this(2)] Cons.prems(4) obtain ps st2 where
    "move_out ys st1 = ret (ps, st2)" "t < n \<and> good (snd st2)" "heap (snd st2) = heap (snd st1)"
    "prog_ok etoks (members_tokens (map M_rc ps) + (member_tokens (M_rc p) + R)) st2"
    "list_all (\<lambda>y. typed is_rc (Var y) st2) zs \<and> typed is_rc (Var x) st2" "fst st2 = null_out ys (fst st1)" by auto
  with st1(1,4,7) show ?case by (auto simp: ac_simps null_out_def intro!: exI [of _ "p # ps"] exI [of _ st2])
qed (simp add: null_out_def)

lemma make_op_ok:
  assumes st: "t < n \<and> good (snd st)" "prog_ok etoks R st" and en: "enabled (Op_make x p v ys zs) (sn, st)"
  shows "\<exists>st'. exec_prog M t (Op_make x p v ys zs) st = ret st' \<and> good (snd st') \<and> prog_ok etoks R st' \<and>
    gc_step (Op_make x p v ys zs) (\<lambda>l. loc_ptr l st) (fst st) (fst st')"
proof -
  from en have e: "list_all (\<lambda>y. typed is_rc (Var y) st) (ys @ zs)" "distinct (ys @ zs)" "typed is_rc (Var x) st"
    and p: "p \<noteq> nullptr" "fmlookup (heap (snd st)) p = None" by simp_all
  from move_out_ok [OF st e] obtain ps st1 where st1: "move_out ys st = ret (ps, st1)" "t < n \<and> good (snd st1)"
    "prog_ok etoks (members_tokens (map M_rc ps) + R) st1" "heap (snd st1) = heap (snd st)"
    "list_all (\<lambda>y. typed is_rc (Var y) st1) zs" "typed is_rc (Var x) st1" "fst st1 = null_out ys (fst st)" by blast
  from move_out_ok [OF st1(2,3), of zs "[]" x] st1(5,6) e(2) obtain qs st2 where
    st2: "move_out zs st1 = ret (qs, st2)" "t < n \<and> good (snd st2)" "heap (snd st2) = heap (snd st1)" "typed is_rc (Var x) st2"
    "prog_ok etoks (members_tokens (map M_rc qs) + (members_tokens (map M_rc ps) + R)) st2" "fst st2 = null_out zs (fst st1)" by auto
  let ?v = "\<lparr>payload = v, members = map M_rc ps @ map M_arc qs\<rparr>"
  have "members_tokens (map M_arc qs) = members_tokens (map M_rc qs)" by (induction qs) simp_all
  then have "prog_ok etoks (members_tokens (members ?v) + R) st2" using st2(5) by (simp add: ac_simps)
  from make_shared_ok [OF st2(2) this p(1)] p(2) st1(4) st2(3) obtain st3 where
    st3: "rc_make_shared M t p ?v st2 = ret (p, st3)" "fst st3 = fst st2" "t < n \<and> good (snd st3)"
      "prog_ok etoks (member_tokens (M_rc p) + R) st3" by auto
  from st2(4) same_vars [OF st3(2), of x] obtain a where "place_get (Var x) st3 = Inr (M_rc a)" by (auto simp: typed_iff)
  from assign_rc [OF st3(3,4) this] st1(1,7) st2(1,6) st3(1,2) show ?thesis by (simp add: null_out_def)
qed

lemma swap_op_ok:
  assumes st: "t < n \<and> good (snd st)" "prog_ok etoks R st" and en: "enabled (Op_swap x y) (sn, st)"
  shows "\<exists>st'. exec_prog M t (Op_swap x y) st = ret st' \<and> good (snd st') \<and> prog_ok etoks R st' \<and>
    gc_step (Op_swap x y) (\<lambda>l. loc_ptr l st) (fst st) (fst st')"
proof -
  obtain vs s where vs: "st = (vs, s)" by (cases st)
  from en vs obtain a b where x: "x < length vs" "vs ! x = M_rc a" and y: "y < length vs" "vs ! y = M_rc b"
    by (auto simp: typed_iff get_var_iff simp del: place_get.simps)
  have "exec_prog M t (Op_swap x y) st = ret (vs[x := vs ! y, y := vs ! x], s)"
    using vs x y by (simp add: rc_swap_def ptr_swap_def ret_def)
  moreover have "members_tokens ms = sum_mset (image_mset member_tokens (mset ms))" for ms
    by (induction ms) simp_all
  then have "members_tokens (vs[x := vs ! y, y := vs ! x]) = members_tokens vs"
    using mset_swap [of y vs x] x(1) y(1) by simp
  ultimately show ?thesis using st vs x y by (simp add: prog_ok_def ptr_of_def)
qed

lemma exec_prog_ok:
  assumes "t < n \<and> good (snd st)" "prog_ok etoks R st" and "enabled op (sn, st)"
  shows "\<exists>st'. exec_prog M t op st = ret st' \<and> good (snd st') \<and> prog_ok etoks R st' \<and>
    gc_step op (\<lambda>l. loc_ptr l st) (fst st) (fst st')"
proof (cases op)
  case Op_make then show ?thesis using make_op_ok assms by blast
next
  case Op_swap then show ?thesis using swap_op_ok assms by blast
next
  case Op_weak_from then show ?thesis using weak_from_ok assms by blast
next
  case Op_lock then show ?thesis using lock_op_ok assms by blast
next
  case Op_store_move then show ?thesis using store_move_ok assms by blast
next
  case Op_exchange then show ?thesis using exchange_op_ok assms by blast
qed (use rc_ops_ok [OF assms] weak_ops_ok [OF assms] load_ops_ok [OF assms] store_op_ok [OF assms] store_null_ok [OF assms]
  cas_ops_ok [OF assms] assms in \<open>auto\<close>)

text \<open>Every enabled operation of a client returns and keeps its accounts.\<close>

lemma exec_ok:
  assumes ok: "client_ok M etoks good c" and t: "t < n" and en: "enabled op c"
  shows "\<exists>c'. exec M t op c = ret c' \<and> client_ok M etoks good c' \<and>
    gc_step op (\<lambda>l. loc_ptr l (snd c)) (fst (snd c)) (fst (snd c'))"
proof -
  obtain sn st where c: "c = (sn, st)" by (cases c)
  let ?R = "snapshots_tokens M sn"
  have st: "t < n \<and> good (snd st)" "prog_ok etoks ?R st" using ok t c by (simp_all add: client_ok_def)
  consider (snap) i l where "op = Op_snapshot i l" | (drop) i where "op = Op_snapshot_clear i"
    | (prog) "exec M t op (sn, st) = rbind (exec_prog M t op st) (\<lambda>st1. ret (sn, st1))"
    by (cases op) auto
  then show ?thesis
  proof cases
    case snap
    with en c obtain p where l: "place_get l st = Inr (M_arc p)" "room_strong p st" and i: "i < length sn"
      by (auto simp: typed_iff loc_ptr_eq)
    from arc_get_snapshot_ok [OF st l(1) roomD(1) [OF l(2)]] obtain a st1 where
      st1: "arc_get_snapshot M t l st = ret (a, st1)" "t < n \<and> good (snd st1)" "prog_ok etoks (snapshot_tokens M a + ?R) st1"
        "fst st1 = fst st" by blast
    have "snapshot_tokens M a + ?R = snapshot_tokens M (sn ! i) + snapshots_tokens M (sn[i := a])"
      using snapshots_tokens_update [OF i, of M a] by (simp add: ac_simps)
    from snapshot_clear_ok [OF st1(2) st1(3) [unfolded this]] st1(1,4) snap c show ?thesis
      by (auto simp: snapshot_move_assign_def client_ok_def)
  next
    case drop
    with en c have i: "i < length sn" by simp
    have cancel: "snapshots_tokens M (sn[i := a]) + snapshot_tokens M (sn ! i) = ?R" if "mg_get M a = nullptr" for a
      using snapshots_tokens_update [OF i, of M a] that by (simp add: snapshot_tokens_def)
    define R' where "R' = snapshots_tokens M (sn[i := fst (mg_clear M (sn ! i) (snd st))])"
    have "?R = snapshot_tokens M (sn ! i) + R'"
      using cancel [OF clear(2)] by (simp add: R'_def ac_simps)
    from snapshot_clear_ok [OF st(1) st(2) [unfolded this]] obtain a st1 where
      st1: "snapshot_clear M t (sn ! i) st = ret (a, st1)" "mg_get M a = nullptr" "t < n \<and> good (snd st1)" "prog_ok etoks R' st1"
        "fst st1 = fst st" by blast
    have "snapshots_tokens M (sn[i := a]) = R'"
      using cancel [OF st1(2)] \<open>?R = _\<close> by (simp add: ac_simps)
    with st1 drop c show ?thesis by (simp add: client_ok_def)
  next
    case prog
    with exec_prog_ok [OF st en [unfolded c]] c show ?thesis by (auto simp: client_ok_def)
  qed
qed

text \<open>Storage is allocated exactly for the objects that somebody still refers to.\<close>

lemma allocated_iff_owned:
  assumes "client_ok M etoks good c"
  shows "fmlookup (heap (snd (snd c))) p \<noteq> None \<longleftrightarrow> (\<exists>k. (k, p) \<in># client_tokens M etoks c)"
proof
  let ?T = "client_tokens M etoks c"
  have inv: "mm_inv ?T (snd (snd c))" using assms by (simp add: client_ok_def prog_ok_def mm_ok_def client_tokens_def)
  show "\<exists>k. (k, p) \<in># ?T" if "fmlookup (heap (snd (snd c))) p \<noteq> None"
  proof (rule ccontr)
    assume "\<nexists>k. (k, p) \<in># ?T"
    then have "token_count ?T p = (\<lambda>_. 0)" by (simp add: fun_eq_iff token_count_def not_in_iff)
    with inv that show False by (auto simp: mm_inv_def object_ok_def weak_total_def dest!: spec [of _ p])
  qed
  show "fmlookup (heap (snd (snd c))) p \<noteq> None" if "\<exists>k. (k, p) \<in># ?T"
    using that mm_invD [OF inv, of p] by (auto simp: token_count_def)
qed

text \<open>An \<^verbatim>\<open>rc_ptr\<close> in a variable can be dereferenced, and its counts are the numbers of references.\<close>

lemma rc_var_valid:
  assumes ok: "client_ok M etoks good c" and x: "place_get (Var x) (snd c) = Inr (M_rc p)" "p \<noteq> nullptr"
  shows "\<exists>m. rc_deref p (snd c) = Inr m"
    and "rc_use_count p (snd c) = ret (of_nat (token_count (client_tokens M etoks c) p T_strong), snd c)"
    and "rc_weak_count p (snd c) = ret (of_nat (token_count (client_tokens M etoks c) p T_weak), snd c)"
proof -
  obtain sn vs s where c: "c = (sn, (vs, s))" by (metis prod.exhaust)
  let ?R = "snapshots_tokens M sn + members_tokens vs + etoks s"
  have mm: "mm_ok ?R s" using ok c by (simp add: client_ok_def prog_ok_def)
  have own: "(T_strong, p) \<in># ?R + heap_tokens s"
    using place_get_owner [OF x(1), of "(T_strong, p)" "snapshots_tokens M sn"] x(2) c by simp
  from token_object [OF mm own] own show "\<exists>m. rc_deref p (snd c) = Inr m"
    using c by (auto simp: rc_deref_def with_storage_def with_object_def object_ok_def token_count_def simp del: count_union split: option.splits)
  show "rc_use_count p (snd c) = ret (of_nat (token_count (client_tokens M etoks c) p T_strong), snd c)"
    using use_count_exact [OF mm own, of vs] c by (simp add: client_tokens_def)
  show "rc_weak_count p (snd c) = ret (of_nat (token_count (client_tokens M etoks c) p T_weak), snd c)"
    using weak_count_exact [OF mm own, of vs] c by (simp add: client_tokens_def)
qed

text \<open>\<^verbatim>\<open>lock\<close> of a \<^verbatim>\<open>weak_ptr\<close> in a variable: a strong reference exactly if one is left.\<close>

lemma lock_exact:
  assumes ok: "client_ok M etoks good c" "t < n" and w: "place_get (Var w) (snd c) = Inr (M_weak p)" "p \<noteq> nullptr" "strong_room p (snd (snd c))"
  shows "\<exists>st'. weak_lock p (snd c) = ret (if (T_strong, p) \<in># client_tokens M etoks c then p else nullptr, st')"
proof -
  let ?R = "snapshots_tokens M (fst c)"
  have st: "t < n \<and> good (snd (snd c))" "prog_ok etoks ?R (snd c)" using ok by (simp_all add: client_ok_def)
  have "(T_weak, p) \<in># ?R + members_tokens (fst (snd c)) + etoks (snd (snd c)) + heap_tokens (snd (snd c)) \<and> strong_room p (snd (snd c))"
    using place_get_owner [OF w(1), of "(T_weak, p)" ?R] w(2,3) by simp
  from lock_ok [OF st this] w(2) show ?thesis by (auto simp: client_tokens_def)
qed

lemma client_run_ok: "client_run M n c0 c \<Longrightarrow> client_ok M etoks good c0 \<Longrightarrow> client_ok M etoks good c"
proof (induction rule: client_run.induct)
  case (oper c t op c')
  with exec_ok [of c t op] show ?case by auto
qed

end

end
