(* ===== verification/Atomic_Stack.thy ===== *)
theory Atomic_Stack
  imports Client
begin

text \<open>
  \<^verbatim>\<open>examples/stack.h\<close>: a concurrent stack, a linked list of nodes with an atomic pointer to the first. A node is a managed object whose value is the
  element and whose only member is the \<^verbatim>\<open>rc_ptr\<close> \<^verbatim>\<open>next\<close>. The stack runs over any memory manager \<open>M\<close>.

  The local variables of the functions are variables of the program state: variable 0 is \<^verbatim>\<open>head\<close>; thread \<open>t\<close> has the \<^verbatim>\<open>rc_ptr\<close>s \<open>tmp_var t\<close>,
  for the result of \<^verbatim>\<open>head.load()\<close> before it becomes the member of a new node, and \<open>new_var t\<close> for \<^verbatim>\<open>new_node\<close>; its snapshot \<^verbatim>\<open>ss\<close> is
  the snapshot number \<open>t\<close>. Each function is cut after every operation on a smart pointer; what a thread does next is a value of \<open>stack_pc\<close>, and
  threads are interleaved between any two of these steps.
\<close>

section \<open>Results and places in the code\<close>

datatype 'v stack_result = R_void | R_value "'v option" | R_found bool

datatype 'v stack_call = Push_front 'v | Pop_front | Front | Find 'v

datatype 'v stack_pc =
    Push_load 'v
  | Push_make 'v
  | Push_cas
  | Push_end
  | Pop_snapshot
  | Pop_loop
  | Front_snapshot
  | Read_front
  | Find_snapshot 'v
  | Find_loop 'v ptr
  | Snapshot_end "'v stack_result"
  | Return "'v stack_result"
  | Idle

datatype 'v stack_event = Invoke tid "'v stack_call" | Response tid "'v stack_result"

fun stack_entry :: "'v stack_call \<Rightarrow> 'v stack_pc" where
  "stack_entry (Push_front v) = Push_load v"
| "stack_entry Pop_front = Pop_snapshot"
| "stack_entry Front = Front_snapshot"
| "stack_entry (Find v) = Find_snapshot v"

definition tmp_var :: "tid \<Rightarrow> nat" where "tmp_var t = 1 + 2 * t"

definition new_var :: "tid \<Rightarrow> nat" where "new_var t = 2 + 2 * t"

type_synonym ('a, 'v, 'x, 'e) stack_client = "('a, ('v, 'x, 'e) mm_state) client"

type_synonym ('a, 'v, 'x, 'e) stack_res = "('v stack_pc \<times> ('a, 'v, 'x, 'e) stack_client) res"

section \<open>push_front\<close>

text \<open>\<^verbatim>\<open>make_rc<Node>(t, head.load())\<close>: the load, then the allocation, which moves the loaded pointer into the node.\<close>

definition push_front_load :: "('c, 'a, 'v, 'x, 'e) backend \<Rightarrow> tid \<Rightarrow> 'v \<Rightarrow> ('a, 'v, 'x, 'e) stack_client \<Rightarrow> ('a, 'v, 'x, 'e) stack_res" where
  "push_front_load M t v c = rbind (exec M t (Op_load (tmp_var t) (Var 0)) c) (\<lambda>c1. ret (Push_make v, c1))"

definition push_front_make :: "('c, 'a, 'v, 'x, 'e) backend \<Rightarrow> tid \<Rightarrow> ptr \<Rightarrow> 'v \<Rightarrow> ('a, 'v, 'x, 'e) stack_client \<Rightarrow> ('a, 'v, 'x, 'e) stack_res" where
  "push_front_make M t q v c = rbind (exec M t (Op_make (new_var t) q v [tmp_var t] []) c) (\<lambda>c1. ret (Push_cas, c1))"

text \<open>One round of the loop, \<^verbatim>\<open>head.compare_exchange_weak(new_node->next, new_node)\<close>; when it succeeds \<^verbatim>\<open>new_node\<close> goes out of scope.\<close>

definition push_front_cas :: "('c, 'a, 'v, 'x, 'e) backend \<Rightarrow> tid \<Rightarrow> ('a, 'v, 'x, 'e) stack_client \<Rightarrow> ('a, 'v, 'x, 'e) stack_res" where
  "push_front_cas M t c =
     (let new_node = var_ptr (new_var t) (snd c) in
      rbind (arc_compare_exchange_weak M t (Var 0) (Field new_node 0) new_node (snd c)) (\<lambda>(success, st1).
      ret (if success then Push_end else Push_cas, (fst c, st1))))"

definition push_front_end :: "('c, 'a, 'v, 'x, 'e) backend \<Rightarrow> tid \<Rightarrow> ('a, 'v, 'x, 'e) stack_client \<Rightarrow> ('a, 'v, 'x, 'e) stack_res" where
  "push_front_end M t c = rbind (exec M t (Op_clear (new_var t)) c) (\<lambda>c1. ret (Return R_void, c1))"

section \<open>pop_front, front and find\<close>

text \<open>\<^verbatim>\<open>auto ss = head.get_snapshot()\<close>; \<open>next\<close> is where the function goes on.\<close>

definition stack_snapshot :: "('c, 'a, 'v, 'x, 'e) backend \<Rightarrow> tid \<Rightarrow> ('a \<Rightarrow> 'v stack_pc) \<Rightarrow> ('a, 'v, 'x, 'e) stack_client \<Rightarrow> ('a, 'v, 'x, 'e) stack_res" where
  "stack_snapshot M t next c =
     rbind (exec M t (Op_snapshot t (Var 0)) c) (\<lambda>c1. ret (next (fst c1 ! t), c1))"

text \<open>One round of \<^verbatim>\<open>while (ss && !head.compare_exchange_weak(ss, ss->next))\<close>.\<close>

definition pop_front_loop :: "('c, 'a, 'v, 'x, 'e) backend \<Rightarrow> tid \<Rightarrow> ('a, 'v, 'x, 'e) stack_client \<Rightarrow> ('a, 'v, 'x, 'e) stack_res" where
  "pop_front_loop M t c =
     (let ss = fst c ! t in
      if mg_get M ss = nullptr then ret (Read_front, c)
      else rbind (Some (place_get (Field (mg_get M ss) 0) (snd c))) (\<lambda>next.
        rbind (arc_compare_exchange_weak_snapshot M t (Var 0) ss (member_ptr next) (snd c)) (\<lambda>(success, ss', st1).
        ret (if success then Read_front else Pop_loop, ((fst c)[t := ss'], st1)))))"

text \<open>\<^verbatim>\<open>if (ss) return {ss->t}; else return {};\<close>\<close>

definition read_front :: "('c, 'a, 'v, 'x, 'e) backend \<Rightarrow> tid \<Rightarrow> ('a, 'v, 'x, 'e) stack_client \<Rightarrow> ('a, 'v, 'x, 'e) stack_res" where
  "read_front M t c =
     (if mg_get M (fst c ! t) = nullptr then ret (Snapshot_end (R_value None), c)
      else rbind (Some (snapshot_deref M (fst c ! t) (snd c))) (\<lambda>m. ret (Snapshot_end (R_value (Some (payload m))), c)))"

text \<open>One round of \<^verbatim>\<open>while (node && node->t != t) node = node->next.get();\<close> with \<^verbatim>\<open>node\<close> a plain pointer.\<close>

definition find_loop :: "'v \<Rightarrow> ptr \<Rightarrow> ('a, 'v, 'x, 'e) stack_client \<Rightarrow> ('a, 'v, 'x, 'e) stack_res" where
  "find_loop v node c =
     (if node = nullptr then ret (Snapshot_end (R_found False), c)
      else rbind (Some (rc_deref node (snd c))) (\<lambda>m.
        if payload m = v then ret (Snapshot_end (R_found True), c)
        else rbind (Some (place_get (Field node 0) (snd c))) (\<lambda>next. ret (Find_loop v (member_ptr next), c))))"

text \<open>The end of the scope of \<^verbatim>\<open>ss\<close>.\<close>

definition snapshot_end :: "('c, 'a, 'v, 'x, 'e) backend \<Rightarrow> tid \<Rightarrow> 'v stack_result \<Rightarrow> ('a, 'v, 'x, 'e) stack_client \<Rightarrow> ('a, 'v, 'x, 'e) stack_res" where
  "snapshot_end M t r c =
     rbind (snapshot_dtor M t (fst c ! t) (snd c)) (\<lambda>st1. ret (Return r, ((fst c)[t := snapshot_empty M], st1)))"

section \<open>Threads\<close>

text \<open>What thread \<open>t\<close> does at a place in the code; \<open>q\<close> is the address the allocator gives out for a new node.\<close>

fun stack_step :: "('c, 'a, 'v, 'x, 'e) backend \<Rightarrow> tid \<Rightarrow> ptr \<Rightarrow> 'v stack_pc \<Rightarrow> ('a, 'v, 'x, 'e) stack_client \<Rightarrow> ('a, 'v, 'x, 'e) stack_res" where
  "stack_step M t q (Push_load v) c = push_front_load M t v c"
| "stack_step M t q (Push_make v) c = push_front_make M t q v c"
| "stack_step M t q Push_cas c = push_front_cas M t c"
| "stack_step M t q Push_end c = push_front_end M t c"
| "stack_step M t q Pop_snapshot c = stack_snapshot M t (\<lambda>ss. Pop_loop) c"
| "stack_step M t q Pop_loop c = pop_front_loop M t c"
| "stack_step M t q Front_snapshot c = stack_snapshot M t (\<lambda>ss. Read_front) c"
| "stack_step M t q Read_front c = read_front M t c"
| "stack_step M t q (Find_snapshot v) c = stack_snapshot M t (\<lambda>ss. Find_loop v (mg_get M ss)) c"
| "stack_step M t q (Find_loop v node) c = find_loop v node c"
| "stack_step M t q (Snapshot_end r) c = snapshot_end M t r c"
| "stack_step M t q (Return r) c = ret (Return r, c)"
| "stack_step M t q Idle c = ret (Idle, c)"

text \<open>The allocator gives out addresses that are not in use, and no count is at its limit.\<close>

definition stack_enabled :: "ptr \<Rightarrow> ('a, 'v, 'x, 'e) stack_client \<Rightarrow> bool" where
  "stack_enabled q c \<longleftrightarrow> q \<noteq> nullptr \<and> fmlookup (heap (snd (snd c))) q = None \<and>
     (\<forall>p\<in>fset (fmdom (heap (snd (snd c)))). strong_room p (snd (snd c)))"

text \<open>The variables of the stack and of \<open>n\<close> threads, before anything happens.\<close>

definition stack_init :: "('c, 'a, 'v, 's) memory_manager \<Rightarrow> nat \<Rightarrow> 's \<Rightarrow> ('a, 's) client" where
  "stack_init M n s = (replicate n (mg_reserve_nothing M), (M_arc nullptr # replicate (2 * n) (M_rc nullptr), s))"

text \<open>The runs of \<open>n\<close> threads, with the history of their calls and results.\<close>

inductive stack_run :: "('c, 'a, 'v, 'x, 'e) backend \<Rightarrow> nat \<Rightarrow> ('v, 'x, 'e) mm_state \<Rightarrow>
    'v stack_event list \<Rightarrow> (tid \<Rightarrow> 'v stack_pc) \<Rightarrow> ('a, 'v, 'x, 'e) stack_client \<Rightarrow> bool" for M n s0 where
  start: "stack_run M n s0 [] (\<lambda>_. Idle) (stack_init M n s0)"
| call: "stack_run M n s0 h ps c \<Longrightarrow> t < n \<Longrightarrow> ps t = Idle \<Longrightarrow> stack_run M n s0 (h @ [Invoke t op]) (ps(t := stack_entry op)) c"
| step: "stack_run M n s0 h ps c \<Longrightarrow> t < n \<Longrightarrow> stack_enabled q c \<Longrightarrow> stack_step M t q (ps t) c = ret (pc', c') \<Longrightarrow>
    stack_run M n s0 h (ps(t := pc')) c'"
| response: "stack_run M n s0 h ps c \<Longrightarrow> t < n \<Longrightarrow> ps t = Return r \<Longrightarrow> stack_run M n s0 (h @ [Response t r]) (ps(t := Idle)) c"

text \<open>A schedule, carried out: calls, steps with the address of the allocator, responses.\<close>

datatype 'v stack_action = Act_call tid "'v stack_call" | Act_step tid ptr | Act_response tid

fun stack_exec :: "('c, 'a, 'v, 'x, 'e) backend \<Rightarrow> nat \<Rightarrow> 'v stack_action list \<Rightarrow>
    'v stack_event list \<times> (tid \<Rightarrow> 'v stack_pc) \<times> ('a, 'v, 'x, 'e) stack_client \<Rightarrow>
    ('v stack_event list \<times> (tid \<Rightarrow> 'v stack_pc) \<times> ('a, 'v, 'x, 'e) stack_client) res" where
  "stack_exec M n [] w = ret w"
| "stack_exec M n (Act_call t op # acts) (h, ps, c) =
     (if t < n \<and> ps t = Idle then stack_exec M n acts (h @ [Invoke t op], ps(t := stack_entry op), c) else None)"
| "stack_exec M n (Act_step t q # acts) (h, ps, c) =
     (if t < n \<and> stack_enabled q c
      then rbind (stack_step M t q (ps t) c) (\<lambda>(pc', c'). stack_exec M n acts (h, ps(t := pc'), c')) else None)"
| "stack_exec M n (Act_response t # acts) (h, ps, c) =
     (case ps t of Return r \<Rightarrow> if t < n then stack_exec M n acts (h @ [Response t r], ps(t := Idle), c) else None | _ \<Rightarrow> None)"

lemma stack_exec_run:
  assumes "stack_exec M n acts (h, ps, c) = ret (h', ps', c')" and "stack_run M n s0 h ps c"
  shows "stack_run M n s0 h' ps' c'"
  using assms
proof (induction acts arbitrary: h ps c)
  case (Cons act acts)
  show ?case
  proof (cases act)
    case (Act_call t op)
    with Cons.prems(1) have 1: "t < n" "ps t = Idle" "stack_exec M n acts (h @ [Invoke t op], ps(t := stack_entry op), c) = ret (h', ps', c')"
      by (auto simp: ret_def split: if_splits)
    from Cons.IH [OF 1(3) stack_run.call [OF Cons.prems(2) 1(1,2)]] show ?thesis .
  next
    case (Act_step t q)
    with Cons.prems(1) obtain pc1 c1 where 1: "t < n" "stack_enabled q c" "stack_step M t q (ps t) c = ret (pc1, c1)"
        "stack_exec M n acts (h, ps(t := pc1), c1) = ret (h', ps', c')"
      by (auto simp: rbind_eq_ret None_ret split: if_splits)
    from Cons.IH [OF 1(4) stack_run.step [OF Cons.prems(2) 1(1-3)]] show ?thesis .
  next
    case (Act_response t)
    with Cons.prems(1) obtain r where 1: "t < n" "ps t = Return r" "stack_exec M n acts (h @ [Response t r], ps(t := Idle), c) = ret (h', ps', c')"
      by (auto simp: ret_def split: stack_pc.splits if_splits)
    from Cons.IH [OF 1(3) stack_run.response [OF Cons.prems(2) 1(1,2)]] show ?thesis .
  qed
qed simp

section \<open>The abstract stack\<close>

text \<open>What an operation means, done at once.\<close>

fun stack_apply :: "'v stack_call \<Rightarrow> 'v list \<Rightarrow> 'v list \<times> 'v stack_result" where
  "stack_apply (Push_front v) xs = (v # xs, R_void)"
| "stack_apply Pop_front xs = (case xs of [] \<Rightarrow> ([], R_value None) | x # ys \<Rightarrow> (ys, R_value (Some x)))"
| "stack_apply Front xs = (xs, R_value (case xs of [] \<Rightarrow> None | x # ys \<Rightarrow> Some x))"
| "stack_apply (Find v) xs = (xs, R_found (v \<in> set xs))"

text \<open>
  The atomic stack: between its call and its response an operation has its effect at one moment. A history is linearizable if the atomic stack
  has it.
\<close>

datatype 'v abs_pc = A_idle | Pending "'v stack_call" | Done "'v stack_result"

inductive atomic_stack :: "nat \<Rightarrow> 'v stack_event list \<Rightarrow> (tid \<Rightarrow> 'v abs_pc) \<Rightarrow> 'v list \<Rightarrow> bool" for n where
  start: "atomic_stack n [] (\<lambda>_. A_idle) []"
| call: "atomic_stack n h ap xs \<Longrightarrow> t < n \<Longrightarrow> ap t = A_idle \<Longrightarrow> atomic_stack n (h @ [Invoke t op]) (ap(t := Pending op)) xs"
| effect: "atomic_stack n h ap xs \<Longrightarrow> t < n \<Longrightarrow> ap t = Pending op \<Longrightarrow> stack_apply op xs = (ys, r) \<Longrightarrow>
    atomic_stack n h (ap(t := Done r)) ys"
| response: "atomic_stack n h ap xs \<Longrightarrow> t < n \<Longrightarrow> ap t = Done r \<Longrightarrow> atomic_stack n (h @ [Response t r]) (ap(t := A_idle)) xs"

end
