(* ===== verification/Protection.thy ===== *)
theory Protection
  imports Call_Machine
begin

text \<open>
  Why a scheme protects its readers, in one place for all schemes. An atomic pointer never
  gives up its reference at once: it is retired. While a reader is announced (by a slot, an epoch, an
  interval), the scheme holds back at least one of these references for each pointer
  the reader may have read. The locale \<open>protecting_scheme\<close> states this of the single calls of a scheme and
  concludes it for whole runs.
\<close>

section \<open>References held by atomic members\<close>

definition object_holds :: "ptr \<Rightarrow> ('v, 'x) counted_object_scheme \<Rightarrow> bool" where
  "object_holds p ob \<longleftrightarrow> (case storage ob of None \<Rightarrow> False | Some m \<Rightarrow> M_arc p \<in> set (members m))"

definition heap_holds :: "ptr \<Rightarrow> (('v, 'x) counted_object_scheme, 'e) mm_scheme \<Rightarrow> bool" where
  "heap_holds p s \<longleftrightarrow> (\<exists>q ob. fmlookup (heap s) q = Some ob \<and> object_holds p ob)"

lemma heap_holds_put:
  assumes "fmlookup (heap s) q = Some ob" and "heap_holds p s" and "object_holds p ob \<Longrightarrow> object_holds p ob'"
  shows "heap_holds p (put_object q ob' s)"
proof -
  from assms(2) obtain q1 ob1 where q1: "fmlookup (heap s) q1 = Some ob1" "object_holds p ob1"
    by (auto simp: heap_holds_def)
  then show ?thesis
    using assms(1,3) by (cases "q1 = q") (auto simp: heap_holds_def put_object_def intro!: exI [of _ q1])
qed

lemma object_holds_storage: "storage ob' = storage ob \<Longrightarrow> object_holds p ob' = object_holds p ob"
  by (simp add: object_holds_def)

lemma dispose_holds:
  assumes "fmlookup (heap s) q = Some ob" "storage ob1 = storage ob" "dispose_begin ob1 = Some (ms, ob2)"
    "heap_holds p s" "p \<noteq> nullptr"
  shows "heap_holds p (put_object q ob2 s) \<or> C_delayed_decrement_ref_cnt p \<in> set (members_dtor ms)"
proof (cases "object_holds p ob")
  case True
  with assms(2,3) have "M_arc p \<in> set ms"
    by (auto simp: object_holds_def dispose_begin_def split: option.splits)
  with assms(5) show ?thesis by (force simp: members_dtor_def)
next
  case False
  with heap_holds_put [OF assms(1,4)] show ?thesis by blast
qed

text \<open>A call of the base class passes the reference of a destroyed location on to the list.\<close>

lemma mm_step_holds:
  assumes step: "mm_step retire' derived t c s = Inr (new, s')" and p: "heap_holds p s" "p \<noteq> nullptr"
    and "\<And>p type. c \<noteq> C_retire p type" "\<And>d. c \<noteq> C_derived d"
    and gone: "\<And>q ob. c = C_destroy q \<Longrightarrow> fmlookup (heap s) q = Some ob \<Longrightarrow> storage ob = None"
  shows "heap_holds p s' \<or> C_delayed_decrement_ref_cnt p \<in> set new"
proof -
  have keep: "fmlookup (heap s) q = Some ob \<Longrightarrow> storage ob' = storage ob \<Longrightarrow> heap_holds p (put_object q ob' s)" for q ob ob'
    by (rule heap_holds_put [OF _ p(1)]) (simp_all add: object_holds_def)
  show ?thesis
  proof (cases c)
    case (C_eject q type)
    with step p show ?thesis by (auto simp: mm_eject_def split: if_splits)
  next
    case (C_decrement_ref_cnt q)
    with step obtain ob where ob: "fmlookup (heap s) q = Some ob"
      by (auto simp: decrement_ref_cnt_def with_object_Inr split: if_splits)
    obtain n ob1 r ob2 where ob2: "get_use_count ob = (n, ob1)" "release_refs 1 ob1 = (r, ob2)"
      by (metis surj_pair)
    have "storage ob2 = storage ob" using ob2 by simp
    with step C_decrement_ref_cnt ob ob2 keep [OF ob] dispose_holds [OF ob, of ob2 _ _ p] p show ?thesis
      by (fastforce simp: decrement_ref_cnt_def with_object_def split: if_splits EjectAction.splits option.splits)
  next
    case (C_dispose q)
    with step obtain ob where ob: "fmlookup (heap s) q = Some ob"
      by (auto simp: mm_dispose_def with_object_Inr split: if_splits)
    obtain n ob1 where ob1: "get_use_count ob = (n, ob1)" by (metis surj_pair)
    then have "storage ob1 = storage ob" by simp
    with step C_dispose ob ob1 dispose_holds [OF ob, of ob1 _ _ p] p show ?thesis
      by (fastforce simp: mm_dispose_def with_object_def split: if_splits option.splits)
  next
    case (C_destroy q)
    with step obtain ob where ob: "fmlookup (heap s) q = Some ob" "s' = delete_object t q s"
      by (auto simp: mm_destroy_def with_object_Inr case_prod_beta Let_def split: if_splits)
    with gone [OF C_destroy] p show ?thesis
      by (auto simp: heap_holds_def delete_object_def decrement_allocations_def object_holds_def)
  qed (use assms keep in \<open>auto simp: decrement_weak_cnt_def delayed_decrement_ref_cnt_def
      delayed_decrement_weak_cnt_def mm_dispose_end_def release_end_def with_object_Inr
      case_prod_beta Let_def split: if_splits\<close>)
qed

lemma token_count_pos: "0 < token_count T p k \<longleftrightarrow> (k, p) \<in># T"
  by (simp add: token_count_def)

lemma in_sum_tokens: "(\<exists>i<n. x \<in># f i) \<longleftrightarrow> x \<in># (\<Sum>i<(n::nat). f i)"
  by (induction n) (auto simp: less_Suc_eq)

lemma heap_holds_token:
  assumes "heap_holds p s" "p \<noteq> nullptr"
  shows "(T_strong, p) \<in># heap_tokens s"
proof -
  from assms(1) obtain q ob m where ob: "fmlookup (heap s) q = Some ob" "storage ob = Some m" "M_arc p \<in> set (members m)"
    by (auto simp: heap_holds_def object_holds_def split: option.splits)
  have "(T_strong, p) \<in># members_tokens ms" if "M_arc p \<in> set ms" for ms
    using that assms(2) by (induction ms) (auto simp: members_tokens_def)
  with ob have "(T_strong, p) \<in># object_tokens ob" by (simp add: object_tokens_def)
  with fmsum_split [OF ob(1), of object_tokens] show ?thesis by (simp add: heap_tokens_def)
qed

lemma object_ok_strong:
  "object_ok ob c \<Longrightarrow> 0 < c T_strong \<Longrightarrow> strong_rep ob (c T_strong) \<and> storage ob \<noteq> None"
  by (simp add: object_ok_def)

lemma strong_token_alive:
  assumes "mm_ok R s" and "(T_strong, p) \<in># R + heap_tokens s"
  shows "\<exists>ob n. fmlookup (heap s) p = Some ob \<and> storage ob \<noteq> None \<and> get_use_count ob = (n, ob) \<and> n \<noteq> 0"
proof -
  let ?c = "token_count (R + heap_tokens s) p"
  have pos: "0 < ?c T_strong" using assms(2) by (simp only: token_count_pos)
  from mm_invD [OF assms(1) [unfolded mm_ok_def] pos] obtain ob
    where ob: "fmlookup (heap s) p = Some ob" "object_ok ob ?c" by blast
  define n where "n = ?c T_strong"
  from object_ok_strong [OF ob(2) pos] have "strong_rep ob n" "storage ob \<noteq> None"
    unfolding n_def by blast+
  moreover from this(1) have "get_use_count ob = (of_nat n, ob)" by (rule get_use_count_rep)
  moreover from pos have "0 < n" by (simp only: n_def)
  then have "(of_nat n :: u32) \<noteq> 0" using count_zero_iff(1) [OF \<open>strong_rep ob n\<close>] by simp
  ultimately show ?thesis using ob(1) by blast
qed

text \<open>No call of the base class touches the state of the scheme.\<close>

lemma mm_step_more:
  assumes "mm_step retire derived t c s = Inr (new, s')"
    and "\<And>p type. c \<noteq> C_retire p type" "\<And>d. c \<noteq> C_derived d"
  shows "mm.more s' = mm.more s"
  using assms by (cases c)
    (auto simp: mm_eject_def decrement_ref_cnt_def decrement_weak_cnt_def delayed_decrement_ref_cnt_def delayed_decrement_weak_cnt_def
      mm_dispose_def mm_dispose_end_def release_end_def mm_destroy_def delete_object_def decrement_allocations_def with_object_Inr put_object_def
      case_prod_beta Let_def split: if_splits option.splits EjectAction.splits)

section \<open>Guards\<close>

text \<open>
  A pointer is guarded if an atomic location holds it, or a reference that a location gave up is on its
  way to the scheme, or the scheme holds it back for the reader: in its lists (\<open>eg\<close>) or in its calls (\<open>dg\<close>).
\<close>

fun call_guards :: "('c \<Rightarrow> bool) \<Rightarrow> ptr \<Rightarrow> 'c mm_call \<Rightarrow> bool" where
  "call_guards dg p (C_delayed_decrement_ref_cnt q) \<longleftrightarrow> q = p"
| "call_guards dg p (C_retire q type) \<longleftrightarrow> q = p \<and> type = RT_decrement_strong_count"
| "call_guards dg p (C_derived d) \<longleftrightarrow> dg d"
| "call_guards dg p _ \<longleftrightarrow> False"

definition guarded :: "('c \<Rightarrow> bool) \<Rightarrow> ((('v, 'x) counted_object_scheme, 'e) mm_scheme \<Rightarrow> bool) \<Rightarrow> ptr \<Rightarrow>
    'c mm_call list \<Rightarrow> (('v, 'x) counted_object_scheme, 'e) mm_scheme \<Rightarrow> bool" where
  "guarded dg eg p cs s \<longleftrightarrow> heap_holds p s \<or> eg s \<or> (\<exists>c\<in>set cs. call_guards dg p c)"

locale protecting_scheme = reclamation_scheme retire derived ctoks cweight clen etoks eweight elen ok
  for retire :: "((('v, 'x) counted_object_scheme, 'e) mm_scheme, 'c) retire_fn"
    and derived :: "((('v, 'x) counted_object_scheme, 'e) mm_scheme, 'c) derived_fn"
    and ctoks cweight clen etoks eweight elen ok +
  fixes dg :: "'k \<Rightarrow> ptr \<Rightarrow> 'c \<Rightarrow> bool" and eg :: "'k \<Rightarrow> ptr \<Rightarrow> (('v, 'x) counted_object_scheme, 'e) mm_scheme \<Rightarrow> bool"
    and reader :: "'k \<Rightarrow> ptr \<Rightarrow> (('v, 'x) counted_object_scheme, 'e) mm_scheme \<Rightarrow> bool" and closing :: "'c \<Rightarrow> bool"
  assumes ext_guards: "mm.more s' = mm.more s \<Longrightarrow> stamps_le s' s \<Longrightarrow>
      (eg k p s \<longrightarrow> eg k p s') \<and> (reader k p s \<longrightarrow> reader k p s')"
    and retire_guards: "ok t s \<Longrightarrow> reader k p s \<Longrightarrow> p \<noteq> nullptr \<Longrightarrow> retire t q type s = Inr (new, s') \<Longrightarrow>
      reader k p s' \<and>
      (eg k p s \<or> q = p \<and> type = RT_decrement_strong_count \<longrightarrow> eg k p s' \<or> (\<exists>d. C_derived d \<in> set new \<and> dg k p d)) \<and>
      (\<forall>d. C_derived d \<in> set new \<longrightarrow> \<not> closing d)"
    and derived_guards: "ok t s \<Longrightarrow> reader k p s \<Longrightarrow> p \<noteq> nullptr \<Longrightarrow> \<not> closing d \<Longrightarrow> derived t d s = Inr (new, s') \<Longrightarrow>
      reader k p s' \<and>
      (eg k p s \<or> dg k p d \<longrightarrow> eg k p s' \<or> (\<exists>d'. C_derived d' \<in> set new \<and> dg k p d')) \<and>
      (\<forall>d'. C_derived d' \<in> set new \<longrightarrow> \<not> closing d')"
    and dg_token: "dg k p d \<Longrightarrow> (T_strong, p) \<in># ctoks d"
    and eg_token: "eg k p s \<Longrightarrow> (T_strong, p) \<in># etoks s"
begin

lemma destroy_gone:
  assumes "mm_ok (R + calls_tokens ctoks (C_destroy q # cs) + etoks s) s" and "fmlookup (heap s) q = Some ob"
  shows "storage ob = None"
proof -
  have "mm_ok (add_mset (T_destroy, q) (R + calls_tokens ctoks cs + etoks s)) s"
    using assms(1) by (simp add: ac_simps)
  with assms(2) show ?thesis
    by (auto elim!: mm_ok_object simp: object_ok_def split: if_splits)
qed

lemma step_guarded_core:
  assumes ok: "ok t s" and step: "mm_step retire derived t c s = Inr (new, s')"
    and k: "reader k p s" "p \<noteq> nullptr" and g: "guarded (dg k p) (eg k p) p (c # cs) s"
    and nc: "\<forall>d. C_derived d \<in> set (c # cs) \<longrightarrow> \<not> closing d"
    and retire_heap: "\<And>q type. c = C_retire q type \<Longrightarrow> heap s' = heap s"
    and gone: "\<And>q ob. c = C_destroy q \<Longrightarrow> fmlookup (heap s) q = Some ob \<Longrightarrow> storage ob = None"
  shows "reader k p s' \<and> guarded (dg k p) (eg k p) p (new @ cs) s' \<and>
    (\<forall>d. C_derived d \<in> set (new @ cs) \<longrightarrow> \<not> closing d)"
proof -
  have keep: "guarded (dg k p) (eg k p) p (new @ cs) s'"
    if "heap_holds p s \<Longrightarrow> heap_holds p s' \<or> (\<exists>c\<in>set new. call_guards (dg k p) p c)"
      "eg k p s \<Longrightarrow> eg k p s' \<or> (\<exists>c\<in>set new. call_guards (dg k p) p c)"
      "call_guards (dg k p) p c \<Longrightarrow> eg k p s' \<or> (\<exists>c\<in>set new. call_guards (dg k p) p c)"
    using g that unfolding guarded_def by auto
  consider (retire) q type where "c = C_retire q type" | (derived) d where "c = C_derived d"
    | (base) "\<And>p type. c \<noteq> C_retire p type" "\<And>d. c \<noteq> C_derived d"
    by blast
  then show ?thesis
  proof cases
    case retire
    then have r: "retire t q type s = Inr (new, s')" using step by simp
    from retire_heap [OF retire] have "heap_holds p s \<Longrightarrow> heap_holds p s'" by (simp add: heap_holds_def)
    with retire_guards [OF ok k r] retire nc show ?thesis by (force intro!: keep)
  next
    case derived
    then have r: "derived t d s = Inr (new, s')" "\<not> closing d" using step nc by simp_all
    have "heap s' = heap s" using derived_progress [OF ok, of d] r(1) by (auto simp: scheme_progress_def)
    then have "heap_holds p s \<Longrightarrow> heap_holds p s'" by (simp add: heap_holds_def)
    with derived_guards [OF ok k r(2,1)] derived nc show ?thesis by (force intro!: keep)
  next
    case base
    note ext = ext_guards [OF mm_step_more [OF step base] mm_step_stamps [OF step base]]
    have "heap_holds p s \<Longrightarrow> heap_holds p s' \<or> C_delayed_decrement_ref_cnt p \<in> set new"
      by (rule mm_step_holds [OF step _ k(2) base gone])
    moreover have "call_guards (dg k p) p c \<Longrightarrow> C_retire p RT_decrement_strong_count \<in> set new"
      using base step by (cases c) (auto simp: delayed_decrement_ref_cnt_def with_object_Inr
          case_prod_beta Let_def split: if_splits)
    ultimately have "guarded (dg k p) (eg k p) p (new @ cs) s'"
      using ext by (intro keep) (force+)
    then show ?thesis
      using ext k(1) nc mm_step_base [OF step base] by auto
  qed
qed

lemma step_guarded:
  assumes ok: "ok t s" and mm: "mm_ok (R + calls_tokens ctoks (c # cs) + etoks s) s"
    and step: "mm_step retire derived t c s = Inr (new, s')"
    and k: "reader k p s" "p \<noteq> nullptr" and g: "guarded (dg k p) (eg k p) p (c # cs) s"
    and nc: "\<forall>d. C_derived d \<in> set (c # cs) \<longrightarrow> \<not> closing d"
  shows "reader k p s' \<and> guarded (dg k p) (eg k p) p (new @ cs) s' \<and>
    (\<forall>d. C_derived d \<in> set (new @ cs) \<longrightarrow> \<not> closing d)"
proof (rule step_guarded_core [OF ok step k g nc])
  fix q type assume c: "c = C_retire q type"
  then obtain ob where "fmlookup (heap s) q = Some ob" using retire_object mm by blast
  then show "heap s' = heap s" using retire_progress [OF ok, of q ob type] step c by (auto simp: scheme_progress_def)
next
  fix q ob assume "c = C_destroy q" "fmlookup (heap s) q = Some ob"
  then show "storage ob = None" using destroy_gone mm by blast
qed

lemma guarded_alive:
  assumes "mm_ok (R + calls_tokens ctoks cs + etoks s) s" "guarded (dg k p) (eg k p) p cs s" "p \<noteq> nullptr"
  shows "\<exists>ob n. fmlookup (heap s) p = Some ob \<and> storage ob \<noteq> None \<and> get_use_count ob = (n, ob) \<and> n \<noteq> 0"
proof -
  consider "heap_holds p s" | "eg k p s" | c where "c \<in> set cs" "call_guards (dg k p) p c"
    using assms(2) by (auto simp: guarded_def)
  then have "(T_strong, p) \<in># R + calls_tokens ctoks cs + etoks s + heap_tokens s"
  proof cases
    case 1 with assms(3) show ?thesis by (simp add: heap_holds_token)
  next
    case 2 then show ?thesis by (simp add: eg_token)
  next
    case 3
    from 3(2) have "(T_strong, p) \<in># call_tokens ctoks c" by (cases c) (auto simp: dg_token)
    with 3(1) show ?thesis by (induction cs) auto
  qed
  from strong_token_alive [OF assms(1) this] show ?thesis .
qed

text \<open>A reader keeps what it reads.\<close>

lemma run_protects:
  assumes ok: "ok t s" and mm: "mm_ok (R + calls_tokens ctoks cs + etoks s) s"
    and k: "reader k p s" "p \<noteq> nullptr" and g: "guarded (dg k p) (eg k p) p cs s"
    and nc: "\<forall>d. C_derived d \<in> set cs \<longrightarrow> \<not> closing d"
  shows "\<exists>s'. mm_run (mm_step retire derived) t cs s = Some (Inr s') \<and> reader k p s' \<and>
    guarded (dg k p) (eg k p) p [] s' \<and>
    (\<exists>ob n. fmlookup (heap s') p = Some ob \<and> storage ob \<noteq> None \<and> get_use_count ob = (n, ob) \<and> n \<noteq> 0)"
proof -
  let ?P = "\<lambda>cs s. reader k p s \<and> guarded (dg k p) (eg k p) p cs s \<and> (\<forall>d. C_derived d \<in> set cs \<longrightarrow> \<not> closing d)"
  have inv: "ok t s \<and> mm_ok (R + calls_tokens ctoks cs + etoks s) s" and P: "?P cs s"
    using assms by simp_all
  have "\<exists>s'. mm_run (mm_step retire derived) t cs s = Some (Inr s') \<and>
      (ok t s' \<and> mm_ok (R + calls_tokens ctoks [] + etoks s') s') \<and> ?P [] s'"
  proof (rule machine.run_keeps [where P = ?P and R = R, OF inv P])
    fix c cs s new s'
    assume inv: "ok t s \<and> mm_ok (R + calls_tokens ctoks (c # cs) + etoks s) s" and P: "?P (c # cs) s"
      and step: "mm_step retire derived t c s = Inr (new, s')"
    from inv P show "?P (new @ cs) s'"
      by (intro step_guarded [OF _ _ step _ k(2)]) blast+
  qed
  then obtain s' where s': "mm_run (mm_step retire derived) t cs s = Some (Inr s')"
      "mm_ok (R + calls_tokens ctoks [] + etoks s') s'" "reader k p s'" "guarded (dg k p) (eg k p) p [] s'"
    by blast
  with guarded_alive [OF s'(2,4) k(2)] show ?thesis by blast
qed

end

end
