(* ===== verification/Guarded_Runs.thy ===== *)
theory Guarded_Runs
  imports Protection
begin

text \<open>
  Protection of readers without accounts: whatever references the calls that run are entitled to, a run that returns
  keeps a guarded pointer guarded. The theory \<open>Protection\<close> shows this for runs whose calls own their references; here the
  only condition is that disposal is under way for no object that still has its value (\<open>tidy\<close>). So what an operation does to its readers can be
  shown apart from its accounts.
\<close>

lemma mm_run_invariant:
  fixes step :: "('c, 's) step_fn"
  assumes run: "mm_run step t cs s = Some (Inr s')" and "P cs s"
    and step: "\<And>c cs s new s1. P (c # cs) s \<Longrightarrow> step t c s = Inr (new, s1) \<Longrightarrow> P (new @ cs) s1"
  shows "P [] s'"
proof -
  let ?Q = "\<lambda>st t0 cs s r. \<forall>s'. r = (Inr s' :: error + 's) \<longrightarrow> t0 = t \<longrightarrow> st = step \<longrightarrow> P cs s \<longrightarrow> P [] s'"
  have "?Q step t cs s (Inr s')"
  proof (rule mm_run.raw_induct [where P = ?Q, OF _ run])
    fix rec :: "('c, 's) step_fn \<Rightarrow> tid \<Rightarrow> 'c mm_call list \<Rightarrow> 's \<Rightarrow> (error + 's) option"
      and st :: "('c, 's) step_fn" and t0 cs s r
    assume IH: "\<And>st t0 cs s r. rec st t0 cs s = Some r \<Longrightarrow> ?Q st t0 cs s r"
      and run: "(case cs of [] \<Rightarrow> Some (Inr s)
        | c # cs' \<Rightarrow> (case st t0 c s of Inl e \<Rightarrow> Some (Inl e) | Inr (new, s') \<Rightarrow> rec st t0 (new @ cs') s')) = Some r"
    show "?Q st t0 cs s r"
    proof (intro allI impI)
      fix s' assume a: "r = Inr s'" "t0 = t" "st = step" "P cs s"
      show "P [] s'"
      proof (cases cs)
        case Nil with run a show ?thesis by simp
      next
        case (Cons c cs')
        with run a obtain new s1 where "step t c s = Inr (new, s1)" "rec st t0 (new @ cs') s1 = Some r"
          by (auto split: sum.splits)
        with IH [OF this(2)] a step Cons show ?thesis by blast
      qed
    qed
  qed
  with assms(2) show ?thesis by blast
qed

section \<open>Tidy states\<close>

definition tidy :: "'c mm_call list \<Rightarrow> (('v, 'x) counted_object_scheme, 'e) mm_scheme \<Rightarrow> bool" where
  "tidy cs s \<longleftrightarrow> (\<forall>q ob. fmlookup (heap s) q = Some ob \<longrightarrow> storage ob \<noteq> None \<longrightarrow>
     \<not> disposed ob \<and> C_dispose_end q \<notin> set cs \<and> C_release_end q \<notin> set cs)"

definition plain :: "'c mm_call list \<Rightarrow> bool" where
  "plain cs \<longleftrightarrow> (\<forall>q. C_dispose_end q \<notin> set cs \<and> C_release_end q \<notin> set cs)"

lemma plain_dtor: "plain (members_dtor ms)"
proof -
  have "plain (concat (map member_dtor ms'))" for ms' :: "member list"
  proof (induction ms')
    case (Cons m ms')
    then show ?case by (cases m) (auto simp: plain_def)
  qed (simp add: plain_def)
  then show ?thesis by (simp add: members_dtor_def)
qed

lemma object_ops_disposed_snd:
  "disposed (snd (get_use_count ob)) = disposed ob" "disposed (snd (get_weak_count ob)) = disposed ob"
  "disposed (snd (release_refs c ob)) = disposed ob" "disposed (snd (release_weak_refs c ob)) = disposed ob"
  by (simp_all add: get_use_count_def get_weak_count_def release_refs_def release_weak_refs_def case_prod_beta Let_def)

lemma object_ops_disposed:
  "get_use_count ob = (n, ob') \<Longrightarrow> disposed ob' = disposed ob"
  "get_weak_count ob = (n, ob') \<Longrightarrow> disposed ob' = disposed ob"
  "release_refs c ob = (r, ob') \<Longrightarrow> disposed ob' = disposed ob"
  "release_weak_refs c ob = (z, ob') \<Longrightarrow> disposed ob' = disposed ob"
  using object_ops_disposed_snd by (metis snd_conv)+

lemma tidy_put:
  assumes "tidy (c # cs) s" and "fmlookup (heap s) q = Some ob" and "plain new"
    and "storage ob' \<noteq> None \<Longrightarrow> storage ob \<noteq> None \<and> disposed ob' = disposed ob"
  shows "tidy (new @ cs) (put_object q ob' s)"
  using assms by (force simp: tidy_def plain_def put_object_def)

lemma tidy_dispose:
  assumes "tidy (c # cs) s" and "fmlookup (heap s) q = Some ob" and "dispose_begin ob1 = Some (ms, ob2)"
    and "e = C_dispose_end q \<or> e = C_release_end q"
  shows "tidy (members_dtor ms @ e # cs) (put_object q ob2 s)"
proof -
  have "storage ob2 = None" using assms(3) by (auto simp: dispose_begin_def split: option.splits)
  with assms plain_dtor [of ms] show ?thesis by (auto simp: tidy_def plain_def put_object_def)
qed

lemma mm_step_tidy:
  assumes step: "mm_step retire derived t c s = Inr (new, s')" and tidy: "tidy (c # cs) s"
    and base: "\<And>p type. c \<noteq> C_retire p type" "\<And>d. c \<noteq> C_derived d"
  shows "tidy (new @ cs) s'"
proof -
  note put = tidy_put [OF tidy] and disp = tidy_dispose [OF tidy]
  show ?thesis
  proof (cases c)
    case (C_eject q type)
    with step tidy show ?thesis by (auto simp: mm_eject_def tidy_def split: if_splits)
  next
    case (C_decrement_ref_cnt q)
    with step obtain ob where ob: "fmlookup (heap s) q = Some ob"
      by (auto simp: decrement_ref_cnt_def with_object_Inr split: if_splits)
    obtain n ob1 r ob2 where ob2: "get_use_count ob = (n, ob1)" "release_refs 1 ob1 = (r, ob2)" by (metis surj_pair)
    then have "storage ob2 = storage ob" "disposed ob2 = disposed ob" by (simp_all add: object_ops_disposed)
    with step C_decrement_ref_cnt ob ob2 put [OF ob, of "[]" ob2] put [OF ob, of "[C_retire q RT_dispose]" ob2] disp [OF ob, of ob2] show ?thesis
      by (auto simp: decrement_ref_cnt_def with_object_def plain_def split: if_splits EjectAction.splits option.splits)
  next
    case (C_dispose q)
    with step obtain ob where ob: "fmlookup (heap s) q = Some ob"
      by (auto simp: mm_dispose_def with_object_Inr split: if_splits)
    with step C_dispose disp [OF ob] show ?thesis
      by (auto simp: mm_dispose_def with_object_def case_prod_beta Let_def split: if_splits option.splits)
  next
    case (C_destroy q)
    with step tidy show ?thesis
      by (auto simp: mm_destroy_def with_object_Inr tidy_def delete_object_def decrement_allocations_def
          case_prod_beta Let_def split: if_splits)
  next
    case (C_dispose_end q)
    with step obtain ob where ob: "fmlookup (heap s) q = Some ob" by (auto simp: mm_dispose_end_def with_object_Inr)
    with tidy C_dispose_end have "storage ob = None" by (force simp: tidy_def)
    then have "storage (snd (release_weak_refs 1 (dispose_end ob))) = None" by simp
    with step C_dispose_end ob put [OF ob, of "[]" "snd (release_weak_refs 1 (dispose_end ob))"]
      put [OF ob, of "[C_destroy q]" "snd (release_weak_refs 1 (dispose_end ob))"] show ?thesis
      by (auto simp: mm_dispose_end_def with_object_def case_prod_beta Let_def plain_def)
  next
    case (C_release_end q)
    with step obtain ob where ob: "fmlookup (heap s) q = Some ob" by (auto simp: release_end_def with_object_Inr)
    with tidy C_release_end have "storage ob = None" by (force simp: tidy_def)
    with step C_release_end ob put [OF ob, of "[C_destroy q]" "dispose_end ob"] show ?thesis
      by (auto simp: release_end_def with_object_def plain_def)
  next
    case (C_decrement_weak_cnt q)
    with step obtain ob where ob: "fmlookup (heap s) q = Some ob"
      by (auto simp: decrement_weak_cnt_def with_object_Inr split: if_splits)
    obtain n ob1 r ob2 where ob2: "get_weak_count ob = (n, ob1)" "release_weak_refs 1 ob1 = (r, ob2)" by (metis surj_pair)
    then have "storage ob2 = storage ob" "disposed ob2 = disposed ob" by (simp_all add: object_ops_disposed)
    with step C_decrement_weak_cnt ob ob2 put [OF ob, of "[]" ob2] put [OF ob, of "[C_destroy q]" ob2] show ?thesis
      by (auto simp: decrement_weak_cnt_def with_object_def plain_def split: if_splits)
  next
    case (C_delayed_decrement_ref_cnt q)
    with step obtain ob where ob: "fmlookup (heap s) q = Some ob"
      by (auto simp: delayed_decrement_ref_cnt_def with_object_Inr split: if_splits)
    obtain n ob1 where ob1: "get_use_count ob = (n, ob1)" by (metis surj_pair)
    then have "storage ob1 = storage ob" "disposed ob1 = disposed ob" by (simp_all add: object_ops_disposed)
    with ob1 step C_delayed_decrement_ref_cnt ob put [OF ob, of "[C_retire q RT_decrement_strong_count]" ob1] show ?thesis
      by (auto simp: delayed_decrement_ref_cnt_def with_object_def plain_def split: if_splits)
  next
    case (C_delayed_decrement_weak_cnt q)
    with step obtain ob where ob: "fmlookup (heap s) q = Some ob"
      by (auto simp: delayed_decrement_weak_cnt_def with_object_Inr split: if_splits)
    obtain n ob1 where ob1: "get_weak_count ob = (n, ob1)" by (metis surj_pair)
    then have "storage ob1 = storage ob" "disposed ob1 = disposed ob" by (simp_all add: object_ops_disposed)
    with ob1 step C_delayed_decrement_weak_cnt ob put [OF ob, of "[C_retire q RT_decrement_weak_count]" ob1] show ?thesis
      by (auto simp: delayed_decrement_weak_cnt_def with_object_def plain_def split: if_splits)
  qed (use base in auto)
qed

text \<open>An object that is destroyed has lost its value.\<close>

lemma tidy_gone:
  assumes "mm_step retire derived t (C_destroy q) s = Inr (new, s')" "tidy cs s" "fmlookup (heap s) q = Some ob"
  shows "storage ob = None"
proof (rule ccontr)
  assume a: "storage ob \<noteq> None"
  obtain n ob1 where ob1: "get_use_count ob = (n, ob1)" by (metis surj_pair)
  with assms(1,3) have "disposed ob" by (auto simp: object_ops_disposed(1) [OF ob1] mm_destroy_def with_object_def split: if_splits)
  with assms(2,3) a show False by (auto simp: tidy_def)
qed

section \<open>Runs that return\<close>

locale guarding_scheme = protecting_scheme retire derived ctoks cweight clen etoks eweight elen ok dg eg reader closing
  for retire :: "((('v, 'x) counted_object_scheme, 'e) mm_scheme, 'c) retire_fn"
    and derived :: "((('v, 'x) counted_object_scheme, 'e) mm_scheme, 'c) derived_fn"
    and ctoks cweight clen etoks eweight elen ok and dg :: "'k \<Rightarrow> ptr \<Rightarrow> 'c \<Rightarrow> bool" and eg reader closing +
  assumes retire_frame: "ok t s \<Longrightarrow> retire t q type s = Inr (new, s') \<Longrightarrow> heap s' = heap s \<and> ok t s' \<and> plain new"
    and derived_frame: "ok t s \<Longrightarrow> derived t d s = Inr (new, s') \<Longrightarrow> plain new"
begin

lemma step_tidy:
  assumes ok: "ok t s" and tidy: "tidy (c # cs) s" and step: "mm_step retire derived t c s = Inr (new, s')"
  shows "ok t s' \<and> tidy (new @ cs) s'"
proof -
  have same: "tidy (new @ cs) s'" if "heap s' = heap s" "plain new"
    using that tidy by (auto simp: tidy_def plain_def)
  consider (retire) q type where "c = C_retire q type" | (derived) d where "c = C_derived d"
    | (base) "\<And>p type. c \<noteq> C_retire p type" "\<And>d. c \<noteq> C_derived d"
    by blast
  then show ?thesis
  proof cases
    case retire
    with step have r: "retire t q type s = Inr (new, s')" by simp
    from retire_frame [OF ok r] show ?thesis using same by blast
  next
    case derived
    with step have d: "derived t d s = Inr (new, s')" by simp
    with derived_progress [OF ok, of d] derived_frame [OF ok d] show ?thesis
      using ok same by (auto simp: scheme_progress_def)
  next
    case base
    with mm_step_tidy [OF step tidy base] ext [OF mm_step_more [OF step base]] ok show ?thesis by simp
  qed
qed

lemma run_tidy:
  assumes "mm_run (mm_step retire derived) t cs s = Some (Inr s')" and "ok t s" and "tidy cs s"
  shows "ok t s' \<and> tidy ([] :: 'c mm_call list) s'"
  by (rule mm_run_invariant [where P = "\<lambda>cs s. ok t s \<and> tidy cs s", OF assms(1)]) (use assms step_tidy in blast)+

lemma run_reader:
  assumes run: "mm_run (mm_step retire derived) t cs s = Some (Inr s')" and ok: "ok t s" "tidy cs s"
    and k: "reader k p s" "p \<noteq> nullptr" and nc: "\<forall>d. C_derived d \<in> set cs \<longrightarrow> \<not> closing d"
  shows "reader k p s'"
proof -
  let ?P = "\<lambda>cs s. (ok t s \<and> tidy cs s) \<and> reader k p s \<and> (\<forall>d. C_derived d \<in> set cs \<longrightarrow> \<not> closing d)"
  have "?P [] s'"
  proof (rule mm_run_invariant [where P = ?P, OF run])
    fix c cs s new s1
    assume P: "?P (c # cs) s" and step: "mm_step retire derived t c s = Inr (new, s1)"
    have "reader k p s1 \<and> (\<forall>d. C_derived d \<in> set new \<longrightarrow> \<not> closing d)"
    proof -
      consider (retire) q type where "c = C_retire q type" | (derived) d where "c = C_derived d"
        | (base) "\<And>p type. c \<noteq> C_retire p type" "\<And>d. c \<noteq> C_derived d"
        by blast
      then show ?thesis
      proof cases
        case retire
        with step have "retire t q type s = Inr (new, s1)" by simp
        from retire_guards [OF _ _ k(2) this] P show ?thesis by blast
      next
        case derived
        with step have d: "derived t d s = Inr (new, s1)" by simp
        have "\<not> closing d" using P derived by simp
        from derived_guards [OF _ _ k(2) this d] P show ?thesis by blast
      next
        case base
        from ext_guards [OF mm_step_more [OF step base] mm_step_stamps [OF step base]] mm_step_base [OF step base] P
        show ?thesis by blast
      qed
    qed
    with step_tidy [OF _ _ step, of cs] P show "?P (new @ cs) s1" by auto
  qed (use assms in blast)
  then show ?thesis by blast
qed

lemma run_guarded:
  assumes run: "mm_run (mm_step retire derived) t cs s = Some (Inr s')" and ok: "ok t s" "tidy cs s"
    and k: "reader k p s" "p \<noteq> nullptr" and g: "guarded (dg k p) (eg k p) p cs s"
    and nc: "\<forall>d. C_derived d \<in> set cs \<longrightarrow> \<not> closing d"
  shows "reader k p s' \<and> guarded (dg k p) (eg k p) p [] s'"
proof -
  let ?P = "\<lambda>cs s. (ok t s \<and> tidy cs s) \<and> reader k p s \<and> guarded (dg k p) (eg k p) p cs s \<and> (\<forall>d. C_derived d \<in> set cs \<longrightarrow> \<not> closing d)"
  have "?P [] s'"
  proof (rule mm_run_invariant [where P = ?P, OF run])
    fix c cs s new s1
    assume P: "?P (c # cs) s" and step: "mm_step retire derived t c s = Inr (new, s1)"
    have "reader k p s1 \<and> guarded (dg k p) (eg k p) p (new @ cs) s1 \<and> (\<forall>d. C_derived d \<in> set (new @ cs) \<longrightarrow> \<not> closing d)"
      by (rule step_guarded_core [OF _ step _ k(2)]) (use P step retire_frame tidy_gone in \<open>auto\<close>)
    with step_tidy [OF _ _ step, of cs] P show "?P (new @ cs) s1" by blast
  qed (use assms in blast)
  then show ?thesis by blast
qed

end

end
