(* ===== verification/Snapshot_Guard.thy ===== *)
theory Snapshot_Guard
  imports Guarded_Runs Client
begin

text \<open>
  Why a protected snapshot stays valid while clients work: every operation but \<^verbatim>\<open>exchange\<close> keeps
  the pointer guarded. The rules below are of partial correctness, one for each piece that the operations are made of: if the piece returns and the
  pointer was guarded before, it is guarded afterwards. That the operations do return is shown with the accounts, in the theory \<open>Client\<close>.
\<close>

declare split_paired_Ex [simp del] split_paired_All [simp del]

lemma Some_eq_ret [simp]: "Some r = ret a \<longleftrightarrow> r = Inr a"
  by (simp add: ret_def)

datatype mkind = K_rc | K_arc | K_weak | K_aweak

fun kind_of :: "member \<Rightarrow> mkind" where
  "kind_of (M_rc p) = K_rc"
| "kind_of (M_arc p) = K_arc"
| "kind_of (M_weak p) = K_weak"
| "kind_of (M_aweak p) = K_aweak"

text \<open>A change that leaves the values of all objects alone.\<close>

definition same_values :: "('v, 'x, 'e) mm_state \<Rightarrow> ('v, 'x, 'e) mm_state \<Rightarrow> bool" where
  "same_values s s' \<longleftrightarrow> (\<forall>q. map_option (\<lambda>ob. (storage ob, disposed ob)) (fmlookup (heap s') q) =
     map_option (\<lambda>ob. (storage ob, disposed ob)) (fmlookup (heap s) q))"

lemma same_values_lookup:
  assumes "same_values s s'" and "fmlookup (heap s') q = Some ob'"
  shows "\<exists>ob. fmlookup (heap s) q = Some ob \<and> storage ob = storage ob' \<and> disposed ob = disposed ob'"
proof -
  have "map_option (\<lambda>ob. (storage ob, disposed ob)) (fmlookup (heap s) q) = Some (storage ob', disposed ob')"
    using assms(1) [unfolded same_values_def, THEN spec, of q] assms(2) by simp
  then show ?thesis by (auto simp: map_option_eq_Some)
qed

lemma same_values_sym: "same_values s s' \<Longrightarrow> same_values s' s"
  by (simp add: same_values_def)

lemma same_values_trans: "same_values s s' \<Longrightarrow> same_values s' s'' \<Longrightarrow> same_values s s''"
  by (simp add: same_values_def)

lemma same_values_heap: "heap s' = heap s \<Longrightarrow> same_values s s'"
  by (simp add: same_values_def)

lemma same_values_tidy: "same_values s s' \<Longrightarrow> tidy cs s \<Longrightarrow> tidy cs s'"
  unfolding tidy_def by (metis same_values_lookup)

lemma same_values_holds: "same_values s s' \<Longrightarrow> heap_holds p s \<Longrightarrow> heap_holds p s'"
proof -
  assume same: "same_values s s'" and "heap_holds p s"
  then obtain q ob where ob: "fmlookup (heap s) q = Some ob" "object_holds p ob" by (auto simp: heap_holds_def)
  from same_values_lookup [OF same_values_sym [OF same] ob(1)] obtain ob' where
    "fmlookup (heap s') q = Some ob'" "storage ob' = storage ob" by blast
  with ob(2) object_holds_storage [of ob' ob p] show "heap_holds p s'" by (auto simp: heap_holds_def)
qed

lemma increments_same:
  fixes s :: "('v, 'x, 'e) mm_state"
  shows "increment_ref_cnt q s = Inr (b, s') \<Longrightarrow> same_values s s' \<and> mm.more s' = mm.more s \<and> stamps_le s' s"
    and "increment_weak_cnt q s = Inr (b, s') \<Longrightarrow> same_values s s' \<and> mm.more s' = mm.more s \<and> stamps_le s' s"
  by (auto simp: increment_ref_cnt_def increment_weak_cnt_def with_object_Inr same_values_def put_object_def
      add_refs_def add_weak_refs_def stamps_le_def case_prod_beta Let_def split: if_splits)

section \<open>The pieces\<close>

context guarding_scheme
begin

definition guard_inv :: "tid \<Rightarrow> 'k \<Rightarrow> ptr \<Rightarrow> mkind list \<Rightarrow> 'c mm_call list \<Rightarrow> ('v, 'x, 'e) mm_state prog \<Rightarrow> bool" where
  "guard_inv t k p ks cs st \<longleftrightarrow> ok t (snd st) \<and> tidy cs (snd st) \<and> map kind_of (fst st) = ks \<and> p \<noteq> nullptr \<and>
     reader k p (snd st) \<and> (M_arc p \<in> set (fst st) \<or> guarded (dg k p) (eg k p) p cs (snd st))"

lemma guarded_call: "C_delayed_decrement_ref_cnt p \<in> set cs \<Longrightarrow> guarded (dg k p) (eg k p) p cs s"
  by (force simp: guarded_def)

lemma guard_mono: "guard_inv t k p ks [] st \<Longrightarrow> plain cs \<Longrightarrow> guard_inv t k p ks cs st"
  by (auto simp: guard_inv_def guarded_def tidy_def plain_def)

lemma guard_run:
  assumes "guard_inv t k p ks cs st" and "run_calls (mm_step retire derived) t cs st = ret st'" and "\<forall>d. C_derived d \<notin> set cs"
  shows "guard_inv t k p ks [] st'"
proof -
  from assms(2) have run: "mm_run (mm_step retire derived) t cs (snd st) = Some (Inr (snd st'))" "fst st' = fst st"
    by (simp_all add: run_calls_eq_ret ret_def [of "snd st'"])
  from assms(1) have g: "ok t (snd st)" "tidy cs (snd st)" "p \<noteq> nullptr" "reader k p (snd st)"
    by (simp_all add: guard_inv_def)
  from run_tidy [OF run(1) g(1,2)] run_reader [OF run(1) g(1,2,4,3)] run_guarded [OF run(1) g(1,2,4,3)] assms(1,3) run(2)
  show ?thesis unfolding guard_inv_def by auto
qed

lemma guard_same:
  assumes "guard_inv t k p ks cs st" and "same_values (snd st) s'" and "ok t s'" and "reader k p s'"
    and "eg k p (snd st) \<longrightarrow> eg k p s'"
  shows "guard_inv t k p ks cs (fst st, s')"
  using assms same_values_tidy [OF assms(2)] same_values_holds [OF assms(2)] by (auto simp: guard_inv_def guarded_def)

lemma guard_inc:
  assumes "guard_inv t k p ks cs st" and "inc = increment_ref_cnt \<or> inc = increment_weak_cnt" and "inc q (snd st) = Inr (b, s')"
  shows "guard_inv t k p ks cs (fst st, s')"
proof -
  have same: "same_values (snd st) s'" "mm.more s' = mm.more (snd st)" "stamps_le s' (snd st)"
    using increments_same [of q "snd st" b s'] assms(2,3) by auto
  from guard_same [OF assms(1) same(1)] ext_guards [OF same(2,3), of k p] ext [OF same(2)] assms(1) show ?thesis
    by (auto simp: guard_inv_def)
qed

text \<open>Writing a place: a location gives its pointer up only to a call that retires it.\<close>

lemma guard_put:
  assumes g: "guard_inv t k p ks [] st" and get: "place_get pl st = Inr m0" and put: "place_put pl m st = Inr st'"
    and kind: "kind_of m = kind_of m0" and cs: "plain cs" and hold: "m0 \<noteq> M_arc p \<or> m = M_arc p \<or> C_delayed_decrement_ref_cnt p \<in> set cs"
  shows "guard_inv t k p ks cs st'"
proof -
  obtain vs s where st: "st = (vs, s)" by (cases st)
  have g': "guard_inv t k p ks cs st" using guard_mono [OF g cs] .
  show ?thesis
  proof (cases pl)
    case (Var x)
    with get put st have x: "x < length vs" "vs ! x = m0" "st' = (vs[x := m], s)" by (auto split: if_splits)
    then have "map kind_of (vs[x := m]) = map kind_of vs" using kind by (simp add: map_update list_update_same_conv)
    moreover have "M_arc p \<in> set (vs[x := m]) \<or> C_delayed_decrement_ref_cnt p \<in> set cs" if "M_arc p \<in> set vs"
    proof -
      from that obtain j where j: "j < length vs" "vs ! j = M_arc p" by (auto simp: in_set_conv_nth)
      show ?thesis
      proof (cases "j = x")
        case True
        with hold j x have "m = M_arc p \<or> C_delayed_decrement_ref_cnt p \<in> set cs" by auto
        with x show ?thesis by (auto intro: set_update_memI)
      next
        case False
        with j have "vs[x := m] ! j = M_arc p" "j < length (vs[x := m])" by simp_all
        then show ?thesis by (metis nth_mem)
      qed
    qed
    ultimately show ?thesis using g' st x guarded_call [of p cs k s] by (auto simp: guard_inv_def)
  next
    case (Field q i)
    with get put st obtain ob mg where q: "fmlookup (heap s) q = Some ob" "storage ob = Some mg" "i < length (members mg)"
        "members mg ! i = m0" "st' = (vs, put_object q (ob\<lparr>storage := Some (mg\<lparr>members := (members mg)[i := m]\<rparr>)\<rparr>) s)"
      by (auto simp: with_storage_Inr split: if_splits)
    let ?ob = "ob\<lparr>storage := Some (mg\<lparr>members := (members mg)[i := m]\<rparr>)\<rparr>"
    have s': "mm.more (snd st') = mm.more s" "stamps_le (snd st') s"
      using q stamps_le_put [OF q(1), of ?ob] by (simp_all add: put_object_def)
    have "tidy cs (snd st')" using g' st q by (auto simp: guard_inv_def tidy_def put_object_def)
    moreover have "heap_holds p (snd st') \<or> C_delayed_decrement_ref_cnt p \<in> set cs" if "heap_holds p s"
    proof (cases "C_delayed_decrement_ref_cnt p \<in> set cs")
      case False
      have "object_holds p ?ob" if "object_holds p ob"
      proof -
        from that q obtain j where j: "j < length (members mg)" "members mg ! j = M_arc p"
          by (auto simp: object_holds_def in_set_conv_nth)
        with False hold q have "(members mg)[i := m] ! j = M_arc p" by (cases "j = i") auto
        with j show ?thesis by (auto simp: object_holds_def in_set_conv_nth)
      qed
      with heap_holds_put [OF q(1) that] q show ?thesis by simp
    qed simp
    ultimately show ?thesis
      using g' st q ext_guards [OF s', of k p] ext [OF s'(1)] guarded_call [of p cs k "snd st'"] by (auto simp: guard_inv_def guarded_def)
  qed
qed

lemma guard_put_var:
  assumes "guard_inv t k p ks [] st" and "place_put (Var x) m st = Inr st'" and "kind_of m = ks ! x" and "ks ! x \<noteq> K_arc"
  shows "guard_inv t k p ks [] st'"
proof -
  have x: "x < length (fst st)" using assms(2) by (cases st) (auto split: if_splits)
  then have k: "kind_of (fst st ! x) = ks ! x" using assms(1) by (auto simp: guard_inv_def)
  with assms(4) have "fst st ! x \<noteq> M_arc p" by auto
  with k guard_put [OF assms(1) _ assms(2), of "fst st ! x" "[]"] x assms(3,4) show ?thesis
    by (cases st) (auto simp: plain_def)
qed

lemma guard_call:
  assumes "guard_inv t k p ks [] st" and "run_calls (mm_step retire derived) t [c] st = ret st'" and "plain [c]" "\<forall>d. c \<noteq> C_derived d"
  shows "guard_inv t k p ks [] st'"
  using guard_run [OF guard_mono [OF assms(1,3)] assms(2)] assms(4) by auto

lemma plain_calls:
  "plain [C_decrement_ref_cnt q]" "plain [C_decrement_weak_cnt q]"
  "plain [C_delayed_decrement_ref_cnt q]" "plain [C_delayed_decrement_weak_cnt q]" "plain []"
  by (simp_all add: plain_def)

section \<open>Owning pointers in variables\<close>

lemma guard_ptr_copy:
  assumes "guard_inv t k p ks cs st" and "ptr_copy inc q st = ret (r, st')" and "inc = increment_ref_cnt \<or> inc = increment_weak_cnt"
  shows "guard_inv t k p ks cs st'"
proof (cases "q = nullptr")
  case True
  with assms show ?thesis by (simp add: ptr_copy_def)
next
  case False
  with assms(2) obtain b s' where s': "inc q (snd st) = Inr (b, s')" "st' = (fst st, s')"
    by (cases "inc q (snd st)") (auto simp: ptr_copy_def lift_mm_def rbind_eq_ret)
  from guard_inc [OF assms(1,3) s'(1)] s'(2) show ?thesis by simp
qed

lemma guard_ptr_release:
  assumes "guard_inv t k p ks [] st" and "ptr_release mk (Var x) st = ret (r, st')" and "kind_of (mk nullptr) = ks ! x" "ks ! x \<noteq> K_arc"
  shows "guard_inv t k p ks [] st'"
proof -
  from assms(2) have "place_put (Var x) (mk nullptr) st = Inr st'"
    by (auto simp: ptr_release_def rbind_eq_ret simp del: place_get.simps place_put.simps)
  from guard_put_var [OF assms(1) this assms(3,4)] show ?thesis .
qed

text \<open>The end of the assignments: the old value is dropped.\<close>

lemma guard_drop:
  assumes "guard_inv t k p ks [] st" and "(if q \<noteq> nullptr then run_calls (mm_step retire derived) t [c] st else ret st) = ret st'"
    and "c = C_decrement_ref_cnt q \<or> c = C_decrement_weak_cnt q \<or> c = C_delayed_decrement_ref_cnt q \<or> c = C_delayed_decrement_weak_cnt q"
  shows "guard_inv t k p ks [] st'"
  using guard_call [OF assms(1), of c st'] assms by (auto simp: plain_calls split: if_splits)

lemma guard_ptr_clear:
  assumes "guard_inv t k p ks [] st" and "ptr_clear (mm_step retire derived) dec mk t (Var x) st = ret st'"
    and "dec = C_decrement_ref_cnt \<or> dec = C_decrement_weak_cnt" and "kind_of (mk nullptr) = ks ! x" "ks ! x \<noteq> K_arc"
  shows "guard_inv t k p ks [] st'"
proof -
  from assms(2) obtain m st1 where
    1: "(if member_ptr m \<noteq> nullptr then run_calls (mm_step retire derived) t [dec (member_ptr m)] st else ret st) = ret st1"
      "place_put (Var x) (mk nullptr) st1 = Inr st'"
    by (auto simp: ptr_clear_def rbind_eq_ret simp del: place_get.simps place_put.simps)
  from guard_put_var [OF guard_drop [OF assms(1) 1(1)] 1(2) assms(4,5)] assms(3) show ?thesis by blast
qed

lemma guard_ptr_assign_from:
  assumes "guard_inv t k p ks [] st" and "ptr_assign_from (mm_step retire derived) dec mk t (Var x) q st = ret st'"
    and "dec = C_decrement_ref_cnt \<or> dec = C_decrement_weak_cnt" and "kind_of (mk q) = ks ! x" "ks ! x \<noteq> K_arc"
  shows "guard_inv t k p ks [] st'"
proof -
  from assms(2) obtain m st1 where
    1: "place_put (Var x) (mk q) st = Inr st1"
      "(if member_ptr m \<noteq> nullptr then run_calls (mm_step retire derived) t [dec (member_ptr m)] st1 else ret st1) = ret st'"
    by (auto simp: ptr_assign_from_def rbind_eq_ret simp del: place_get.simps place_put.simps)
  from guard_drop [OF guard_put_var [OF assms(1) 1(1) assms(4,5)] 1(2)] assms(3) show ?thesis by blast
qed

lemma guard_ptr_move_assign:
  assumes "guard_inv t k p ks [] st" and "ptr_move_assign (mm_step retire derived) dec mk t (Var x) (Var y) st = ret st'"
    and "dec = C_decrement_ref_cnt \<or> dec = C_decrement_weak_cnt" and "\<And>q. kind_of (mk q) = ks ! x" "ks ! y = ks ! x" "ks ! x \<noteq> K_arc"
  shows "guard_inv t k p ks [] st'"
proof -
  from assms(2) obtain m r st1 st2 where
    1: "ptr_release mk (Var y) st = ret (r, st1)" "place_put (Var x) (mk r) st1 = Inr st2"
      "(if member_ptr m \<noteq> nullptr then run_calls (mm_step retire derived) t [dec (member_ptr m)] st2 else ret st2) = ret st'"
    by (auto simp: ptr_move_assign_def rbind_eq_ret simp del: place_get.simps place_put.simps)
  have "guard_inv t k p ks [] st1" using guard_ptr_release [OF assms(1) 1(1)] assms(4-6) by simp
  from guard_drop [OF guard_put_var [OF this 1(2) assms(4,6)] 1(3)] assms(3) show ?thesis by blast
qed

lemma guard_ptr_copy_assign:
  assumes "guard_inv t k p ks [] st" and "ptr_copy_assign (mm_step retire derived) inc dec mk t (Var x) (Var y) st = ret st'"
    and "inc = increment_ref_cnt \<or> inc = increment_weak_cnt"
    and "dec = C_decrement_ref_cnt \<or> dec = C_decrement_weak_cnt" and "\<And>q. kind_of (mk q) = ks ! x" "ks ! x \<noteq> K_arc"
  shows "guard_inv t k p ks [] st'"
proof -
  from assms(2) obtain m q r st1 st2 where
    1: "place_put (Var x) (mk q) st = Inr st1" "ptr_copy inc q st1 = ret (r, st2)"
      "(if member_ptr m \<noteq> nullptr then run_calls (mm_step retire derived) t [dec (member_ptr m)] st2 else ret st2) = ret st'"
    by (auto simp: ptr_copy_assign_def rbind_eq_ret simp del: place_get.simps place_put.simps)
  have "guard_inv t k p ks [] st1" using guard_put_var [OF assms(1) 1(1) assms(5,6)] .
  from guard_drop [OF guard_ptr_copy [OF this 1(2) assms(3)] 1(3)] assms(4) show ?thesis by blast
qed

lemma guard_ptr_swap:
  assumes "guard_inv t k p ks [] st" and "ptr_swap mk (Var x) (Var y) st = ret st'"
    and "\<And>q. kind_of (mk q) = ks ! x" "ks ! y = ks ! x" "ks ! x \<noteq> K_arc"
  shows "guard_inv t k p ks [] st'"
proof -
  from assms(2) obtain a b st1 where "place_put (Var x) (mk b) st = Inr st1" "place_put (Var y) (mk a) st1 = Inr st'"
    by (auto simp: ptr_swap_def rbind_eq_ret simp del: place_get.simps place_put.simps)
  from guard_put_var [OF guard_put_var [OF assms(1) this(1)] this(2)] assms(3-5) show ?thesis by simp
qed

section \<open>Locations\<close>

lemma guard_exchange:
  assumes "guard_inv t k p ks [] st" and "place_get pl st = Inr (M_arc old)" and "place_put pl (M_arc q) st = Inr st'"
  shows "guard_inv t k p ks (if old = nullptr then [] else [C_delayed_decrement_ref_cnt old]) st'"
  by (rule guard_put [OF assms]) (use assms(1) in \<open>auto simp: plain_def guard_inv_def\<close>)

lemma guard_drop_delayed:
  assumes "guard_inv t k p ks (if old = nullptr then [] else [C_delayed_decrement_ref_cnt old]) st"
    and "drop_delayed (mm_step retire derived) C_delayed_decrement_ref_cnt t old st = ret st'"
  shows "guard_inv t k p ks [] st'"
  using assms guard_run [of t k p ks _ st st'] by (auto simp: drop_delayed_def split: if_splits)

lemma guard_put_aweak:
  assumes "guard_inv t k p ks [] st" and "place_get pl st = Inr (M_aweak old)" and "place_put pl (M_aweak q) st = Inr st'"
  shows "guard_inv t k p ks [] st'"
  by (rule guard_put [OF assms]) (simp_all add: plain_def)

lemma guard_drop_weak:
  assumes "guard_inv t k p ks [] st" and "drop_delayed (mm_step retire derived) C_delayed_decrement_weak_cnt t old st = ret st'"
  shows "guard_inv t k p ks [] st'"
  using guard_drop [OF assms(1), of old "C_delayed_decrement_weak_cnt old" st'] assms(2) by (simp add: drop_delayed_def)

lemma atomic_load_eq: "place_get pl st = Inr m \<Longrightarrow> atomic_load pl st = ret (member_ptr m)"
  by (simp add: atomic_load_def ret_def)

lemma guard_loc_store:
  assumes "guard_inv t k p ks [] st"
  shows "place_get pl st = Inr (M_arc old) \<Longrightarrow> loc_store (mm_step retire derived) C_delayed_decrement_ref_cnt M_arc t pl q st = ret st' \<Longrightarrow>
      guard_inv t k p ks [] st'"
    and "place_get pl st = Inr (M_aweak old) \<Longrightarrow> loc_store (mm_step retire derived) C_delayed_decrement_weak_cnt M_aweak t pl q st = ret st' \<Longrightarrow>
      guard_inv t k p ks [] st'"
  by (auto simp: loc_store_def atomic_exchange_def rbind_eq_ret atomic_load_eq
      intro: guard_drop_delayed [OF guard_exchange [OF assms]] guard_drop_weak [OF guard_put_aweak [OF assms]])

lemma guard_cas_impl:
  assumes "guard_inv t k p ks [] st"
  shows "place_get pl st = Inr (M_arc old) \<Longrightarrow>
      loc_cas_impl (mm_step retire derived) C_delayed_decrement_ref_cnt M_arc t pl e d st = ret (b, st') \<Longrightarrow> guard_inv t k p ks [] st'"
    and "place_get pl st = Inr (M_aweak old) \<Longrightarrow>
      loc_cas_impl (mm_step retire derived) C_delayed_decrement_weak_cnt M_aweak t pl e d st = ret (b, st') \<Longrightarrow> guard_inv t k p ks [] st'"
  using assms by (auto simp: loc_cas_impl_def atomic_compare_exchange_def compare_exchange_strong_def rbind_eq_ret atomic_load_eq
      place_put_same split: if_splits
      intro: guard_drop_delayed [OF guard_exchange [OF assms]] guard_drop_weak [OF guard_put_aweak [OF assms]])

lemma guard_cas_move:
  assumes "guard_inv t k p ks [] st" and "place_get pl st = Inr (M_arc old)"
    and "loc_cas_move (mm_step retire derived) C_delayed_decrement_ref_cnt M_arc M_rc t pl e (Var y) st = ret (b, st')" and "ks ! y = K_rc"
  shows "guard_inv t k p ks [] st'"
proof -
  from assms(3) obtain d b1 st1 where
    1: "loc_cas_impl (mm_step retire derived) C_delayed_decrement_ref_cnt M_arc t pl e d st = ret (b1, st1)"
      "if b1 then \<exists>r. ptr_release M_rc (Var y) st1 = ret (r, st') else st' = st1"
    by (auto simp: loc_cas_move_def rbind_eq_ret simp del: place_get.simps split: if_splits)
  have 2: "guard_inv t k p ks [] st1" by (rule guard_cas_impl(1) [OF assms(1,2) 1(1)])
  from 1(2) guard_ptr_release [OF 2, of M_rc y _ st'] 2 assms(4) show ?thesis by (auto split: if_splits)
qed

end

section \<open>Backends\<close>

text \<open>
  What a backend does to the announcements of snapshots: a change that disturbs no snapshot but those whose announcement is in \<open>X\<close>.
\<close>

definition untouched :: "('k \<Rightarrow> bool) \<Rightarrow> ('k \<Rightarrow> ptr \<Rightarrow> ('v, 'x, 'e) mm_state \<Rightarrow> bool) \<Rightarrow> ('k \<Rightarrow> ptr \<Rightarrow> ('v, 'x, 'e) mm_state \<Rightarrow> bool) \<Rightarrow>
    (tid \<Rightarrow> ('v, 'x, 'e) mm_state \<Rightarrow> bool) \<Rightarrow> 'k option set \<Rightarrow> ('v, 'x, 'e) mm_state \<Rightarrow> ('v, 'x, 'e) mm_state \<Rightarrow> bool" where
  "untouched snap reader eg ok X s s' \<longleftrightarrow> same_values s s' \<and> (\<forall>t. ok t s \<longrightarrow> ok t s') \<and>
     (\<forall>k p. eg k p s \<longrightarrow> eg k p s') \<and> (\<forall>k p. snap k \<longrightarrow> p \<noteq> nullptr \<longrightarrow> Some k \<notin> X \<longrightarrow> reader k p s \<longrightarrow> reader k p s')"

text \<open>A snapshot that an announcement protects.\<close>

definition announced_snapshot :: "('c, 'a, 'v, 'x, 'e) backend \<Rightarrow> 'a \<Rightarrow> bool" where
  "announced_snapshot M a \<longleftrightarrow> mg_is_protected M a \<and> mg_get M a \<noteq> nullptr"

locale guarding_backend = guarding_scheme retire derived ctoks cweight clen etoks eweight elen ok dg eg reader closing +
    smart_backend retire derived ctoks cweight clen etoks eweight elen ok M
  for retire :: "(('v, 'x, 'e) mm_state, 'c) retire_fn" and derived :: "(('v, 'x, 'e) mm_state, 'c) derived_fn"
    and ctoks cweight clen etoks eweight elen ok and dg :: "'k \<Rightarrow> ptr \<Rightarrow> 'c \<Rightarrow> bool" and eg reader closing
    and M :: "('c, 'a, 'v, 'x, 'e) backend" +
  fixes slot_of :: "'a \<Rightarrow> 'k option" and snap :: "'k \<Rightarrow> bool"
  assumes reserve_guard: "untouched snap reader eg ok {} s (snd (mg_reserve M t q s)) \<and> (\<forall>k. slot_of (fst (mg_reserve M t q s)) = Some k \<longrightarrow> \<not> snap k)"
    and acquire_guard: "mg_acquire M t q s = ret (a, s') \<Longrightarrow> untouched snap reader eg ok {} s s' \<and> (\<forall>k. slot_of a = Some k \<longrightarrow> \<not> snap k)"
    and nothing_guard: "slot_of (mg_reserve_nothing M) = None"
    and destruct_guard: "untouched snap reader eg ok {slot_of a} s (mg_destruct M a s)"
    and clear_guard: "untouched snap reader eg ok (if announced_snapshot M a then {slot_of a} else {}) s (snd (mg_clear M a s))"
    and protect_guard: "ok t s \<Longrightarrow> mg_protect_snapshot M t q s = ret (a, s') \<Longrightarrow> untouched snap reader eg ok {} s s' \<and>
      (announced_snapshot M a \<longrightarrow> (\<exists>k. slot_of a = Some k \<and> snap k \<and> reader k (mg_get M a) s' \<and> (\<forall>p. p \<noteq> nullptr \<longrightarrow> \<not> reader k p s)))"
    and create_guard: "fmlookup (heap s) q = None \<Longrightarrow> snap k \<Longrightarrow> reader k p s \<Longrightarrow>
      reader k p (mg_create_object M t q v s) \<and> (eg k p s \<longrightarrow> eg k p (mg_create_object M t q v s)) \<and>
      (ok t s \<longrightarrow> ok t (mg_create_object M t q v s)) \<and>
      (\<exists>ob. heap (mg_create_object M t q v s) = fmupd q ob (heap s) \<and> \<not> disposed ob)"
begin

lemma guard_untouched:
  assumes "guard_inv t k p ks [] st" and "untouched snap reader eg ok X (snd st) s'" and "snap k" and "Some k \<notin> X"
  shows "guard_inv t k p ks [] (fst st, s')"
  by (rule guard_same [OF assms(1)]) (use assms in \<open>auto simp: untouched_def guard_inv_def\<close>)

lemma guard_destruct:
  assumes "guard_inv t k p ks [] st" and "snap k" and "\<forall>k. slot_of a = Some k \<longrightarrow> \<not> snap k"
  shows "guard_inv t k p ks [] (fst st, mg_destruct M a (snd st))"
  by (rule guard_untouched [OF assms(1) destruct_guard assms(2)]) (use assms in auto)

lemma untouched_get: "untouched snap reader eg ok X s s' \<Longrightarrow> place_get pl (vs, s) = Inr m \<Longrightarrow> place_get pl (vs, s') = Inr m"
proof (cases pl)
  case (Field q i)
  assume u: "untouched snap reader eg ok X s s'" and get: "place_get pl (vs, s) = Inr m"
  with Field obtain ob where "fmlookup (heap s) q = Some ob" "\<exists>mg. storage ob = Some mg \<and> i < length (members mg) \<and> members mg ! i = m"
    by (auto simp: with_storage_Inr split: if_splits)
  moreover from same_values_lookup [OF same_values_sym this(1)] u obtain ob' where
    "fmlookup (heap s') q = Some ob'" "storage ob' = storage ob" unfolding untouched_def by blast
  ultimately show ?thesis using Field by (auto simp: with_storage_def with_object_def)
qed simp

lemma guard_cas_copy:
  assumes g: "guard_inv t k p ks [] st" and k: "snap k" and inc: "inc = increment_ref_cnt \<or> inc = increment_weak_cnt"
    and cas: "loc_cas_copy M inc ddec mk t pl e d prot st = ret (b, st')"
    and impl: "\<And>st1 b st2. guard_inv t k p ks [] st1 \<Longrightarrow> (\<And>m. place_get pl st = Inr m \<Longrightarrow> place_get pl st1 = Inr m) \<Longrightarrow>
      loc_cas_impl (mm_step retire derived) ddec mk t pl e d st1 = ret (b, st2) \<Longrightarrow> guard_inv t k p ks [] st2"
  shows "guard_inv t k p ks [] st'"
proof -
  obtain r s1 where r: "(if \<not> prot then mg_reserve M t d (snd st) else (mg_reserve_nothing M, snd st)) = (r, s1)" by fastforce
  have "untouched snap reader eg ok {} (snd st) (snd st)" by (simp add: untouched_def same_values_heap)
  with r reserve_guard [of "snd st" t d] nothing_guard
  have u: "untouched snap reader eg ok {} (snd st) s1" "\<forall>k. slot_of r = Some k \<longrightarrow> \<not> snap k"
    by (auto split: if_splits)
  from cas r obtain b1 st2 st3 where
    1: "loc_cas_impl (mm_step retire derived) ddec mk t pl e d (fst st, s1) = ret (b1, st2)"
      "(if b1 \<and> d \<noteq> nullptr then rbind (lift_mm (inc d) st2) (\<lambda>(_, st3). ret st3) else ret st2) = ret st3"
      "st' = (fst st3, mg_destruct M r (snd st3))"
    by (auto simp: loc_cas_copy_def step rbind_eq_ret)
  have get: "place_get pl (fst st, s1) = Inr m" if "place_get pl st = Inr m" for m
    using untouched_get [OF u(1), of pl "fst st" m] that by simp
  have 2: "guard_inv t k p ks [] st2"
    by (rule impl [OF guard_untouched [OF g u(1) k] get 1(1)]) simp_all
  have "ptr_copy inc d st2 = ret (d, st3)" if "b1" "d \<noteq> nullptr"
    using 1(2) that by (auto simp: ptr_copy_def rbind_eq_ret)
  then have "guard_inv t k p ks [] st3"
    using 2 1(2) guard_ptr_copy [OF 2 _ inc] by (auto split: if_splits)
  from guard_destruct [OF this k u(2)] 1(3) show ?thesis by simp
qed

section \<open>Operations\<close>

lemma guard_arc_load:
  assumes g: "guard_inv t k p ks [] st" and k: "snap k" and "arc_load M t pl st = ret (q, st')"
  shows "guard_inv t k p ks [] st'"
proof -
  from assms(3) obtain q0 a s1 st2 where 1: "mg_acquire M t q0 (snd st) = ret (a, s1)"
      "rc_construct (mg_get M a) AddRef_yes (fst st, s1) = ret (q, st2)" "st' = (fst st2, mg_destruct M a (snd st2))"
    by (auto simp: arc_load_def rbind_eq_ret)
  note a = acquire_guard [OF 1(1)]
  have "guard_inv t k p ks [] (fst st, s1)" by (rule guard_untouched [OF g _ k]) (use a in auto)
  from guard_ptr_copy [OF this 1(2) [unfolded construct_eq rc_copy_def]] have "guard_inv t k p ks [] st2" by blast
  from guard_destruct [OF this k] a 1(3) show ?thesis by blast
qed

lemma guard_aweak_load:
  assumes g: "guard_inv t k p ks [] st" and k: "snap k" and "aweak_load M t pl st = ret (q, st')"
  shows "guard_inv t k p ks [] st'"
proof -
  from assms(3) obtain q0 a s1 st2 where 1: "mg_acquire M t q0 (snd st) = ret (a, s1)"
      "weak_construct (mg_get M a) AddRef_yes (fst st, s1) = ret (q, st2)" "st' = (fst st2, mg_destruct M a (snd st2))"
    by (auto simp: aweak_load_def rbind_eq_ret)
  note a = acquire_guard [OF 1(1)]
  have g1: "guard_inv t k p ks [] (fst st, s1)" by (rule guard_untouched [OF g _ k]) (use a in auto)
  have "guard_inv t k p ks [] st2"
  proof (cases "mg_get M a = nullptr")
    case False
    with 1(2) have "ptr_copy increment_weak_cnt (mg_get M a) (fst st, s1) = ret (mg_get M a, st2)"
      by (auto simp: weak_construct_def ptr_copy_def rbind_eq_ret)
    from guard_ptr_copy [OF g1 this] show ?thesis by blast
  qed (use 1(2) g1 in \<open>simp add: weak_construct_def\<close>)
  from guard_destruct [OF this k] a 1(3) show ?thesis by blast
qed

lemma guard_create:
  assumes g: "guard_inv t k p ks [] st" and k: "snap k" and q: "fmlookup (heap (snd st)) q = None"
  shows "guard_inv t k p ks [] (fst st, mg_create_object M t q v (snd st))"
proof -
  let ?s = "mg_create_object M t q v (snd st)"
  from create_guard [OF q k, of p t v] g obtain ob where ob: "heap ?s = fmupd q ob (heap (snd st))" "\<not> disposed ob" and r: "reader k p ?s"
      "eg k p (snd st) \<longrightarrow> eg k p ?s" "ok t (snd st) \<longrightarrow> ok t ?s"
    by (auto simp: guard_inv_def)
  have "tidy ([] :: 'c mm_call list) ?s" using g ob by (auto simp: guard_inv_def tidy_def)
  moreover have "heap_holds p ?s" if "heap_holds p (snd st)"
    using that q ob(1) unfolding heap_holds_def by (metis fmupd_lookup option.distinct(1))
  ultimately show ?thesis using g r by (auto simp: guard_inv_def guarded_def)
qed

lemma typed_kinds:
  assumes "guard_inv t k p ks cs st"
  shows "typed is_rc (Var x) st \<Longrightarrow> ks ! x = K_rc" "typed is_arc (Var x) st \<Longrightarrow> ks ! x = K_arc"
    "typed is_weak (Var x) st \<Longrightarrow> ks ! x = K_weak" "typed is_aweak (Var x) st \<Longrightarrow> ks ! x = K_aweak"
  using assms by (auto simp: guard_inv_def typed_iff get_var_iff simp del: place_get.simps)

lemma guard_move_out:
  assumes "guard_inv t k p ks [] st" and "move_out ys st = ret (ps, st')" and "list_all (\<lambda>y. ks ! y = K_rc) ys"
  shows "guard_inv t k p ks [] st' \<and> heap (snd st') = heap (snd st)"
  using assms
proof (induction ys arbitrary: st ps)
  case (Cons y ys)
  then obtain q st1 ps1 where 1: "ptr_release M_rc (Var y) st = ret (q, st1)" "move_out ys st1 = ret (ps1, st')"
    by (auto simp: rc_move_def rc_release_def rbind_eq_ret)
  have "heap (snd st1) = heap (snd st)"
    using 1(1) by (cases st) (auto simp: ptr_release_def rbind_eq_ret split: if_splits)
  with Cons.IH [OF guard_ptr_release [OF Cons.prems(1) 1(1)] 1(2)] Cons.prems(3) show ?case by simp
qed simp

lemma guard_compare_exchange:
  assumes g: "guard_inv t k p ks [] st" and k: "snap k" and pl: "place_get pl st = Inr (M_arc old)" and x: "ks ! x = K_rc"
    and "arc_compare_exchange_weak M t pl (Var x) d st = ret (b, st')"
  shows "guard_inv t k p ks [] st'"
proof -
  from assms(5) obtain e b1 st1 where
    1: "loc_cas_copy M increment_ref_cnt C_delayed_decrement_ref_cnt M_arc t pl e d False st = ret (b1, st1)"
      "if b1 then st' = st1 else \<exists>q st2. arc_load M t pl st1 = ret (q, st2) \<and> rc_assign_from M t (Var x) q st2 = ret st'"
    by (auto simp: arc_compare_exchange_weak_def arc_cas_copy_def rbind_eq_ret simp del: place_get.simps split: if_splits)
  have g1: "guard_inv t k p ks [] st1"
    by (rule guard_cas_copy [OF g k _ 1(1)]) (use pl guard_cas_impl(1) in \<open>auto\<close>)
  show ?thesis
  proof (cases b1)
    case False
    with 1(2) obtain q st2 where 2: "arc_load M t pl st1 = ret (q, st2)" "rc_assign_from M t (Var x) q st2 = ret st'" by auto
    from guard_ptr_assign_from [OF guard_arc_load [OF g1 k 2(1)] 2(2) [unfolded rc_assign_from_def step]] x show ?thesis by simp
  qed (use 1(2) g1 in simp)
qed

text \<open>The operations of a client, all but \<^verbatim>\<open>exchange\<close>.\<close>

lemma guard_make:
  assumes g: "guard_inv t k p ks [] st" and k: "snap k" and en: "enabled (Op_make x q v ys zs) (sn, st)"
    and ex: "exec_prog M t (Op_make x q v ys zs) st = ret st'"
  shows "guard_inv t k p ks [] st'"
proof -
  have kinds: "list_all (\<lambda>y. ks ! y = K_rc) ys" "list_all (\<lambda>y. ks ! y = K_rc) zs" "ks ! x = K_rc"
    using en typed_kinds(1) [OF g] by (auto simp: list_all_iff)
  from ex obtain ps st1 qs st2 val r st3 where
    1: "move_out ys st = ret (ps, st1)" "move_out zs st1 = ret (qs, st2)" "rc_make_shared M t q val st2 = ret (r, st3)"
      "rc_assign_from M t (Var x) r st3 = ret st'"
    by (auto simp: rbind_eq_ret)
  note st1 = guard_move_out [OF g 1(1) kinds(1)]
  note st2 = guard_move_out [OF conjunct1 [OF st1] 1(2) kinds(2)]
  have "fmlookup (heap (snd st2)) q = None" using st1 st2 en by simp
  from guard_create [OF conjunct1 [OF st2] k this, of val] 1(3) have "guard_inv t k p ks [] st3"
    by (auto simp: rc_make_shared_def rc_construct_def)
  from guard_ptr_assign_from [OF this 1(4) [unfolded rc_assign_from_def step]] kinds(3) show ?thesis by simp
qed

lemma guard_lock:
  assumes g: "guard_inv t k p ks [] st" and "weak_lock q st = ret (r, st1)"
  shows "guard_inv t k p ks [] st1"
proof (cases "q = nullptr")
  case False
  with assms(2) have "ptr_copy increment_ref_cnt q st = ret (q, st1)"
    by (auto simp: weak_lock_def ptr_copy_def rbind_eq_ret rc_construct_def split: if_splits)
  from guard_ptr_copy [OF g this] show ?thesis by blast
qed (use assms in \<open>simp add: weak_lock_def\<close>)

lemma guard_owning_ops:
  assumes g: "guard_inv t k p ks [] st" and k: "snap k" and en: "enabled op (sn, st)" and ex: "exec_prog M t op st = ret st'"
    and op: "op = Op_copy x y \<or> op = Op_move x y \<or> op = Op_clear x \<or> op = Op_swap x y \<or>
      op = Op_weak_copy x y \<or> op = Op_weak_move x y \<or> op = Op_weak_clear x"
  shows "guard_inv t k p ks [] st'"
proof -
  note kinds = typed_kinds [OF g]
  note ops = rc_copy_assign_def rc_move_assign_def rc_clear_def rc_swap_def weak_copy_assign_def weak_move_assign_def weak_clear_def step
  from op show ?thesis
  proof (elim disjE)
    assume "op = Op_copy x y"
    with ex en kinds show ?thesis by (auto simp: ops intro!: guard_ptr_copy_assign [OF g])
  next
    assume "op = Op_move x y"
    with ex en kinds show ?thesis by (auto simp: ops intro!: guard_ptr_move_assign [OF g])
  next
    assume "op = Op_clear x"
    with ex en kinds show ?thesis by (auto simp: ops intro!: guard_ptr_clear [OF g])
  next
    assume "op = Op_swap x y"
    with ex en kinds show ?thesis by (auto simp: ops intro!: guard_ptr_swap [OF g])
  next
    assume "op = Op_weak_copy x y"
    with ex en kinds show ?thesis by (auto simp: ops intro!: guard_ptr_copy_assign [OF g])
  next
    assume "op = Op_weak_move x y"
    with ex en kinds show ?thesis by (auto simp: ops intro!: guard_ptr_move_assign [OF g])
  next
    assume "op = Op_weak_clear x"
    with ex en kinds show ?thesis by (auto simp: ops intro!: guard_ptr_clear [OF g])
  qed
qed

lemma guard_assigning_ops:
  assumes g: "guard_inv t k p ks [] st" and k: "snap k" and en: "enabled op (sn, st)" and ex: "exec_prog M t op st = ret st'"
    and op: "op = Op_weak_from x y \<or> op = Op_lock x y \<or> op = Op_load x l \<or> op = Op_aweak_load x l"
  shows "guard_inv t k p ks [] st'"
proof -
  have assign: "guard_inv t k p ks [] st'" if "guard_inv t k p ks [] st1"
    "typed is_rc (Var x) st \<and> rc_assign_from M t (Var x) q st1 = ret st' \<or> typed is_weak (Var x) st \<and> weak_assign_from M t (Var x) q st1 = ret st'" for q st1
    using that guard_ptr_assign_from [OF that(1), of C_decrement_ref_cnt M_rc x q st']
      guard_ptr_assign_from [OF that(1), of C_decrement_weak_cnt M_weak x q st'] typed_kinds(1,3) [OF g, of x]
    by (auto simp: rc_assign_from_def weak_assign_from_def step)
  from op show ?thesis
  proof (elim disjE)
    assume "op = Op_weak_from x y"
    with ex obtain q r st1 where "ptr_copy increment_weak_cnt q st = ret (r, st1)" "weak_assign_from M t (Var x) r st1 = ret st'"
      by (auto simp: rbind_eq_ret weak_from_rc_def)
    with assign [OF guard_ptr_copy [OF g this(1)]] en \<open>op = Op_weak_from x y\<close> show ?thesis by auto
  next
    assume "op = Op_lock x y"
    with ex obtain q r st1 where "weak_lock q st = ret (r, st1)" "rc_assign_from M t (Var x) r st1 = ret st'" by (auto simp: rbind_eq_ret)
    with assign [OF guard_lock [OF g this(1)]] en \<open>op = Op_lock x y\<close> show ?thesis by auto
  next
    assume "op = Op_load x l"
    with ex obtain r st1 where "arc_load M t l st = ret (r, st1)" "rc_assign_from M t (Var x) r st1 = ret st'" by (auto simp: rbind_eq_ret)
    with assign [OF guard_arc_load [OF g k this(1)]] en \<open>op = Op_load x l\<close> show ?thesis by auto
  next
    assume "op = Op_aweak_load x l"
    with ex obtain r st1 where "aweak_load M t l st = ret (r, st1)" "weak_assign_from M t (Var x) r st1 = ret st'" by (auto simp: rbind_eq_ret)
    with assign [OF guard_aweak_load [OF g k this(1)]] en \<open>op = Op_aweak_load x l\<close> show ?thesis by auto
  qed
qed

lemma ptr_copy_get:
  assumes "ptr_copy inc q st = ret (r, st1)" and "inc = increment_ref_cnt \<or> inc = increment_weak_cnt"
  shows "place_get pl st1 = place_get pl st"
proof (cases "q = nullptr")
  case False
  with assms(1) obtain b s' where s': "inc q (snd st) = Inr (b, s')" "st1 = (fst st, s')"
    by (cases "inc q (snd st)") (auto simp: ptr_copy_def lift_mm_def rbind_eq_ret)
  with increments_get [of q "snd st" b s' pl "fst st"] assms(2) show ?thesis by auto
qed (use assms in \<open>simp add: ptr_copy_def\<close>)

lemma guard_store_ops:
  assumes g: "guard_inv t k p ks [] st" and k: "snap k" and en: "enabled op (sn, st)" and ex: "exec_prog M t op st = ret st'"
    and op: "op = Op_store l x \<or> op = Op_store_move l x \<or> op = Op_store_null l \<or> op = Op_aweak_store l x \<or> op = Op_aweak_store_null l"
  shows "guard_inv t k p ks [] st'"
  using op
proof (elim disjE)
  assume op: "op = Op_store l x"
  with ex obtain q r st1 where 1: "ptr_copy increment_ref_cnt q st = ret (r, st1)" "arc_store M t l r st1 = ret st'"
    by (auto simp: rbind_eq_ret rc_copy_def)
  from en op ptr_copy_get [OF 1(1)] obtain old where "place_get l st1 = Inr (M_arc old)" by (auto simp: typed_iff)
  from guard_loc_store(1) [OF guard_ptr_copy [OF g 1(1)] this] 1(2) show ?thesis by (simp add: arc_store_def step)
next
  assume op: "op = Op_store_move l x"
  with ex obtain r st1 where 1: "ptr_release M_rc (Var x) st = ret (r, st1)" "arc_store M t l r st1 = ret st'"
    by (auto simp: rbind_eq_ret rc_move_def rc_release_def)
  from en op obtain old a where l: "place_get l st = Inr (M_arc old)" and x: "place_get (Var x) st = Inr (M_rc a)"
    by (auto simp: typed_iff)
  from 1(1) have "place_put (Var x) (M_rc nullptr) st = Inr st1"
    by (auto simp: ptr_release_def rbind_eq_ret simp del: place_get.simps place_put.simps)
  from place_get_put_other [OF this, of l] l x have "place_get l st1 = Inr (M_arc old)" by (cases "l = Var x") auto
  from guard_loc_store(1) [OF guard_ptr_release [OF g 1(1)] this] 1(2) typed_kinds(1) [OF g, of x] en op show ?thesis
    by (simp add: arc_store_def step)
next
  assume op: "op = Op_store_null l"
  with en obtain old where "place_get l st = Inr (M_arc old)" by (auto simp: typed_iff)
  from guard_loc_store(1) [OF g this] ex op show ?thesis by (simp add: arc_store_null_def step)
next
  assume op: "op = Op_aweak_store l x"
  with ex obtain q r st1 where 1: "ptr_copy increment_weak_cnt q st = ret (r, st1)" "aweak_store M t l r st1 = ret st'"
    by (auto simp: rbind_eq_ret weak_copy_def)
  from en op ptr_copy_get [OF 1(1)] obtain old where "place_get l st1 = Inr (M_aweak old)" by (auto simp: typed_iff)
  from guard_loc_store(2) [OF guard_ptr_copy [OF g 1(1)] this] 1(2) show ?thesis by (simp add: aweak_store_def step)
next
  assume op: "op = Op_aweak_store_null l"
  with en obtain old where "place_get l st = Inr (M_aweak old)" by (auto simp: typed_iff)
  from guard_loc_store(2) [OF g this] ex op show ?thesis by (simp add: aweak_store_null_def step)
qed

lemma guard_cas_ops:
  assumes g: "guard_inv t k p ks [] st" and k: "snap k" and en: "enabled op (sn, st)" and ex: "exec_prog M t op st = ret st'"
    and op: "op = Op_cas l x y \<or> op = Op_cas_move l x y \<or> op = Op_aweak_cas l x y"
  shows "guard_inv t k p ks [] st'"
  using op
proof (elim disjE)
  assume op: "op = Op_cas l x y"
  with en obtain old where "place_get (Var l) st = Inr (M_arc old)" by (auto simp: typed_iff)
  from guard_compare_exchange [OF g k this] typed_kinds(1) [OF g, of x] ex en op show ?thesis
    by (auto simp: rbind_eq_ret)
next
  assume op: "op = Op_cas_move l x y"
  with en obtain old where "place_get (Var l) st = Inr (M_arc old)" by (auto simp: typed_iff)
  from guard_cas_move [OF g this] typed_kinds(1) [OF g, of y] ex en op show ?thesis
    by (auto simp: rbind_eq_ret arc_cas_move_def step)
next
  assume op: "op = Op_aweak_cas l x y"
  with en obtain old where l: "place_get (Var l) st = Inr (M_aweak old)" by (auto simp: typed_iff)
  from ex op obtain e d b where 1: "loc_cas_copy M increment_weak_cnt C_delayed_decrement_weak_cnt M_aweak t (Var l) e d False st = ret (b, st')"
    by (auto simp: rbind_eq_ret aweak_cas_copy_def)
  show ?thesis by (rule guard_cas_copy [OF g k _ 1]) (use l guard_cas_impl(2) in \<open>auto\<close>)
qed

end

text \<open>The operations that defer the decrement of what they take out of a location.\<close>

fun defers :: "'v client_op \<Rightarrow> bool" where
  "defers (Op_exchange x l y) = False"
| "defers _ = True"

context guarding_backend
begin

lemma guard_exec_prog:
  assumes "guard_inv t k p ks [] st" and "snap k" and "enabled op (sn, st)" and "exec_prog M t op st = ret st'" and "defers op"
  shows "guard_inv t k p ks [] st'"
proof (cases op)
  case Op_make then show ?thesis using guard_make assms by blast
next
  case Op_snapshot then show ?thesis using assms by simp
next
  case Op_snapshot_clear then show ?thesis using assms by simp
qed (use assms(5) guard_owning_ops [OF assms(1-4)] guard_assigning_ops [OF assms(1-4)] guard_store_ops [OF assms(1-4)]
  guard_cas_ops [OF assms(1-4)] in \<open>auto\<close>)

end

end
