(* ===== verification/Snapshot_Safety.thy ===== *)
theory Snapshot_Safety
  imports Snapshot_Guard
begin

text \<open>
  Clients whose operations defer: every snapshot that is not empty can be dereferenced, whatever the other threads have done since it was taken. The
  locale \<open>guarding_client\<close> puts the accounts of a client and the guards of its snapshots together.
\<close>

declare split_paired_Ex [simp del] split_paired_All [simp del]

text \<open>The runs of a client that defers.\<close>

inductive deferring_run :: "('c, 'a, 'v, 'x, 'e) backend \<Rightarrow> nat \<Rightarrow> ('a, ('v, 'x, 'e) mm_state) client \<Rightarrow> ('a, ('v, 'x, 'e) mm_state) client \<Rightarrow> bool"
  for M n c0 where
  start: "deferring_run M n c0 c0"
| oper: "deferring_run M n c0 c \<Longrightarrow> t < n \<Longrightarrow> enabled op c \<Longrightarrow> defers op \<Longrightarrow> exec M t op c = ret c' \<Longrightarrow> deferring_run M n c0 c'"

lemma deferring_client_run: "deferring_run M n c0 c \<Longrightarrow> client_run M n c0 c"
  by (induction rule: deferring_run.induct) (blast intro: client_run.intros)+

lemma execs_deferring_run:
  "execs M n ops c = ret c' \<Longrightarrow> list_all (defers \<circ> snd) ops \<Longrightarrow> deferring_run M n c0 c \<Longrightarrow> deferring_run M n c0 c'"
proof (induction ops arbitrary: c)
  case (Cons top ops)
  then obtain t op c1 where "top = (t, op)" "t < n" "enabled op c" "exec M t op c = ret c1" "execs M n ops c1 = ret c'"
    by (cases top) (auto simp: rbind_eq_ret split: if_splits)
  with Cons deferring_run.oper [of M n c0 c t op c1] show ?case by auto
qed simp

lemma mm_ok_tidy: "mm_ok R s \<Longrightarrow> tidy [] s"
  by (auto simp: mm_ok_def mm_inv_def tidy_def object_ok_def split: option.splits)

locale guarding_client = smart_client retire derived ctoks cweight clen etoks eweight elen n good M +
    guarding_backend retire derived ctoks cweight clen etoks eweight elen "\<lambda>t s. t < n \<and> good s" dg eg reader closing M slot_of snap
  for retire :: "(('v, 'x, 'e) mm_state, 'c) retire_fn" and derived :: "(('v, 'x, 'e) mm_state, 'c) derived_fn"
    and ctoks cweight clen etoks eweight elen n good and M :: "('c, 'a, 'v, 'x, 'e) backend"
    and dg :: "'k \<Rightarrow> ptr \<Rightarrow> 'c \<Rightarrow> bool" and eg reader closing and slot_of :: "'a \<Rightarrow> 'k option" and snap
begin

definition snapshots_guarded :: "('a, ('v, 'x, 'e) mm_state) client \<Rightarrow> bool" where
  "snapshots_guarded c \<longleftrightarrow>
     (\<forall>i<length (fst c). announced_snapshot M (fst c ! i) \<longrightarrow> (\<exists>k u. slot_of (fst c ! i) = Some k \<and> snap k \<and>
        guard_inv u k (mg_get M (fst c ! i)) (map kind_of (fst (snd c))) [] (snd c))) \<and>
     (\<forall>i<length (fst c). \<forall>j<length (fst c). i \<noteq> j \<longrightarrow> announced_snapshot M (fst c ! i) \<longrightarrow> announced_snapshot M (fst c ! j) \<longrightarrow>
        slot_of (fst c ! i) \<noteq> slot_of (fst c ! j))"

lemma guard_thread: "guard_inv u k p ks cs st \<Longrightarrow> t < n \<and> good (snd st) \<Longrightarrow> guard_inv t k p ks cs st"
  by (simp add: guard_inv_def)

lemma guard_kinds: "guard_inv t k p ks cs st \<Longrightarrow> map kind_of (fst st) = ks"
  by (simp add: guard_inv_def)

lemma guard_snapshot_clear:
  assumes g: "guard_inv t k p ks [] st" and k: "snap k" and "snapshot_clear M t a st = ret (a', st')"
    and "announced_snapshot M a \<longrightarrow> slot_of a \<noteq> Some k"
  shows "guard_inv t k p ks [] st'"
proof -
  from assms(3) obtain st1 where
    1: "(if \<not> mg_is_protected M a \<and> mg_get M a \<noteq> nullptr then run_calls (mg_step M) t [C_decrement_ref_cnt (mg_get M a)] st else ret st) = ret st1"
      "st' = (fst st1, snd (mg_clear M a (snd st1)))"
    by (auto simp: snapshot_clear_def Let_def rbind_eq_ret case_prod_beta)
  have "guard_inv t k p ks [] st1"
    using 1(1) g guard_call [OF g, of "C_decrement_ref_cnt (mg_get M a)" st1] by (auto simp: step plain_calls split: if_splits)
  from guard_untouched [OF this clear_guard k] assms(4) 1(2) show ?thesis by (auto split: if_splits)
qed

lemma snapshot_clear_empty: "snapshot_clear M t a st = ret (a', st') \<Longrightarrow> mg_get M a' = nullptr"
  using clear(2) by (auto simp: snapshot_clear_def Let_def rbind_eq_ret case_prod_beta)

text \<open>A new snapshot of a location.\<close>

lemma guard_get_snapshot:
  assumes ok: "t < n \<and> good (snd st)" "prog_ok etoks R st" and l: "place_get l st = Inr (M_arc q)" "q \<noteq> nullptr \<longrightarrow> strong_room q (snd st)"
    and snap: "arc_get_snapshot M t l st = ret (a, st1)"
  shows "announced_snapshot M a \<Longrightarrow> \<exists>k. slot_of a = Some k \<and> snap k \<and> guard_inv t k (mg_get M a) (map kind_of (fst st)) [] st1 \<and>
      (\<forall>p. p \<noteq> nullptr \<longrightarrow> \<not> reader k p (snd st))"
    and "guard_inv t k p ks [] st \<Longrightarrow> snap k \<Longrightarrow> guard_inv t k p ks [] st1"
proof -
  from arc_get_snapshot_ok [OF ok l(1)] l(2) snap have st1: "mg_get M a = q" "fst st1 = fst st" "t < n \<and> good (snd st1)"
    "prog_ok etoks (snapshot_tokens M a + R) st1" by auto
  from snap have p: "mg_protect_snapshot M t q (snd st) = ret (a, snd st1)"
    by (auto simp: arc_get_snapshot_def rbind_eq_ret atomic_load_eq [OF l(1)])
  note u = protect_guard [OF ok(1) p]
  show "\<exists>k. slot_of a = Some k \<and> snap k \<and> guard_inv t k (mg_get M a) (map kind_of (fst st)) [] st1 \<and>
      (\<forall>p. p \<noteq> nullptr \<longrightarrow> \<not> reader k p (snd st))" if a: "announced_snapshot M a"
  proof -
    from u a obtain k where k: "slot_of a = Some k" "snap k" "reader k (mg_get M a) (snd st1)" "\<forall>p. p \<noteq> nullptr \<longrightarrow> \<not> reader k p (snd st)"
      by blast
    have "M_arc q \<in> set (fst st) \<or> heap_holds q (snd st)"
    proof (cases l)
      case (Var x) with l(1) show ?thesis by (metis get_var_iff nth_mem)
    next
      case (Field r i)
      with l(1) show ?thesis
        by (cases st) (auto simp: with_storage_Inr heap_holds_def object_holds_def in_set_conv_nth split: if_splits intro!: exI [of _ r])
    qed
    then have "M_arc q \<in> set (fst st1) \<or> heap_holds q (snd st1)"
      using st1(2) u same_values_holds [of "snd st" "snd st1" q] by (auto simp: untouched_def)
    moreover have "tidy [] (snd st1)" using st1(4) by (auto simp: prog_ok_def intro: mm_ok_tidy)
    ultimately have "guard_inv t k q (map kind_of (fst st)) [] st1"
      using st1(1-3) k(3) a by (auto simp: guard_inv_def guarded_def announced_snapshot_def)
    with k st1(1) show ?thesis by blast
  qed
  show "guard_inv t k p ks [] st1" if "guard_inv t k p ks [] st" "snap k"
    using guard_untouched [OF that(1) conjunct1 [OF u] that(2)] st1(2) by (cases st1) simp
qed

text \<open>The invariant of the snapshots, one snapshot replaced.\<close>

lemma snapshots_guarded_update:
  assumes old: "snapshots_guarded (sn, st)" and i: "i < length sn"
    and others: "\<And>j k u. j < length sn \<Longrightarrow> j \<noteq> i \<Longrightarrow> announced_snapshot M (sn ! j) \<Longrightarrow> slot_of (sn ! j) = Some k \<Longrightarrow> snap k \<Longrightarrow>
      guard_inv u k (mg_get M (sn ! j)) (map kind_of (fst st)) [] st \<Longrightarrow>
      \<exists>u. guard_inv u k (mg_get M (sn ! j)) (map kind_of (fst st)) [] st'"
    and new: "announced_snapshot M a \<Longrightarrow> \<exists>k u. slot_of a = Some k \<and> snap k \<and> guard_inv u k (mg_get M a) (map kind_of (fst st)) [] st' \<and>
      (\<forall>j<length sn. j \<noteq> i \<longrightarrow> announced_snapshot M (sn ! j) \<longrightarrow> slot_of (sn ! j) \<noteq> Some k)"
    and kinds: "map kind_of (fst st') = map kind_of (fst st)"
  shows "snapshots_guarded (sn[i := a], st')"
proof -
  have guard: "\<exists>k u. slot_of (sn[i := a] ! j) = Some k \<and> snap k \<and> guard_inv u k (mg_get M (sn[i := a] ! j)) (map kind_of (fst st')) [] st'"
    if j: "j < length sn" "announced_snapshot M (sn[i := a] ! j)" for j
  proof (cases "j = i")
    case True
    with new j i kinds show ?thesis by auto
  next
    case False
    with old j obtain k u where "slot_of (sn ! j) = Some k" "snap k" "guard_inv u k (mg_get M (sn ! j)) (map kind_of (fst st)) [] st"
      by (auto simp: snapshots_guarded_def)
    with others [OF j(1) False _ this] j False kinds show ?thesis by auto
  qed
  have "slot_of (sn[i := a] ! j) \<noteq> slot_of (sn[i := a] ! j')"
    if "j < length sn" "j' < length sn" "j \<noteq> j'" "announced_snapshot M (sn[i := a] ! j)" "announced_snapshot M (sn[i := a] ! j')" for j j'
    using that new old i by (cases "j = i"; cases "j' = i") (fastforce simp: snapshots_guarded_def)+
  with guard show ?thesis by (simp add: snapshots_guarded_def)
qed

lemma exec_guarded:
  assumes ok: "client_ok M etoks good c" and t: "t < n" and en: "enabled op c" and op: "defers op" and ex: "exec M t op c = ret c'"
    and g: "snapshots_guarded c"
  shows "snapshots_guarded c'"
proof -
  obtain sn st where c: "c = (sn, st)" by (cases c)
  have st: "t < n \<and> good (snd st)" "prog_ok etoks (snapshots_tokens M sn) st" using ok t c by (simp_all add: client_ok_def)
  note g = g [unfolded c]
  consider (snap) i l where "op = Op_snapshot i l" | (drop) i where "op = Op_snapshot_clear i"
    | (prog) "exec M t op (sn, st) = rbind (exec_prog M t op st) (\<lambda>st1. ret (sn, st1))"
    by (cases op) auto
  then show ?thesis
  proof cases
    case prog
    with ex c obtain st' where st': "exec_prog M t op st = ret st'" "c' = (sn, st')" by (auto simp: rbind_eq_ret)
    have "\<exists>u. guard_inv u k p (map kind_of (fst st')) [] st'" if "guard_inv u k p (map kind_of (fst st)) [] st" "snap k" for u k p
    proof -
      have "guard_inv t k p (map kind_of (fst st)) [] st'"
        using guard_exec_prog [OF guard_thread [OF that(1) st(1)] that(2) en [unfolded c] st'(1) op] .
      then show ?thesis using guard_kinds by metis
    qed
    with g st'(2) show ?thesis unfolding snapshots_guarded_def by (metis fst_conv snd_conv)
  next
    case drop
    with en c have i: "i < length sn" by simp
    from ex drop c obtain a st' where st': "snapshot_clear M t (sn ! i) st = ret (a, st')" "c' = (sn[i := a], st')"
      by (auto simp: rbind_eq_ret)
    have vars: "fst st' = fst st" using st'(1) by (auto simp: snapshot_clear_def Let_def rbind_eq_ret run_calls_eq_ret case_prod_beta split: if_splits)
    show ?thesis unfolding st'(2)
    proof (rule snapshots_guarded_update [OF g i])
      fix j k u assume j: "j < length sn" "j \<noteq> i" "announced_snapshot M (sn ! j)" "slot_of (sn ! j) = Some k" "snap k"
        "guard_inv u k (mg_get M (sn ! j)) (map kind_of (fst st)) [] st"
      have "announced_snapshot M (sn ! i) \<longrightarrow> slot_of (sn ! i) \<noteq> Some k" using g i j(1-4) unfolding snapshots_guarded_def by (metis fst_conv)
      from guard_snapshot_clear [OF guard_thread [OF j(6) st(1)] j(5) st'(1) this]
      show "\<exists>u. guard_inv u k (mg_get M (sn ! j)) (map kind_of (fst st)) [] st'" by blast
    qed (use snapshot_clear_empty [OF st'(1)] vars in \<open>simp_all add: announced_snapshot_def\<close>)
  next
    case snap
    with en c obtain q where l: "place_get l st = Inr (M_arc q)" "q \<noteq> nullptr \<longrightarrow> strong_room q (snd st)" and i: "i < length sn"
      by (auto simp: typed_iff loc_ptr_eq room_strong_def)
    from ex snap c obtain a st1 a' st2 where st': "arc_get_snapshot M t l st = ret (a, st1)" "snapshot_clear M t (sn ! i) st1 = ret (a', st2)"
      "c' = (sn[i := a], st2)" by (auto simp: rbind_eq_ret snapshot_move_assign_def)
    note get = guard_get_snapshot [OF st l st'(1)]
    have vars: "fst st2 = fst st"
      using st'(1,2) by (auto simp: arc_get_snapshot_def snapshot_clear_def Let_def rbind_eq_ret run_calls_eq_ret case_prod_beta split: if_splits)
    show ?thesis unfolding st'(3)
    proof (rule snapshots_guarded_update [OF g i])
      fix j k u assume j: "j < length sn" "j \<noteq> i" "announced_snapshot M (sn ! j)" "slot_of (sn ! j) = Some k" "snap k"
        "guard_inv u k (mg_get M (sn ! j)) (map kind_of (fst st)) [] st"
      have "announced_snapshot M (sn ! i) \<longrightarrow> slot_of (sn ! i) \<noteq> Some k" using g i j(1-4) unfolding snapshots_guarded_def by (metis fst_conv)
      from guard_snapshot_clear [OF get(2) [OF guard_thread [OF j(6) st(1)] j(5)] j(5) st'(2) this]
      show "\<exists>u. guard_inv u k (mg_get M (sn ! j)) (map kind_of (fst st)) [] st2" by blast
    next
      assume "announced_snapshot M a"
      from get(1) [OF this] obtain k where k: "slot_of a = Some k" "snap k" "guard_inv t k (mg_get M a) (map kind_of (fst st)) [] st1"
        "\<forall>p. p \<noteq> nullptr \<longrightarrow> \<not> reader k p (snd st)" by blast
      have free: "slot_of (sn ! j) \<noteq> Some k" if "j < length sn" "announced_snapshot M (sn ! j)" for j
        using g that k(4) unfolding snapshots_guarded_def guard_inv_def by (metis fst_conv option.inject snd_conv)
      from guard_snapshot_clear [OF k(3,2) st'(2)] free [OF i] k free
      show "\<exists>k u. slot_of a = Some k \<and> snap k \<and> guard_inv u k (mg_get M a) (map kind_of (fst st)) [] st2 \<and>
        (\<forall>j<length sn. j \<noteq> i \<longrightarrow> announced_snapshot M (sn ! j) \<longrightarrow> slot_of (sn ! j) \<noteq> Some k)" by blast
    qed (use vars in simp)
  qed
qed

lemma deferring_run_guarded:
  assumes "deferring_run M n c0 c" and "client_ok M etoks good c0" and "snapshots_guarded c0"
  shows "snapshots_guarded c"
  using assms
proof (induction rule: deferring_run.induct)
  case (oper c t op c')
  with client_run_ok [OF deferring_client_run [OF oper(1)]] exec_guarded show ?case by blast
qed

lemma snapshots_tokens_nth: "i < length sn \<Longrightarrow> x \<in># snapshot_tokens M (sn ! i) \<Longrightarrow> x \<in># snapshots_tokens M sn"
  unfolding snapshots_tokens_def by (induction sn arbitrary: i) (auto simp: nth_Cons split: nat.splits)

lemma snapshot_valid:
  assumes ok: "client_ok M etoks good c" and g: "snapshots_guarded c" and i: "i < length (fst c)" "mg_get M (fst c ! i) \<noteq> nullptr"
  shows "\<exists>m. snapshot_deref M (fst c ! i) (snd c) = Inr m"
proof -
  obtain sn vs s where c: "c = (sn, (vs, s))" by (metis prod.exhaust)
  let ?p = "mg_get M (sn ! i)" and ?R = "snapshots_tokens M sn + members_tokens vs"
  have mm: "mm_ok (?R + calls_tokens ctoks [] + etoks s) s" using ok c by (simp add: client_ok_def prog_ok_def)
  have alive: "\<exists>ob. fmlookup (heap s) ?p = Some ob \<and> storage ob \<noteq> None" if "(T_strong, ?p) \<in># ?R"
    using strong_token_alive [OF mm, of ?p] that by auto
  have "\<exists>ob. fmlookup (heap s) ?p = Some ob \<and> storage ob \<noteq> None"
  proof (cases "announced_snapshot M (sn ! i)")
    case True
    with g i c obtain k u where "guard_inv u k ?p (map kind_of vs) [] (vs, s)" by (auto simp: snapshots_guarded_def)
    then consider "M_arc ?p \<in> set vs" | "guarded (dg k ?p) (eg k ?p) ?p [] s" by (auto simp: guard_inv_def)
    then show ?thesis
    proof cases
      case 1
      then obtain j where "j < length vs" "vs ! j = M_arc ?p" by (auto simp: in_set_conv_nth)
      with members_tokens_nth [of j vs "(T_strong, ?p)"] i c show ?thesis by (intro alive) auto
    next
      case 2
      from guarded_alive [OF mm 2] i c show ?thesis by auto
    qed
  next
    case False
    with i c have "(T_strong, ?p) \<in># snapshot_tokens M (sn ! i)" by (auto simp: snapshot_tokens_def announced_snapshot_def)
    with i c have "(T_strong, ?p) \<in># snapshots_tokens M sn"
      by (simp add: snapshots_tokens_nth)
    then show ?thesis by (intro alive) simp
  qed
  with c show ?thesis by (auto simp: snapshot_deref_def with_storage_def with_object_def)
qed

end

end
