(* ===== verification/Stack_Chains.thy ===== *)
theory Stack_Chains
  imports Atomic_Stack Snapshot_Safety
begin

text \<open>
  The linked list in the heap: \<open>rep f p xs\<close> says that the nodes from \<open>p\<close> on hold the elements \<open>xs\<close>, where \<open>f\<close> gives the values of the objects
  that are alive. A list stays what it is as long as its first node stays alive, whatever is destroyed elsewhere and whatever is written to nodes that nothing leads to.
  Then, for each piece of an operation, what it does to the values.
\<close>

section \<open>Chains of nodes\<close>

type_synonym 'v vmap = "ptr \<Rightarrow> 'v managed option"

fun rep :: "'v vmap \<Rightarrow> ptr \<Rightarrow> 'v list \<Rightarrow> bool" where
  "rep f p [] \<longleftrightarrow> p = nullptr"
| "rep f p (x # xs) \<longleftrightarrow> p \<noteq> nullptr \<and> (\<exists>r. f p = Some \<lparr>payload = x, members = [M_rc r]\<rparr> \<and> rep f r xs)"

definition follows :: "'v vmap \<Rightarrow> ptr \<Rightarrow> ptr \<Rightarrow> bool" where
  "follows f p r \<longleftrightarrow> p \<noteq> nullptr \<and> (\<exists>v. f p = Some \<lparr>payload = v, members = [M_rc r]\<rparr>)"

definition linked :: "'v vmap \<Rightarrow> ptr set" where
  "linked f = {r. \<exists>q m. f q = Some m \<and> M_rc r \<in> set (members m)}"

definition alive :: "'v vmap \<Rightarrow> ptr \<Rightarrow> bool" where
  "alive f p \<longleftrightarrow> p = nullptr \<or> f p \<noteq> None"

definition nodes_only :: "'v vmap \<Rightarrow> bool" where
  "nodes_only f \<longleftrightarrow> (\<forall>q m. f q = Some m \<longrightarrow> (\<exists>r. members m = [M_rc r]))"

definition node_heap :: "'v vmap \<Rightarrow> bool" where
  "node_heap f \<longleftrightarrow> nodes_only f \<and> (\<forall>r\<in>linked f. alive f r)"

text \<open>The addresses that \<open>g\<close> writes are new, or nothing leads from \<open>a\<close> or any node to them.\<close>

definition apart :: "'v vmap \<Rightarrow> ptr \<Rightarrow> 'v vmap \<Rightarrow> bool" where
  "apart f a g \<longleftrightarrow> (\<forall>q. g q \<noteq> None \<longrightarrow> f q = None \<or> q \<noteq> a \<and> q \<notin> linked f)"

lemma apart_empty [simp]: "apart f a Map.empty"
  by (simp add: apart_def)

lemma apart_follows: "apart f a g \<Longrightarrow> follows f a r \<Longrightarrow> apart f r g"
proof -
  assume "follows f a r"
  then have "r \<in> linked f" by (force simp: follows_def linked_def)
  then show "apart f a g \<Longrightarrow> apart f r g" by (auto simp: apart_def)
qed

lemma kept_value:
  assumes "f a = Some m" and "f' \<subseteq>\<^sub>m f ++ g" and "apart f a g" and "alive f' a" "a \<noteq> nullptr"
  shows "f' a = Some m"
proof -
  have "a \<notin> dom g" using assms(1,3) by (auto simp: apart_def)
  then have "(f ++ g) a = Some m" using assms(1) by (simp add: map_add_dom_app_simps)
  moreover have "a \<in> dom f'" using assms(4,5) by (auto simp: alive_def)
  ultimately show ?thesis using assms(2) by (metis map_le_def)
qed

lemma alive_follows: "node_heap f \<Longrightarrow> follows f a r \<Longrightarrow> alive f r"
  by (fastforce simp: node_heap_def follows_def linked_def)

lemma follows_keeps:
  assumes "follows f a r" and "f' \<subseteq>\<^sub>m f ++ g" and "apart f a g" and "alive f' a"
  shows "follows f' a r"
  using assms kept_value [OF _ assms(2-4)] by (auto simp: follows_def)

lemma rep_keeps:
  assumes "rep f a xs" and "f' \<subseteq>\<^sub>m f ++ g" and "apart f a g" and "node_heap f'" and "alive f' a"
  shows "rep f' a xs"
  using assms(1,3,5)
proof (induction xs arbitrary: a)
  case (Cons x xs)
  then obtain r where r: "a \<noteq> nullptr" "f a = Some \<lparr>payload = x, members = [M_rc r]\<rparr>" "rep f r xs" by auto
  then have fol: "follows f a r" by (simp add: follows_def)
  from kept_value [OF r(2) assms(2) Cons.prems(2,3) r(1)] Cons.IH [OF r(3) apart_follows [OF Cons.prems(2) fol]]
    alive_follows [OF assms(4) follows_keeps [OF fol assms(2) Cons.prems(2,3)]] r(1) show ?case by auto
qed simp

lemma path_keeps:
  assumes "(follows f)\<^sup>*\<^sup>* a b" and "f' \<subseteq>\<^sub>m f ++ g" and "apart f a g" and "node_heap f'" and "alive f' a"
  shows "(follows f')\<^sup>*\<^sup>* a b \<and> alive f' b \<and> apart f b g"
  using assms(1,3,5)
proof (induction rule: converse_rtranclp_induct)
  case (step a y)
  note fol = follows_keeps [OF step(1) assms(2) step(4,5)]
  from step.IH [OF apart_follows [OF step(4,1)] alive_follows [OF assms(4) fol]] fol show ?case
    by (meson converse_rtranclp_into_rtranclp)
qed simp

lemma rep_alive: "rep f a xs \<Longrightarrow> alive f a"
  by (cases xs) (auto simp: alive_def)

lemma rep_null: "rep f nullptr xs \<Longrightarrow> xs = []"
  by (cases xs) auto

lemma rep_elements: "rep f a xs \<Longrightarrow> rep f a ys \<Longrightarrow> xs = ys"
proof (induction xs arbitrary: a ys)
  case Nil then show ?case by (cases ys) auto
next
  case (Cons x xs) then show ?case by (cases ys) auto
qed

definition chain_length :: "'v vmap \<Rightarrow> ptr \<Rightarrow> nat" where
  "chain_length f a = (THE k. \<exists>ys. rep f a ys \<and> k = length ys)"

lemma chain_length_rep: "rep f a ys \<Longrightarrow> chain_length f a = length ys"
  unfolding chain_length_def by (rule the_equality) (auto dest: rep_elements)

section \<open>Values\<close>

definition contents :: "('v, 'x, 'e) mm_state \<Rightarrow> 'v vmap" where
  "contents s q = Option.bind (fmlookup (heap s) q) storage"

lemma contents_eq_Some: "contents s q = Some m \<longleftrightarrow> (\<exists>ob. fmlookup (heap s) q = Some ob \<and> storage ob = Some m)"
  by (auto simp: contents_def bind_eq_Some_conv)

lemma contents_storage_le: "storage_le s' s \<Longrightarrow> contents s' \<subseteq>\<^sub>m contents s"
  unfolding storage_le_def map_le_def by (metis contents_eq_Some domD)

lemma contents_same: "same_values s s' \<Longrightarrow> contents s' = contents s"
proof (rule ext)
  fix q assume "same_values s s'"
  then have "map_option storage (fmlookup (heap s') q) = map_option storage (fmlookup (heap s) q)"
    by (auto simp: same_values_def map_option_case fun_eq_iff split: option.splits dest!: spec [of _ q])
  then show "contents s' q = contents s q" by (cases "fmlookup (heap s') q"; cases "fmlookup (heap s) q") (auto simp: contents_def)
qed

lemma contents_heap: "heap s' = heap s \<Longrightarrow> contents s' = contents s"
  by (simp add: contents_def fun_eq_iff)

lemma alive_token:
  assumes "mm_ok R s" and "(T_strong, p) \<in># R + heap_tokens s"
  shows "contents s p \<noteq> None"
proof -
  from strong_token_alive [OF assms] obtain ob where "fmlookup (heap s) p = Some ob" "storage ob \<noteq> None" by blast
  then show ?thesis by (simp add: contents_def)
qed

lemma node_heap_values:
  assumes "mm_ok R s" and "nodes_only (contents s)"
  shows "node_heap (contents s)"
proof -
  have "alive (contents s) r" if "r \<in> linked (contents s)" for r
  proof (cases "r = nullptr")
    case False
    from that obtain q ob m where q: "fmlookup (heap s) q = Some ob" "storage ob = Some m" "M_rc r \<in> set (members m)"
      by (auto simp: linked_def contents_eq_Some)
    then have "(T_strong, r) \<in># object_tokens ob"
      using False by (auto simp: object_tokens_def in_set_conv_nth intro: members_tokens_nth)
    with fmsum_split [OF q(1), of object_tokens] have "(T_strong, r) \<in># heap_tokens s" by (simp add: heap_tokens_def)
    with alive_token [OF assms(1)] show ?thesis by (simp add: alive_def)
  qed (simp add: alive_def)
  with assms(2) show ?thesis by (simp add: node_heap_def)
qed

lemma place_put_values:
  assumes "place_put pl m st = Inr st'"
  shows "mm.more (snd st') = mm.more (snd st)"
    and "pl = Var x \<Longrightarrow> contents (snd st') = contents (snd st)"
    and "pl = Field q i \<Longrightarrow> \<exists>mg. contents (snd st) q = Some mg \<and>
      contents (snd st') = (contents (snd st))(q \<mapsto> mg\<lparr>members := (members mg)[i := m]\<rparr>)"
proof -
  obtain vs s where st: "st = (vs, s)" by (cases st)
  show "mm.more (snd st') = mm.more (snd st)"
    using assms st by (cases pl) (auto simp: with_storage_Inr put_object_def split: if_splits)
  show "pl = Var x \<Longrightarrow> contents (snd st') = contents (snd st)" using assms st by (auto split: if_splits)
  assume "pl = Field q i"
  with assms st obtain ob mg where "fmlookup (heap s) q = Some ob" "storage ob = Some mg"
      "st' = (vs, put_object q (ob\<lparr>storage := Some (mg\<lparr>members := (members mg)[i := m]\<rparr>)\<rparr>) s)"
    by (auto simp: with_storage_Inr split: if_splits)
  with st show "\<exists>mg. contents (snd st) q = Some mg \<and> contents (snd st') = (contents (snd st))(q \<mapsto> mg\<lparr>members := (members mg)[i := m]\<rparr>)"
    by (auto simp: contents_def put_object_def fun_eq_iff)
qed

end
