(* ===== verification/Stack_Ops.thy ===== *)
theory Stack_Ops
  imports Stack_Chains
begin

text \<open>
  The operations of the library that the stack uses, over a backend that guards snapshots: that they return, that accounts and guards are kept, and what becomes of the
  variables and of the values of the nodes.
\<close>

declare split_paired_Ex [simp del] split_paired_All [simp del]

locale stack_backend = guarding_client retire derived ctoks cweight clen etoks eweight elen n good M dg eg reader closing slot_of snap
  for retire :: "(('v, 'x, 'e) mm_state, 'c) retire_fn" and derived :: "(('v, 'x, 'e) mm_state, 'c) derived_fn"
    and ctoks cweight clen etoks eweight elen n good and M :: "('c, 'a, 'v, 'x, 'e) backend"
    and dg :: "'k \<Rightarrow> ptr \<Rightarrow> 'c \<Rightarrow> bool" and eg reader closing and slot_of :: "'a \<Rightarrow> 'k option" and snap +
  assumes create_good: "good s \<Longrightarrow> good (mg_create_object M t q v s)"
    and create_value: "\<exists>ob. heap (mg_create_object M t q v s) = fmupd q ob (heap s) \<and> storage ob = Some v"
    and cleared_slot: "slot_of (fst (mg_clear M a s)) = None"
begin

section \<open>Values under the pieces\<close>

abbreviation okay :: "tid \<Rightarrow> ('v, 'x, 'e) mm_state prog \<Rightarrow> bool" where
  "okay t st \<equiv> t < n \<and> good (snd st)"

definition turns :: "tid \<Rightarrow> 'v vmap \<Rightarrow> ('v, 'x, 'e) mm_state prog \<Rightarrow> ('v, 'x, 'e) mm_state prog \<Rightarrow> bool" where
  "turns t g st st' \<longleftrightarrow> okay t st' \<and> contents (snd st') \<subseteq>\<^sub>m contents (snd st) ++ g"

lemma turns_same: "okay t st' \<Longrightarrow> contents (snd st') = contents (snd st) \<Longrightarrow> turns t Map.empty st st'"
  by (simp add: turns_def)

lemma turns_trans:
  "turns t Map.empty st st1 \<Longrightarrow> turns t g st1 st' \<Longrightarrow> turns t g st st'"
  "turns t g st st1 \<Longrightarrow> turns t Map.empty st1 st' \<Longrightarrow> turns t g st st'"
proof -
  assume a: "turns t Map.empty st st1" "turns t g st1 st'"
  then have "contents (snd st1) ++ g \<subseteq>\<^sub>m contents (snd st) ++ g" by (auto simp: turns_def map_le_def map_add_def split: option.splits)
  with a show "turns t g st st'" by (auto simp: turns_def intro: map_le_trans)
next
  assume "turns t g st st1" "turns t Map.empty st1 st'"
  then show "turns t g st st'" by (auto simp: turns_def intro: map_le_trans)
qed

lemma turns_run:
  assumes "run_calls (mm_step retire derived) t cs st = ret st'" and "okay t st"
  shows "turns t Map.empty st st'"
proof -
  from assms(1) have run: "mm_run (mm_step retire derived) t cs (snd st) = Some (Inr (snd st'))"
    by (simp add: run_calls_eq_ret ret_def [of "snd st'"])
  let ?P = "\<lambda>cs s. (t < n \<and> good s) \<and> storage_le s (snd st)"
  have "?P [] (snd st')"
  proof (rule mm_run_invariant [where P = ?P, OF run])
    fix c cs s new s1
    assume P: "?P (c # cs) s" and step: "mm_step retire derived t c s = Inr (new, s1)"
    have "(t < n \<and> good s1) \<and> storage_le s1 s"
    proof -
      consider (retire) q type where "c = C_retire q type" | (derived) d where "c = C_derived d"
        | (base) "\<And>p type. c \<noteq> C_retire p type" "\<And>d. c \<noteq> C_derived d"
        by blast
      then show ?thesis
      proof cases
        case retire
        with step retire_frame [of t s q type new s1] P show ?thesis by (simp add: storage_le_cong)
      next
        case derived
        with step derived_progress [of t s d] P show ?thesis by (auto simp: scheme_progress_def storage_le_cong)
      next
        case base
        from mm_step_storage [OF step base] ext [OF mm_step_more [OF step base], of t] P show ?thesis by blast
      qed
    qed
    with P storage_le_trans show "?P (new @ cs) s1" by blast
  qed (use assms storage_le_refl in blast)
  with contents_storage_le show ?thesis by (auto simp: turns_def)
qed

lemma untouched_still:
  assumes "untouched snap reader eg (\<lambda>t s. t < n \<and> good s) X (snd st) s'" and "okay t st"
  shows "okay t (vs, s') \<and> contents s' = contents (snd st)"
  using assms contents_same by (auto simp: untouched_def)

lemma put_still: "place_put (Var x) m st = Inr st' \<Longrightarrow> okay t st \<Longrightarrow> okay t st' \<and> contents (snd st') = contents (snd st)"
  using place_put_values(1) [of "Var x" m st st'] place_put_values(2) [of "Var x" m st st' x] ext [of "snd st'" "snd st" t] by auto

lemma copy_still:
  assumes "ptr_copy inc q st = ret (r, st')" and "inc = increment_ref_cnt \<or> inc = increment_weak_cnt" and "okay t st"
  shows "okay t st' \<and> contents (snd st') = contents (snd st)"
proof (cases "q = nullptr")
  case False
  with assms(1) obtain b s' where s': "inc q (snd st) = Inr (b, s')" "st' = (fst st, s')"
    by (cases "inc q (snd st)") (auto simp: ptr_copy_def lift_mm_def rbind_eq_ret)
  have "same_values (snd st) s'" "mm.more s' = mm.more (snd st)" using increments_same [of q "snd st" b s'] assms(2) s'(1) by auto
  with s'(2) assms(3) contents_same ext [of s' "snd st" t] show ?thesis by auto
qed (use assms in \<open>simp add: ptr_copy_def\<close>)

lemma load_still:
  assumes "arc_load M t pl st = ret (q, st')" and "okay t st"
  shows "okay t st' \<and> contents (snd st') = contents (snd st)"
proof -
  from assms(1) obtain q0 a s1 st2 where 1: "mg_acquire M t q0 (snd st) = ret (a, s1)"
      "rc_construct (mg_get M a) AddRef_yes (fst st, s1) = ret (q, st2)" "st' = (fst st2, mg_destruct M a (snd st2))"
    by (auto simp: arc_load_def rbind_eq_ret)
  note a = untouched_still [OF conjunct1 [OF acquire_guard [OF 1(1)]] assms(2), where vs = "fst st"]
  note 2 = copy_still [OF 1(2) [unfolded construct_eq rc_copy_def] _ conjunct1 [OF a]]
  have "okay t st2" using 2 by blast
  from untouched_still [OF destruct_guard this, where vs = "fst st2"] 1(3) 2 a show ?thesis by auto
qed

lemma snapshot_still:
  assumes "arc_get_snapshot M t pl st = ret (a, st')" and "okay t st"
  shows "okay t st' \<and> contents (snd st') = contents (snd st)"
proof -
  from assms(1) obtain q s1 where 1: "mg_protect_snapshot M t q (snd st) = ret (a, s1)" "st' = (fst st, s1)"
    by (auto simp: arc_get_snapshot_def rbind_eq_ret)
  from untouched_still [OF conjunct1 [OF protect_guard [OF assms(2) 1(1)]] assms(2), where vs = "fst st"] 1(2) show ?thesis by simp
qed

lemma turns_drop:
  assumes "(if b then run_calls (mm_step retire derived) t cs st else ret st) = ret st'" and "okay t st"
  shows "turns t Map.empty st st'"
  using assms turns_run [of t cs st st'] by (auto simp: turns_same split: if_splits)

lemma turns_snapshot_clear:
  assumes "snapshot_clear M t a st = ret (a', st')" and "okay t st"
  shows "turns t Map.empty st st'"
proof -
  from assms(1) obtain st1 where
    1: "(if \<not> mg_is_protected M a \<and> mg_get M a \<noteq> nullptr then run_calls (mg_step M) t [C_decrement_ref_cnt (mg_get M a)] st else ret st) = ret st1"
      "st' = (fst st1, snd (mg_clear M a (snd st1)))"
    by (auto simp: snapshot_clear_def Let_def rbind_eq_ret case_prod_beta)
  have st1: "turns t Map.empty st st1" using turns_drop [OF 1(1) [unfolded step] assms(2)] .
  then have "okay t st1" by (simp add: turns_def)
  from untouched_still [OF clear_guard this, where vs = "fst st1"] 1(2) have "turns t Map.empty st1 st'"
    by (intro turns_same) auto
  with st1 show ?thesis by (rule turns_trans(1))
qed

lemma turns_cas:
  assumes "arc_cas_copy M t (Var x) e d prot st = ret (b, st')" and "okay t st"
  shows "turns t Map.empty st st'"
proof -
  obtain r s1 where r: "(if \<not> prot then mg_reserve M t d (snd st) else (mg_reserve_nothing M, snd st)) = (r, s1)" by fastforce
  have "untouched snap reader eg (\<lambda>t s. t < n \<and> good s) {} (snd st) (snd st)" by (simp add: untouched_def same_values_heap)
  with r reserve_guard [of "snd st" t d] have u: "untouched snap reader eg (\<lambda>t s. t < n \<and> good s) {} (snd st) s1"
    by (auto split: if_splits)
  note 1 = untouched_still [OF u assms(2), where vs = "fst st"]
  from assms(1) r obtain b1 st2 st3 where
    2: "loc_cas_impl (mm_step retire derived) C_delayed_decrement_ref_cnt M_arc t (Var x) e d (fst st, s1) = ret (b1, st2)"
      "(if b1 \<and> d \<noteq> nullptr then rbind (lift_mm (increment_ref_cnt d) st2) (\<lambda>(_, st3). ret st3) else ret st2) = ret st3"
      "st' = (fst st3, mg_destruct M r (snd st3))"
    by (auto simp: arc_cas_copy_def loc_cas_copy_def step rbind_eq_ret)
  from 2(1) obtain m e' st0 where
    3: "place_put (Var x) m (fst st, s1) = Inr st0" "if b1 then drop_delayed (mm_step retire derived) C_delayed_decrement_ref_cnt t e' st0 = ret st2 else st2 = st0"
    by (auto simp: loc_cas_impl_def atomic_compare_exchange_def rbind_eq_ret case_prod_beta Let_def simp del: place_put.simps split: if_splits)
  note st0 = put_still [OF 3(1) conjunct1 [OF 1]]
  have "turns t Map.empty st0 st2"
    using 3(2) st0 turns_run [of t "[C_delayed_decrement_ref_cnt e']" st0 st2] by (auto simp: drop_delayed_def turns_same split: if_splits)
  then have st2: "turns t Map.empty st st2" "okay t st2" using st0 1 by (auto simp: turns_def)
  have "okay t st3 \<and> contents (snd st3) = contents (snd st2)"
  proof (cases "b1 \<and> d \<noteq> nullptr")
    case True
    with 2(2) have "ptr_copy increment_ref_cnt d st2 = ret (d, st3)" by (auto simp: ptr_copy_def rbind_eq_ret)
    from copy_still [OF this _ st2(2)] show ?thesis by blast
  qed (use 2(2) st2 in auto)
  with untouched_still [OF destruct_guard [of r "snd st3"], of t "fst st3"] 2(3) st2(1) show ?thesis by (auto simp: turns_def)
qed

lemma turns_assign_from:
  assumes "rc_assign_from M t pl q st = ret st'" and "okay t st"
  shows "pl = Var x \<Longrightarrow> turns t Map.empty st st'"
    and "pl = Field p i \<Longrightarrow> \<exists>mg. contents (snd st) p = Some mg \<and> turns t [p \<mapsto> mg\<lparr>members := (members mg)[i := M_rc q]\<rparr>] st st'"
proof -
  from assms(1) obtain m st1 where
    1: "place_put pl (M_rc q) st = Inr st1"
      "(if member_ptr m \<noteq> nullptr then run_calls (mm_step retire derived) t [C_decrement_ref_cnt (member_ptr m)] st1 else ret st1) = ret st'"
    by (auto simp: rc_assign_from_def step ptr_assign_from_def rbind_eq_ret simp del: place_get.simps place_put.simps)
  have ok1: "okay t st1" using place_put_values(1) [OF 1(1)] ext [of "snd st1" "snd st" t] assms(2) by auto
  note drop = turns_drop [OF 1(2) ok1]
  show "turns t Map.empty st st'" if "pl = Var x"
    using place_put_values(2) [OF 1(1) that] drop by (auto simp: turns_def)
  show "\<exists>mg. contents (snd st) p = Some mg \<and> turns t [p \<mapsto> mg\<lparr>members := (members mg)[i := M_rc q]\<rparr>] st st'" if "pl = Field p i"
    using place_put_values(3) [OF 1(1) that] drop by (auto simp: turns_def)
qed

lemma turns_clear:
  assumes "rc_clear M t (Var x) st = ret st'" and "okay t st"
  shows "turns t Map.empty st st'"
proof -
  from assms(1) obtain m st1 where
    1: "(if member_ptr m \<noteq> nullptr then run_calls (mm_step retire derived) t [C_decrement_ref_cnt (member_ptr m)] st else ret st) = ret st1"
      "place_put (Var x) (M_rc nullptr) st1 = Inr st'"
    by (auto simp: rc_clear_def step ptr_clear_def rbind_eq_ret simp del: place_get.simps place_put.simps)
  note drop = turns_drop [OF 1(1) assms(2)]
  then have "okay t st1" by (simp add: turns_def)
  from put_still [OF 1(2) this] drop show ?thesis by (auto simp: turns_def)
qed

section \<open>Whole operations\<close>

definition sound :: "('a, ('v, 'x, 'e) mm_state) client \<Rightarrow> bool" where
  "sound c \<longleftrightarrow> client_ok M etoks good c \<and> snapshots_guarded c"

definition effect :: "'v vmap \<Rightarrow> ('a, ('v, 'x, 'e) mm_state) client \<Rightarrow> ('a, ('v, 'x, 'e) mm_state) client \<Rightarrow> bool" where
  "effect g c c' \<longleftrightarrow> sound c' \<and> contents (snd (snd c')) \<subseteq>\<^sub>m contents (snd (snd c)) ++ g"

lemma sound_okay: "sound c \<Longrightarrow> t < n \<Longrightarrow> okay t (snd c)"
  by (simp add: sound_def client_ok_def)

lemma effect_turns: "sound c' \<Longrightarrow> turns t g (snd c) (snd c') \<Longrightarrow> effect g c c'"
  by (simp add: effect_def turns_def)

lemma exec_effect:
  assumes "sound c" and "t < n" and "enabled op c" and "defers op"
    and "\<And>c'. exec M t op c = ret c' \<Longrightarrow> turns t g (snd c) (snd c')"
  shows "\<exists>c'. exec M t op c = ret c' \<and> effect g c c' \<and> gc_step op (\<lambda>l. loc_ptr l (snd c)) (fst (snd c)) (fst (snd c'))"
proof -
  from exec_ok [of c t op] assms(1-3) obtain c' where c': "exec M t op c = ret c'" "client_ok M etoks good c'"
      "gc_step op (\<lambda>l. loc_ptr l (snd c)) (fst (snd c)) (fst (snd c'))" by (auto simp: sound_def)
  with exec_guarded [OF _ assms(2-4) c'(1)] assms(1) effect_turns [OF _ assms(5)] show ?thesis by (auto simp: sound_def)
qed

lemma load_turns:
  assumes "okay t st" and "exec_prog M t (Op_load x l) st = ret st'"
  shows "turns t Map.empty st st'"
proof -
  from assms(2) obtain p st1 where 1: "arc_load M t l st = ret (p, st1)" "rc_assign_from M t (Var x) p st1 = ret st'"
    by (auto simp: rbind_eq_ret)
  from load_still [OF 1(1) assms(1)] turns_assign_from(1) [OF 1(2), of x] show ?thesis by (auto simp: turns_def)
qed

lemma load_effect:
  assumes "sound (sn, st)" and "t < n" and "enabled (Op_load x l) (sn, st)"
  shows "\<exists>st'. exec M t (Op_load x l) (sn, st) = ret (sn, st') \<and> effect Map.empty (sn, st) (sn, st') \<and>
    fst st' = (fst st)[x := M_rc (loc_ptr l st)]"
proof -
  have "okay t st" using sound_okay [OF assms(1,2)] by simp
  then have "turns t Map.empty (snd (sn, st)) (snd c')" if "exec M t (Op_load x l) (sn, st) = ret c'" for c'
    using that load_turns [of t st x l] by (auto simp: rbind_eq_ret simp del: exec_prog.simps)
  from exec_effect [OF assms _ this] show ?thesis by (auto simp: rbind_eq_ret simp del: exec_prog.simps)
qed

lemma clear_effect:
  assumes "sound (sn, st)" and "t < n" and "enabled (Op_clear x) (sn, st)"
  shows "\<exists>st'. exec M t (Op_clear x) (sn, st) = ret (sn, st') \<and> effect Map.empty (sn, st) (sn, st') \<and>
    fst st' = (fst st)[x := M_rc nullptr]"
proof -
  have "turns t Map.empty (snd (sn, st)) (snd c')" if "exec M t (Op_clear x) (sn, st) = ret c'" for c'
    using that turns_clear [of t x st] sound_okay [OF assms(1,2)] by (auto simp: rbind_eq_ret)
  from exec_effect [OF assms _ this] show ?thesis by (auto simp: rbind_eq_ret)
qed

lemma make_effect:
  assumes "sound (sn, st)" and "t < n" and en: "enabled (Op_make x q v [y] []) (sn, st)" and y: "place_get (Var y) st = Inr (M_rc p)"
  shows "\<exists>st'. exec M t (Op_make x q v [y] []) (sn, st) = ret (sn, st') \<and>
    effect [q \<mapsto> \<lparr>payload = v, members = [M_rc p]\<rparr>] (sn, st) (sn, st') \<and> fst st' = (fst st)[y := M_rc nullptr, x := M_rc q]"
proof -
  let ?g = "[q \<mapsto> \<lparr>payload = v, members = [M_rc p]\<rparr>]"
  have "turns t ?g st st'" if run: "exec_prog M t (Op_make x q v [y] []) st = ret st'" for st'
  proof -
    from run y obtain st1 s2 where
      1: "place_put (Var y) (M_rc nullptr) st = Inr st1" "s2 = mg_create_object M t q \<lparr>payload = v, members = [M_rc p]\<rparr> (snd st1)"
        "rc_assign_from M t (Var x) q (fst st1, s2) = ret st'"
      by (auto simp: rbind_eq_ret rc_move_def rc_release_def ptr_release_def rc_make_shared_def rc_construct_def simp del: place_get.simps place_put.simps)
    have ok1: "okay t st1 \<and> contents (snd st1) = contents (snd st)"
      using put_still [OF 1(1), of t] sound_okay [OF assms(1,2)] by simp
    obtain ob where ob: "heap s2 = fmupd q ob (heap (snd st1))" "storage ob = Some \<lparr>payload = v, members = [M_rc p]\<rparr>"
      using create_value [of t q "\<lparr>payload = v, members = [M_rc p]\<rparr>" "snd st1"] 1(2) by blast
    then have "contents s2 = contents (snd st1) ++ ?g" by (auto simp: contents_def fun_eq_iff)
    moreover have "okay t (fst st1, s2)"
      using ok1 create_good 1(2) by simp
    ultimately show ?thesis using turns_assign_from(1) [OF 1(3), of x] ok1 by (auto simp: turns_def)
  qed
  then have "turns t ?g (snd (sn, st)) (snd c')" if "exec M t (Op_make x q v [y] []) (sn, st) = ret c'" for c'
    using that by (auto simp: rbind_eq_ret simp del: exec_prog.simps)
  from exec_effect [OF assms(1-3) _ this] show ?thesis by (auto simp: rbind_eq_ret null_out_def simp del: exec_prog.simps)
qed

lemma snapshot_effect:
  assumes "sound (sn, st)" and "t < n" and en: "enabled (Op_snapshot i l) (sn, st)"
  shows "\<exists>a st'. exec M t (Op_snapshot i l) (sn, st) = ret (sn[i := a], st') \<and> effect Map.empty (sn, st) (sn[i := a], st') \<and>
    fst st' = fst st \<and> mg_get M a = loc_ptr l st"
proof -
  have ok: "okay t st" "prog_ok etoks (snapshots_tokens M sn) st"
    using sound_okay [OF assms(1,2)] assms(1) by (simp_all add: sound_def client_ok_def)
  from en obtain p where p: "place_get l st = Inr (M_arc p)" "room_strong p st" by (auto simp: typed_iff loc_ptr_eq)
  have pieces: "\<exists>a st1 a' st'. arc_get_snapshot M t l st = ret (a, st1) \<and> snapshot_clear M t (sn ! i) st1 = ret (a', st') \<and> c' = (sn[i := a], st')"
    if "exec M t (Op_snapshot i l) (sn, st) = ret c'" for c'
    using that by (auto simp: rbind_eq_ret snapshot_move_assign_def)
  have "turns t Map.empty (snd (sn, st)) (snd c')" if run: "exec M t (Op_snapshot i l) (sn, st) = ret c'" for c'
  proof -
    from pieces [OF run] obtain a st1 a' st' where 1: "arc_get_snapshot M t l st = ret (a, st1)" "snapshot_clear M t (sn ! i) st1 = ret (a', st')"
      "c' = (sn[i := a], st')" by blast
    from snapshot_still [OF 1(1) ok(1)] turns_snapshot_clear [OF 1(2)] 1(3) show ?thesis by (auto simp: turns_def)
  qed
  from exec_effect [OF assms _ this] obtain c' where
    c': "exec M t (Op_snapshot i l) (sn, st) = ret c'" "effect Map.empty (sn, st) c'" "fst (snd c') = fst st" by auto
  from pieces [OF c'(1)] arc_get_snapshot_ok [OF ok p(1)] p loc_ptr_eq [OF p(1)] c' show ?thesis
    by (auto simp: room_strong_def)
qed

text \<open>An operation on locations and variables keeps snapshots guarded if it keeps every guard.\<close>

lemma guards_kept:
  assumes "snapshots_guarded (sn, st)" and "okay t st"
    and "\<And>k p. guard_inv t k p (map kind_of (fst st)) [] st \<Longrightarrow> snap k \<Longrightarrow> guard_inv t k p (map kind_of (fst st)) [] st'"
  shows "snapshots_guarded (sn, st')"
proof -
  have "guard_inv t k p (map kind_of (fst st')) [] st'" if "guard_inv u k p (map kind_of (fst st)) [] st" "snap k" for u k p
    using assms(3) [OF guard_thread [OF that(1) assms(2)] that(2)] guard_kinds by metis
  with assms(1) show ?thesis unfolding snapshots_guarded_def by (metis fst_conv snd_conv)
qed

lemma guard_cas:
  assumes "guard_inv t k p ks [] st" and "snap k" and "place_get pl st = Inr (M_arc old)" and "arc_cas_copy M t pl e d prot st = ret (b, st')"
  shows "guard_inv t k p ks [] st'"
  using assms(4) unfolding arc_cas_copy_def
  by (rule guard_cas_copy [OF assms(1,2), rotated]) (use assms(3) guard_cas_impl(1) in auto)

lemma guard_assign_place:
  assumes "guard_inv t k p ks [] st" and "rc_assign_from M t pl q st = ret st'" and "\<And>m. place_get pl st = Inr m \<Longrightarrow> kind_of m = K_rc"
  shows "guard_inv t k p ks [] st'"
proof -
  from assms(2) obtain m st1 where
    1: "place_get pl st = Inr m" "place_put pl (M_rc q) st = Inr st1"
      "(if member_ptr m \<noteq> nullptr then run_calls (mm_step retire derived) t [C_decrement_ref_cnt (member_ptr m)] st1 else ret st1) = ret st'"
    by (auto simp: rc_assign_from_def step ptr_assign_from_def rbind_eq_ret simp del: place_get.simps place_put.simps)
  have "guard_inv t k p ks [] st1"
    by (rule guard_put [OF assms(1) 1(1,2)]) (use assms(3) [OF 1(1)] in \<open>auto simp: plain_def\<close>)
  from guard_drop [OF this 1(3)] show ?thesis by blast
qed

lemma field_contents:
  "place_get (Field p i) st = Inr m \<longleftrightarrow> (\<exists>mg. contents (snd st) p = Some mg \<and> i < length (members mg) \<and> members mg ! i = m)"
  by (cases st) (auto simp: with_storage_Inr contents_eq_Some split: if_splits)

text \<open>\<^verbatim>\<open>head.compare_exchange_weak(new_node->next, new_node)\<close>\<close>

lemma push_cas_effect:
  assumes snd: "sound (sn, (vs, s))" and t: "t < n" and hd: "0 < length vs" "vs ! 0 = M_arc h" and x: "x < length vs" "vs ! x = M_rc p"
    and p: "contents s p = Some \<lparr>payload = v, members = [M_rc e]\<rparr>" "p \<noteq> nullptr"
    and room: "\<And>q. q \<in> fset (fmdom (heap s)) \<Longrightarrow> strong_room q s"
  shows "\<exists>st'. arc_compare_exchange_weak M t (Var 0) (Field p 0) p (vs, s) = ret (h = e, st') \<and>
    (if h = e then fst st' = vs[0 := M_arc p] \<and> effect Map.empty (sn, (vs, s)) (sn, st')
     else fst st' = vs \<and> effect [p \<mapsto> \<lparr>payload = v, members = [M_rc h]\<rparr>] (sn, (vs, s)) (sn, st'))"
proof -
  let ?R = "snapshots_tokens M sn"
  have ok: "t < n \<and> good s" "prog_ok etoks ?R (vs, s)" using snd t by (simp_all add: sound_def client_ok_def)
  have get: "place_get (Field p 0) (vs, s) = Inr (M_rc e)" using p by (simp add: field_contents del: place_get.simps)
  have "x \<noteq> 0" using hd x by (cases x) auto
  then have "(T_strong, p) \<in># members_tokens (vs[0 := M_arc nullptr])"
    using x p(2) members_tokens_nth [of x "vs[0 := M_arc nullptr]" "(T_strong, p)"] by simp
  moreover have "p \<in> fset (fmdom (heap s))" using p(1) by (auto simp: contents_eq_Some intro: fmdomI)
  moreover have "h \<in> fset (fmdom (heap s))" if "h \<noteq> nullptr"
  proof -
    have "(T_strong, h) \<in># ?R + members_tokens vs + etoks s + heap_tokens s"
      using that hd members_tokens_nth [of 0 vs "(T_strong, h)"] by simp
    from token_object [OF ok(2) [unfolded prog_ok_def, simplified] this] show ?thesis by (auto intro: fmdomI)
  qed
  ultimately have pre: "p \<noteq> nullptr \<Longrightarrow> (T_strong, p) \<in># ?R + members_tokens (vs[0 := M_arc nullptr]) \<and> strong_room p s"
      "h \<noteq> nullptr \<Longrightarrow> strong_room h s" using room by auto
  from compare_exchange_weak_ok [OF ok hd get _ pre] obtain st' where
    st': "arc_compare_exchange_weak M t (Var 0) (Field p 0) p (vs, s) = ret (h = e, st')" "okay t st'" "prog_ok etoks ?R st'"
      "fst st' = (if h = e then vs[0 := M_arc p] else vs)" unfolding put_vars.simps by blast
  from st'(1) get obtain st1 where
    1: "arc_cas_copy M t (Var 0) e p False (vs, s) = ret (h = e, st1)"
      "if h = e then st' = st1 else \<exists>q st2. arc_load M t (Var 0) st1 = ret (q, st2) \<and> rc_assign_from M t (Field p 0) q st2 = ret st'"
    by (auto simp: arc_compare_exchange_weak_def rbind_eq_ret simp del: place_get.simps split: if_splits)
  note t1 = turns_cas [OF 1(1)]
  have okay: "okay t (vs, s)" using ok by simp
  have arc: "place_get (Var 0) (vs, s) = Inr (M_arc h)" using hd by simp
  show ?thesis
  proof (cases "h = e")
    case True
    have "snapshots_guarded (sn, st')"
      by (rule guards_kept [OF _ okay]) (use snd guard_cas [OF _ _ arc 1(1)] 1(2) True in \<open>auto simp: sound_def\<close>)
    with st' True t1 [OF okay] 1(2) show ?thesis by (auto simp: sound_def client_ok_def intro!: effect_turns)
  next
    case False
    with 1(2) obtain q st2 where 2: "arc_load M t (Var 0) st1 = ret (q, st2)" "rc_assign_from M t (Field p 0) q st2 = ret st'" by auto
    from cas_ok [OF ok hd pre(1), of e False] 1(1) False have st1: "fst st1 = vs" "okay t st1" "prog_ok etoks ?R st1" "heap (snd st1) = heap s"
      by auto
    have arc1: "place_get (Var 0) st1 = Inr (M_arc h)" using hd st1(1) by (cases st1) simp
    have "h \<noteq> nullptr \<Longrightarrow> strong_room h (snd st1)" using pre(2) st1(4) by (simp add: strong_room_def)
    from arc_load_ok [OF st1(2,3) arc1 this] 2(1) have "q = h" by auto
    note l2 = load_still [OF 2(1) st1(2)]
    have c2: "contents (snd st2) = contents s" using l2 contents_heap [OF st1(4)] by simp
    have kind: "kind_of m = K_rc" if "place_get (Field p 0) st2 = Inr m" for m
      using that c2 p(1) by (auto simp: field_contents simp del: place_get.simps)
    have "snapshots_guarded (sn, st')"
    proof (rule guards_kept [OF _ okay])
      fix k r assume g: "guard_inv t k r (map kind_of (fst (vs, s))) [] (vs, s)" "snap k"
      from guard_assign_place [OF guard_arc_load [OF guard_cas [OF g arc 1(1)] g(2) 2(1)] 2(2) kind]
      show "guard_inv t k r (map kind_of (fst (vs, s))) [] st'" .
    qed (use snd in \<open>simp add: sound_def\<close>)
    moreover from turns_assign_from(2) [OF 2(2) conjunct1 [OF l2], of p 0] c2 p(1) \<open>q = h\<close>
    have "turns t [p \<mapsto> \<lparr>payload = v, members = [M_rc h]\<rparr>] (vs, s) st'" by (auto simp: turns_def)
    ultimately show ?thesis using st' False by (auto simp: sound_def client_ok_def intro!: effect_turns)
  qed
qed

text \<open>What keeps a snapshot's object alive.\<close>

lemma guard_alive:
  assumes "guard_inv u k p ks [] st" and "prog_ok etoks R st"
  shows "contents (snd st) p \<noteq> None"
proof -
  have mm: "mm_ok (R + members_tokens (fst st) + calls_tokens ctoks [] + etoks (snd st)) (snd st)" using assms(2) by (simp add: prog_ok_def)
  from assms(1) consider "M_arc p \<in> set (fst st)" | "guarded (dg k p) (eg k p) p [] (snd st)" by (auto simp: guard_inv_def)
  then show ?thesis
  proof cases
    case 1
    then obtain j where "j < length (fst st)" "fst st ! j = M_arc p" by (auto simp: in_set_conv_nth)
    with members_tokens_nth [of j "fst st" "(T_strong, p)"] assms(1) have "(T_strong, p) \<in># members_tokens (fst st)" by (auto simp: guard_inv_def)
    with alive_token [OF mm, of p] show ?thesis by simp
  next
    case 2
    from guarded_alive [OF mm 2] assms(1) obtain ob where "fmlookup (heap (snd st)) p = Some ob" "storage ob \<noteq> None"
      unfolding guard_inv_def by blast
    then show ?thesis by (simp add: contents_def)
  qed
qed

lemma snapshot_alive:
  assumes "sound (sn, st)" and "i < length sn"
  shows "alive (contents (snd st)) (mg_get M (sn ! i))"
proof -
  from snapshot_valid [of "(sn, st)" i] assms have "mg_get M (sn ! i) \<noteq> nullptr \<Longrightarrow> \<exists>m. snapshot_deref M (sn ! i) st = Inr m"
    by (simp add: sound_def)
  then have "mg_get M (sn ! i) \<noteq> nullptr \<Longrightarrow> \<exists>m. contents (snd st) (mg_get M (sn ! i)) = Some m"
    by (auto simp: snapshot_deref_def with_storage_Inr contents_eq_Some)
  then show ?thesis by (auto simp: alive_def)
qed

lemma link_token:
  assumes "contents s p = Some mg" and "M_rc d \<in> set (members mg)" and "d \<noteq> nullptr"
  shows "(T_strong, d) \<in># heap_tokens s"
proof -
  from assms(1) obtain ob where ob: "fmlookup (heap s) p = Some ob" "storage ob = Some mg" by (auto simp: contents_eq_Some)
  then have "(T_strong, d) \<in># object_tokens ob"
    using assms(2,3) by (auto simp: object_tokens_def in_set_conv_nth intro: members_tokens_nth)
  with fmsum_split [OF ob(1), of object_tokens] show ?thesis by (simp add: heap_tokens_def)
qed

text \<open>The exchange of \<^verbatim>\<open>pop_front\<close>: the node that the snapshot keeps alive keeps its successor alive until it is counted.\<close>

lemma pop_cas_ok:
  assumes sound: "sound (sn, (vs, s))" and t: "t < n" and hd: "0 < length vs" "vs ! 0 = M_arc h" and i: "i < length sn" "mg_get M (sn ! i) = p"
    and p: "contents s p = Some mg" "p \<noteq> nullptr" "M_rc d \<in> set (members mg)" and room: "d \<noteq> nullptr \<Longrightarrow> strong_room d s"
  shows "\<exists>s'. arc_cas_copy M t (Var 0) p d False (vs, s) = ret (h = p, (if h = p then vs[0 := M_arc d] else vs, s')) \<and>
    (t < n \<and> good s') \<and> prog_ok etoks (snapshots_tokens M sn) (if h = p then vs[0 := M_arc d] else vs, s') \<and> (h \<noteq> p \<longrightarrow> heap s' = heap s)"
proof -
  let ?R = "snapshots_tokens M sn" and ?vs0 = "vs[0 := M_arc nullptr]" and ?s1 = "snd (mg_reserve M t d s)"
  have ok: "t < n \<and> good s" "prog_ok etoks ?R (vs, s)" and g: "snapshots_guarded (sn, (vs, s))"
    using sound t by (simp_all add: sound_def client_ok_def)
  have u: "untouched snap reader eg (\<lambda>t s. t < n \<and> good s) {} s ?s1" using reserve_guard by blast
  have s1: "t < n \<and> good ?s1" "contents ?s1 = contents s" using untouched_still [of "{}" "(vs, s)" ?s1 t vs] u ok(1) by auto
  show ?thesis
  proof (rule cas_owner_ok [OF ok hd room])
    fix s2 assume "h = p" and drop: "drop_delayed (mm_step retire derived) C_delayed_decrement_ref_cnt t h
        (?vs0, snd (if \<not> False then mg_reserve M t d s else (mg_reserve_nothing M, s))) = ret (?vs0, s2)"
      and ok2: "prog_ok etoks ?R (?vs0, s2)" and d: "d \<noteq> nullptr"
    then have drop: "drop_delayed (mm_step retire derived) C_delayed_decrement_ref_cnt t p (?vs0, ?s1) = ret (?vs0, s2)" by simp
    have "contents s2 p \<noteq> None"
    proof (cases "announced_snapshot M (sn ! i)")
      case True
      with g i obtain k u where k: "snap k" "guard_inv u k p (map kind_of vs) [] (vs, s)" by (auto simp: snapshots_guarded_def)
      have "guard_inv t k p (map kind_of vs) [] (vs, ?s1)"
        using guard_untouched [OF guard_thread [OF k(2), of t] _ k(1), of "{}" ?s1] u ok(1) by simp
      from guard_exchange [OF this, of "Var 0" p nullptr] hd \<open>h = p\<close>
      have "guard_inv t k p (map kind_of vs) (if p = nullptr then [] else [C_delayed_decrement_ref_cnt p]) (?vs0, ?s1)" by simp
      from guard_alive [OF guard_drop_delayed [OF this drop] ok2] show ?thesis by simp
    next
      case False
      with i p(2) have "(T_strong, p) \<in># snapshot_tokens M (sn ! i)" by (auto simp: snapshot_tokens_def announced_snapshot_def)
      with snapshots_tokens_nth [OF i(1)] have "(T_strong, p) \<in># ?R" by blast
      with alive_token [of "?R + members_tokens ?vs0 + etoks s2" s2 p] ok2 show ?thesis by (simp add: prog_ok_def)
    qed
    moreover have "turns t Map.empty (?vs0, ?s1) (?vs0, s2)"
      using drop turns_run [of t "[C_delayed_decrement_ref_cnt p]" "(?vs0, ?s1)" "(?vs0, s2)"] p(2) s1(1) by (simp add: drop_delayed_def)
    ultimately have "contents s2 p = contents ?s1 p" unfolding turns_def map_le_def by (metis domIff map_add_empty snd_conv)
    then have "contents s2 p = Some mg" using p(1) s1(2) by simp
    from link_token [OF this p(3) d] show "(T_strong, d) \<in># ?R + members_tokens ?vs0 + etoks s2 + heap_tokens s2" by simp
  qed
qed

lemma pop_cas_effect:
  assumes sound: "sound (sn, (vs, s))" and t: "t < n" and hd: "0 < length vs" "vs ! 0 = M_arc h" and i: "i < length sn" "mg_get M (sn ! i) = p"
    and p: "contents s p = Some mg" "p \<noteq> nullptr" "M_rc d \<in> set (members mg)"
    and room: "\<And>q. q \<in> fset (fmdom (heap s)) \<Longrightarrow> strong_room q s"
  shows "\<exists>a st'. arc_compare_exchange_weak_snapshot M t (Var 0) (sn ! i) d (vs, s) = ret (h = p, a, st') \<and>
    (if h = p then a = sn ! i \<and> fst st' = vs[0 := M_arc d] else fst st' = vs \<and> mg_get M a = h) \<and>
    effect Map.empty (sn, (vs, s)) (sn[i := a], st')"
proof -
  let ?R = "snapshots_tokens M sn"
  have ok: "okay t (vs, s)" "prog_ok etoks ?R (vs, s)" and g: "snapshots_guarded (sn, (vs, s))"
    using sound t by (simp_all add: sound_def client_ok_def)
  have mm: "mm_ok (?R + members_tokens vs + etoks s) s" using ok(2) by (simp add: prog_ok_def)
  have rooms: "strong_room q s" if "(T_strong, q) \<in># ?R + members_tokens vs + etoks s + heap_tokens s" for q
    using token_object [OF mm that] room by (auto intro: fmdomI)
  have d: "d \<noteq> nullptr \<Longrightarrow> strong_room d s" using link_token [OF p(1,3)] by (intro rooms) simp
  from pop_cas_ok [OF sound t hd i p d] obtain s1 where
    s1: "arc_cas_copy M t (Var 0) p d False (vs, s) = ret (h = p, (if h = p then vs[0 := M_arc d] else vs, s1))" "t < n \<and> good s1"
      "prog_ok etoks ?R (if h = p then vs[0 := M_arc d] else vs, s1)" "h \<noteq> p \<longrightarrow> heap s1 = heap s" by blast
  have arc: "place_get (Var 0) (vs, s) = Inr (M_arc h)" using hd by simp
  let ?st1 = "(if h = p then vs[0 := M_arc d] else vs, s1)"
  have "snapshots_guarded (sn, ?st1)"
    by (rule guards_kept [OF g ok(1)]) (rule guard_cas [OF _ _ arc s1(1)])
  then have snd1: "sound (sn, ?st1)" using s1(2,3) by (simp add: sound_def client_ok_def)
  note t1 = turns_cas [OF s1(1) ok(1)]
  show ?thesis
  proof (cases "h = p")
    case True
    with s1(1) i have "arc_compare_exchange_weak_snapshot M t (Var 0) (sn ! i) d (vs, s) = ret (True, sn ! i, ?st1)"
      by (simp add: arc_compare_exchange_weak_snapshot_def snapshot_get_counted_def)
    moreover from snd1 t1 have "effect Map.empty (sn, (vs, s)) (sn[i := sn ! i], ?st1)" by (simp add: effect_turns)
    ultimately show ?thesis using True by auto
  next
    case False
    have "strong_room h s" if "h \<noteq> nullptr"
      using that hd members_tokens_nth [of 0 vs "(T_strong, h)"] by (intro rooms) simp
    then have "room_strong h (vs, s1)" using s1(4) False by (auto simp: room_strong_def strong_room_def)
    then have "enabled (Op_snapshot i (Var 0)) (sn, (vs, s1))" using hd i by (simp add: typed_def loc_ptr_def)
    from snapshot_effect [OF _ t this] snd1 False obtain a st' where
      st': "exec M t (Op_snapshot i (Var 0)) (sn, (vs, s1)) = ret (sn[i := a], st')" "effect Map.empty (sn, (vs, s1)) (sn[i := a], st')"
        "fst st' = vs" "mg_get M a = h" using hd by (auto simp: loc_ptr_def)
    from st'(1) obtain a1 st2 a' st3 where 2: "arc_get_snapshot M t (Var 0) (vs, s1) = ret (a1, st2)" "snapshot_clear M t (sn ! i) st2 = ret (a', st3)"
        "sn[i := a1] = sn[i := a]" "st3 = st'"
      by (auto simp: rbind_eq_ret snapshot_move_assign_def)
    have "a1 = a" using 2(3) i(1) by (metis nth_list_update_eq)
    with 2 s1(1) i(2) False have "arc_compare_exchange_weak_snapshot M t (Var 0) (sn ! i) d (vs, s) = ret (False, a, st')"
      by (simp add: arc_compare_exchange_weak_snapshot_def snapshot_get_counted_def snapshot_move_assign_def)
    moreover have "effect Map.empty (sn, (vs, s)) (sn[i := a], st')" using st'(2) contents_heap [of s1 s] s1(4) False by (simp add: effect_def)
    ultimately show ?thesis using False st'(3,4) by auto
  qed
qed

text \<open>The end of a snapshot.\<close>

lemma snapshot_end_effect:
  assumes sound: "sound (sn, st)" and t: "t < n" and i: "i < length sn"
  shows "\<exists>st'. snapshot_dtor M t (sn ! i) st = ret st' \<and> fst st' = fst st \<and> effect Map.empty (sn, st) (sn[i := snapshot_empty M], st')"
proof -
  have en: "enabled (Op_snapshot_clear i) (sn, st)" using i by simp
  have ok: "okay t st" using sound_okay [OF sound t] by simp
  have "turns t Map.empty (snd (sn, st)) (snd c')" if "exec M t (Op_snapshot_clear i) (sn, st) = ret c'" for c'
    using that turns_snapshot_clear [OF _ ok] by (auto simp: rbind_eq_ret)
  from exec_effect [OF sound t en _ this] obtain a' st1 where
    1: "snapshot_clear M t (sn ! i) st = ret (a', st1)" "effect Map.empty (sn, st) (sn[i := a'], st1)" "fst st1 = fst st"
    by (auto simp: rbind_eq_ret)
  let ?st = "(fst st1, mg_destruct M a' (snd st1))" and ?sn = "sn[i := snapshot_empty M]"
  have slot: "slot_of a' = None" and null: "mg_get M a' = nullptr" using 1(1) cleared_slot clear(2)
    by (auto simp: snapshot_clear_def Let_def rbind_eq_ret case_prod_beta)
  have e: "mg_get M (snapshot_empty M) = nullptr" by (simp add: snapshot_empty_def empty_snapshot)
  have s1: "client_ok M etoks good (sn[i := a'], st1)" "snapshots_guarded (sn[i := a'], st1)"
      "contents (snd st1) \<subseteq>\<^sub>m contents (snd st)"
    using 1(2) by (simp_all add: effect_def sound_def)
  then have ok1: "okay t st1" using t by (simp add: client_ok_def)
  have u: "okay t ?st \<and> contents (snd ?st) = contents (snd st1)" using untouched_still [OF destruct_guard ok1] by simp
  have "snapshot_tokens M a' = {#}" "snapshot_tokens M (snapshot_empty M) = {#}" using null e by (simp_all add: snapshot_tokens_def)
  then have "snapshots_tokens M ?sn = snapshots_tokens M (sn[i := a'])"
    using snapshots_tokens_update [OF i, of M a'] snapshots_tokens_update [OF i, of M "snapshot_empty M"] by (metis add_right_cancel)
  with s1(1) quiet_prog [of etoks "\<lambda>t s. t < n \<and> good s" st1, OF destruct] u have "client_ok M etoks good (?sn, ?st)" by (simp add: client_ok_def)
  moreover have "snapshots_guarded (sn[i := a', i := snapshot_empty M], ?st)"
  proof (rule snapshots_guarded_update [OF s1(2)])
    fix j k u assume "snap k" and g: "guard_inv u k (mg_get M (sn[i := a'] ! j)) (map kind_of (fst st1)) [] st1"
    from guard_untouched [OF g destruct_guard [of a'] this(1)] slot show "\<exists>u. guard_inv u k (mg_get M (sn[i := a'] ! j)) (map kind_of (fst st1)) [] ?st"
      by auto
  qed (use i e in \<open>simp_all add: announced_snapshot_def\<close>)
  ultimately have "effect Map.empty (sn, st) (?sn, ?st)" using s1(3) u by (simp add: effect_def sound_def)
  with 1(1,3) show ?thesis by (auto simp: snapshot_dtor_def)
qed

end

end
