(* ===== verification/Stack_Linear.thy ===== *)
theory Stack_Linear
  imports Stack_Ops
begin

text \<open>
  The concurrent stack refines the atomic stack: every step of a thread returns, and it is either invisible or the one moment at which its operation has its effect, the
  successful exchange of \<^verbatim>\<open>push_front\<close> and \<^verbatim>\<open>pop_front\<close>, the snapshot of \<^verbatim>\<open>front\<close>, \<^verbatim>\<open>find\<close> and of a \<^verbatim>\<open>pop_front\<close> that finds the
  stack empty. The invariant \<open>stack_inv\<close> relates a state to a state of the atomic stack.
\<close>

declare split_paired_Ex [simp del] split_paired_All [simp del]

section \<open>Variables\<close>

lemma var_simps [simp]:
  "tmp_var t = tmp_var u \<longleftrightarrow> t = u" "new_var t = new_var u \<longleftrightarrow> t = u" "tmp_var t \<noteq> new_var u" "new_var u \<noteq> tmp_var t"
  "tmp_var t \<noteq> 0" "new_var t \<noteq> 0" "0 < tmp_var t" "0 < new_var t"
  by (simp_all add: tmp_var_def new_var_def) presburger+

lemma var_ptr_update:
  "fst st' = (fst st)[y := m] \<Longrightarrow> y < length (fst st) \<Longrightarrow> var_ptr x st' = (if x = y then member_ptr m else var_ptr x st)"
  by (simp add: var_ptr_def)

context stack_backend
begin

abbreviation head :: "('a, ('v, 'x, 'e) mm_state) client \<Rightarrow> ptr" where "head c \<equiv> var_ptr 0 (snd c)"
abbreviation tmp :: "('a, ('v, 'x, 'e) mm_state) client \<Rightarrow> tid \<Rightarrow> ptr" where "tmp c t \<equiv> var_ptr (tmp_var t) (snd c)"
abbreviation new :: "('a, ('v, 'x, 'e) mm_state) client \<Rightarrow> tid \<Rightarrow> ptr" where "new c t \<equiv> var_ptr (new_var t) (snd c)"
abbreviation ss :: "('a, ('v, 'x, 'e) mm_state) client \<Rightarrow> tid \<Rightarrow> ptr" where "ss c t \<equiv> mg_get M (fst c ! t)"
abbreviation cont :: "('a, ('v, 'x, 'e) mm_state) client \<Rightarrow> 'v vmap" where "cont c \<equiv> contents (snd (snd c))"

definition layout :: "('a, ('v, 'x, 'e) mm_state) client \<Rightarrow> bool" where
  "layout c \<longleftrightarrow> length (fst c) = n \<and> map kind_of (fst (snd c)) = K_arc # replicate (2 * n) K_rc"

lemma layout_length: "layout c \<Longrightarrow> length (fst (snd c)) = Suc (2 * n)"
  unfolding layout_def by (metis length_Cons length_map length_replicate)

lemma kind_rc: "kind_of m = K_rc \<Longrightarrow> m = M_rc (member_ptr m)"
  by (cases m) simp_all

lemma kind_arc: "kind_of m = K_arc \<Longrightarrow> m = M_arc (member_ptr m)"
  by (cases m) simp_all

lemma layout_nth:
  assumes "layout c" and "i < Suc (2 * n)"
  shows "kind_of (fst (snd c) ! i) = (if i = 0 then K_arc else K_rc)"
proof -
  have "map kind_of (fst (snd c)) ! i = kind_of (fst (snd c) ! i)" using assms layout_length [OF assms(1)] by simp
  then show ?thesis using assms by (cases i) (simp_all add: layout_def)
qed

lemma layout_vars:
  assumes "layout c"
  shows "0 < length (fst (snd c))" "fst (snd c) ! 0 = M_arc (head c)"
    and "t < n \<Longrightarrow> tmp_var t < length (fst (snd c)) \<and> fst (snd c) ! tmp_var t = M_rc (tmp c t)"
    and "t < n \<Longrightarrow> new_var t < length (fst (snd c)) \<and> fst (snd c) ! new_var t = M_rc (new c t)"
proof -
  note len = layout_length [OF assms] and nth = layout_nth [OF assms]
  show "0 < length (fst (snd c))" using len by simp
  show "fst (snd c) ! 0 = M_arc (head c)" using kind_arc [of "fst (snd c) ! 0"] nth [of 0] len by (simp add: var_ptr_def)
  show "tmp_var t < length (fst (snd c)) \<and> fst (snd c) ! tmp_var t = M_rc (tmp c t)" if "t < n"
    using kind_rc [of "fst (snd c) ! tmp_var t"] nth [of "tmp_var t"] len that by (simp add: var_ptr_def tmp_var_def)
  show "new_var t < length (fst (snd c)) \<and> fst (snd c) ! new_var t = M_rc (new c t)" if "t < n"
    using kind_rc [of "fst (snd c) ! new_var t"] nth [of "new_var t"] len that by (simp add: var_ptr_def new_var_def)
qed

lemma layout_update:
  assumes "layout (sn, st)" and "kind_of m = kind_of (fst st ! i)" and "length sn' = length sn" and "fst st' = (fst st)[i := m]"
  shows "layout (sn', st')"
proof -
  have "map kind_of ((fst st)[i := m]) = map kind_of (fst st)" using assms(2)
    by (cases "i < length (fst st)") (simp_all add: map_update list_update_same_conv list_update_beyond)
  with assms show ?thesis by (simp add: layout_def)
qed

section \<open>The invariant\<close>

text \<open>What leads to a node, other than the \<^verbatim>\<open>new_node\<close> of thread \<open>u\<close>.\<close>

definition referenced :: "tid \<Rightarrow> ('a, ('v, 'x, 'e) mm_state) client \<Rightarrow> ptr set" where
  "referenced u c = {head c} \<union> {tmp c v | v. v < n} \<union> {new c v | v. v < n \<and> v \<noteq> u} \<union> {ss c v | v. v < n} \<union> linked (cont c)"

fun thread_ok :: "('a, ('v, 'x, 'e) mm_state) client \<Rightarrow> tid \<Rightarrow> 'v stack_pc \<Rightarrow> 'v abs_pc \<Rightarrow> bool" where
  "thread_ok c t (Push_load v) a \<longleftrightarrow> a = Pending (Push_front v)"
| "thread_ok c t (Push_make v) a \<longleftrightarrow> a = Pending (Push_front v)"
| "thread_ok c t Push_cas a \<longleftrightarrow> new c t \<noteq> nullptr \<and> new c t \<notin> referenced t c \<and>
     (\<exists>v r. cont c (new c t) = Some \<lparr>payload = v, members = [M_rc r]\<rparr> \<and> a = Pending (Push_front v))"
| "thread_ok c t Push_end a \<longleftrightarrow> a = Done R_void"
| "thread_ok c t Pop_snapshot a \<longleftrightarrow> a = Pending Pop_front"
| "thread_ok c t Pop_loop a \<longleftrightarrow> a = (if ss c t = nullptr then Done (R_value None) else Pending Pop_front)"
| "thread_ok c t Front_snapshot a \<longleftrightarrow> a = Pending Front"
| "thread_ok c t Read_front a \<longleftrightarrow> a = Done (R_value (if ss c t = nullptr then None else map_option payload (cont c (ss c t))))"
| "thread_ok c t (Find_snapshot v) a \<longleftrightarrow> a = Pending (Find v)"
| "thread_ok c t (Find_loop v node) a \<longleftrightarrow> (follows (cont c))\<^sup>*\<^sup>* (ss c t) node \<and> (\<exists>ys. rep (cont c) node ys \<and> a = Done (R_found (v \<in> set ys)))"
| "thread_ok c t (Snapshot_end r) a \<longleftrightarrow> a = Done r"
| "thread_ok c t (Return r) a \<longleftrightarrow> a = Done r"
| "thread_ok c t Idle a \<longleftrightarrow> a = A_idle"

definition stack_inv :: "(tid \<Rightarrow> 'v stack_pc) \<Rightarrow> ('a, ('v, 'x, 'e) mm_state) client \<Rightarrow> (tid \<Rightarrow> 'v abs_pc) \<Rightarrow> 'v list \<Rightarrow> bool" where
  "stack_inv ps c ap xs \<longleftrightarrow> sound c \<and> layout c \<and> nodes_only (cont c) \<and> rep (cont c) (head c) xs \<and> (\<forall>t<n. thread_ok c t (ps t) (ap t))"

lemma client_node_heap: "client_ok M etoks good c \<Longrightarrow> nodes_only (cont c) \<Longrightarrow> node_heap (cont c)"
  by (auto simp: client_ok_def prog_ok_def intro: node_heap_values)

lemma sound_node_heap: "sound c \<Longrightarrow> nodes_only (cont c) \<Longrightarrow> node_heap (cont c)"
  by (simp add: sound_def client_node_heap)

lemma client_var_alive:
  assumes "client_ok M etoks good c" and "x < length (fst (snd c))" and x: "fst (snd c) ! x = M_rc p \<or> fst (snd c) ! x = M_arc p"
  shows "alive (cont c) p"
proof -
  have "cont c p \<noteq> None" if "p \<noteq> nullptr"
  proof -
    have "(T_strong, p) \<in># members_tokens (fst (snd c))" using members_tokens_nth [OF assms(2), of "(T_strong, p)"] x that by auto
    with assms(1) show ?thesis
      by (intro alive_token [of "snapshots_tokens M (fst c) + members_tokens (fst (snd c)) + etoks (snd (snd c))"])
        (simp_all add: client_ok_def prog_ok_def)
  qed
  then show ?thesis by (auto simp: alive_def)
qed

lemma var_alive:
  assumes "sound c" and "x < length (fst (snd c))"
  shows "fst (snd c) ! x = M_rc p \<or> fst (snd c) ! x = M_arc p \<Longrightarrow> alive (cont c) p"
  using client_var_alive assms by (simp add: sound_def)

section \<open>A step of one thread\<close>

text \<open>What thread \<open>t\<close> does to the rest: it writes nodes that are new or its own, the others keep their variables, and no pointer turns up that led nowhere.\<close>

definition known :: "tid \<Rightarrow> ('a, ('v, 'x, 'e) mm_state) client \<Rightarrow> ptr \<Rightarrow> bool" where
  "known u c q \<longleftrightarrow> q \<in> referenced u c \<or> q = nullptr \<or> cont c q = None"

definition moved :: "tid \<Rightarrow> 'v vmap \<Rightarrow> ('a, ('v, 'x, 'e) mm_state) client \<Rightarrow> ('a, ('v, 'x, 'e) mm_state) client \<Rightarrow> bool" where
  "moved t g c c' \<longleftrightarrow> effect g c c' \<and> layout c' \<and>
     (\<forall>q. g q \<noteq> None \<longrightarrow> cont c q = None \<or> q \<notin> referenced t c) \<and>
     (\<forall>q m. g q = Some m \<longrightarrow> (\<exists>r. members m = [M_rc r] \<and> (\<forall>u. u \<noteq> t \<longrightarrow> r \<in> referenced u c))) \<and>
     (\<forall>u. u \<noteq> t \<longrightarrow> tmp c' u = tmp c u \<and> new c' u = new c u \<and> fst c' ! u = fst c ! u) \<and>
     (\<forall>u. u \<noteq> t \<longrightarrow> known u c (head c') \<and> known u c (tmp c' t) \<and> known u c (new c' t) \<and> known u c (ss c' t))"

lemma moved_apart: "moved t g c c' \<Longrightarrow> a \<in> referenced t c \<Longrightarrow> apart (cont c) a g"
  by (auto simp: moved_def apart_def referenced_def)

lemma moved_nodes:
  assumes "moved t g c c'" and "nodes_only (cont c)"
  shows "node_heap (cont c')" and "u \<noteq> t \<Longrightarrow> linked (cont c') \<subseteq> referenced u c"
proof -
  have src: "cont c q = Some m \<or> g q = Some m" if "cont c' q = Some m" for q m
  proof -
    have "(cont c ++ g) q = Some m" using assms(1) that unfolding moved_def effect_def map_le_def by (metis domI)
    then show ?thesis by (auto simp: map_add_Some_iff)
  qed
  have "nodes_only (cont c')" using src assms unfolding nodes_only_def moved_def by metis
  with assms(1) show "node_heap (cont c')" by (intro sound_node_heap) (simp_all add: moved_def effect_def)
  show "linked (cont c') \<subseteq> referenced u c" if u: "u \<noteq> t"
  proof
    fix r assume "r \<in> linked (cont c')"
    then obtain q m where m: "cont c' q = Some m" "M_rc r \<in> set (members m)" by (auto simp: linked_def)
    from src [OF m(1)] show "r \<in> referenced u c"
    proof
      assume "cont c q = Some m"
      with m(2) have "r \<in> linked (cont c)" by (auto simp: linked_def)
      then show ?thesis by (simp add: referenced_def)
    next
      assume "g q = Some m"
      with assms(1) u m(2) show ?thesis by (fastforce simp: moved_def)
    qed
  qed
qed

lemma moved_other:
  assumes inv: "stack_inv ps c ap xs" and mv: "moved t g c c'" and u: "u < n" "u \<noteq> t"
  shows "thread_ok c' u (ps u) (ap u)"
proof -
  have old: "thread_ok c u (ps u) (ap u)" "layout c" "nodes_only (cont c)" using inv u by (simp_all add: stack_inv_def)
  have snd': "sound c'" "layout c'" and le: "cont c' \<subseteq>\<^sub>m cont c ++ g" using mv by (simp_all add: moved_def effect_def)
  have same: "tmp c' u = tmp c u" "new c' u = new c u" "fst c' ! u = fst c ! u" using mv u by (simp_all add: moved_def)
  note heap' = moved_nodes [OF mv old(3)]
  have ss': "alive (cont c') (ss c' u)" using snapshot_alive [of "fst c'" "snd c'" u] snd' u by (simp add: layout_def)
  have ssr: "ss c u \<in> referenced t c" "new c u \<in> referenced t c" using u by (auto simp: referenced_def)
  show ?thesis
  proof (cases "ps u")
    case Push_cas
    with old(1) obtain v r where p: "new c u \<noteq> nullptr" "new c u \<notin> referenced u c"
      "cont c (new c u) = Some \<lparr>payload = v, members = [M_rc r]\<rparr>" "ap u = Pending (Push_front v)" by auto
    have "alive (cont c') (new c u)" using var_alive [OF snd'(1)] layout_vars(4) [OF snd'(2) u(1)] same(2) by metis
    from kept_value [OF p(3) le moved_apart [OF mv ssr(2)] this p(1)]
    have "cont c' (new c u) = Some \<lparr>payload = v, members = [M_rc r]\<rparr>" .
    moreover have "new c u \<notin> referenced u c'"
    proof -
      define X where "X = {q. known u c q}"
      have tn: "head c' \<in> X" "tmp c' t \<in> X" "new c' t \<in> X" "ss c' t \<in> X"
        using mv u(2) by (simp_all add: moved_def X_def)
      have others: "tmp c' v = tmp c v" "new c' v = new c v" "fst c' ! v = fst c ! v" if "v \<noteq> t" for v
        using mv that by (simp_all add: moved_def)
      have ref: "referenced u c \<subseteq> X" by (auto simp: X_def known_def)
      have "tmp c' v \<in> X" "ss c' v \<in> X" "v \<noteq> u \<Longrightarrow> new c' v \<in> X" if "v < n" for v
        using tn others [of v] that ref by (cases "v = t"; force simp: referenced_def)+
      moreover have "linked (cont c') \<subseteq> X" using heap'(2) [OF u(2)] ref by simp
      ultimately have "referenced u c' \<subseteq> X" using tn(1) unfolding referenced_def [of u c'] by auto
      moreover have "new c u \<notin> X" using p by (simp add: X_def known_def)
      ultimately show ?thesis by blast
    qed
    ultimately show ?thesis using Push_cas p same by auto
  next
    case Read_front
    show ?thesis
    proof (cases "ss c u = nullptr")
      case False
      have "alive (cont c) (ss c u)" using snapshot_alive [of "fst c" "snd c" u] inv u by (simp add: stack_inv_def layout_def)
      with False obtain m where m: "cont c (ss c u) = Some m" by (auto simp: alive_def)
      from kept_value [OF m le moved_apart [OF mv ssr(1)] ss' [unfolded same] False] m Read_front old(1) same False show ?thesis by simp
    qed (use Read_front old(1) same in simp)
  next
    case (Find_loop v node)
    with old(1) obtain ys where f: "(follows (cont c))\<^sup>*\<^sup>* (ss c u) node" "rep (cont c) node ys" "ap u = Done (R_found (v \<in> set ys))" by auto
    note path = path_keeps [OF f(1) le moved_apart [OF mv ssr(1)] heap'(1) ss' [unfolded same]]
    from rep_keeps [OF f(2) le _ heap'(1)] path f(3) Find_loop same show ?thesis by auto
  qed (use old(1) same in auto)
qed

lemma advance:
  assumes "stack_inv ps c ap xs" and "moved t g c c'" and "rep (cont c') (head c') xs'" and "thread_ok c' t pc' a'"
  shows "stack_inv (ps(t := pc')) c' (ap(t := a')) xs'"
  using assms moved_other [OF assms(1,2)] moved_nodes(1) [OF assms(2)]
  by (auto simp: stack_inv_def moved_def effect_def node_heap_def)

text \<open>The list from the old head on.\<close>

lemma moved_rep:
  assumes "stack_inv ps c ap xs" and "moved t g c c'" and "alive (cont c') (head c)"
  shows "rep (cont c') (head c) xs"
  by (rule rep_keeps [where f = "cont c" and g = g])
    (use assms moved_nodes(1) [OF assms(2)] moved_apart [OF assms(2), of "head c"] in \<open>auto simp: stack_inv_def moved_def effect_def referenced_def\<close>)

lemma head_alive: "sound c \<Longrightarrow> layout c \<Longrightarrow> alive (cont c) (head c)"
  using var_alive [of c 0 "head c"] layout_vars(1,2) [of c] by simp

lemma head_kept:
  assumes "stack_inv ps c ap xs" and "moved t g c c'" and "head c' = head c"
  shows "rep (cont c') (head c') xs"
  using moved_rep [OF assms(1,2)] assms(2,3) head_alive [of c'] by (simp add: moved_def effect_def)

section \<open>The steps\<close>

lemma referenced_vars:
  "head c \<in> referenced u c" "t < n \<Longrightarrow> tmp c t \<in> referenced u c" "t < n \<Longrightarrow> ss c t \<in> referenced u c"
  "t < n \<Longrightarrow> t \<noteq> u \<Longrightarrow> new c t \<in> referenced u c" "r \<in> linked (cont c) \<Longrightarrow> r \<in> referenced u c"
  by (auto simp: referenced_def)

lemma known_vars:
  "known u c (head c)" "t < n \<Longrightarrow> known u c (tmp c t)" "t < n \<Longrightarrow> known u c (ss c t)" "t < n \<Longrightarrow> u \<noteq> t \<Longrightarrow> known u c (new c t)"
  "r \<in> linked (cont c) \<Longrightarrow> known u c r" "known u c nullptr" "cont c q = None \<Longrightarrow> known u c q"
  by (simp_all add: known_def referenced_vars)

lemma layout_enabled:
  assumes "layout c" and "stack_enabled q c" and "t < n" and "sound c"
  shows "enabled (Op_load (tmp_var t) (Var 0)) c" and "enabled (Op_make (new_var t) q v [tmp_var t] []) c"
    and "enabled (Op_clear (new_var t)) c" and "enabled (Op_snapshot t (Var 0)) c"
proof -
  obtain sn st where c: "c = (sn, st)" by (cases c)
  note vars = layout_vars [OF assms(1)]
  have typed: "typed is_arc (Var 0) st" "typed is_rc (Var (tmp_var t)) st" "typed is_rc (Var (new_var t)) st"
    using vars(1,2) vars(3,4) [OF assms(3)] c by (cases st; simp add: typed_def)+
  have loc: "loc_ptr (Var 0) st = head c" using vars(1,2) c by (cases st) (simp add: loc_ptr_def)
  have room: "room_strong (head c) st"
  proof -
    have "head c \<in> fset (fmdom (heap (snd st)))" if "head c \<noteq> nullptr"
      using head_alive [OF assms(4,1)] that c by (auto simp: alive_def contents_eq_Some intro: fmdomI)
    with assms(2) c show ?thesis by (auto simp: stack_enabled_def room_strong_def)
  qed
  show "enabled (Op_load (tmp_var t) (Var 0)) c" "enabled (Op_clear (new_var t)) c" using typed loc room c by simp_all
  show "enabled (Op_make (new_var t) q v [tmp_var t] []) c" using typed assms(2) c by (simp add: stack_enabled_def)
  show "enabled (Op_snapshot t (Var 0)) c" using typed loc room assms(1,3) c by (simp add: layout_def)
qed

text \<open>How many steps a thread needs to its response if it is left alone.\<close>

fun steps_left :: "('a, ('v, 'x, 'e) mm_state) client \<Rightarrow> tid \<Rightarrow> 'v stack_pc \<Rightarrow> nat" where
  "steps_left c t (Push_load v) = 5"
| "steps_left c t (Push_make v) = 4"
| "steps_left c t Push_cas = (if follows (cont c) (new c t) (head c) then 2 else 3)"
| "steps_left c t Push_end = 1"
| "steps_left c t Pop_snapshot = 4"
| "steps_left c t Pop_loop = (if ss c t = head c \<or> ss c t = nullptr then 3 else 4)"
| "steps_left c t Front_snapshot = 3"
| "steps_left c t Read_front = 2"
| "steps_left c t (Find_snapshot v) = chain_length (cont c) (head c) + 3"
| "steps_left c t (Find_loop v node) = chain_length (cont c) node + 2"
| "steps_left c t (Snapshot_end r) = 1"
| "steps_left c t (Return r) = 0"
| "steps_left c t Idle = 0"

text \<open>What a step does: it returns, brings the thread closer to its response, and the atomic stack stays as it is or the operation of the thread has its effect.\<close>

definition simulates :: "tid \<Rightarrow> ptr \<Rightarrow> (tid \<Rightarrow> 'v stack_pc) \<Rightarrow> ('a, ('v, 'x, 'e) mm_state) client \<Rightarrow> (tid \<Rightarrow> 'v abs_pc) \<Rightarrow> 'v list \<Rightarrow> bool" where
  "simulates t q ps c ap xs \<longleftrightarrow> (\<exists>pc' c' ap' xs'. stack_step M t q (ps t) c = ret (pc', c') \<and> stack_inv (ps(t := pc')) c' ap' xs' \<and>
     (steps_left c' t pc' < steps_left c t (ps t) \<or> steps_left c t (ps t) = 0 \<and> pc' = ps t) \<and>
     (ap' = ap \<and> xs' = xs \<or> (\<exists>op r. ap t = Pending op \<and> stack_apply op xs = (xs', r) \<and> ap' = ap(t := Done r))))"

lemma simulates_stutter:
  assumes "stack_step M t q (ps t) c = ret (pc', c')" and "stack_inv ps c ap xs" and "moved t g c c'" and "head c' = head c"
    and "thread_ok c' t pc' (ap t)" and "steps_left c' t pc' < steps_left c t (ps t) \<or> steps_left c t (ps t) = 0 \<and> pc' = ps t"
  shows "simulates t q ps c ap xs"
  using advance [OF assms(2,3) head_kept [OF assms(2-4)] assms(5)] assms(1,6) by (auto simp: simulates_def)

lemma simulates_effect:
  assumes "stack_step M t q (ps t) c = ret (pc', c')" and "stack_inv ps c ap xs" and "moved t g c c'" and "rep (cont c') (head c') xs'"
    and "ap t = Pending op" and "stack_apply op xs = (xs', r)" and "thread_ok c' t pc' (Done r)"
    and "steps_left c' t pc' < steps_left c t (ps t)"
  shows "simulates t q ps c ap xs"
  using advance [OF assms(2-4,7)] assms(1,5,6,8) by (auto simp: simulates_def)

lemma simulates_push_load:
  assumes inv: "stack_inv ps c ap xs" and t: "t < n" and en: "stack_enabled q c" and pc: "ps t = Push_load v"
  shows "simulates t q ps c ap xs"
proof -
  obtain sn st where c: "c = (sn, st)" by (cases c)
  have lay: "sound c" "layout c" using inv by (simp_all add: stack_inv_def)
  note vars = layout_vars [OF lay(2)]
  from load_effect [OF lay(1) [unfolded c] t layout_enabled(1) [OF lay(2) en t lay(1), unfolded c]] obtain st' where
    st': "exec M t (Op_load (tmp_var t) (Var 0)) (sn, st) = ret (sn, st')" "effect Map.empty (sn, st) (sn, st')"
      "fst st' = (fst st)[tmp_var t := M_rc (loc_ptr (Var 0) st)]" by blast
  have h: "loc_ptr (Var 0) st = head c" using vars(1,2) c by (cases st) (simp add: loc_ptr_def)
  have ptr: "var_ptr x st' = (if x = tmp_var t then head c else var_ptr x st)" for x
    using var_ptr_update [OF st'(3)] vars(3) [OF t] c h by simp
  have lay': "layout (sn, st')" by (rule layout_update [OF lay(2) [unfolded c] _ _ st'(3)]) (use vars(3) [OF t] c in simp_all)
  have mv: "moved t Map.empty c (sn, st')"
    using st'(2) lay' ptr t known_vars [where c = c, unfolded c fst_conv snd_conv] by (simp add: moved_def c)
  from simulates_stutter [OF _ inv mv] st'(1) pc inv t c ptr show ?thesis by (auto simp: push_front_load_def stack_inv_def)
qed

lemma moved_linked:
  assumes "moved t g c c'"
  shows "linked (cont c') \<subseteq> linked (cont c) \<union> linked g"
proof
  fix r assume "r \<in> linked (cont c')"
  then obtain q m where m: "cont c' q = Some m" "M_rc r \<in> set (members m)" by (auto simp: linked_def)
  have "(cont c ++ g) q = Some m" using assms m(1) unfolding moved_def effect_def map_le_def by (metis domI)
  with m(2) show "r \<in> linked (cont c) \<union> linked g" by (auto simp: linked_def map_add_Some_iff)
qed

lemma referenced_alive:
  assumes "stack_inv ps c ap xs" and "r \<in> referenced u c"
  shows "alive (cont c) r"
proof -
  have s: "sound c" "layout c" "node_heap (cont c)" using assms(1) sound_node_heap by (auto simp: stack_inv_def)
  have vars: "alive (cont c) (tmp c v)" "alive (cont c) (new c v)" "alive (cont c) (ss c v)" if "v < n" for v
    using var_alive [OF s(1)] layout_vars(3,4) [OF s(2) that] snapshot_alive [of "fst c" "snd c" v] s that by (auto simp: layout_def)
  from assms(2) vars head_alive [OF s(1,2)] s(3) show ?thesis by (auto simp: referenced_def node_heap_def)
qed

lemma new_value:
  assumes "moved t [q \<mapsto> m] c c'" and "alive (cont c') q" "q \<noteq> nullptr"
  shows "cont c' q = Some m"
proof -
  have "q \<in> dom (cont c')" using assms(2,3) by (auto simp: alive_def)
  with assms(1) have "cont c' q = (cont c ++ [q \<mapsto> m]) q" unfolding moved_def effect_def map_le_def by blast
  then show ?thesis by simp
qed

lemma simulates_push_make:
  assumes inv: "stack_inv ps c ap xs" and t: "t < n" and en: "stack_enabled q c" and pc: "ps t = Push_make v"
  shows "simulates t q ps c ap xs"
proof -
  obtain sn st where c: "c = (sn, st)" by (cases c)
  have lay: "sound c" "layout c" "nodes_only (cont c)" using inv by (simp_all add: stack_inv_def)
  note vars = layout_vars [OF lay(2)]
  have q: "q \<noteq> nullptr" "cont c q = None" using en by (simp_all add: stack_enabled_def contents_def)
  let ?m = "\<lparr>payload = v, members = [M_rc (tmp c t)]\<rparr>"
  have "place_get (Var (tmp_var t)) st = Inr (M_rc (tmp c t))" using vars(3) [OF t] c by (simp add: get_var_iff del: place_get.simps)
  from make_effect [OF lay(1) [unfolded c] t layout_enabled(2) [OF lay(2) en t lay(1), unfolded c] this] obtain st' where
    st': "exec M t (Op_make (new_var t) q v [tmp_var t] []) (sn, st) = ret (sn, st')" "effect [q \<mapsto> ?m] (sn, st) (sn, st')"
      "fst st' = (fst st)[tmp_var t := M_rc nullptr, new_var t := M_rc q]" by blast
  have ptr: "var_ptr x st' = (if x = new_var t then q else if x = tmp_var t then nullptr else var_ptr x st)" for x
    using var_ptr_update [of st' "((fst st)[tmp_var t := M_rc nullptr], snd st)" "new_var t" "M_rc q" x]
      var_ptr_update [of "((fst st)[tmp_var t := M_rc nullptr], snd st)" st "tmp_var t" "M_rc nullptr" x]
      st'(3) vars(3,4) [OF t] c by simp
  have "layout (sn, ((fst st)[tmp_var t := M_rc nullptr], snd st))"
    by (rule layout_update [OF lay(2) [unfolded c]]) (use vars(3) [OF t] c in simp_all)
  then have lay': "layout (sn, st')"
    by (rule layout_update [where i = "new_var t" and m = "M_rc q"]) (use st'(3) vars(4) [OF t] c in simp_all)
  have mv: "moved t [q \<mapsto> ?m] c (sn, st')"
    using st'(2) lay' ptr t q known_vars [where c = c, unfolded c fst_conv snd_conv] referenced_vars(2) [of t c, unfolded c snd_conv]
    by (simp add: moved_def c)
  have new: "cont (sn, st') q = Some ?m"
    using var_alive [of "(sn, st')" "new_var t" q] layout_vars(4) [OF lay' t] ptr mv q(1) by (intro new_value [OF mv]) (simp_all add: moved_def effect_def)
  have "q \<notin> referenced t c" using referenced_alive [OF inv, of q t] q by (auto simp: alive_def)
  then have old: "q \<noteq> head c" "\<And>u. u < n \<Longrightarrow> q \<noteq> tmp c u \<and> q \<noteq> ss c u" "\<And>u. u < n \<Longrightarrow> u \<noteq> t \<Longrightarrow> q \<noteq> new c u" "q \<notin> linked (cont c)"
    by (auto simp: referenced_def)
  have "linked [q \<mapsto> ?m] = {tmp c t}" by (auto simp: linked_def)
  with moved_linked [OF mv] old t have "q \<notin> linked (cont (sn, st'))" by auto
  with old ptr q(1) have "q \<notin> referenced t (sn, st')" by (auto simp: referenced_def c)
  with simulates_stutter [OF _ inv mv] st'(1) pc inv t c ptr new q(1) show ?thesis by (auto simp: push_front_make_def stack_inv_def)
qed

lemma simulates_push_end:
  assumes inv: "stack_inv ps c ap xs" and t: "t < n" and en: "stack_enabled q c" and pc: "ps t = Push_end"
  shows "simulates t q ps c ap xs"
proof -
  obtain sn st where c: "c = (sn, st)" by (cases c)
  have lay: "sound c" "layout c" using inv by (simp_all add: stack_inv_def)
  note vars = layout_vars [OF lay(2)]
  from clear_effect [OF lay(1) [unfolded c] t layout_enabled(3) [OF lay(2) en t lay(1), unfolded c]] obtain st' where
    st': "exec M t (Op_clear (new_var t)) (sn, st) = ret (sn, st')" "effect Map.empty (sn, st) (sn, st')"
      "fst st' = (fst st)[new_var t := M_rc nullptr]" by blast
  have ptr: "var_ptr x st' = (if x = new_var t then nullptr else var_ptr x st)" for x
    using var_ptr_update [OF st'(3)] vars(4) [OF t] c by simp
  have lay': "layout (sn, st')" by (rule layout_update [OF lay(2) [unfolded c] _ _ st'(3)]) (use vars(4) [OF t] c in simp_all)
  have mv: "moved t Map.empty c (sn, st')"
    using st'(2) lay' ptr t known_vars [where c = c, unfolded c fst_conv snd_conv] by (simp add: moved_def c)
  from simulates_stutter [OF _ inv mv] st'(1) pc inv t c ptr show ?thesis by (auto simp: push_front_end_def stack_inv_def)
qed

lemma simulates_push_cas:
  assumes inv: "stack_inv ps c ap xs" and t: "t < n" and en: "stack_enabled q c" and pc: "ps t = Push_cas"
  shows "simulates t q ps c ap xs"
proof -
  obtain sn vs s where c: "c = (sn, (vs, s))" by (metis prod.exhaust)
  have lay: "sound c" "layout c" "nodes_only (cont c)" using inv by (simp_all add: stack_inv_def)
  note vars = layout_vars [OF lay(2)]
  define p h where "p = new c t" and "h = head c"
  from inv t pc obtain v e where p: "p \<noteq> nullptr" "p \<notin> referenced t c" "cont c p = Some \<lparr>payload = v, members = [M_rc e]\<rparr>" "ap t = Pending (Push_front v)"
    by (fastforce simp: stack_inv_def p_def)
  have xv: "new_var t < length vs" "vs ! new_var t = M_rc p" "0 < length vs" "vs ! 0 = M_arc h"
    using vars(1,2) vars(4) [OF t] by (simp_all add: c p_def h_def)
  from push_cas_effect [OF lay(1) [unfolded c] t xv(3,4,1,2) _ p(1)] p(3) en obtain st' where
    st': "arc_compare_exchange_weak M t (Var 0) (Field p 0) p (vs, s) = ret (h = e, st')"
      "if h = e then fst st' = vs[0 := M_arc p] \<and> effect Map.empty (sn, (vs, s)) (sn, st')
       else fst st' = vs \<and> effect [p \<mapsto> \<lparr>payload = v, members = [M_rc h]\<rparr>] (sn, (vs, s)) (sn, st')"
    by (auto simp: c stack_enabled_def)
  have step: "stack_step M t q (ps t) c = ret (if h = e then Push_end else Push_cas, (sn, st'))"
    using st'(1) pc by (simp add: push_front_cas_def c p_def)
  have known: "known u c p" "known u c h" if "u \<noteq> t" for u using known_vars(1,4) [where c = c] t that by (simp_all add: p_def h_def)
  show ?thesis
  proof (cases "h = e")
    case True
    with st'(2) have e: "fst st' = (fst (vs, s))[0 := M_arc p]" "effect Map.empty c (sn, st')" by (simp_all add: c)
    have ptr: "var_ptr x st' = (if x = 0 then p else var_ptr x (vs, s))" for x using var_ptr_update [OF e(1)] xv(3) by simp
    have lay': "layout (sn, st')" by (rule layout_update [OF lay(2) [unfolded c] _ _ e(1)]) (use xv in simp_all)
    have mv: "moved t Map.empty c (sn, st')"
      using e(2) lay' ptr t known known_vars [where c = c, unfolded c fst_conv snd_conv] by (simp add: moved_def c p_def)
    note heap' = moved_nodes(1) [OF mv lay(3)]
    have "alive (cont (sn, st')) p" using head_alive [OF _ lay'] mv ptr by (simp add: moved_def effect_def)
    with kept_value [of "cont c" p _ "cont (sn, st')" Map.empty, OF p(3)] p(1) e(2) have new: "cont (sn, st') p = Some \<lparr>payload = v, members = [M_rc h]\<rparr>"
      using True by (simp add: effect_def)
    then have "h \<in> linked (cont (sn, st'))" unfolding linked_def by force
    with heap' have "alive (cont (sn, st')) h" by (simp add: node_heap_def)
    from moved_rep [OF inv mv] this have "rep (cont (sn, st')) h xs" by (simp add: h_def)
    with new ptr p(1) have "rep (cont (sn, st')) (head (sn, st')) (v # xs)" by simp
    from simulates_effect [OF step inv mv this p(4)] True pc show ?thesis by simp
  next
    case False
    let ?g = "[p \<mapsto> \<lparr>payload = v, members = [M_rc h]\<rparr>]"
    from False st'(2) have e: "fst st' = vs" "effect ?g c (sn, st')" by (simp_all add: c)
    have ptr: "var_ptr x st' = var_ptr x (vs, s)" for x using e(1) by (simp add: var_ptr_def)
    have lay': "layout (sn, st')" using lay(2) e(1) by (simp add: layout_def c)
    have mv: "moved t ?g c (sn, st')"
      using e(2) lay' ptr t p(2) known_vars [where c = c, unfolded c fst_conv snd_conv] referenced_vars(1) [of c, unfolded c snd_conv]
      by (simp add: moved_def c h_def)
    have new: "cont (sn, st') p = Some \<lparr>payload = v, members = [M_rc h]\<rparr>"
      using var_alive [of "(sn, st')" "new_var t" p] xv(1,2) e mv p(1) by (intro new_value [OF mv]) (simp_all add: effect_def)
    have "linked ?g = {h}" by (auto simp: linked_def)
    with moved_linked [OF mv] have "linked (cont (sn, st')) \<subseteq> linked (cont c) \<union> {h}" by simp
    then have "referenced t (sn, st') \<subseteq> referenced t c" using ptr by (auto simp: referenced_def c h_def)
    with p(2) have "p \<notin> referenced t (sn, st')" by blast
    then have "thread_ok (sn, st') t Push_cas (ap t)" using ptr p(1,4) new by (auto simp: p_def c)
    moreover have "follows (cont (sn, st')) (new (sn, st') t) (head (sn, st'))" using new ptr p(1) by (simp add: follows_def p_def h_def c)
    moreover have "\<not> follows (cont c) (new c t) (head c)" using p(3) False by (auto simp: follows_def p_def h_def)
    ultimately show ?thesis using simulates_stutter [OF step inv mv] False ptr pc by (simp add: c)
  qed
qed

text \<open>Taking a snapshot of the head.\<close>

lemma snapshot_moves:
  assumes inv: "stack_inv ps c ap xs" and t: "t < n" and en: "stack_enabled q c"
  shows "\<exists>c'. exec M t (Op_snapshot t (Var 0)) c = ret c' \<and> moved t Map.empty c c' \<and> head c' = head c \<and> ss c' t = head c \<and>
    rep (cont c') (head c) xs"
proof -
  obtain sn st where c: "c = (sn, st)" by (cases c)
  have lay: "sound c" "layout c" using inv by (simp_all add: stack_inv_def)
  note vars = layout_vars [OF lay(2)]
  from snapshot_effect [OF lay(1) [unfolded c] t layout_enabled(4) [OF lay(2) en t lay(1), unfolded c]] obtain a st' where
    st': "exec M t (Op_snapshot t (Var 0)) (sn, st) = ret (sn[t := a], st')" "effect Map.empty (sn, st) (sn[t := a], st')"
      "fst st' = fst st" "mg_get M a = loc_ptr (Var 0) st" by blast
  have h: "loc_ptr (Var 0) st = head c" using vars(1,2) c by (cases st) (simp add: loc_ptr_def)
  have len: "t < length sn" using lay(2) t c by (simp add: layout_def)
  have ptr: "var_ptr x st' = var_ptr x st" for x using st'(3) by (simp add: var_ptr_def)
  have lay': "layout (sn[t := a], st')" using lay(2) st'(3) by (simp add: layout_def c)
  have mv: "moved t Map.empty c (sn[t := a], st')"
    using st'(2,4) lay' ptr t h len known_vars [where c = c, unfolded c fst_conv snd_conv] by (simp add: moved_def c)
  have "rep (cont (sn[t := a], st')) (head c) xs" using head_kept [OF inv mv] ptr c by simp
  with st'(1,4) mv ptr h len c show ?thesis by auto
qed

lemma simulates_snapshot:
  assumes inv: "stack_inv ps c ap xs" and t: "t < n" and en: "stack_enabled q c"
    and pc: "ps t = Pop_snapshot \<or> ps t = Front_snapshot \<or> ps t = Find_snapshot v"
  shows "simulates t q ps c ap xs"
proof -
  from snapshot_moves [OF inv t en] obtain c' where c': "exec M t (Op_snapshot t (Var 0)) c = ret c'" "moved t Map.empty c c'" "head c' = head c"
      "ss c' t = head c" "rep (cont c') (head c') xs" by auto
  have ap: "thread_ok c t (ps t) (ap t)" using inv t by (simp add: stack_inv_def)
  from pc show ?thesis
  proof (elim disjE)
    assume pc: "ps t = Pop_snapshot"
    then have step: "stack_step M t q (ps t) c = ret (Pop_loop, c')" using c'(1) by (simp add: stack_snapshot_def)
    show ?thesis
    proof (cases "head c = nullptr")
      case True
      with c'(3,5) have "xs = []" by (auto dest: rep_null)
      with simulates_effect [OF step inv c'(2,5)] ap pc c'(4) True show ?thesis by simp
    qed (use simulates_stutter [OF step inv c'(2,3)] ap pc c'(3,4) in simp)
  next
    assume pc: "ps t = Front_snapshot"
    then have step: "stack_step M t q (ps t) c = ret (Read_front, c')" using c'(1) by (simp add: stack_snapshot_def)
    have "thread_ok c' t Read_front (Done (R_value (case xs of [] \<Rightarrow> None | x # ys \<Rightarrow> Some x)))"
      using c'(3,4,5) by (cases xs) auto
    with simulates_effect [OF step inv c'(2,5)] ap pc show ?thesis by simp
  next
    assume pc: "ps t = Find_snapshot v"
    then have step: "stack_step M t q (ps t) c = ret (Find_loop v (ss c' t), c')" using c'(1) by (simp add: stack_snapshot_def)
    have "thread_ok c' t (Find_loop v (ss c' t)) (Done (R_found (v \<in> set xs)))" using c'(3,4,5) by auto
    moreover have "chain_length (cont c') (ss c' t) = chain_length (cont c) (head c)"
      using chain_length_rep [OF c'(5)] chain_length_rep [of "cont c" "head c" xs] inv c'(3,4) by (simp add: stack_inv_def)
    ultimately show ?thesis using simulates_effect [OF step inv c'(2,5)] ap pc by simp
  qed
qed

lemma moved_refl: "stack_inv ps c ap xs \<Longrightarrow> t < n \<Longrightarrow> moved t Map.empty c c"
  by (simp add: stack_inv_def moved_def effect_def known_vars)

lemma node_value:
  assumes "nodes_only (cont c)" and "cont c p = Some m"
  shows "\<exists>v d. m = \<lparr>payload = v, members = [M_rc d]\<rparr>"
proof -
  from assms obtain d where "members m = [M_rc d]" unfolding nodes_only_def by blast
  then show ?thesis by (cases m) simp
qed

lemma simulates_pop_loop:
  assumes inv: "stack_inv ps c ap xs" and t: "t < n" and en: "stack_enabled q c" and pc: "ps t = Pop_loop"
  shows "simulates t q ps c ap xs"
proof (cases "ss c t = nullptr")
  case True
  then have "stack_step M t q (ps t) c = ret (Read_front, c)" using pc by (simp add: pop_front_loop_def)
  from simulates_stutter [OF this inv moved_refl [OF inv t]] inv t pc True show ?thesis by (auto simp: stack_inv_def)
next
  case False
  obtain sn vs s where c: "c = (sn, (vs, s))" by (metis prod.exhaust)
  have lay: "sound c" "layout c" "nodes_only (cont c)" and ap: "ap t = Pending Pop_front" and repx: "rep (cont c) (head c) xs"
    using inv t pc False by (auto simp: stack_inv_def)
  note vars = layout_vars [OF lay(2)]
  define p h where "p = ss c t" and "h = head c"
  have "alive (cont c) p" using referenced_alive [OF inv referenced_vars(3) [OF t]] by (simp add: p_def)
  with False obtain m0 where "cont c p = Some m0" by (auto simp: alive_def p_def)
  with node_value [OF lay(3) this] obtain v d where m: "cont c p = Some \<lparr>payload = v, members = [M_rc d]\<rparr>" by blast
  have xv: "0 < length vs" "vs ! 0 = M_arc h" "t < length sn" "mg_get M (sn ! t) = p" "p \<noteq> nullptr"
    using vars(1,2) lay(2) t False by (simp_all add: c h_def layout_def p_def)
  have "place_get (Field p 0) (vs, s) = Inr (M_rc d)" using m by (simp add: field_contents c del: place_get.simps)
  moreover have "M_rc d \<in> set (members \<lparr>payload = v, members = [M_rc d]\<rparr>)" by simp
  from pop_cas_effect [OF lay(1) [unfolded c] t xv(1-4) _ xv(5) this] m en obtain a st' where
    st': "arc_compare_exchange_weak_snapshot M t (Var 0) (sn ! t) d (vs, s) = ret (h = p, a, st')"
      "if h = p then a = sn ! t \<and> fst st' = vs[0 := M_arc d] else fst st' = vs \<and> mg_get M a = h"
      "effect Map.empty c (sn[t := a], st')"
    by (auto simp: c stack_enabled_def)
  ultimately have step: "stack_step M t q (ps t) c = ret (if h = p then Read_front else Pop_loop, (sn[t := a], st'))"
    using pc xv(4,5) by (simp add: pop_front_loop_def c del: place_get.simps)
  show ?thesis
  proof (cases "h = p")
    case True
    with st'(2) have e: "a = sn ! t" "fst st' = (fst (vs, s))[0 := M_arc d]" by simp_all
    have ptr: "var_ptr x st' = (if x = 0 then d else var_ptr x (vs, s))" for x using var_ptr_update [OF e(2)] xv(1) by simp
    have lay': "layout (sn, st')" by (rule layout_update [OF lay(2) [unfolded c] _ _ e(2)]) (use xv in simp_all)
    have d: "d \<in> linked (cont c)" using m unfolding linked_def by force
    have mv: "moved t Map.empty c (sn, st')"
      using st'(3) e(1) lay' ptr t known_vars [where c = c, unfolded c fst_conv snd_conv] d by (simp add: moved_def c)
    from repx m True obtain ys where xs: "xs = v # ys" "rep (cont c) d ys" using xv(5) by (cases xs) (auto simp: h_def)
    have "alive (cont (sn, st')) d" using head_alive [OF _ lay'] mv ptr by (simp add: moved_def effect_def)
    with rep_keeps [OF xs(2), of "cont (sn, st')" Map.empty] moved_nodes(1) [OF mv lay(3)] mv ptr
    have rep': "rep (cont (sn, st')) (head (sn, st')) ys" by (simp add: moved_def effect_def)
    have "alive (cont (sn, st')) p" using snapshot_alive [of sn st' t] mv xv by (simp add: moved_def effect_def)
    with kept_value [of "cont c" p _ "cont (sn, st')" Map.empty, OF m] xv(5) mv
    have "cont (sn, st') p = Some \<lparr>payload = v, members = [M_rc d]\<rparr>" by (simp add: moved_def effect_def)
    then have "thread_ok (sn, st') t Read_front (Done (R_value (Some v)))" using xv by simp
    with simulates_effect [OF step [unfolded e(1) list_update_id] inv mv rep' ap] True xs(1) pc show ?thesis by simp
  next
    case False
    with st'(2) have e: "fst st' = vs" "mg_get M a = h" by simp_all
    have ptr: "var_ptr x st' = var_ptr x (vs, s)" for x using e(1) by (simp add: var_ptr_def)
    have lay': "layout (sn[t := a], st')" using lay(2) e(1) by (simp add: layout_def c)
    have mv: "moved t Map.empty c (sn[t := a], st')"
      using st'(3) lay' ptr t e(2) xv(3) known_vars [where c = c, unfolded c fst_conv snd_conv] by (simp add: moved_def c h_def)
    have left: "steps_left c t (ps t) = 4" using pc False xv(5) by (simp add: p_def h_def)
    show ?thesis
    proof (cases "h = nullptr")
      case True
      with repx have "xs = []" by (auto simp: h_def dest: rep_null)
      moreover have "rep (cont (sn[t := a], st')) (head (sn[t := a], st')) xs" using head_kept [OF inv mv] ptr c by simp
      ultimately show ?thesis using simulates_effect [OF step inv mv _ ap] left False True e(2) xv(3) by simp
    qed (use simulates_stutter [OF step inv mv] left False ap ptr e(2) xv(3) c in \<open>simp add: h_def\<close>)
  qed
qed

lemma simulates_read_front:
  assumes inv: "stack_inv ps c ap xs" and t: "t < n" and pc: "ps t = Read_front"
  shows "simulates t q ps c ap xs"
proof -
  have ap: "thread_ok c t (ps t) (ap t)" using inv t by (simp add: stack_inv_def)
  have "\<exists>pc'. stack_step M t q (ps t) c = ret (pc', c) \<and> thread_ok c t pc' (ap t) \<and> steps_left c t pc' < steps_left c t (ps t)"
  proof (cases "ss c t = nullptr")
    case False
    have "alive (cont c) (ss c t)" using referenced_alive [OF inv referenced_vars(3) [OF t]] .
    with False obtain m where m: "cont c (ss c t) = Some m" by (auto simp: alive_def)
    then have "snapshot_deref M (fst c ! t) (snd c) = Inr m"
      by (auto simp: snapshot_deref_def with_storage_def with_object_def contents_eq_Some)
    with False m ap pc show ?thesis by (simp add: read_front_def ret_def)
  qed (use ap pc in \<open>simp add: read_front_def\<close>)
  with simulates_stutter [OF _ inv moved_refl [OF inv t]] show ?thesis by blast
qed

lemma simulates_find_loop:
  assumes inv: "stack_inv ps c ap xs" and t: "t < n" and pc: "ps t = Find_loop v node"
  shows "simulates t q ps c ap xs"
proof -
  from inv t pc obtain ys where f: "(follows (cont c))\<^sup>*\<^sup>* (ss c t) node" "rep (cont c) node ys" "ap t = Done (R_found (v \<in> set ys))"
    by (fastforce simp: stack_inv_def)
  have "\<exists>pc'. stack_step M t q (ps t) c = ret (pc', c) \<and> thread_ok c t pc' (ap t) \<and> steps_left c t pc' < steps_left c t (ps t)"
  proof (cases ys)
    case Nil
    with f pc show ?thesis by (auto simp: find_loop_def)
  next
    case (Cons y zs)
    with f(2) obtain r where r: "node \<noteq> nullptr" "cont c node = Some \<lparr>payload = y, members = [M_rc r]\<rparr>" "rep (cont c) r zs" by auto
    then have "follows (cont c) node r" by (simp add: follows_def)
    with f(1) have path: "(follows (cont c))\<^sup>*\<^sup>* (ss c t) r" by (rule rtranclp.rtrancl_into_rtrancl)
    have "rc_deref node (snd c) = Inr \<lparr>payload = y, members = [M_rc r]\<rparr>"
      using r(2) by (auto simp: rc_deref_def with_storage_def with_object_def contents_eq_Some)
    moreover have "place_get (Field node 0) (snd c) = Inr (M_rc r)" using r(2) by (simp add: field_contents del: place_get.simps)
    ultimately have "stack_step M t q (ps t) c = ret (if y = v then Snapshot_end (R_found True) else Find_loop v r, c)"
      using pc r(1) by (simp add: find_loop_def)
    moreover have "chain_length (cont c) node = Suc (chain_length (cont c) r)"
      using chain_length_rep [OF f(2)] chain_length_rep [OF r(3)] Cons by simp
    ultimately show ?thesis using path r(3) f(3) Cons pc by auto
  qed
  with simulates_stutter [OF _ inv moved_refl [OF inv t]] show ?thesis by blast
qed

lemma simulates_snapshot_end:
  assumes inv: "stack_inv ps c ap xs" and t: "t < n" and pc: "ps t = Snapshot_end r"
  shows "simulates t q ps c ap xs"
proof -
  obtain sn st where c: "c = (sn, st)" by (cases c)
  have lay: "sound c" "layout c" using inv by (simp_all add: stack_inv_def)
  have len: "t < length sn" using lay(2) t c by (simp add: layout_def)
  from snapshot_end_effect [OF lay(1) [unfolded c] t len] obtain st' where
    st': "snapshot_dtor M t (sn ! t) st = ret st'" "fst st' = fst st" "effect Map.empty (sn, st) (sn[t := snapshot_empty M], st')" by blast
  have ptr: "var_ptr x st' = var_ptr x st" for x using st'(2) by (simp add: var_ptr_def)
  have lay': "layout (sn[t := snapshot_empty M], st')" using lay(2) st'(2) by (simp add: layout_def c)
  have mv: "moved t Map.empty c (sn[t := snapshot_empty M], st')"
    using st'(3) lay' ptr t len empty_snapshot known_vars [where c = c, unfolded c fst_conv snd_conv] by (simp add: moved_def c snapshot_empty_def)
  from simulates_stutter [OF _ inv mv] st'(1) pc inv t c ptr show ?thesis by (auto simp: snapshot_end_def stack_inv_def)
qed

theorem stack_simulates:
  assumes inv: "stack_inv ps c ap xs" and t: "t < n" and en: "stack_enabled q c"
  shows "simulates t q ps c ap xs"
proof (cases "ps t")
  case (Return r)
  then have "stack_step M t q (ps t) c = ret (Return r, c)" by simp
  from simulates_stutter [OF this inv moved_refl [OF inv t]] inv t Return show ?thesis by (auto simp: stack_inv_def)
next
  case Idle
  then have "stack_step M t q (ps t) c = ret (Idle, c)" by simp
  from simulates_stutter [OF this inv moved_refl [OF inv t]] inv t Idle show ?thesis by (auto simp: stack_inv_def)
next
  case (Push_load v) then show ?thesis by (rule simulates_push_load [OF assms])
next
  case (Push_make v) then show ?thesis by (rule simulates_push_make [OF assms])
next
  case Push_cas then show ?thesis by (rule simulates_push_cas [OF assms])
next
  case Push_end then show ?thesis by (rule simulates_push_end [OF assms])
next
  case Pop_loop then show ?thesis by (rule simulates_pop_loop [OF assms])
next
  case Read_front then show ?thesis by (rule simulates_read_front [OF inv t])
next
  case (Find_loop v node) then show ?thesis by (rule simulates_find_loop [OF inv t])
next
  case (Snapshot_end r) then show ?thesis by (rule simulates_snapshot_end [OF inv t])
qed (rule simulates_snapshot [OF assms], simp)+

end

end
