(* ===== verification/Deferred_Lists.thy ===== *)
theory Deferred_Lists
  imports Protection
begin

text \<open>
  The per-thread lists of deferred ejects, as far as the schemes share them: the tokens and the weight of the entries,
  and how the sums over all threads change when one thread's list does.
\<close>

type_synonym entry = "ptr \<times> RetireType"

definition entries_tokens :: "entry list \<Rightarrow> tokens" where
  "entries_tokens xs = mset (map entry_token xs)"

definition entries_weight :: "entry list \<Rightarrow> nat" where
  "entries_weight xs = sum_list (map (entry_weight \<circ> snd) xs)"

lemma entries_simps [simp]:
  "entries_tokens [] = {#}"
  "entries_tokens (x # xs) = add_mset (entry_token x) (entries_tokens xs)"
  "entries_tokens (xs @ ys) = entries_tokens xs + entries_tokens ys"
  "entries_weight [] = 0"
  "entries_weight (x # xs) = entry_weight (snd x) + entries_weight xs"
  "entries_weight (xs @ ys) = entries_weight xs + entries_weight ys"
  by (simp_all add: entries_tokens_def entries_weight_def)

lemma sum_lessThan_upd:
  assumes "t < (n :: nat)"
  shows "(\<Sum>i<n. f ((g(t := x)) i)) + f (g t) = (\<Sum>i<n. f (g i)) + f x"
  using assms by (simp add: sum.remove [where x = t] ac_simps cong: sum.cong_simp)

lemma sum_work_upd:
  "t < (n :: nat) \<Longrightarrow>
   (\<Sum>i<n. entries_weight ((d(t := x)) i) + unat ((a(t := y)) i)) + entries_weight (d t) + unat (a t) =
   (\<Sum>i<n. entries_weight (d i) + unat (a i)) + entries_weight x + unat y"
  by (simp add: sum.remove [where x = t] ac_simps cong: sum.cong_simp)

lemma sum_upds:
  assumes "t < (n :: nat)"
  shows "(\<Sum>i<n. entries_tokens ((d(t := x)) i)) + entries_tokens (d t) = (\<Sum>i<n. entries_tokens (d i)) + entries_tokens x"
    and "(\<Sum>i<n. 3 * length ((d(t := x)) i)) + 3 * length (d t) = (\<Sum>i<n. 3 * length (d i)) + 3 * length x"
  using sum_lessThan_upd [OF assms, of entries_tokens d x] sum_lessThan_upd [OF assms, of "\<lambda>xs. 3 * length xs" d x]
  by simp_all

lemma entries_concat:
  "entries_tokens (concat (map d [0..<n])) = (\<Sum>t<n. entries_tokens (d t))"
  "entries_weight (concat (map d [0..<n])) = (\<Sum>t<n. entries_weight (d t))"
  "length (concat (map d [0..<n])) = (\<Sum>t<n. length (d t))"
  by (induction n) (simp_all add: ac_simps)

end
