(* ===== verification/Acquire_Retire.thy ===== *)
theory Acquire_Retire
  imports Deferred_Lists
begin

text \<open>
  \<^verbatim>\<open>include/cdrc/internal/smr/acquire_retire.h\<close>: deferred reference counting with
  hazard-pointer style announcements, the default scheme.

  Every thread has one announcement and \<open>snapshot_slots\<close> snapshot slots. A retired pointer stays on the list
  of its thread; now and then the thread reads all announcements, applies the entries
  that are not announced and keeps the others. A pass
  is a call of its own (\<open>D_scan\<close>, \<open>D_eject\<close>), because the destructors it runs retire
  further pointers.
\<close>

section \<open>State\<close>

text \<open>The template parameters, with their default values.\<close>

definition snapshot_slots :: nat where "snapshot_slots = 7"
definition eject_delay :: nat where "eject_delay = 2"

text \<open>The addresses of announcement slots.\<close>

datatype slot = Announcement tid | SnapshotSlot tid nat

record 'o acquire_retire = "'o mm" +
  threads :: nat
  announcement :: "tid \<Rightarrow> ptr"
  snapshot_announcements :: "tid \<Rightarrow> ptr list"
  in_progress :: "tid \<Rightarrow> bool"
  deferred_destructs :: "tid \<Rightarrow> entry list"
  amortized_work :: "tid \<Rightarrow> u32"

definition acquire_retire_init :: "nat \<Rightarrow> 'o acquire_retire" where
  "acquire_retire_init num_threads =
     \<lparr>heap = fmempty, num_allocated = (\<lambda>_. 0), threads = num_threads,
      announcement = (\<lambda>_. nullptr), snapshot_announcements = (\<lambda>_. replicate snapshot_slots nullptr),
      in_progress = (\<lambda>_. False), deferred_destructs = (\<lambda>_. []), amortized_work = (\<lambda>_. 0)\<rparr>"

fun slot_load :: "slot \<Rightarrow> ('o, 'e) acquire_retire_scheme \<Rightarrow> ptr" where
  "slot_load (Announcement t) s = announcement s t"
| "slot_load (SnapshotSlot t i) s = (if i < length (snapshot_announcements s t) then snapshot_announcements s t ! i else nullptr)"

fun slot_store :: "slot \<Rightarrow> ptr \<Rightarrow> ('o, 'e) acquire_retire_scheme \<Rightarrow> ('o, 'e) acquire_retire_scheme" where
  "slot_store (Announcement t) p s = s\<lparr>announcement := (announcement s)(t := p)\<rparr>"
| "slot_store (SnapshotSlot t i) p s =
     s\<lparr>snapshot_announcements := (snapshot_announcements s)(t := (snapshot_announcements s t)[i := p])\<rparr>"

section \<open>Acquired pointers\<close>

record acquired_pointer =
  ap_value :: ptr
  ap_slot :: "slot option"

definition acquired_nothing :: acquired_pointer where
  "acquired_nothing = \<lparr>ap_value = nullptr, ap_slot = None\<rparr>"

definition ap_is_protected :: "acquired_pointer \<Rightarrow> bool" where
  "ap_is_protected a \<longleftrightarrow> ap_slot a \<noteq> None \<and> ap_value a \<noteq> nullptr"

definition clear_protection :: "acquired_pointer \<Rightarrow> ('o, 'e) acquire_retire_scheme \<Rightarrow> ('o, 'e) acquire_retire_scheme" where
  "clear_protection a s =
     (case ap_slot a of
        Some sl \<Rightarrow> if ap_value a \<noteq> nullptr then slot_store sl nullptr s else s
      | None \<Rightarrow> s)"

definition ap_clear :: "acquired_pointer \<Rightarrow> ('o, 'e) acquire_retire_scheme \<Rightarrow> acquired_pointer \<times> ('o, 'e) acquire_retire_scheme" where
  "ap_clear a s = (acquired_nothing, clear_protection a s)"

text \<open>The move constructor: the new pointer and what is left of the old one.\<close>

definition ap_move :: "acquired_pointer \<Rightarrow> acquired_pointer \<times> acquired_pointer" where
  "ap_move other = (other, acquired_nothing)"

definition ap_swap :: "acquired_pointer \<Rightarrow> acquired_pointer \<Rightarrow> acquired_pointer \<times> acquired_pointer" where
  "ap_swap a b = (b, a)"

section \<open>Acquiring\<close>

text \<open>
  The loops of \<^verbatim>\<open>acquire\<close> and \<^verbatim>\<open>protect_snapshot\<close> read a shared location twice in each round.
  The script lists what the two reads of each round see; a script that ends too early
  (\<open>None\<close>) is a loop that is still running.
\<close>

fun acquire :: "tid \<Rightarrow> (ptr \<times> ptr) list \<Rightarrow> ('o, 'e) acquire_retire_scheme \<Rightarrow>
    (acquired_pointer \<times> ('o, 'e) acquire_retire_scheme) option" where
  "acquire t [] s = None"
| "acquire t ((result, again) # script) s =
     (let s1 = slot_store (Announcement t) result s
      in if again \<noteq> result then acquire t script s1
         else Some (\<lparr>ap_value = result, ap_slot = Some (Announcement t)\<rparr>, s1))"

definition reserve :: "tid \<Rightarrow> ptr \<Rightarrow> ('o, 'e) acquire_retire_scheme \<Rightarrow> acquired_pointer \<times> ('o, 'e) acquire_retire_scheme" where
  "reserve t p s = (\<lparr>ap_value = p, ap_slot = Some (Announcement t)\<rparr>, slot_store (Announcement t) p s)"

definition reserve_nothing :: acquired_pointer where
  "reserve_nothing = acquired_nothing"

definition release :: "tid \<Rightarrow> ('o, 'e) acquire_retire_scheme \<Rightarrow> ('o, 'e) acquire_retire_scheme" where
  "release t s = slot_store (Announcement t) nullptr s"

fun find_free :: "ptr list \<Rightarrow> nat \<Rightarrow> nat option" where
  "find_free [] i = None"
| "find_free (p # ps) i = (if p = nullptr then Some i else find_free ps (Suc i))"

definition get_free_slot :: "tid \<Rightarrow> ('o, 'e) acquire_retire_scheme \<Rightarrow> slot option" where
  "get_free_slot t s = map_option (SnapshotSlot t) (find_free (snapshot_announcements s t) 0)"

text \<open>\<^verbatim>\<open>protect_snapshot\<close> with a free slot.\<close>

fun protect_in_slot :: "slot \<Rightarrow> (ptr \<times> ptr) list \<Rightarrow> ('o, 'e) acquire_retire_scheme \<Rightarrow>
    (acquired_pointer \<times> ('o, 'e) acquire_retire_scheme) option" where
  "protect_in_slot sl [] s = None"
| "protect_in_slot sl ((result, again) # script) s =
     (if result = nullptr then Some (\<lparr>ap_value = nullptr, ap_slot = None\<rparr>, slot_store sl nullptr s)
      else let s1 = slot_store sl result s
           in if again \<noteq> result then protect_in_slot sl script s1
              else Some (\<lparr>ap_value = result, ap_slot = Some sl\<rparr>, s1))"

text \<open>Without one it takes a reference; the script of a round is that of its
  \<^verbatim>\<open>acquire\<close> and the value of the last \<^verbatim>\<open>p->load()\<close>. Leaving a round destroys the acquired pointer.\<close>

fun protect_counted :: "tid \<Rightarrow> ((ptr \<times> ptr) list \<times> ptr) list \<Rightarrow>
    (('v, 'x) counted_object_scheme, 'e) acquire_retire_scheme \<Rightarrow>
    (error + acquired_pointer \<times> (('v, 'x) counted_object_scheme, 'e) acquire_retire_scheme) option" where
  "protect_counted t [] s = None"
| "protect_counted t ((reads, final) # script) s =
     (case acquire t reads s of
        None \<Rightarrow> None
      | Some (a, s1) \<Rightarrow>
          (case (if ap_value a \<noteq> nullptr then increment_ref_cnt (ap_value a) s1 else Inr (False, s1)) of
             Inl e \<Rightarrow> Some (Inl e)
           | Inr (True, s2) \<Rightarrow> Some (Inr (\<lparr>ap_value = ap_value a, ap_slot = None\<rparr>, clear_protection a s2))
           | Inr (False, s2) \<Rightarrow>
               if ap_value a = nullptr \<or> final = ap_value a
               then Some (Inr (\<lparr>ap_value = nullptr, ap_slot = None\<rparr>, clear_protection a s2))
               else protect_counted t script (clear_protection a s2)))"

definition protect_snapshot :: "tid \<Rightarrow> (ptr \<times> ptr) list \<Rightarrow> ((ptr \<times> ptr) list \<times> ptr) list \<Rightarrow>
    (('v, 'x) counted_object_scheme, 'e) acquire_retire_scheme \<Rightarrow>
    (error + acquired_pointer \<times> (('v, 'x) counted_object_scheme, 'e) acquire_retire_scheme) option" where
  "protect_snapshot t script counted_script s =
     (case get_free_slot t s of
        None \<Rightarrow> protect_counted t counted_script s
      | Some sl \<Rightarrow> map_option Inr (protect_in_slot sl script s))"

section \<open>Retiring\<close>

type_synonym announced = "entry \<Rightarrow> nat option"

text \<open>The calls of a pass: the loop of \<^verbatim>\<open>work_toward_deferred_decrements\<close>, the scan of the slots
  with the entries taken and the counts so far, the pass over the entries with those kept so far,
  and the two loops of the destructor.\<close>

datatype hp_call =
    D_work
  | D_scan "slot list" "entry list" announced
  | D_eject announced "entry list" "entry list"
  | D_drain
  | D_drain_list "entry list"

definition scan_order :: "nat \<Rightarrow> slot list" where
  "scan_order n = concat (map (\<lambda>t. Announcement t # map (SnapshotSlot t) [0..<snapshot_slots]) [0..<n])"

text \<open>One announcement, for every kind of action: the first one protects two entries.\<close>

definition announce_one :: "ptr \<Rightarrow> announced \<Rightarrow> announced" where
  "announce_one reserved m =
     foldl (\<lambda>m type. m((reserved, type) \<mapsto>
              (case m (reserved, type) of None \<Rightarrow> 2 | Some cnt \<Rightarrow> if cnt \<noteq> 0 then cnt + 1 else 2)))
       m retire_types"

definition threshold :: "('o, 'e) acquire_retire_scheme \<Rightarrow> nat" where
  "threshold s = max 30 (eject_delay * threads s)"

text \<open>One step of each loop.\<close>

definition work_loop :: "tid \<Rightarrow> ('o, 'e) acquire_retire_scheme \<Rightarrow> hp_call mm_call list \<times> ('o, 'e) acquire_retire_scheme" where
  "work_loop t s =
     (if \<not> in_progress s t \<and> threshold s \<le> unat (amortized_work s t) then
        let s1 = s\<lparr>amortized_work := (amortized_work s)(t := 0)\<rparr> in
        if deferred_destructs s t = [] then ([], s1)
        else ([C_derived (D_scan (scan_order (threads s)) (deferred_destructs s t) Map.empty)],
              s1\<lparr>in_progress := (in_progress s)(t := True),
                 deferred_destructs := (deferred_destructs s)(t := [])\<rparr>)
      else ([], s))"

fun scan_slots :: "slot list \<Rightarrow> entry list \<Rightarrow> announced \<Rightarrow> ('o, 'e) acquire_retire_scheme \<Rightarrow> hp_call mm_call list" where
  "scan_slots [] deferred m s = [C_derived (D_eject m deferred [])]"
| "scan_slots (sl # sls) deferred m s =
     (let x = slot_load sl s
      in [C_derived (D_scan sls deferred (if x \<noteq> nullptr then announce_one x m else m))])"

fun eject_pass :: "tid \<Rightarrow> announced \<Rightarrow> entry list \<Rightarrow> entry list \<Rightarrow> ('o, 'e) acquire_retire_scheme \<Rightarrow>
    hp_call mm_call list \<times> ('o, 'e) acquire_retire_scheme" where
  "eject_pass t m [] kept s =
     ([C_derived D_work],
      s\<lparr>deferred_destructs := (deferred_destructs s)(t := deferred_destructs s t @ kept),
        in_progress := (in_progress s)(t := False)\<rparr>)"
| "eject_pass t m (x # todo) kept s =
     (case m x of
        None \<Rightarrow> ([C_eject (fst x) (snd x), C_derived (D_eject m todo kept)], s)
      | Some cnt \<Rightarrow>
          ([C_derived (D_eject (if cnt - 1 = 0 then m(x := None) else m(x \<mapsto> cnt - 1)) todo (kept @ [x]))], s))"

definition drain :: "('o, 'e) acquire_retire_scheme \<Rightarrow> hp_call mm_call list \<times> ('o, 'e) acquire_retire_scheme" where
  "drain s =
     (if list_ex (\<lambda>t. deferred_destructs s t \<noteq> []) [0..<threads s] then
        ([C_derived (D_drain_list (concat (map (deferred_destructs s) [0..<threads s]))), C_derived D_drain],
         s\<lparr>deferred_destructs := (\<lambda>t. if t < threads s then [] else deferred_destructs s t)\<rparr>)
      else ([], s))"

fun drain_list :: "entry list \<Rightarrow> hp_call mm_call list" where
  "drain_list [] = []"
| "drain_list (x # xs) = [C_eject (fst x) (snd x), C_derived (D_drain_list xs)]"

fun hp_derived :: "(('o, 'e) acquire_retire_scheme, hp_call) derived_fn" where
  "hp_derived t D_work s = Inr (work_loop t s)"
| "hp_derived t (D_scan sls deferred m) s = Inr (scan_slots sls deferred m s, s)"
| "hp_derived t (D_eject m todo kept) s = Inr (eject_pass t m todo kept s)"
| "hp_derived t D_drain s = Inr (drain s)"
| "hp_derived t (D_drain_list xs) s = Inr (drain_list xs, s)"

text \<open>\<^verbatim>\<open>retire\<close>, with the increment at the head of \<^verbatim>\<open>work_toward_deferred_decrements\<close>.\<close>

definition retire :: "(('o, 'e) acquire_retire_scheme, hp_call) retire_fn" where
  "retire t p type s =
     Inr ([C_derived D_work],
          s\<lparr>deferred_destructs := (deferred_destructs s)(t := deferred_destructs s t @ [(p, type)]),
            amortized_work := (amortized_work s)(t := amortized_work s t + 1)\<rparr>)"

definition hp_step ::
  "tid \<Rightarrow> hp_call mm_call \<Rightarrow> (('v, 'x) counted_object_scheme, 'e) acquire_retire_scheme \<Rightarrow>
   error + hp_call mm_call list \<times> (('v, 'x) counted_object_scheme, 'e) acquire_retire_scheme" where
  "hp_step = mm_step retire hp_derived"

text \<open>The destructor of the scheme.\<close>

definition acquire_retire_dtor ::
  "tid \<Rightarrow> (('v, 'x) counted_object_scheme, 'e) acquire_retire_scheme \<Rightarrow>
   (error + (('v, 'x) counted_object_scheme, 'e) acquire_retire_scheme) option" where
  "acquire_retire_dtor t s = mm_run hp_step t [C_derived D_drain] (s\<lparr>in_progress := (\<lambda>_. True)\<rparr>)"

section \<open>Accounts and measure\<close>

fun hp_call_tokens :: "hp_call \<Rightarrow> tokens" where
  "hp_call_tokens D_work = {#}"
| "hp_call_tokens (D_scan sls deferred m) = entries_tokens deferred"
| "hp_call_tokens (D_eject m todo kept) = entries_tokens todo + entries_tokens kept"
| "hp_call_tokens D_drain = {#}"
| "hp_call_tokens (D_drain_list xs) = entries_tokens xs"

fun hp_call_weight :: "hp_call \<Rightarrow> nat" where
  "hp_call_weight D_work = 1"
| "hp_call_weight (D_scan sls deferred m) = 3 + entries_weight deferred"
| "hp_call_weight (D_eject m todo kept) = 2 + entries_weight todo + entries_weight kept"
| "hp_call_weight D_drain = 0"
| "hp_call_weight (D_drain_list xs) = entries_weight xs"

fun hp_call_length :: "hp_call mm_call \<Rightarrow> nat" where
  "hp_call_length (C_derived (D_scan sls deferred m)) = length sls"
| "hp_call_length (C_derived (D_eject m todo kept)) = length todo"
| "hp_call_length (C_derived D_drain) = 1"
| "hp_call_length (C_derived (D_drain_list xs)) = 1 + length xs"
| "hp_call_length _ = 0"

definition deferred_tokens :: "('o, 'e) acquire_retire_scheme \<Rightarrow> tokens" where
  "deferred_tokens s = (\<Sum>t<threads s. entries_tokens (deferred_destructs s t))"

definition deferred_weight :: "('o, 'e) acquire_retire_scheme \<Rightarrow> nat" where
  "deferred_weight s = (\<Sum>t<threads s. entries_weight (deferred_destructs s t) + unat (amortized_work s t))"

definition deferred_length :: "('o, 'e) acquire_retire_scheme \<Rightarrow> nat" where
  "deferred_length s = (\<Sum>t<threads s. 3 * length (deferred_destructs s t))"

definition hp_rank1 :: "hp_call mm_call list \<Rightarrow> (('v, 'x) counted_object_scheme, 'e) acquire_retire_scheme \<Rightarrow> nat" where
  "hp_rank1 cs s = calls_weight hp_call_weight cs + heap_weight s + deferred_weight s"

text \<open>The tokens of the client are \<open>R\<close>; those of the scheme are in the calls and on the lists.\<close>

definition hp_inv :: "tokens \<Rightarrow> tid \<Rightarrow> hp_call mm_call list \<Rightarrow>
    (('v, 'x) counted_object_scheme, 'e) acquire_retire_scheme \<Rightarrow> bool" where
  "hp_inv R t cs s \<longleftrightarrow>
     t < threads s \<and> mm_ok (R + calls_tokens hp_call_tokens cs + deferred_tokens s) s"

lemma more_fields:
  "mm.more s' = mm.more s \<Longrightarrow>
   threads s' = threads s \<and> announcement s' = announcement s \<and>
   snapshot_announcements s' = snapshot_announcements s \<and> in_progress s' = in_progress s \<and>
   deferred_destructs s' = deferred_destructs s \<and> amortized_work s' = amortized_work s"
  for s s' :: "('o, 'e) acquire_retire_scheme"
  by (cases s; cases s') simp

definition hp_progress :: "tid \<Rightarrow> hp_call mm_call \<Rightarrow> ('o, 'e) acquire_retire_scheme \<Rightarrow>
    hp_call mm_call list \<Rightarrow> ('o, 'e) acquire_retire_scheme \<Rightarrow> bool" where
  "hp_progress t c s new s' \<longleftrightarrow>
     scheme_progress hp_call_tokens hp_call_weight hp_call_length deferred_tokens deferred_weight deferred_length c s new s' \<and>
     threads s' = threads s \<and> announcement s' = announcement s \<and> snapshot_announcements s' = snapshot_announcements s"

lemmas hp_progress_defs = hp_progress_def scheme_progress_def deferred_weight_def deferred_length_def deferred_tokens_def

lemma retire_progress:
  assumes "t < threads s" and "retire t p type s = Inr (new, s')"
  shows "hp_progress t (C_retire p type) s new s'"
proof -
  have "unat (amortized_work s t + 1) \<le> unat (amortized_work s t) + 1" by (rule unat_plus_one_le)
  then show ?thesis
    using assms sum_work_upd [of t "threads s" "deferred_destructs s" "deferred_destructs s t @ [(p, type)]"
        "amortized_work s" "amortized_work s t + 1"]
      sum_upds(1) [of t "threads s" "deferred_destructs s" "deferred_destructs s t @ [(p, type)]"]
    by (auto simp: retire_def hp_progress_defs Let_def entry_token_def)
qed

lemma work_loop_progress:
  assumes "t < threads s" and "work_loop t s = (new, s')"
  shows "hp_progress t (C_derived D_work) s new s'"
proof (cases "\<not> in_progress s t \<and> threshold s \<le> unat (amortized_work s t)")
  case True
  then have "30 \<le> unat (amortized_work s t)" by (simp add: threshold_def)
  with True assms sum_work_upd [of t "threads s" "deferred_destructs s" "[]" "amortized_work s" 0]
      sum_work_upd [of t "threads s" "deferred_destructs s" "deferred_destructs s t" "amortized_work s" 0]
      sum_upds(1) [of t "threads s" "deferred_destructs s" "[]"]
  show ?thesis
    by (auto simp: work_loop_def hp_progress_defs Let_def ac_simps split: if_splits)
next
  case False
  with assms show ?thesis by (auto simp: work_loop_def hp_progress_defs)
qed

lemma scan_slots_progress: "hp_progress t (C_derived (D_scan sls deferred m)) s (scan_slots sls deferred m s) s"
  by (cases sls) (auto simp: hp_progress_defs Let_def)

lemma eject_pass_progress:
  assumes "t < threads s" and "eject_pass t m todo kept s = (new, s')"
  shows "hp_progress t (C_derived (D_eject m todo kept)) s new s'"
proof (cases todo)
  case Nil
  with assms sum_work_upd [of t "threads s" "deferred_destructs s" "deferred_destructs s t @ kept"
      "amortized_work s" "amortized_work s t"]
    sum_upds(1) [of t "threads s" "deferred_destructs s" "deferred_destructs s t @ kept"]
  show ?thesis by (auto simp: hp_progress_defs Let_def ac_simps)
next
  case (Cons x xs)
  have "0 < entry_weight (snd x)" by (cases "snd x") simp_all
  with Cons assms show ?thesis
    by (auto simp: hp_progress_defs entry_token_def Let_def ac_simps split: option.splits)
qed

lemma drain_progress:
  assumes "drain s = (new, s')"
  shows "hp_progress t (C_derived D_drain) s new s'"
proof (cases "list_ex (\<lambda>t. deferred_destructs s t \<noteq> []) [0..<threads s]")
  case True
  then obtain t where "t < threads s" "deferred_destructs s t \<noteq> []" by (auto simp: list_ex_iff)
  then have "0 < (\<Sum>t<threads s. length (deferred_destructs s t))"
    by (intro sum_pos2 [where i = t]) auto
  then have "1 + (\<Sum>t<threads s. length (deferred_destructs s t)) < (\<Sum>t<threads s. 3 * length (deferred_destructs s t))"
    unfolding sum_distrib_left [symmetric] by simp
  with True assms show ?thesis
    by (auto simp: drain_def hp_progress_defs entries_concat sum.distrib Let_def)
next
  case False
  with assms show ?thesis by (auto simp: drain_def hp_progress_defs)
qed

lemma drain_list_progress: "hp_progress t (C_derived (D_drain_list xs)) s (drain_list xs) s"
proof (cases xs)
  case (Cons x xs')
  have "0 < entry_weight (snd x)" by (cases "snd x") simp_all
  with Cons show ?thesis by (auto simp: hp_progress_defs entry_token_def Let_def)
qed (auto simp: hp_progress_defs)

lemmas hp_progress_rules = work_loop_progress scan_slots_progress eject_pass_progress drain_progress drain_list_progress

lemma hp_derived_progress:
  assumes "t < threads s"
  shows "\<exists>new s'. hp_derived t d s = Inr (new, s') \<and> hp_progress t (C_derived d) s new s'"
proof -
  obtain r where r: "hp_derived t d s = Inr r" by (cases d) simp_all
  with assms have "hp_progress t (C_derived d) s (fst r) (snd r)"
    by (cases d) (auto intro: hp_progress_rules)
  with r show ?thesis by (cases r) simp
qed

interpretation hp: reclamation_scheme retire hp_derived hp_call_tokens hp_call_weight hp_call_length
  deferred_tokens deferred_weight deferred_length "\<lambda>t s. t < threads s"
proof
  fix s s' :: "(('v, 'x) counted_object_scheme, 'e) acquire_retire_scheme" and t p type new
  show "deferred_tokens s' = deferred_tokens s \<and> deferred_weight s' = deferred_weight s \<and>
      deferred_length s' = deferred_length s \<and> (t < threads s') = (t < threads s)" if "mm.more s' = mm.more s"
    using more_fields [OF that] by (simp add: deferred_tokens_def deferred_weight_def deferred_length_def)
  show "\<exists>new s'. retire t p type s = Inr (new, s') \<and>
      scheme_progress hp_call_tokens hp_call_weight hp_call_length deferred_tokens deferred_weight deferred_length
      (C_retire p type) s new s' \<and> (\<forall>u. u < threads s \<longrightarrow> u < threads s')" if "t < threads s"
    using retire_progress [OF that, of p type] that by (simp add: hp_progress_def retire_def)
next
  fix s :: "(('v, 'x) counted_object_scheme, 'e) acquire_retire_scheme" and t d
  assume "t < threads s"
  with hp_derived_progress [OF this, of d]
  show "\<exists>new s'. hp_derived t d s = Inr (new, s') \<and>
      scheme_progress hp_call_tokens hp_call_weight hp_call_length deferred_tokens deferred_weight deferred_length
        (C_derived d) s new s' \<and> (\<forall>u. u < threads s \<longrightarrow> u < threads s')"
    by (auto simp: hp_progress_def)
qed

lemmas hp_run_keeps = hp.machine.run_keeps [folded hp_step_def hp_inv_def]
lemmas hp_run_ok = hp.machine.run_ok [folded hp_step_def hp_inv_def]
lemmas hp_step_ok = hp.machine.step_ok [folded hp_step_def hp_inv_def hp_rank1_def]

lemma hp_base_step_more:
  assumes "hp_inv R t (c # cs) s" "hp_step t c s = Inr (new, s')"
    "\<And>p type. c \<noteq> C_retire p type" "\<And>d. c \<noteq> C_derived d"
  shows "mm.more s' = mm.more s"
  using hp.base_step [of t s R c cs] assms by (auto simp: hp_inv_def hp_step_def)

section \<open>Announcements protect\<close>

text \<open>
  A pointer is guarded for a slot if an atomic location holds it, or a reference that a location gave up is on its
  way to a list, or on a list, or in a pass that has not yet read the slot, that has seen
  the pointer announced, or that has kept an entry of it.
\<close>

fun hp_call_guards :: "slot \<Rightarrow> ptr \<Rightarrow> hp_call \<Rightarrow> bool" where
  "hp_call_guards sl p (D_scan sls deferred m) \<longleftrightarrow>
     (p, RT_decrement_strong_count) \<in> set deferred \<and> (sl \<in> set sls \<or> m (p, RT_decrement_strong_count) \<noteq> None)"
| "hp_call_guards sl p (D_eject m todo kept) \<longleftrightarrow>
     (p, RT_decrement_strong_count) \<in> set kept \<or>
     (p, RT_decrement_strong_count) \<in> set todo \<and> m (p, RT_decrement_strong_count) \<noteq> None"
| "hp_call_guards sl p _ \<longleftrightarrow> False"

definition list_guards :: "slot \<Rightarrow> ptr \<Rightarrow> ('o, 'e) acquire_retire_scheme \<Rightarrow> bool" where
  "list_guards sl p s \<longleftrightarrow> (\<exists>t<threads s. (p, RT_decrement_strong_count) \<in> set (deferred_destructs s t))"

definition announces :: "slot \<Rightarrow> ptr \<Rightarrow> ('o, 'e) acquire_retire_scheme \<Rightarrow> bool" where
  "announces sl p s \<longleftrightarrow> sl \<in> set (scan_order (threads s)) \<and> slot_load sl s = p"

definition hp_guarded :: "slot \<Rightarrow> ptr \<Rightarrow> hp_call mm_call list \<Rightarrow>
    (('v, 'x) counted_object_scheme, 'e) acquire_retire_scheme \<Rightarrow> bool" where
  "hp_guarded sl p = guarded (hp_call_guards sl p) (list_guards sl p) p"

lemma in_scan_order:
  "Announcement t \<in> set (scan_order n) \<longleftrightarrow> t < n"
  "SnapshotSlot t i \<in> set (scan_order n) \<longleftrightarrow> t < n \<and> i < snapshot_slots"
  by (auto simp: scan_order_def intro!: bexI [of _ t])

lemma announce_one_covers: "announce_one p m (p, type) \<noteq> None"
  by (cases type) (simp_all add: announce_one_def retire_types_def)

lemma announce_one_keeps: "m x \<noteq> None \<Longrightarrow> announce_one p m x \<noteq> None"
  by (simp add: announce_one_def retire_types_def)

fun drains :: "hp_call \<Rightarrow> bool" where
  "drains D_drain \<longleftrightarrow> True"
| "drains (D_drain_list xs) \<longleftrightarrow> True"
| "drains _ \<longleftrightarrow> False"

lemma slot_load_cong:
  "announcement s' = announcement s \<Longrightarrow> snapshot_announcements s' = snapshot_announcements s \<Longrightarrow>
   slot_load sl s' = slot_load sl s"
  by (cases sl) simp_all

lemma announces_cong: "hp_progress t c s new s' \<Longrightarrow> announces sl p s' = announces sl p s"
  using slot_load_cong [of s' s sl] by (simp add: announces_def hp_progress_def)

lemma retire_guards:
  "retire t q type s = Inr (new, s') \<Longrightarrow> t < threads s \<Longrightarrow>
   new = [C_derived D_work] \<and> (list_guards sl p s \<longrightarrow> list_guards sl p s') \<and>
   (q = p \<and> type = RT_decrement_strong_count \<longrightarrow> list_guards sl p s')"
  by (auto simp: retire_def list_guards_def)

lemma work_loop_guards:
  "work_loop t s = (new, s') \<Longrightarrow> announces sl p s \<Longrightarrow>
   (list_guards sl p s \<longrightarrow> list_guards sl p s' \<or> (\<exists>d. C_derived d \<in> set new \<and> hp_call_guards sl p d)) \<and>
   (\<forall>d. C_derived d \<in> set new \<longrightarrow> \<not> drains d)"
  by (auto simp: work_loop_def list_guards_def announces_def Let_def split: if_splits)

lemma scan_slots_guards:
  assumes "announces sl p s" "p \<noteq> nullptr"
  shows "(hp_call_guards sl p (D_scan sls deferred m) \<longrightarrow>
      (\<exists>d. C_derived d \<in> set (scan_slots sls deferred m s) \<and> hp_call_guards sl p d)) \<and>
    (\<forall>d. C_derived d \<in> set (scan_slots sls deferred m s) \<longrightarrow> \<not> drains d)"
  using assms announce_one_covers announce_one_keeps by (cases sls) (auto simp: announces_def Let_def)

lemma eject_pass_guards:
  assumes "eject_pass t m todo kept s = (new, s')" "t < threads s"
  shows "(list_guards sl p s \<or> hp_call_guards sl p (D_eject m todo kept) \<longrightarrow>
      list_guards sl p s' \<or> (\<exists>d. C_derived d \<in> set new \<and> hp_call_guards sl p d)) \<and>
    (\<forall>d. C_derived d \<in> set new \<longrightarrow> \<not> drains d)"
proof (cases todo)
  case Nil
  with assms show ?thesis by (auto simp: list_guards_def)
next
  case (Cons x todo')
  with assms show ?thesis by (cases "m x") (auto split: if_splits)
qed

lemma hp_derived_guards:
  assumes "t < threads s" "announces sl p s" "p \<noteq> nullptr" "\<not> drains d" "hp_derived t d s = Inr (new, s')"
  shows "announces sl p s' \<and> (list_guards sl p s \<or> hp_call_guards sl p d \<longrightarrow>
      list_guards sl p s' \<or> (\<exists>d'. C_derived d' \<in> set new \<and> hp_call_guards sl p d')) \<and>
    (\<forall>d'. C_derived d' \<in> set new \<longrightarrow> \<not> drains d')"
proof -
  have "announces sl p s'"
    using hp_derived_progress [OF assms(1), of d] assms(2,5) by (auto simp: announces_cong)
  with assms work_loop_guards [of t s new s' sl p] scan_slots_guards [of sl p s] eject_pass_guards [of t _ _ _ s new s' sl p]
  show ?thesis by (cases d) auto
qed

lemma hp_call_guards_token: "hp_call_guards sl p d \<Longrightarrow> (T_strong, p) \<in># hp_call_tokens d"
  by (cases d) (force simp: entries_tokens_def entry_token_def)+

lemma list_guards_token:
  assumes "list_guards sl p s"
  shows "(T_strong, p) \<in># deferred_tokens s"
proof -
  from assms obtain t where "t < threads s" "(T_strong, p) \<in># entries_tokens (deferred_destructs s t)"
    by (force simp: list_guards_def entries_tokens_def entry_token_def)
  then show ?thesis unfolding deferred_tokens_def in_sum_tokens [symmetric] by blast
qed

interpretation hp: protecting_scheme retire hp_derived hp_call_tokens hp_call_weight hp_call_length
  deferred_tokens deferred_weight deferred_length "\<lambda>t s. t < threads s"
  hp_call_guards list_guards announces drains
proof
  fix s s' :: "(('v, 'x) counted_object_scheme, 'e) acquire_retire_scheme" and sl p t q type new
  show "(list_guards sl p s \<longrightarrow> list_guards sl p s') \<and> (announces sl p s \<longrightarrow> announces sl p s')"
    if "mm.more s' = mm.more s"
    using more_fields [OF that] slot_load_cong [of s' s sl] by (simp add: list_guards_def announces_def)
  show "announces sl p s' \<and>
      (list_guards sl p s \<or> q = p \<and> type = RT_decrement_strong_count \<longrightarrow>
       list_guards sl p s' \<or> (\<exists>d. C_derived d \<in> set new \<and> hp_call_guards sl p d)) \<and>
      (\<forall>d. C_derived d \<in> set new \<longrightarrow> \<not> drains d)"
    if "t < threads s" "announces sl p s" "p \<noteq> nullptr" "retire t q type s = Inr (new, s')"
    using retire_guards [OF that(4,1), of sl p] announces_cong [OF retire_progress [OF that(1,4)]] that(2) by auto
qed (rule hp_derived_guards hp_call_guards_token list_guards_token; assumption)+

lemma hp_step_frame:
  assumes inv: "hp_inv R t (c # cs) s" and step: "hp_step t c s = Inr (new, s')"
  shows "threads s' = threads s \<and> announcement s' = announcement s \<and>
    snapshot_announcements s' = snapshot_announcements s"
proof -
  from inv have t: "t < threads s" by (simp add: hp_inv_def)
  consider (retire) q type where "c = C_retire q type" | (derived) d where "c = C_derived d"
    | (base) "\<And>p type. c \<noteq> C_retire p type" "\<And>d. c \<noteq> C_derived d"
    by blast
  then show ?thesis
  proof cases
    case retire
    with step retire_progress [OF t] show ?thesis by (auto simp: hp_step_def hp_progress_def)
  next
    case derived
    with step hp_derived_progress [OF t, of d] show ?thesis by (auto simp: hp_step_def hp_progress_def)
  next
    case base
    with more_fields [OF hp_base_step_more [OF inv step base]] show ?thesis by simp
  qed
qed

section \<open>Garbage is bounded\<close>

text \<open>
  A pass keeps at most two entries of each kind for every slot: the counts handed out by the scan
  are a budget that the entries kept use up. What a thread retires between two
  passes is paid by \<open>amortized_work\<close>.
\<close>

definition budget :: "announced \<Rightarrow> nat" where
  "budget m = (\<Sum>x\<in>dom m. the (m x))"

lemma budget_upd:
  "finite (dom m) \<Longrightarrow> budget (m(x \<mapsto> n)) + (case m x of None \<Rightarrow> 0 | Some k \<Rightarrow> k) = budget m + n"
proof (cases "m x")
  case None
  assume fin: "finite (dom m)"
  have "(\<Sum>y\<in>dom m. the ((m(x \<mapsto> n)) y)) = (\<Sum>y\<in>dom m. the (m y))"
    using None by (intro sum.cong) auto
  with None fin show ?thesis by (simp add: budget_def domIff)
next
  case (Some k)
  assume "finite (dom m)"
  with Some show ?thesis
    by (simp add: budget_def sum.insert_remove domI sum.remove [of "dom m" x] cong: sum.cong_simp)
qed

lemma budget_drop: "finite (dom m) \<Longrightarrow> m x = Some k \<Longrightarrow> budget (m(x := None)) + k = budget m"
  by (simp add: budget_def domI sum.remove [of "dom m" x] cong: sum.cong_simp)

lemma announce_one_budget:
  assumes "finite (dom m)"
  shows "finite (dom (announce_one p m))" and "budget (announce_one p m) \<le> budget m + 6"
proof -
  let ?add = "\<lambda>m type. m((p, type) \<mapsto>
      (case m (p, type) of None \<Rightarrow> 2 | Some cnt \<Rightarrow> if cnt \<noteq> 0 then cnt + 1 else (2 :: nat)))"
  have one: "finite (dom m) \<Longrightarrow> budget (?add m type) \<le> budget m + 2" for m :: announced and type
    using budget_upd [of m "(p, type)" "case m (p, type) of None \<Rightarrow> 2 | Some cnt \<Rightarrow> if cnt \<noteq> 0 then cnt + 1 else 2"]
    by (cases "m (p, type)") (auto split: if_splits)
  have fin: "finite (dom m) \<Longrightarrow> finite (dom (?add m type))" for m :: announced and type by simp
  let ?m1 = "?add m RT_decrement_strong_count" let ?m2 = "?add ?m1 RT_decrement_weak_count"
  have eq: "announce_one p m = ?add ?m2 RT_dispose"
    by (simp only: announce_one_def retire_types_def foldl.simps)
  show "finite (dom (announce_one p m))"
    unfolding eq by (intro fin assms)
  have "budget ?m1 \<le> budget m + 2" by (rule one [OF assms])
  moreover have "budget ?m2 \<le> budget ?m1 + 2" by (rule one [OF fin [OF assms]])
  moreover have "budget (announce_one p m) \<le> budget ?m2 + 2"
    unfolding eq by (rule one [OF fin [OF fin [OF assms]]])
  ultimately show "budget (announce_one p m) \<le> budget m + 6" by linarith
qed

lemma announce_one_pos: "\<forall>x. m x \<noteq> Some 0 \<Longrightarrow> announce_one p m x \<noteq> Some 0"
  by (cases x) (auto simp: announce_one_def retire_types_def split: option.splits if_splits)

fun is_pass :: "hp_call mm_call \<Rightarrow> bool" where
  "is_pass (C_derived (D_scan sls deferred m)) \<longleftrightarrow> True"
| "is_pass (C_derived (D_eject m todo kept)) \<longleftrightarrow> True"
| "is_pass _ \<longleftrightarrow> False"

fun pass_bound :: "nat \<Rightarrow> hp_call mm_call \<Rightarrow> bool" where
  "pass_bound N (C_derived (D_scan sls deferred m)) \<longleftrightarrow> finite (dom m) \<and> (\<forall>x. m x \<noteq> Some 0) \<and>
     budget m + 6 * length sls \<le> 6 * N"
| "pass_bound N (C_derived (D_eject m todo kept)) \<longleftrightarrow> finite (dom m) \<and> (\<forall>x. m x \<noteq> Some 0) \<and>
     budget m + length kept \<le> 6 * N"
| "pass_bound N _ \<longleftrightarrow> True"

definition garbage_inv :: "tid \<Rightarrow> hp_call mm_call list \<Rightarrow> (('v, 'x) counted_object_scheme, 'e) acquire_retire_scheme \<Rightarrow> bool" where
  "garbage_inv t cs s \<longleftrightarrow>
     hp_rank1 cs s < 2 ^ 32 \<and> (\<forall>d. C_derived d \<in> set cs \<longrightarrow> \<not> drains d) \<and>
     (unat (amortized_work s t) < threshold s \<or> in_progress s t \<or> C_derived D_work \<in> set cs) \<and>
     (if in_progress s t
      then length (deferred_destructs s t) \<le> unat (amortized_work s t) \<and>
           (\<exists>c. filter is_pass cs = [c] \<and> pass_bound (length (scan_order (threads s))) c)
      else length (deferred_destructs s t) \<le> 6 * length (scan_order (threads s)) + unat (amortized_work s t) \<and>
           filter is_pass cs = [])"

lemma garbage_inv_retire:
  assumes inv: "hp_inv R t (C_retire p type # cs) s" and g: "garbage_inv t (C_retire p type # cs) s"
    and step: "retire t p type s = Inr (new, s')" and rank: "hp_rank1 (new @ cs) s' < 2 ^ 32"
  shows "garbage_inv t (new @ cs) s'"
proof -
  have "unat (amortized_work s t) \<le> (\<Sum>t<threads s. entries_weight (deferred_destructs s t) + unat (amortized_work s t))"
    using member_le_sum [of t "{..<threads s}" "\<lambda>t. entries_weight (deferred_destructs s t) + unat (amortized_work s t)"] inv
    by (simp add: hp_inv_def)
  moreover have "0 < entry_weight type" by (cases type) simp_all
  ultimately have "unat (amortized_work s t) + 1 < 2 ^ 32"
    using g by (simp add: garbage_inv_def hp_rank1_def deferred_weight_def)
  then have "unat (amortized_work s t + 1) = unat (amortized_work s t) + 1"
    by (simp add: unat_word_ariths)
  with g step rank show ?thesis
    by (auto simp: garbage_inv_def retire_def threshold_def)
qed

lemma garbage_inv_work:
  assumes g: "garbage_inv t (C_derived D_work # cs) s"
    and step: "work_loop t s = (new, s')" and rank: "hp_rank1 (new @ cs) s' < 2 ^ 32"
  shows "garbage_inv t (new @ cs) s'"
  using assms by (auto simp: garbage_inv_def work_loop_def threshold_def Let_def budget_def split: if_splits)

lemma garbage_inv_scan:
  assumes g: "garbage_inv t (C_derived (D_scan sls deferred m) # cs) s"
    and rank: "hp_rank1 (scan_slots sls deferred m s @ cs) s < 2 ^ 32"
  shows "garbage_inv t (scan_slots sls deferred m s @ cs) s"
proof (cases sls)
  case Nil
  with assms show ?thesis by (auto simp: garbage_inv_def split: if_splits)
next
  case (Cons sl sls')
  with assms announce_one_budget [of m "slot_load sl s"] announce_one_pos [of m "slot_load sl s"] show ?thesis
    by (fastforce simp: garbage_inv_def Let_def split: if_splits)
qed

lemma pass_bound_keep:
  assumes bound: "pass_bound N (C_derived (D_eject m todo kept))" and x: "m x = Some k"
  shows "pass_bound N (C_derived (D_eject (if k - 1 = 0 then m(x := None) else m(x \<mapsto> k - 1)) todo' (kept @ [x])))"
proof -
  from bound have fin: "finite (dom m)" and pos: "\<forall>y. m y \<noteq> Some 0" and le: "budget m + length kept \<le> 6 * N"
    by simp_all
  from pos x have k: "0 < k" by (metis gr0I)
  show ?thesis
  proof (cases "k - 1 = 0")
    case True
    with k budget_drop [OF fin x] le fin pos show ?thesis by simp
  next
    case False
    with k budget_upd [OF fin, of x "k - 1"] x le fin pos show ?thesis by simp
  qed
qed

lemma garbage_inv_eject:
  assumes g: "garbage_inv t (C_derived (D_eject m todo kept) # cs) s"
    and step: "eject_pass t m todo kept s = (new, s')" and rank: "hp_rank1 (new @ cs) s' < 2 ^ 32"
  shows "garbage_inv t (new @ cs) s'"
proof (cases todo)
  case Nil
  with assms show ?thesis by (auto simp: garbage_inv_def threshold_def split: if_splits)
next
  case (Cons x todo')
  show ?thesis
  proof (cases "m x")
    case None
    with assms Cons show ?thesis by (auto simp: garbage_inv_def split: if_splits)
  next
    case (Some k)
    with assms Cons pass_bound_keep [of _ m todo kept x k todo'] show ?thesis
      by (auto simp: garbage_inv_def simp del: pass_bound.simps split: if_splits)
  qed
qed

lemma hp_derived_calls:
  assumes "hp_derived t d s = Inr (new, s')" and "\<not> drains d"
  shows "C_derived d' \<in> set new \<longrightarrow> \<not> drains d'"
proof (cases d)
  case D_work
  with assms show ?thesis by (auto simp: work_loop_def Let_def split: if_splits)
next
  case (D_scan sls deferred m)
  with assms show ?thesis by (cases sls) (auto simp: Let_def)
next
  case (D_eject m todo kept)
  with assms show ?thesis by (cases todo) (auto split: option.splits)
qed (use assms in auto)

lemma hp_step_no_drain:
  assumes "hp_step t c s = Inr (new, s')" and "\<And>d. c = C_derived d \<Longrightarrow> \<not> drains d"
  shows "C_derived d \<in> set new \<longrightarrow> \<not> drains d"
proof -
  consider (retire) q type where "c = C_retire q type" | (derived) d where "c = C_derived d"
    | (base) "\<And>p type. c \<noteq> C_retire p type" "\<And>d. c \<noteq> C_derived d"
    by blast
  then show ?thesis
  proof cases
    case retire
    with assms show ?thesis by (auto simp: hp_step_def retire_def)
  next
    case derived
    with assms show ?thesis using hp_derived_calls [of t _ s new s'] by (auto simp: hp_step_def)
  next
    case base
    with mm_step_base [OF assms(1) [unfolded hp_step_def]] show ?thesis by blast
  qed
qed

lemma hp_step_garbage:
  assumes inv: "hp_inv R t (c # cs) s" and g: "garbage_inv t (c # cs) s" and step: "hp_step t c s = Inr (new, s')"
  shows "garbage_inv t (new @ cs) s'"
proof -
  have "hp_rank1 (new @ cs) s' \<le> hp_rank1 (c # cs) s"
    using hp_step_ok [OF inv] step by auto
  then have rank: "hp_rank1 (new @ cs) s' < 2 ^ 32" using g by (simp add: garbage_inv_def)
  have nd: "\<forall>d. C_derived d \<in> set new \<longrightarrow> \<not> drains d"
    using hp_step_no_drain [OF step] g by (auto simp: garbage_inv_def)
  consider (retire) q type where "c = C_retire q type" | (derived) d where "c = C_derived d"
    | (base) "\<And>p type. c \<noteq> C_retire p type" "\<And>d. c \<noteq> C_derived d"
    by blast
  then show ?thesis
  proof cases
    case retire
    with inv g step rank show ?thesis by (auto simp: hp_step_def intro: garbage_inv_retire)
  next
    case derived
    have "\<not> drains d" using g derived by (simp add: garbage_inv_def)
    with derived g step rank show ?thesis
      by (cases d) (auto simp: hp_step_def intro: garbage_inv_work garbage_inv_scan garbage_inv_eject)
  next
    case base
    have more: "mm.more s' = mm.more s" using hp_base_step_more [OF inv step base] .
    have nopass: "filter is_pass new = []" "\<not> is_pass c"
      using mm_step_base [OF step [unfolded hp_step_def] base] base
      by (auto simp: filter_empty_conv elim!: is_pass.elims(2))
    show ?thesis
      using g rank nd nopass more_fields [OF more] base(2) [of D_work]
      by (auto simp: garbage_inv_def threshold_def)
  qed
qed

section \<open>Taking snapshots\<close>

lemma slot_store_heap [simp]: "heap (slot_store sl p s) = heap s"
  by (cases sl) simp_all

lemma find_free_ok:
  "find_free ps k = Some i \<Longrightarrow> k \<le> i \<and> i - k < length ps \<and> ps ! (i - k) = nullptr \<and> (\<forall>j<i - k. ps ! j \<noteq> nullptr)"
proof (induction ps arbitrary: k)
  case (Cons p ps)
  show ?case
  proof (cases "p = nullptr")
    case False
    with Cons(2) have "find_free ps (Suc k) = Some i" by simp
    from Cons(1) [OF this] False show ?thesis by (auto simp: nth_Cons')
  qed (use Cons in auto)
qed simp

lemma find_free_None: "find_free ps k = None \<longleftrightarrow> nullptr \<notin> set ps"
  by (induction ps arbitrary: k) auto

lemma get_free_slot_first:
  "get_free_slot t s = Some sl \<Longrightarrow>
   \<exists>i. sl = SnapshotSlot t i \<and> i < length (snapshot_announcements s t) \<and> snapshot_announcements s t ! i = nullptr \<and>
     (\<forall>j<i. snapshot_announcements s t ! j \<noteq> nullptr)"
  by (auto simp: get_free_slot_def dest: find_free_ok)

lemma slot_store_twice [simp]: "slot_store sl q (slot_store sl p s) = slot_store sl q s"
  by (cases sl) simp_all

lemma protect_in_slot_find:
  "protect_in_slot sl script s =
     map_option (\<lambda>(p, _). (\<lparr>ap_value = p, ap_slot = if p = nullptr then None else Some sl\<rparr>, slot_store sl p s))
       (find (\<lambda>(p, again). p = nullptr \<or> again = p) script)"
  by (induction sl script s rule: protect_in_slot.induct) (simp_all add: Let_def)

text \<open>Two states with the same objects, but for the values of the strong counts.\<close>

definition same_but_strong_counts ::
  "(('v, 'x) counted_object_scheme, 'e) mm_scheme \<Rightarrow> (('v, 'x) counted_object_scheme, 'e) mm_scheme \<Rightarrow> bool" where
  "same_but_strong_counts s s' \<longleftrightarrow>
     fmmap (ref_cnt_update (\<lambda>_. 0)) (heap s') = fmmap (ref_cnt_update (\<lambda>_. 0)) (heap s) \<and>
     num_allocated s' = num_allocated s"

text \<open>Every strong count can be incremented \<open>k\<close> times.\<close>

definition rooms_for :: "nat \<Rightarrow> (('v, 'x) counted_object_scheme, 'e) mm_scheme \<Rightarrow> bool" where
  "rooms_for k s \<longleftrightarrow> fmpred (\<lambda>_ ob. unat (ref_cnt ob AND max_value) + k \<le> unat (max_value :: u32)) (heap s)"

lemma acquire_find:
  "acquire t reads s =
     map_option (\<lambda>(p, _). (\<lparr>ap_value = p, ap_slot = Some (Announcement t)\<rparr>, slot_store (Announcement t) p s))
       (find (\<lambda>(p, again). again = p) reads)"
  by (induction t reads s rule: acquire.induct) (simp_all add: Let_def fun_upd_idem_iff)

lemma find_repeat:
  "find (\<lambda>(p, again). again = p) reads = Some x \<Longrightarrow> \<exists>p. x = (p, p) \<and> (p, p) \<in> set reads"
  "find (\<lambda>(p, again). again = p) reads = None \<Longrightarrow> (p, p) \<notin> set reads"
  by (auto simp: find_Some_iff find_None_iff in_set_conv_nth)

lemma increment_slot_store:
  "increment_ref_cnt p (slot_store sl q s) = map_sum id (map_prod id (slot_store sl q)) (increment_ref_cnt p s)"
  by (cases sl) (auto simp: increment_ref_cnt_def with_object_def put_object_def split: option.splits prod.splits)

lemma rooms_for_suc:
  assumes "rooms_for (Suc k) s" shows "strong_room p s"
  using assms unfolding rooms_for_def strong_room_def sc_room_def fmpred_iff
  by (auto split: option.splits dest!: spec [of _ p])

lemma increment_ref_cnt_frame:
  assumes "increment_ref_cnt p s = Inr (b, s')" and "rooms_for (Suc k) s"
  shows "same_but_strong_counts s s' \<and> rooms_for k s'"
proof -
  obtain ob where ob: "fmlookup (heap s) p = Some ob" "s' = put_object p (ob\<lparr>ref_cnt := ref_cnt ob + 1\<rparr>) s"
    using assms(1) by (auto simp: increment_ref_cnt_def with_object_Inr add_refs_def sc_increment_def atomic_defs Let_def split: if_splits)
  have room: "unat (ref_cnt ob AND max_value) + Suc k \<le> unat (max_value :: u32)"
    using assms(2) ob(1) by (auto simp: rooms_for_def)
  then have "unat (ref_cnt ob + 1) = unat (ref_cnt ob) + 1" using add_phase(1) [of "ref_cnt ob" 1] by simp
  with room have "unat ((ref_cnt ob + 1) AND max_value) + k \<le> unat (max_value :: u32)"
    unfolding and_max_value unat_flags by (simp add: mod_Suc)
  with assms(2) ob have "rooms_for k s'"
    unfolding rooms_for_def put_object_def fmpred_iff by (fastforce split: if_splits)
  with ob show ?thesis
    by (auto simp: same_but_strong_counts_def put_object_def intro!: fmap_ext)
qed
lemma counted_round:
  fixes s :: "(('v, 'x) counted_object_scheme, 'e) acquire_retire_scheme"
  assumes "mm_ok R s" and "rooms_for (Suc k) s" and "p \<in> fset (fmdom (heap s))"
    and alive: "alive = ((T_strong, p) \<in># R + heap_tokens s)"
  obtains s1 where "increment_ref_cnt p (slot_store (Announcement t) p s) = Inr (alive, slot_store (Announcement t) p s1)"
    and "mm_ok (if alive then add_mset (T_strong, p) R else R) s1" and "heap_tokens s1 = heap_tokens s"
    and "mm.more s1 = mm.more s" and "same_but_strong_counts s s1" and "rooms_for k s1"
proof -
  from assms(3) obtain ob where ob: "fmlookup (heap s) p = Some ob" by (auto simp: fmlookup_dom_iff)
  have "alive = (0 < token_count (R + heap_tokens s) p T_strong)"
    by (simp add: alive token_count_def)
  from increment_ref_cnt_ok [OF assms(1) ob rooms_for_suc [OF assms(2)] this] obtain s1 where
    s1: "increment_ref_cnt p s = Inr (alive, s1)" "mm_ok (if alive then add_mset (T_strong, p) R else R) s1"
      "heap_tokens s1 = heap_tokens s" "mm.more s1 = mm.more s" by blast
  from that [of s1] s1 increment_ref_cnt_frame [OF s1(1) assms(2)] show ?thesis
    by (simp add: increment_slot_store del: slot_store.simps)
qed
lemma slot_store_frame [simp]:
  "num_allocated (slot_store sl p s) = num_allocated s" "rooms_for k (slot_store sl p s) = rooms_for k s"
  "heap_tokens (slot_store sl p s) = heap_tokens s"
  "mm_ok R (slot_store sl p s) = mm_ok R s" "same_but_strong_counts s0 (slot_store sl p s) = same_but_strong_counts s0 s"
  "same_but_strong_counts (slot_store sl p s) s0 = same_but_strong_counts s s0"
  for s s0 :: "(('v, 'x) counted_object_scheme, 'e) acquire_retire_scheme"
  by (cases sl; simp add: rooms_for_def same_but_strong_counts_def heap_tokens_def mm_ok_def mm_inv_def)+

lemma slot_store_more: "mm.more s' = mm.more s \<Longrightarrow> mm.more (slot_store sl p s') = mm.more (slot_store sl p s)"
  for s s' :: "('o, 'e) acquire_retire_scheme"
  by (cases s; cases s'; cases sl) simp_all

lemma same_but_strong_counts_dom: "same_but_strong_counts s s' \<Longrightarrow> fmdom (heap s') = fmdom (heap s)"
  unfolding same_but_strong_counts_def by (metis fmdom_map)

text \<open>What a call of \<^verbatim>\<open>protect_snapshot\<close> without a free slot comes to, for the references \<open>T\<close> there are.\<close>

definition counted_outcome :: "tid \<Rightarrow> tokens \<Rightarrow> tokens \<Rightarrow> ((ptr \<times> ptr) list \<times> ptr) list \<Rightarrow>
    (('v, 'x) counted_object_scheme, 'e) acquire_retire_scheme \<Rightarrow>
    (error + acquired_pointer \<times> (('v, 'x) counted_object_scheme, 'e) acquire_retire_scheme) option \<Rightarrow> bool" where
  "counted_outcome t R T rounds s r \<longleftrightarrow> (case r of
      None \<Rightarrow> (\<exists>(reads, final)\<in>set rounds. \<forall>p. (p, p) \<notin> set reads) \<or>
        (\<forall>(reads, final)\<in>set rounds. \<exists>p. (p, p) \<in> set reads \<and> p \<noteq> nullptr \<and> p \<noteq> final \<and> (T_strong, p) \<notin># T)
    | Some (Inl e) \<Rightarrow> False
    | Some (Inr (a, s')) \<Rightarrow> ap_slot a = None \<and>
        (\<exists>(reads, final)\<in>set rounds. \<exists>p. (p, p) \<in> set reads \<and>
          (if ap_value a = nullptr then p = nullptr \<or> p = final \<and> (T_strong, p) \<notin># T
           else p = ap_value a \<and> (T_strong, p) \<in># T)) \<and>
        mm_ok (if ap_value a = nullptr then R else add_mset (T_strong, ap_value a) R) s' \<and>
        same_but_strong_counts s s' \<and> mm.more s' = mm.more (slot_store (Announcement t) nullptr s))"

lemma protect_counted_null:
  assumes "find (\<lambda>(p, again). again = p) reads = Some (nullptr, nullptr)"
  shows "protect_counted t ((reads, final) # rounds) s =
    Some (Inr (\<lparr>ap_value = nullptr, ap_slot = None\<rparr>, slot_store (Announcement t) nullptr s))"
  using assms by (simp add: acquire_find clear_protection_def)

lemma protect_counted_round:
  assumes "find (\<lambda>(p, again). again = p) reads = Some (p, p)" and "p \<noteq> nullptr"
    and "increment_ref_cnt p (slot_store (Announcement t) p s) = Inr (alive, slot_store (Announcement t) p s1)"
  shows "protect_counted t ((reads, final) # rounds) s =
    (let s2 = slot_store (Announcement t) nullptr s1 in
     if alive then Some (Inr (\<lparr>ap_value = p, ap_slot = None\<rparr>, s2))
     else if final = p then Some (Inr (\<lparr>ap_value = nullptr, ap_slot = None\<rparr>, s2))
     else protect_counted t rounds s2)"
  using assms by (cases alive) (simp_all add: acquire_find clear_protection_def Let_def)

lemma counted_outcome_later:
  assumes "counted_outcome t R T rounds (slot_store (Announcement t) nullptr s1) r"
    and "(p, p) \<in> set reads" and "p \<noteq> nullptr" and "p \<noteq> final" and "(T_strong, p) \<notin># T"
    and "mm.more s1 = mm.more s" and "same_but_strong_counts s s1"
  shows "counted_outcome t R T ((reads, final) # rounds) s r"
proof (cases r)
  case None
  then show ?thesis using assms(1-5) by (auto simp: counted_outcome_def)
next
  case (Some r')
  then obtain a s' where r: "r = Some (Inr (a, s'))"
    using assms(1) by (auto simp: counted_outcome_def split: sum.splits)
  show ?thesis
    using assms(1,7) slot_store_more [OF assms(6), of "Announcement t" nullptr]
    by (simp add: r counted_outcome_def same_but_strong_counts_def del: slot_store.simps)
qed

lemma protect_counted_ok:
  fixes s :: "(('v, 'x) counted_object_scheme, 'e) acquire_retire_scheme"
  assumes "mm_ok R s" and "rooms_for (length rounds) s" and "T = R + heap_tokens s"
    and "\<forall>(reads, final)\<in>set rounds. \<forall>p. (p, p) \<in> set reads \<longrightarrow> p = nullptr \<or> p \<in> fset (fmdom (heap s))"
  shows "counted_outcome t R T rounds s (protect_counted t rounds s)"
  using assms
proof (induction rounds arbitrary: s)
  case (Cons rd rounds)
  obtain reads final where rd: "rd = (reads, final)" by (cases rd)
  show ?case
  proof (cases "find (\<lambda>(p, again). again = p) reads")
    case None
    then show ?thesis using find_repeat(2) [OF None] by (auto simp: rd acquire_find counted_outcome_def)
  next
    case (Some x)
    then obtain p where p: "find (\<lambda>(p, again). again = p) reads = Some (p, p)" "(p, p) \<in> set reads"
      using find_repeat(1) by metis
    show ?thesis
    proof (cases "p = nullptr")
      case True
      with p have "protect_counted t (rd # rounds) s =
          Some (Inr (\<lparr>ap_value = nullptr, ap_slot = None\<rparr>, slot_store (Announcement t) nullptr s))"
        unfolding rd by (intro protect_counted_null) simp
      with True p Cons.prems(1) show ?thesis
        by (auto simp: rd counted_outcome_def same_but_strong_counts_def simp del: slot_store.simps protect_counted.simps)
    next
      case False
      with Cons.prems(4) p(2) have mem: "p \<in> fset (fmdom (heap s))" by (auto simp: rd)
      have room: "rooms_for (Suc (length rounds)) s" using Cons.prems(2) by simp
      from counted_round [OF Cons.prems(1) room mem refl, of t] obtain s1 where
        s1: "increment_ref_cnt p (slot_store (Announcement t) p s) = Inr ((T_strong, p) \<in># T, slot_store (Announcement t) p s1)"
          "mm_ok (if (T_strong, p) \<in># T then add_mset (T_strong, p) R else R) s1" "heap_tokens s1 = heap_tokens s"
          "mm.more s1 = mm.more s" "same_but_strong_counts s s1" "rooms_for (length rounds) s1"
        unfolding Cons.prems(3) [symmetric] .
      note eq = protect_counted_round [OF p(1) False s1(1), of final rounds, folded rd]
      show ?thesis
      proof (cases "(T_strong, p) \<in># T \<or> final = p")
        case True
        with eq s1 p False slot_store_more [OF s1(4), of "Announcement t" nullptr] show ?thesis
          by (auto simp: rd counted_outcome_def Let_def simp del: slot_store.simps protect_counted.simps)
      next
        case False
        with s1 Cons.prems have "counted_outcome t R T rounds (slot_store (Announcement t) nullptr s1)
            (protect_counted t rounds (slot_store (Announcement t) nullptr s1))"
          by (intro Cons.IH) (auto simp: rd same_but_strong_counts_dom simp del: slot_store.simps)
        from counted_outcome_later [OF this p(2) \<open>p \<noteq> nullptr\<close> _ _ s1(4,5)] False eq show ?thesis
          by (auto simp: rd Let_def simp del: slot_store.simps protect_counted.simps)
      qed
    qed
  qed
qed (simp add: counted_outcome_def)

section \<open>Properties\<close>

text \<open>
  (C7) Every stack of calls of the hazard-pointer scheme, started in a state whose reference counts agree
  with the references, runs to the end: no call touches a deleted object or
  destroys one twice, no assertion of the code fails, the recursion through destructors, retires and ejects
  ends, and afterwards the counts agree again, with nothing lost: the references of
  the client are exactly those it had.
\<close>

theorem hp_calls_return:
  assumes "t < threads s"
    and "mm_ok (R + calls_tokens hp_call_tokens cs + deferred_tokens s) s"
  shows "\<exists>s'. mm_run hp_step t cs s = Some (Inr s') \<and> mm_ok (R + deferred_tokens s') s'"
  using hp_run_ok [of R t cs s] assms by (auto simp: hp_inv_def)

text \<open>A state with one object, which thread 0 announces, and two threads.\<close>

definition hp_demo :: "unit counted_object acquire_retire" where
  "hp_demo = slot_store (Announcement 0) 16
     (create_object 0 16 (new_counted_object \<lparr>payload = (), members = []\<rparr>) (acquire_retire_init 2))"

lemma hp_demo_ok: "mm_ok {#(T_strong, 16)#} hp_demo"
proof -
  have "mm_ok {#(T_strong, 16)#}
      (create_object 0 16 (new_counted_object \<lparr>payload = (), members = []\<rparr>) (acquire_retire_init 2))"
    by (rule create_object_ok [OF _ fresh_new_counted_object])
       (simp_all add: members_tokens_def mm_ok_empty acquire_retire_init_def)
  then show ?thesis
    by (subst mm_ok_cong) (simp_all add: hp_demo_def)
qed

lemma hp_demo_fields [simp]:
  "threads hp_demo = 2" "announcement hp_demo 0 = 16" "deferred_tokens hp_demo = {#}"
  "in_progress hp_demo t = False" "amortized_work hp_demo t = 0" "deferred_destructs hp_demo t = []"
  by (simp_all add: hp_demo_def deferred_tokens_def create_object_def put_object_def
      increment_allocations_def acquire_retire_init_def)

theorem hp_calls_return_witness:
  "\<exists>s'. mm_run hp_step 1 [C_decrement_ref_cnt 16] hp_demo = Some (Inr s') \<and> mm_ok (deferred_tokens s') s'"
  using hp_calls_return [of 1 hp_demo "{#}" "[C_decrement_ref_cnt 16]"] hp_demo_ok by simp

text \<open>
  (C1) An announcement protects: while a slot announces a pointer that is guarded (an
  atomic location holds it or a reference given up by a location has not been applied past the announcement), no calls of
  any thread, whatever they destroy, retire or eject, take its last
  strong reference: afterwards it is guarded as before and its object is alive with a positive count.
\<close>

theorem hp_announcement_protects:
  assumes "t < threads s" and "mm_ok (R + calls_tokens hp_call_tokens cs + deferred_tokens s) s"
    and "\<forall>d. C_derived d \<in> set cs \<longrightarrow> \<not> drains d"
    and "sl \<in> set (scan_order (threads s))" and "slot_load sl s = p" and "p \<noteq> nullptr" and "hp_guarded sl p cs s"
  shows "\<exists>s'. mm_run hp_step t cs s = Some (Inr s') \<and> slot_load sl s' = p \<and> hp_guarded sl p [] s' \<and>
    (\<exists>ob n. fmlookup (heap s') p = Some ob \<and> storage ob \<noteq> None \<and> get_use_count ob = (n, ob) \<and> n \<noteq> 0)"
  using hp.run_protects [of t s R cs sl p] assms
  by (auto simp: announces_def hp_guarded_def hp_step_def)

theorem hp_announcement_protects_witness:
  "\<exists>s'. mm_run hp_step 1 [C_delayed_decrement_ref_cnt 16] hp_demo = Some (Inr s') \<and>
    slot_load (Announcement 0) s' = 16 \<and> hp_guarded (Announcement 0) 16 [] s' \<and>
    (\<exists>ob n. fmlookup (heap s') 16 = Some ob \<and> storage ob \<noteq> None \<and> get_use_count ob = (n, ob) \<and> n \<noteq> 0)"
  by (rule hp_announcement_protects [where R = "{#}"])
     (use hp_demo_ok in \<open>simp_all add: in_scan_order hp_guarded_def guarded_def\<close>)

text \<open>
  (C9) Garbage is bounded: if a thread is not in a pass and holds at most six entries for every announcement slot plus
  one for each unit of amortized work, then the same holds when the calls it makes have run, and the
  amortized work is below the threshold again. So no thread ever holds back more than
  \<open>48 * #threads + max 30 (2 * #threads)\<close> ejects between its operations. (The bound on the
  measure only excludes that the 32-bit counter wraps.)
\<close>

theorem hp_garbage_bounded:
  assumes "t < threads s" and "mm_ok (R + calls_tokens hp_call_tokens cs + deferred_tokens s) s"
    and "\<forall>d. C_derived d \<notin> set cs" and "hp_rank1 cs s < 2 ^ 32"
    and "\<not> in_progress s t" and "unat (amortized_work s t) < threshold s"
    and "length (deferred_destructs s t) \<le> 48 * threads s + unat (amortized_work s t)"
  shows "\<exists>s'. mm_run hp_step t cs s = Some (Inr s') \<and> threads s' = threads s \<and> \<not> in_progress s' t \<and>
    unat (amortized_work s' t) < threshold s' \<and>
    length (deferred_destructs s' t) \<le> 48 * threads s' + unat (amortized_work s' t) \<and>
    length (deferred_destructs s' t) < 48 * threads s' + max 30 (2 * threads s')"
proof -
  have len: "length (scan_order n) = 8 * n" for n
    by (induction n) (simp_all add: scan_order_def snapshot_slots_def)
  let ?P = "\<lambda>cs s'. garbage_inv t cs s' \<and> threads s' = threads s"
  have inv: "hp_inv R t cs s" using assms(1,2) by (simp add: hp_inv_def)
  have "\<not> is_pass c" if "c \<in> set cs" for c
    using that assms(3) by (cases c rule: is_pass.cases) auto
  then have P: "?P cs s" using assms by (auto simp: garbage_inv_def len filter_empty_conv)
  have "\<exists>s'. mm_run hp_step t cs s = Some (Inr s') \<and> hp_inv R t [] s' \<and> ?P [] s'"
    by (rule hp_run_keeps [where P = ?P, OF inv P]) (use hp_step_garbage hp_step_frame in metis)
  then show ?thesis
    by (auto simp: garbage_inv_def len threshold_def eject_delay_def split: if_splits)
qed

theorem hp_garbage_bounded_witness:
  "\<exists>s'. mm_run hp_step 1 [C_delayed_decrement_ref_cnt 16] hp_demo = Some (Inr s') \<and> threads s' = 2 \<and>
    \<not> in_progress s' 1 \<and> unat (amortized_work s' 1) < threshold s' \<and>
    length (deferred_destructs s' 1) \<le> 48 * threads s' + unat (amortized_work s' 1) \<and>
    length (deferred_destructs s' 1) < 48 * threads s' + max 30 (2 * threads s')"
proof -
  have "hp_rank1 [C_delayed_decrement_ref_cnt 16] hp_demo < 2 ^ 32"
    by (simp add: hp_rank1_def deferred_weight_def heap_weight_def hp_demo_def create_object_def put_object_def
        increment_allocations_def acquire_retire_init_def fmsum_upd_new object_weight_def new_counted_object_def)
  with hp_garbage_bounded [of 1 hp_demo "{#}" "[C_delayed_decrement_ref_cnt 16]"] hp_demo_ok
  show ?thesis by (simp add: threshold_def)
qed

text \<open>
  (C11) The destructor of the scheme applies every deferred eject, also those that the ejects defer in turn: it
  returns, all lists are empty, and only the client's own references and those inside live objects are left.
\<close>

theorem hp_destructor_drains:
  assumes "t < threads s" and "mm_ok (R + deferred_tokens s) s"
  shows "\<exists>s'. acquire_retire_dtor t s = Some (Inr s') \<and> mm_ok R s' \<and> (\<forall>u<threads s'. deferred_destructs s' u = [])"
proof -
  let ?s = "s\<lparr>in_progress := (\<lambda>_. True)\<rparr>"
  let ?P = "\<lambda>cs s. if cs = [] then \<forall>u<threads s. deferred_destructs s u = [] else last cs = C_derived D_drain"
  have inv: "hp_inv R t [C_derived D_drain] ?s"
    using assms mm_ok_cong [of ?s s] by (simp add: hp_inv_def deferred_tokens_def)
  have P: "?P [C_derived D_drain] ?s" by simp
  have "\<exists>s'. mm_run hp_step t [C_derived D_drain] ?s = Some (Inr s') \<and> hp_inv R t [] s' \<and> ?P [] s'"
  proof (rule hp_run_keeps [where P = ?P, OF inv P])
    fix c cs s new s'
    assume P: "?P (c # cs) s" and step: "hp_step t c s = Inr (new, s')"
    show "?P (new @ cs) s'"
    proof (cases cs)
      case Nil
      with P step show ?thesis by (auto simp: hp_step_def drain_def list_ex_iff split: if_splits)
    next
      case Cons
      with P show ?thesis by simp
    qed
  qed
  then obtain s' where s': "acquire_retire_dtor t s = Some (Inr s')" "hp_inv R t [] s'"
      "\<forall>u<threads s'. deferred_destructs s' u = []"
    by (auto simp: acquire_retire_dtor_def)
  then have "deferred_tokens s' = {#}" by (simp add: deferred_tokens_def)
  with s' show ?thesis by (auto simp: hp_inv_def)
qed

theorem hp_destructor_drains_witness:
  "\<exists>s'. acquire_retire_dtor 0 (hp_demo\<lparr>deferred_destructs := (\<lambda>_. [])(1 := [(16, RT_decrement_strong_count)])\<rparr>) = Some (Inr s') \<and>
    mm_ok {#} s' \<and> (\<forall>u. u < threads s' \<longrightarrow> deferred_destructs s' u = [])"
proof -
  let ?s = "hp_demo\<lparr>deferred_destructs := (\<lambda>_. [])(1 := [(16, RT_decrement_strong_count)])\<rparr>"
  have "deferred_tokens ?s = {#(T_strong, 16)#}" by (simp add: deferred_tokens_def lessThan_Suc numeral_2_eq_2 entry_token_def)
  then show ?thesis
    using hp_destructor_drains [of 0 ?s "{#}"] hp_demo_ok mm_ok_cong [of ?s hp_demo] by simp
qed

text \<open>
  (C20) A snapshot taken while a slot is free: the slot is the first one of the calling thread that is empty; the call returns at the first
  round in which the location holds null, or the same pointer on both reads, with that pointer; the slot then announces it (it is left
  empty for null), and the whole state is otherwise the one before the call, whatever was announced in the rounds before.
\<close>

theorem protect_snapshot_in_slot:
  assumes "get_free_slot t s = Some sl"
  shows "\<exists>i. sl = SnapshotSlot t i \<and> i < length (snapshot_announcements s t) \<and> snapshot_announcements s t ! i = nullptr \<and>
    (\<forall>j<i. snapshot_announcements s t ! j \<noteq> nullptr) \<and>
    protect_snapshot t script counted s =
      map_option (\<lambda>(p, _). Inr (\<lparr>ap_value = p, ap_slot = if p = nullptr then None else Some sl\<rparr>,
          s\<lparr>snapshot_announcements := (snapshot_announcements s)(t := (snapshot_announcements s t)[i := p])\<rparr>))
        (find (\<lambda>(p, again). p = nullptr \<or> again = p) script)"
  using get_free_slot_first [OF assms] assms
  by (auto simp: protect_snapshot_def protect_in_slot_find option.map_comp intro!: option.map_cong0)


theorem protect_snapshot_in_slot_witness:
  "protect_snapshot 1 [(8, 16), (16, 16)] [] (hp_demo\<lparr>snapshot_announcements := (\<lambda>_. [24, nullptr, nullptr, nullptr, nullptr, nullptr, nullptr])\<rparr>) =
     Some (Inr (\<lparr>ap_value = 16, ap_slot = Some (SnapshotSlot 1 1)\<rparr>,
       hp_demo\<lparr>snapshot_announcements := (\<lambda>_. [24, nullptr, nullptr, nullptr, nullptr, nullptr, nullptr])(1 := [24, 16, nullptr, nullptr, nullptr, nullptr, nullptr])\<rparr>))"
proof -
  let ?s = "hp_demo\<lparr>snapshot_announcements := (\<lambda>_. [24, nullptr, nullptr, nullptr, nullptr, nullptr, nullptr])\<rparr>"
  have free: "get_free_slot 1 ?s = Some (SnapshotSlot 1 1)"
    by (simp add: get_free_slot_def)
  from protect_snapshot_in_slot [OF free, of "[(8, 16), (16, 16)]" "[]"] show ?thesis
    by auto
qed

text \<open>A state with all snapshot slots in use and two objects: one with a reference, and one
  whose last strong reference is gone and which is about to be disposed.\<close>

definition dying_demo :: "unit counted_object acquire_retire" where
  "dying_demo =
     (put_object 24 ((new_counted_object \<lparr>payload = (), members = []\<rparr>)\<lparr>ref_cnt := zero_flag\<rparr>)
        (create_object 1 24 (new_counted_object \<lparr>payload = (), members = []\<rparr>) hp_demo))
      \<lparr>snapshot_announcements := (\<lambda>_. replicate 7 16)\<rparr>"

lemma hp_demo_heap: "heap hp_demo = fmupd 16 (new_counted_object \<lparr>payload = (), members = []\<rparr>) fmempty"
  by (simp add: hp_demo_def create_object_def put_object_def increment_allocations_def acquire_retire_init_def)

lemma dying_demo_ok: "mm_ok {#(T_strong, 16), (T_dispose, 24)#} dying_demo"
proof -
  let ?ob = "new_counted_object \<lparr>payload = (), members = []\<rparr> :: unit counted_object"
  let ?s = "create_object 1 24 ?ob hp_demo"
  have ok: "mm_ok {#(T_strong, 24), (T_strong, 16)#} ?s"
    by (rule create_object_ok [OF _ fresh_new_counted_object]) (use hp_demo_ok in \<open>simp_all add: members_tokens_def hp_demo_heap\<close>)
  have ob: "fmlookup (heap ?s) 24 = Some ?ob" by (simp add: create_object_def put_object_def)
  have none: "heap_tokens ?s = {#}"
    by (simp add: heap_tokens_def create_object_def put_object_def increment_allocations_def hp_demo_heap fmsum_def new_counted_object_def object_tokens_def members_tokens_def)
  have "mm_ok {#(T_strong, 16), (T_dispose, 24)#} (put_object 24 (?ob\<lparr>ref_cnt := zero_flag\<rparr>) ?s)"
  proof (rule mm_ok_put [OF ok ob])
    show "object_ok (?ob\<lparr>ref_cnt := zero_flag\<rparr>) (token_count ({#(T_strong, 16), (T_dispose, 24)#} + heap_tokens ?s) 24)"
      unfolding none using new_counted_object_rep(2) [of "\<lparr>payload = (), members = []\<rparr> :: unit managed"]
      by (simp add: object_ok_def token_count_def weak_total_def rep_defs sc_rep_def phase_flags new_counted_object_def sc_init_def)
  qed (auto simp: token_count_def fun_eq_iff)
  then show ?thesis by (subst mm_ok_cong) (simp_all add: dying_demo_def)
qed

lemma dying_demo_heap_tokens: "heap_tokens dying_demo = {#}"
  by (simp add: heap_tokens_def dying_demo_def create_object_def put_object_def increment_allocations_def hp_demo_heap
      fmsum_def new_counted_object_def object_tokens_def members_tokens_def)

lemma dying_demo_rooms: "rooms_for 2 dying_demo"
  by (simp add: rooms_for_def dying_demo_def create_object_def put_object_def increment_allocations_def hp_demo_heap
      new_counted_object_def sc_init_def zero_flag_def max_value_def zero_pending_flag_def fmpred_iff)

text \<open>
  (C21) When all snapshot slots are in use a snapshot takes a counted reference instead, in any number of rounds. No round fails.
  The pointer returned is one that a round has acquired; it had strong references, and it comes with exactly one more. Null is returned
  only if a round acquired null, or acquired an object without strong references that the location still held
  afterwards; then no reference is taken. The failed increments of the
  other rounds leave no trace in the accounts; the thread's announcement is withdrawn, and beside the strong counts nothing
  else has changed. The call is still running only if an acquire never read the same pointer twice, or if every round
  acquired an object without strong references and then found another pointer in the location.
\<close>

theorem protect_snapshot_counted:
  fixes s :: "(('v, 'x) counted_object_scheme, 'e) acquire_retire_scheme"
  assumes "get_free_slot t s = None" and "mm_ok R s" and "rooms_for (length rounds) s"
    and "\<forall>(reads, final)\<in>set rounds. \<forall>p. (p, p) \<in> set reads \<longrightarrow> p = nullptr \<or> p \<in> fset (fmdom (heap s))"
  shows "case protect_snapshot t script rounds s of
      None \<Rightarrow> (\<exists>(reads, final)\<in>set rounds. \<forall>p. (p, p) \<notin> set reads) \<or>
        (\<forall>(reads, final)\<in>set rounds. \<exists>p. (p, p) \<in> set reads \<and> p \<noteq> nullptr \<and> p \<noteq> final \<and> (T_strong, p) \<notin># R + heap_tokens s)
    | Some (Inl e) \<Rightarrow> False
    | Some (Inr (a, s')) \<Rightarrow> ap_slot a = None \<and>
        (\<exists>(reads, final)\<in>set rounds. \<exists>p. (p, p) \<in> set reads \<and>
          (if ap_value a = nullptr then p = nullptr \<or> p = final \<and> (T_strong, p) \<notin># R + heap_tokens s
           else p = ap_value a \<and> (T_strong, p) \<in># R + heap_tokens s)) \<and>
        mm_ok (if ap_value a = nullptr then R else add_mset (T_strong, ap_value a) R) s' \<and>
        same_but_strong_counts s s' \<and> mm.more s' = mm.more (s\<lparr>announcement := (announcement s)(t := nullptr)\<rparr>)"
  using protect_counted_ok [OF assms(2,3) refl assms(4), of t]
  unfolding counted_outcome_def protect_snapshot_def assms(1) option.case slot_store.simps .

theorem protect_snapshot_counted_witness:
  "\<exists>s'. protect_snapshot 1 [] [([(24, 24)], 16), ([(8, 16), (16, 16)], 16)] dying_demo =
       Some (Inr (\<lparr>ap_value = 16, ap_slot = None\<rparr>, s')) \<and>
     announcement s' 1 = nullptr \<and> announcement s' 0 = 16 \<and> mm_ok {#(T_strong, 16), (T_strong, 16), (T_dispose, 24)#} s'"
proof -
  let ?rounds = "[([(24, 24)], 16), ([(8, 16), (16, 16)], 16)] :: ((ptr \<times> ptr) list \<times> ptr) list"
  have full: "get_free_slot 1 dying_demo = None"
    by (simp add: get_free_slot_def find_free_None dying_demo_def)
  have dom: "fmdom (heap dying_demo) = {|16, 24|}"
    by (auto simp: dying_demo_def create_object_def put_object_def increment_allocations_def hp_demo_heap)
  have ann: "announcement dying_demo 0 = 16"
    by (simp add: dying_demo_def create_object_def put_object_def increment_allocations_def)
  have rooms: "rooms_for (length ?rounds) dying_demo" using dying_demo_rooms by (simp add: numeral_2_eq_2)
  obtain a s' where "protect_snapshot 1 [] ?rounds dying_demo = Some (Inr (a, s'))" "ap_slot a = None" "ap_value a = 16"
      "mm_ok {#(T_strong, 16), (T_strong, 16), (T_dispose, 24)#} s'"
      "mm.more s' = mm.more (dying_demo\<lparr>announcement := (announcement dying_demo)(1 := nullptr)\<rparr>)"
    using protect_snapshot_counted [OF full dying_demo_ok rooms, of "[]"]
    by (auto simp: dom dying_demo_heap_tokens split: option.splits sum.splits if_splits)
  with more_fields [of s' "dying_demo\<lparr>announcement := (announcement dying_demo)(1 := nullptr)\<rparr>"] ann show ?thesis
    by (cases a) auto
qed

end
