(* ===== verification/Epoch_Tracker.thy ===== *)
theory Epoch_Tracker
  imports Prelude
begin

text \<open>
  \<^verbatim>\<open>include/cdrc/internal/epoch_tracker.h\<close>: the global epoch, the epochs that threads announce for
  their critical sections, and the guards that open and close them. The first half has one definition
  per member function; the second half splits \<^verbatim>\<open>begin_critical_section\<close> into its
  atomic steps and interleaves the threads.
\<close>

section \<open>State and operations\<close>

definition no_epoch :: u64 where "no_epoch = - 1"

record epoch_tracker =
  global_epoch :: u64
  local_epoch :: "tid \<Rightarrow> u64"
  critical_section :: "tid \<Rightarrow> bool"

definition epoch_tracker_init :: epoch_tracker where
  "epoch_tracker_init = \<lparr>global_epoch = 0, local_epoch = (\<lambda>_. no_epoch), critical_section = (\<lambda>_. False)\<rparr>"

definition get_current_epoch :: "epoch_tracker \<Rightarrow> u64" where
  "get_current_epoch e = global_epoch e"

definition advance_global_epoch :: "epoch_tracker \<Rightarrow> u64 \<times> epoch_tracker" where
  "advance_global_epoch e = (let (old, new) = fetch_add (global_epoch e) 1 in (old, e\<lparr>global_epoch := new\<rparr>))"

definition get_min_announced_epoch :: "nat \<Rightarrow> epoch_tracker \<Rightarrow> u64" where
  "get_min_announced_epoch nt e = foldl (\<lambda>answer i. min answer (local_epoch e i)) no_epoch [0..<nt]"

text \<open>The function passed to \<^verbatim>\<open>scan_announced_epochs\<close> updates what it captured, here the accumulator.\<close>

definition scan_announced_epochs :: "nat \<Rightarrow> (tid \<Rightarrow> u64 \<Rightarrow> 'a \<Rightarrow> 'a) \<Rightarrow> epoch_tracker \<Rightarrow> 'a \<Rightarrow> 'a" where
  "scan_announced_epochs nt f e a =
     foldl (\<lambda>a i. if local_epoch e i \<noteq> no_epoch then f i (local_epoch e i) a else a) a [0..<nt]"

definition begin_critical_section :: "tid \<Rightarrow> epoch_tracker \<Rightarrow> bool \<times> epoch_tracker" where
  "begin_critical_section t e =
     (if critical_section e t then (False, e)
      else let current = global_epoch e
           in (True, e\<lparr>local_epoch := (local_epoch e)(t := current),
                       critical_section := (critical_section e)(t := True)\<rparr>))"

definition end_critical_section :: "tid \<Rightarrow> epoch_tracker \<Rightarrow> error + epoch_tracker" where
  "end_critical_section t e =
     (if \<not> critical_section e t then Inl (AssertionFailed ''critical_section[id]'')
      else if local_epoch e t = no_epoch then Inl (AssertionFailed ''local_epoch[id].load() != no_epoch'')
      else Inr (e\<lparr>local_epoch := (local_epoch e)(t := no_epoch),
                  critical_section := (critical_section e)(t := False)\<rparr>))"

definition in_critical_section :: "tid \<Rightarrow> epoch_tracker \<Rightarrow> bool" where
  "in_critical_section t e = critical_section e t"

text \<open>\<^verbatim>\<open>epoch_guard\<close>: what the constructor leaves in \<^verbatim>\<open>engaged\<close> decides what the destructor does.\<close>

definition epoch_guard_dtor :: "tid \<Rightarrow> bool \<Rightarrow> epoch_tracker \<Rightarrow> error + epoch_tracker" where
  "epoch_guard_dtor t engaged e = (if engaged then end_critical_section t e else Inr e)"

definition with_epoch_guard :: "tid \<Rightarrow> (epoch_tracker \<Rightarrow> error + 'r \<times> epoch_tracker) \<Rightarrow> epoch_tracker \<Rightarrow> error + 'r \<times> epoch_tracker" where
  "with_epoch_guard t f e =
     (let (engaged, e1) = begin_critical_section t e
      in ebind (f e1) (\<lambda>(r, e2). ebind (epoch_guard_dtor t engaged e2) (\<lambda>e3. Inr (r, e3))))"

section \<open>The minimum\<close>

lemma foldl_min:
  "foldl (\<lambda>answer i. min answer (f i)) (a :: u64) xs \<le> a \<and>
   (\<forall>i\<in>set xs. foldl (\<lambda>answer i. min answer (f i)) a xs \<le> f i) \<and>
   (foldl (\<lambda>answer i. min answer (f i)) a xs = a \<or> (\<exists>i\<in>set xs. foldl (\<lambda>answer i. min answer (f i)) a xs = f i))"
proof (induction xs arbitrary: a)
  case (Cons x xs)
  from Cons.IH [of "min a (f x)"] show ?case by (auto simp: min_def split: if_splits intro: order_trans)
qed simp

lemma min_announced_le: "i < n \<Longrightarrow> get_min_announced_epoch n e \<le> local_epoch e i"
  using foldl_min [of "local_epoch e" no_epoch "[0..<n]"] by (simp add: get_min_announced_epoch_def)

lemma min_announced_attained:
  "get_min_announced_epoch n e = no_epoch \<or> (\<exists>i<n. get_min_announced_epoch n e = local_epoch e i)"
  using foldl_min [of "local_epoch e" no_epoch "[0..<n]"] by (auto simp: get_min_announced_epoch_def)

section \<open>Critical sections, interleaved\<close>

text \<open>
  Another thread may advance the epoch between the load of the global epoch and the announcement. \<open>Loaded e\<close> is a
  thread between the two. Outside this window a thread is \<open>Outside\<close> or \<open>Inside\<close>.
\<close>

datatype section_pc = Outside | Loaded u64 | Inside

record epoch_machine =
  tracker :: epoch_tracker
  section_pcs :: "tid \<Rightarrow> section_pc"

inductive epoch_step :: "epoch_machine \<Rightarrow> epoch_machine \<Rightarrow> bool" where
  load: "section_pcs m t = Outside \<Longrightarrow> \<not> critical_section (tracker m) t \<Longrightarrow>
    epoch_step m (m\<lparr>section_pcs := (section_pcs m)(t := Loaded (global_epoch (tracker m)))\<rparr>)"
| announce: "section_pcs m t = Loaded current \<Longrightarrow>
    epoch_step m (m\<lparr>tracker := (tracker m)\<lparr>local_epoch := (local_epoch (tracker m))(t := current),
                       critical_section := (critical_section (tracker m))(t := True)\<rparr>,
                    section_pcs := (section_pcs m)(t := Inside)\<rparr>)"
| leave: "section_pcs m t = Inside \<Longrightarrow> end_critical_section t (tracker m) = Inr e' \<Longrightarrow>
    epoch_step m (m\<lparr>tracker := e', section_pcs := (section_pcs m)(t := Outside)\<rparr>)"
| advance: "global_epoch (tracker m) + 1 \<noteq> no_epoch \<Longrightarrow> advance_global_epoch (tracker m) = (old, e') \<Longrightarrow>
    epoch_step m (m\<lparr>tracker := e'\<rparr>)"

inductive epoch_reach :: "epoch_machine \<Rightarrow> bool" where
  start: "epoch_reach \<lparr>tracker = epoch_tracker_init, section_pcs = (\<lambda>_. Outside)\<rparr>"
| step: "epoch_reach m \<Longrightarrow> epoch_step m m' \<Longrightarrow> epoch_reach m'"

definition epoch_inv :: "epoch_machine \<Rightarrow> bool" where
  "epoch_inv m \<longleftrightarrow> global_epoch (tracker m) \<noteq> no_epoch \<and>
     (\<forall>t. case section_pcs m t of
            Outside \<Rightarrow> \<not> critical_section (tracker m) t \<and> local_epoch (tracker m) t = no_epoch
          | Loaded e \<Rightarrow> \<not> critical_section (tracker m) t \<and> local_epoch (tracker m) t = no_epoch \<and> e \<le> global_epoch (tracker m)
          | Inside \<Rightarrow> critical_section (tracker m) t \<and> local_epoch (tracker m) t \<le> global_epoch (tracker m))"

lemma epoch_succ: "(g :: u64) \<noteq> no_epoch \<Longrightarrow> x \<le> g \<Longrightarrow> x \<le> g + 1"
proof -
  assume g: "g \<noteq> no_epoch" "x \<le> g"
  then have "unat g \<noteq> 2 ^ 64 - 1"
    by (auto simp: no_epoch_def word_unat_eq_iff unsigned_minus_1_eq_mask mask_eq_exp_minus_1)
  moreover have "unat g < 2 ^ 64" using unsigned_less [of g] by simp
  ultimately have "unat (g + 1) = unat g + 1" by (simp add: unat_word_ariths)
  with g(2) show ?thesis by (simp add: word_le_nat_alt)
qed

lemma no_epoch_top: "x \<le> (g :: u64) \<Longrightarrow> g \<noteq> no_epoch \<Longrightarrow> x \<noteq> no_epoch"
  using word_order.extremum_uniqueI by (auto simp: no_epoch_def)

lemma epoch_step_inv: "epoch_step m m' \<Longrightarrow> epoch_inv m \<Longrightarrow> epoch_inv m'"
proof (induction rule: epoch_step.induct)
  case (advance m old e')
  then have e': "e' = (tracker m)\<lparr>global_epoch := global_epoch (tracker m) + 1\<rparr>"
    by (auto simp: advance_global_epoch_def atomic_defs)
  with advance show ?case
    by (auto simp: epoch_inv_def intro: epoch_succ split: section_pc.splits)
qed (auto simp: epoch_inv_def end_critical_section_def no_epoch_top split: section_pc.splits if_splits)

lemma epoch_reach_inv: "epoch_reach m \<Longrightarrow> epoch_inv m"
proof (induction rule: epoch_reach.induct)
  case start
  then show ?case by (simp add: epoch_inv_def epoch_tracker_init_def no_epoch_def)
qed (rule epoch_step_inv)

section \<open>Properties\<close>

text \<open>
  (C34) Under every interleaving of threads entering and leaving critical sections and advancing the
  epoch, a thread inside a section announces an epoch that is not after the global one, the minimum that reclamation
  uses is not after the epoch of any thread inside, and a thread outside holds nothing back. (The 64-bit epoch is
  assumed not to reach its largest value, which stands for no announcement.)
\<close>

theorem epoch_sections_announced:
  assumes "epoch_reach m" and "t < n"
  shows "(section_pcs m t = Inside \<longrightarrow>
      in_critical_section t (tracker m) \<and> local_epoch (tracker m) t \<noteq> no_epoch \<and>
      get_min_announced_epoch n (tracker m) \<le> local_epoch (tracker m) t \<and>
      local_epoch (tracker m) t \<le> get_current_epoch (tracker m)) \<and>
    (section_pcs m t \<noteq> Inside \<longrightarrow> \<not> in_critical_section t (tracker m) \<and> local_epoch (tracker m) t = no_epoch)"
proof -
  have "case section_pcs m t of
            Outside \<Rightarrow> \<not> critical_section (tracker m) t \<and> local_epoch (tracker m) t = no_epoch
          | Loaded e \<Rightarrow> \<not> critical_section (tracker m) t \<and> local_epoch (tracker m) t = no_epoch \<and> e \<le> global_epoch (tracker m)
          | Inside \<Rightarrow> critical_section (tracker m) t \<and> local_epoch (tracker m) t \<le> global_epoch (tracker m)"
    and "global_epoch (tracker m) \<noteq> no_epoch"
    using epoch_reach_inv [OF assms(1)] unfolding epoch_inv_def by blast+
  then show ?thesis
    using min_announced_le [OF assms(2), of "tracker m"] no_epoch_top
    by (auto simp: in_critical_section_def get_current_epoch_def split: section_pc.splits)
qed

text \<open>
  (C35) Guards nest: if the guarded code leaves the section of its thread as it found it, then so does the code with
  a guard around it, inside another guard as well as outside any. The outermost guard announces the current epoch,
  an inner one keeps the announcement of the outer, and closing never fails an assertion.
\<close>

theorem epoch_guard_nests:
  assumes "global_epoch e \<noteq> no_epoch" and "critical_section e t \<longleftrightarrow> local_epoch e t \<noteq> no_epoch"
    and "f (snd (begin_critical_section t e)) = Inr (r, e2)"
    and "critical_section e2 t"
    and "local_epoch e2 t = local_epoch (snd (begin_critical_section t e)) t"
  shows "in_critical_section t (snd (begin_critical_section t e)) \<and>
    local_epoch (snd (begin_critical_section t e)) t = (if critical_section e t then local_epoch e t else global_epoch e) \<and>
    (\<exists>e3. with_epoch_guard t f e = Inr (r, e3) \<and> critical_section e3 t = critical_section e t \<and>
      local_epoch e3 t = local_epoch e t \<and> (\<forall>u. u \<noteq> t \<longrightarrow> local_epoch e3 u = local_epoch e2 u))"
  using assms
  by (cases "critical_section e t")
    (auto simp: with_epoch_guard_def epoch_guard_dtor_def begin_critical_section_def end_critical_section_def
      in_critical_section_def Let_def)

theorem epoch_guard_nests_witness:
  "\<exists>e3. with_epoch_guard 0 (with_epoch_guard 0 (\<lambda>e. Inr (local_epoch e 0, snd (advance_global_epoch e)))) epoch_tracker_init =
     Inr (0, e3) \<and> critical_section e3 0 = False \<and> local_epoch e3 0 = no_epoch"
proof -
  let ?f = "with_epoch_guard 0 (\<lambda>e. Inr (local_epoch e 0, snd (advance_global_epoch e)))"
  have f: "?f (snd (begin_critical_section 0 epoch_tracker_init)) =
      Inr (0, \<lparr>global_epoch = 1, local_epoch = (\<lambda>_. no_epoch)(0 := 0), critical_section = (\<lambda>_. False)(0 := True)\<rparr>)"
    by (simp add: with_epoch_guard_def begin_critical_section_def epoch_tracker_init_def epoch_guard_dtor_def
        advance_global_epoch_def atomic_defs Let_def)
  from epoch_guard_nests [of epoch_tracker_init 0 ?f, OF _ _ f] show ?thesis
    by (auto simp: epoch_tracker_init_def begin_critical_section_def no_epoch_def)
qed

theorem epoch_sections_announced_witness:
  "\<exists>m. epoch_reach m \<and> section_pcs m 0 = Inside \<and>
     get_min_announced_epoch 2 (tracker m) \<le> local_epoch (tracker m) 0 \<and>
     local_epoch (tracker m) 0 \<le> get_current_epoch (tracker m)"
proof -
  let ?m0 = "\<lparr>tracker = epoch_tracker_init, section_pcs = (\<lambda>_. Outside)\<rparr>"
  have 0: "epoch_step ?m0 (?m0\<lparr>section_pcs := (section_pcs ?m0)(0 := Loaded (global_epoch (tracker ?m0)))\<rparr>)"
    by (rule epoch_step.load) (simp_all add: epoch_tracker_init_def)
  obtain m where m: "epoch_reach m" "section_pcs m 0 = Inside"
    using epoch_reach.step [OF epoch_reach.step [OF epoch_reach.start 0] epoch_step.announce [of _ 0 "global_epoch (tracker ?m0)"]]
    by auto
  with epoch_sections_announced [OF m(1), of 0 2] show ?thesis by auto
qed

end
