(* ===== verification/Acquire_Retire_EBR.thy ===== *)
theory Acquire_Retire_EBR
  imports Deferred_Lists Epoch_Tracker
begin

text \<open>
  \<^verbatim>\<open>include/cdrc/internal/smr/acquire_retire_ebr.h\<close>: deferred reference counting with
  epoch-based reclamation. A retired pointer is stamped with the epoch; a pass reads the epochs that
  threads announce and applies the entries stamped before the earliest of them. The
  tracker is a singleton of its own in the code; here it is a part of the state.
\<close>

section \<open>State\<close>

definition ebr_epoch_frequency :: nat where "ebr_epoch_frequency = 10"
definition ebr_eject_delay :: nat where "ebr_eject_delay = 2"

record ebr_retired =
  er_obj :: ptr
  er_retireTS :: u64
  er_type :: RetireType

record 'o acquire_retire_ebr = "'o mm" +
  ebr_threads :: nat
  epochs :: epoch_tracker
  ebr_in_progress :: "tid \<Rightarrow> bool"
  ebr_deferred :: "tid \<Rightarrow> ebr_retired list"
  ebr_eject_work :: "tid \<Rightarrow> u32"
  ebr_epoch_work :: "tid \<Rightarrow> u32"

definition acquire_retire_ebr_init :: "nat \<Rightarrow> 'o acquire_retire_ebr" where
  "acquire_retire_ebr_init num_threads =
     \<lparr>heap = fmempty, num_allocated = (\<lambda>_. 0), ebr_threads = num_threads, epochs = epoch_tracker_init,
      ebr_in_progress = (\<lambda>_. False), ebr_deferred = (\<lambda>_. []), ebr_eject_work = (\<lambda>_. 0), ebr_epoch_work = (\<lambda>_. 0)\<rparr>"

section \<open>Creating and acquiring\<close>

definition ebr_work_toward_advancing_epoch :: "tid \<Rightarrow> ('o, 'e) acquire_retire_ebr_scheme \<Rightarrow> ('o, 'e) acquire_retire_ebr_scheme" where
  "ebr_work_toward_advancing_epoch t s =
     (let w = ebr_epoch_work s t + 1
      in if ebr_epoch_frequency * ebr_threads s \<le> unat w
         then s\<lparr>ebr_epoch_work := (ebr_epoch_work s)(t := 0), epochs := snd (advance_global_epoch (epochs s))\<rparr>
         else s\<lparr>ebr_epoch_work := (ebr_epoch_work s)(t := w)\<rparr>)"

text \<open>The address that the allocator returns is an argument.\<close>

definition ebr_create_object :: "tid \<Rightarrow> ptr \<Rightarrow> 'v managed \<Rightarrow> ('v counted_object, 'e) acquire_retire_ebr_scheme \<Rightarrow>
    ('v counted_object, 'e) acquire_retire_ebr_scheme" where
  "ebr_create_object t p v s =
     put_object p (new_counted_object v) (ebr_work_toward_advancing_epoch t (increment_allocations t s))"

text \<open>A \<^verbatim>\<open>basic_acquired_pointer\<close> is just its value. The value loaded from the location is an argument.\<close>

definition ebr_acquire :: "ptr \<Rightarrow> ptr" where
  "ebr_acquire loaded = loaded"

definition ebr_reserve :: "ptr \<Rightarrow> ptr" where
  "ebr_reserve p = p"

definition ebr_protect_snapshot :: "ptr \<Rightarrow> (('v, 'x) counted_object_scheme, 'e) acquire_retire_ebr_scheme \<Rightarrow>
    error + ptr \<times> (('v, 'x) counted_object_scheme, 'e) acquire_retire_ebr_scheme" where
  "ebr_protect_snapshot loaded s =
     (if loaded = nullptr then Inr (nullptr, s)
      else with_object loaded s (\<lambda>ob.
        let (n, ob') = get_use_count ob in Inr (if n = 0 then nullptr else loaded, put_object loaded ob' s)))"

section \<open>Retiring\<close>

text \<open>The calls of a pass: the loop of \<^verbatim>\<open>work_toward_ejects\<close>, the loop of \<^verbatim>\<open>get_min_announced_epoch\<close> with the
  entries taken and the minimum so far, the pass over the entries, and the two loops of the destructor.\<close>

datatype ebr_call =
    E_work
  | E_min "tid list" "ebr_retired list" u64
  | E_eject u64 "ebr_retired list" "ebr_retired list"
  | E_drain
  | E_drain_list "entry list"

definition ebr_threshold :: "('o, 'e) acquire_retire_ebr_scheme \<Rightarrow> nat" where
  "ebr_threshold s = max 30 (ebr_eject_delay * ebr_threads s)"

definition ebr_work_loop :: "tid \<Rightarrow> ('o, 'e) acquire_retire_ebr_scheme \<Rightarrow> ebr_call mm_call list \<times> ('o, 'e) acquire_retire_ebr_scheme" where
  "ebr_work_loop t s =
     (if \<not> ebr_in_progress s t \<and> ebr_threshold s \<le> unat (ebr_eject_work s t) then
        let s1 = s\<lparr>ebr_eject_work := (ebr_eject_work s)(t := 0)\<rparr> in
        if ebr_deferred s t = [] then ([], s1)
        else ([C_derived (E_min [0..<ebr_threads s] (ebr_deferred s t) no_epoch)],
              s1\<lparr>ebr_in_progress := (ebr_in_progress s)(t := True),
                 ebr_deferred := (ebr_deferred s)(t := [])\<rparr>)
      else ([], s))"

fun ebr_min_epoch :: "tid list \<Rightarrow> ebr_retired list \<Rightarrow> u64 \<Rightarrow> ('o, 'e) acquire_retire_ebr_scheme \<Rightarrow> ebr_call mm_call list" where
  "ebr_min_epoch [] deferred answer s = [C_derived (E_eject answer deferred [])]"
| "ebr_min_epoch (i # is) deferred answer s =
     [C_derived (E_min is deferred (min answer (local_epoch (epochs s) i)))]"

fun ebr_eject_pass :: "tid \<Rightarrow> u64 \<Rightarrow> ebr_retired list \<Rightarrow> ebr_retired list \<Rightarrow> ('o, 'e) acquire_retire_ebr_scheme \<Rightarrow>
    ebr_call mm_call list \<times> ('o, 'e) acquire_retire_ebr_scheme" where
  "ebr_eject_pass t min_epoch [] kept s =
     ([C_derived E_work],
      s\<lparr>ebr_deferred := (ebr_deferred s)(t := ebr_deferred s t @ kept),
        ebr_in_progress := (ebr_in_progress s)(t := False)\<rparr>)"
| "ebr_eject_pass t min_epoch (x # todo) kept s =
     (if er_retireTS x < min_epoch then ([C_eject (er_obj x) (er_type x), C_derived (E_eject min_epoch todo kept)], s)
      else ([C_derived (E_eject min_epoch todo (kept @ [x]))], s))"

definition er_entry :: "ebr_retired \<Rightarrow> entry" where
  "er_entry x = (er_obj x, er_type x)"

definition ebr_drain :: "('o, 'e) acquire_retire_ebr_scheme \<Rightarrow> ebr_call mm_call list \<times> ('o, 'e) acquire_retire_ebr_scheme" where
  "ebr_drain s =
     (if list_ex (\<lambda>t. ebr_deferred s t \<noteq> []) [0..<ebr_threads s] then
        ([C_derived (E_drain_list (concat (map (\<lambda>t. map er_entry (ebr_deferred s t)) [0..<ebr_threads s]))), C_derived E_drain],
         s\<lparr>ebr_deferred := (\<lambda>t. if t < ebr_threads s then [] else ebr_deferred s t)\<rparr>)
      else ([], s))"

fun ebr_drain_list :: "entry list \<Rightarrow> ebr_call mm_call list" where
  "ebr_drain_list [] = []"
| "ebr_drain_list (x # xs) = [C_eject (fst x) (snd x), C_derived (E_drain_list xs)]"

fun ebr_derived :: "(('o, 'e) acquire_retire_ebr_scheme, ebr_call) derived_fn" where
  "ebr_derived t E_work s = Inr (ebr_work_loop t s)"
| "ebr_derived t (E_min is deferred answer) s = Inr (ebr_min_epoch is deferred answer s, s)"
| "ebr_derived t (E_eject min_epoch todo kept) s = Inr (ebr_eject_pass t min_epoch todo kept s)"
| "ebr_derived t E_drain s = Inr (ebr_drain s)"
| "ebr_derived t (E_drain_list xs) s = Inr (ebr_drain_list xs, s)"

definition ebr_retire :: "(('o, 'e) acquire_retire_ebr_scheme, ebr_call) retire_fn" where
  "ebr_retire t p type s =
     Inr ([C_derived E_work],
          s\<lparr>ebr_deferred := (ebr_deferred s)(t := ebr_deferred s t @
                [\<lparr>er_obj = p, er_retireTS = get_current_epoch (epochs s), er_type = type\<rparr>]),
            ebr_eject_work := (ebr_eject_work s)(t := ebr_eject_work s t + 1)\<rparr>)"

definition ebr_step ::
  "tid \<Rightarrow> ebr_call mm_call \<Rightarrow> (('v, 'x) counted_object_scheme, 'e) acquire_retire_ebr_scheme \<Rightarrow>
   error + ebr_call mm_call list \<times> (('v, 'x) counted_object_scheme, 'e) acquire_retire_ebr_scheme" where
  "ebr_step = mm_step ebr_retire ebr_derived"

definition acquire_retire_ebr_dtor ::
  "tid \<Rightarrow> (('v, 'x) counted_object_scheme, 'e) acquire_retire_ebr_scheme \<Rightarrow>
   (error + (('v, 'x) counted_object_scheme, 'e) acquire_retire_ebr_scheme) option" where
  "acquire_retire_ebr_dtor t s = mm_run ebr_step t [C_derived E_drain] (s\<lparr>ebr_in_progress := (\<lambda>_. True)\<rparr>)"

section \<open>Accounts and measure\<close>

fun ebr_call_tokens :: "ebr_call \<Rightarrow> tokens" where
  "ebr_call_tokens E_work = {#}"
| "ebr_call_tokens (E_min is deferred answer) = entries_tokens (map er_entry deferred)"
| "ebr_call_tokens (E_eject min_epoch todo kept) = entries_tokens (map er_entry todo) + entries_tokens (map er_entry kept)"
| "ebr_call_tokens E_drain = {#}"
| "ebr_call_tokens (E_drain_list xs) = entries_tokens xs"

fun ebr_call_weight :: "ebr_call \<Rightarrow> nat" where
  "ebr_call_weight E_work = 1"
| "ebr_call_weight (E_min is deferred answer) = 3 + entries_weight (map er_entry deferred)"
| "ebr_call_weight (E_eject min_epoch todo kept) = 2 + entries_weight (map er_entry todo) + entries_weight (map er_entry kept)"
| "ebr_call_weight E_drain = 0"
| "ebr_call_weight (E_drain_list xs) = entries_weight xs"

fun ebr_call_length :: "ebr_call mm_call \<Rightarrow> nat" where
  "ebr_call_length (C_derived (E_min is deferred answer)) = length is"
| "ebr_call_length (C_derived (E_eject min_epoch todo kept)) = length todo"
| "ebr_call_length (C_derived E_drain) = 1"
| "ebr_call_length (C_derived (E_drain_list xs)) = 1 + length xs"
| "ebr_call_length _ = 0"

definition ebr_tokens :: "('o, 'e) acquire_retire_ebr_scheme \<Rightarrow> tokens" where
  "ebr_tokens s = (\<Sum>t<ebr_threads s. entries_tokens (map er_entry (ebr_deferred s t)))"

definition ebr_weight :: "('o, 'e) acquire_retire_ebr_scheme \<Rightarrow> nat" where
  "ebr_weight s = (\<Sum>t<ebr_threads s. entries_weight (map er_entry (ebr_deferred s t))) + (\<Sum>t<ebr_threads s. unat (ebr_eject_work s t))"

definition ebr_length :: "('o, 'e) acquire_retire_ebr_scheme \<Rightarrow> nat" where
  "ebr_length s = (\<Sum>t<ebr_threads s. 3 * length (ebr_deferred s t))"

definition ebr_progress :: "ebr_call mm_call \<Rightarrow> ('o, 'e) acquire_retire_ebr_scheme \<Rightarrow>
    ebr_call mm_call list \<Rightarrow> ('o, 'e) acquire_retire_ebr_scheme \<Rightarrow> bool" where
  "ebr_progress c s new s' \<longleftrightarrow>
     scheme_progress ebr_call_tokens ebr_call_weight ebr_call_length ebr_tokens ebr_weight ebr_length c s new s' \<and>
     ebr_threads s' = ebr_threads s \<and> epochs s' = epochs s"

lemmas ebr_progress_defs = ebr_progress_def scheme_progress_def ebr_tokens_def ebr_weight_def ebr_length_def

lemma ebr_more_fields:
  "mm.more s' = mm.more s \<Longrightarrow>
   ebr_threads s' = ebr_threads s \<and> epochs s' = epochs s \<and> ebr_in_progress s' = ebr_in_progress s \<and>
   ebr_deferred s' = ebr_deferred s \<and> ebr_eject_work s' = ebr_eject_work s"
  for s s' :: "('o, 'e) acquire_retire_ebr_scheme"
  by (cases s; cases s') simp

lemma ebr_sums:
  assumes "t < (n :: nat)"
  shows "(\<Sum>i<n. entries_tokens (map er_entry ((d(t := x)) i))) + entries_tokens (map er_entry (d t)) =
      (\<Sum>i<n. entries_tokens (map er_entry (d i))) + entries_tokens (map er_entry x)"
    and "(\<Sum>i<n. entries_weight (map er_entry ((d(t := x)) i))) + entries_weight (map er_entry (d t)) =
      (\<Sum>i<n. entries_weight (map er_entry (d i))) + entries_weight (map er_entry x)"
    and "(\<Sum>i<n. unat ((a(t := y)) i)) + unat (a t) = (\<Sum>i<n. unat (a i)) + unat y"
  using sum_lessThan_upd [OF assms, of "\<lambda>xs. entries_tokens (map er_entry xs)" d x]
    sum_lessThan_upd [OF assms, of "\<lambda>xs. entries_weight (map er_entry xs)" d x]
    sum_lessThan_upd [OF assms, of unat a y] by simp_all

lemma er_entry_weight_pos: "0 < entry_weight (snd (er_entry x))"
  by (cases "er_type x") (simp_all add: er_entry_def)

lemma ebr_retire_progress:
  assumes "t < ebr_threads s" and "ebr_retire t p type s = Inr (new, s')"
  shows "ebr_progress (C_retire p type) s new s'"
proof -
  have "unat (ebr_eject_work s t + 1) \<le> unat (ebr_eject_work s t) + 1" by (rule unat_plus_one_le)
  then show ?thesis
    using assms ebr_sums(1,2) [OF assms(1), of "ebr_deferred s" "ebr_deferred s t @ [\<lparr>er_obj = p, er_retireTS = get_current_epoch (epochs s), er_type = type\<rparr>]"]
      ebr_sums(3) [OF assms(1), of "ebr_eject_work s" "ebr_eject_work s t + 1"]
    by (auto simp: ebr_retire_def ebr_progress_defs entry_token_def er_entry_def)
qed

lemma ebr_work_loop_progress:
  assumes "t < ebr_threads s" and "ebr_work_loop t s = (new, s')"
  shows "ebr_progress (C_derived E_work) s new s'"
proof (cases "\<not> ebr_in_progress s t \<and> ebr_threshold s \<le> unat (ebr_eject_work s t)")
  case True
  then have "30 \<le> unat (ebr_eject_work s t)" by (simp add: ebr_threshold_def)
  with True assms ebr_sums(1,2) [OF assms(1), of "ebr_deferred s" "[]"] ebr_sums(3) [OF assms(1), of "ebr_eject_work s" 0]
  show ?thesis
    by (auto simp: ebr_work_loop_def ebr_progress_defs Let_def ac_simps split: if_splits)
next
  case False
  with assms show ?thesis by (auto simp: ebr_work_loop_def ebr_progress_defs)
qed

lemma ebr_min_epoch_progress: "ebr_progress (C_derived (E_min is deferred answer)) s (ebr_min_epoch is deferred answer s) s"
  by (cases "is") (auto simp: ebr_progress_defs)

lemma ebr_eject_pass_progress:
  assumes "t < ebr_threads s" and "ebr_eject_pass t m todo kept s = (new, s')"
  shows "ebr_progress (C_derived (E_eject m todo kept)) s new s'"
proof (cases todo)
  case Nil
  with assms ebr_sums(1,2) [OF assms(1), of "ebr_deferred s" "ebr_deferred s t @ kept"]
  show ?thesis by (auto simp: ebr_progress_defs ac_simps)
next
  case (Cons x xs)
  with assms er_entry_weight_pos [of x] show ?thesis
    by (auto simp: ebr_progress_defs entry_token_def er_entry_def ac_simps split: if_splits)
qed

lemma ebr_drain_progress:
  assumes "ebr_drain s = (new, s')"
  shows "ebr_progress (C_derived E_drain) s new s'"
proof (cases "list_ex (\<lambda>t. ebr_deferred s t \<noteq> []) [0..<ebr_threads s]")
  case True
  then obtain t where "t < ebr_threads s" "ebr_deferred s t \<noteq> []" by (auto simp: list_ex_iff)
  then have "0 < (\<Sum>t<ebr_threads s. length (ebr_deferred s t))"
    by (intro sum_pos2 [where i = t]) auto
  then have "1 + (\<Sum>t<ebr_threads s. length (ebr_deferred s t)) < (\<Sum>t<ebr_threads s. 3 * length (ebr_deferred s t))"
    unfolding sum_distrib_left [symmetric] by simp
  with True assms show ?thesis
    by (auto simp: ebr_drain_def ebr_progress_defs entries_concat)
next
  case False
  with assms show ?thesis by (auto simp: ebr_drain_def ebr_progress_defs)
qed

lemma ebr_drain_list_progress: "ebr_progress (C_derived (E_drain_list xs)) s (ebr_drain_list xs) s"
proof (cases xs)
  case (Cons x xs')
  have "0 < entry_weight (snd x)" by (cases "snd x") simp_all
  with Cons show ?thesis by (auto simp: ebr_progress_defs entry_token_def)
qed (auto simp: ebr_progress_defs)

lemma ebr_derived_progress:
  assumes "t < ebr_threads s"
  shows "\<exists>new s'. ebr_derived t d s = Inr (new, s') \<and> ebr_progress (C_derived d) s new s'"
proof -
  obtain r where r: "ebr_derived t d s = Inr r" by (cases d) simp_all
  with assms have "ebr_progress (C_derived d) s (fst r) (snd r)"
    by (cases d) (auto intro: ebr_work_loop_progress ebr_min_epoch_progress ebr_eject_pass_progress
        ebr_drain_progress ebr_drain_list_progress)
  with r show ?thesis by (cases r) simp
qed

section \<open>Critical sections protect\<close>

text \<open>
  A thread \<open>u\<close> that announces epoch \<open>e\<close> is the reader. Held back for it are the entries
  stamped with \<open>e\<close> or later, in a list, or in a pass that has not yet read the announcement of \<open>u\<close> or
  whose minimum is already at most \<open>e\<close>.
\<close>

definition er_held :: "ptr \<Rightarrow> u64 \<Rightarrow> ebr_retired \<Rightarrow> bool" where
  "er_held p e x \<longleftrightarrow> er_obj x = p \<and> er_type x = RT_decrement_strong_count \<and> e \<le> er_retireTS x"

fun ebr_call_guards :: "tid \<times> u64 \<Rightarrow> ptr \<Rightarrow> ebr_call \<Rightarrow> bool" where
  "ebr_call_guards k p (E_min is deferred answer) \<longleftrightarrow>
     (\<exists>x\<in>set deferred. er_held p (snd k) x) \<and> (fst k \<in> set is \<or> answer \<le> snd k)"
| "ebr_call_guards k p (E_eject min_epoch todo kept) \<longleftrightarrow>
     (\<exists>x\<in>set kept. er_held p (snd k) x) \<or> (\<exists>x\<in>set todo. er_held p (snd k) x) \<and> min_epoch \<le> snd k"
| "ebr_call_guards k p _ \<longleftrightarrow> False"

definition ebr_list_guards :: "tid \<times> u64 \<Rightarrow> ptr \<Rightarrow> ('o, 'e) acquire_retire_ebr_scheme \<Rightarrow> bool" where
  "ebr_list_guards k p s \<longleftrightarrow> (\<exists>t<ebr_threads s. \<exists>x\<in>set (ebr_deferred s t). er_held p (snd k) x)"

definition ebr_reader :: "tid \<times> u64 \<Rightarrow> ptr \<Rightarrow> ('o, 'e) acquire_retire_ebr_scheme \<Rightarrow> bool" where
  "ebr_reader k p s \<longleftrightarrow> fst k < ebr_threads s \<and> local_epoch (epochs s) (fst k) = snd k \<and> snd k \<le> global_epoch (epochs s)"

definition ebr_guarded :: "tid \<times> u64 \<Rightarrow> ptr \<Rightarrow> ebr_call mm_call list \<Rightarrow>
    (('v, 'x) counted_object_scheme, 'e) acquire_retire_ebr_scheme \<Rightarrow> bool" where
  "ebr_guarded k p = guarded (ebr_call_guards k p) (ebr_list_guards k p) p"

fun ebr_drains :: "ebr_call \<Rightarrow> bool" where
  "ebr_drains E_drain \<longleftrightarrow> True"
| "ebr_drains (E_drain_list xs) \<longleftrightarrow> True"
| "ebr_drains _ \<longleftrightarrow> False"

lemma ebr_reader_cong: "ebr_progress c s new s' \<Longrightarrow> ebr_reader k p s' = ebr_reader k p s"
  by (simp add: ebr_reader_def ebr_progress_def)

lemma ebr_list_guards_mono:
  "ebr_list_guards k p s \<Longrightarrow> ebr_threads s' = ebr_threads s \<Longrightarrow>
   (\<And>u. set (ebr_deferred s u) \<subseteq> set (ebr_deferred s' u)) \<Longrightarrow> ebr_list_guards k p s'"
  unfolding ebr_list_guards_def by (metis subsetD)

lemma ebr_list_guardsI: "t < ebr_threads s \<Longrightarrow> x \<in> set (ebr_deferred s t) \<Longrightarrow> er_held p (snd k) x \<Longrightarrow> ebr_list_guards k p s"
  by (auto simp: ebr_list_guards_def)

lemma ebr_retire_guards:
  assumes "ebr_retire t q type s = Inr (new, s')" "t < ebr_threads s" "ebr_reader k p s"
  shows "new = [C_derived E_work] \<and>
    (ebr_list_guards k p s \<or> q = p \<and> type = RT_decrement_strong_count \<longrightarrow> ebr_list_guards k p s')"
  using assms
  by (auto simp: ebr_retire_def ebr_reader_def er_held_def get_current_epoch_def
      intro: ebr_list_guards_mono ebr_list_guardsI [of t])

lemma ebr_work_loop_guards:
  assumes step: "ebr_work_loop t s = (new, s')" and k: "ebr_reader k p s"
  shows "(ebr_list_guards k p s \<longrightarrow> ebr_list_guards k p s' \<or> (\<exists>d. C_derived d \<in> set new \<and> ebr_call_guards k p d)) \<and>
   (\<forall>d. C_derived d \<in> set new \<longrightarrow> \<not> ebr_drains d)"
proof (cases "\<not> ebr_in_progress s t \<and> ebr_threshold s \<le> unat (ebr_eject_work s t) \<and> ebr_deferred s t \<noteq> []")
  case True
  then have new: "new = [C_derived (E_min [0..<ebr_threads s] (ebr_deferred s t) no_epoch)]"
      and s': "ebr_deferred s' = (ebr_deferred s)(t := [])" "ebr_threads s' = ebr_threads s"
    using step by (auto simp: ebr_work_loop_def Let_def)
  show ?thesis
  proof (intro conjI impI)
    assume "ebr_list_guards k p s"
    then obtain u x where u: "u < ebr_threads s" "x \<in> set (ebr_deferred s u)" "er_held p (snd k) x"
      by (auto simp: ebr_list_guards_def)
    then show "ebr_list_guards k p s' \<or> (\<exists>d. C_derived d \<in> set new \<and> ebr_call_guards k p d)"
      using k new s' by (cases "u = t") (auto simp: ebr_reader_def intro: ebr_list_guardsI [of u])
  qed (simp add: new)
next
  case False
  with step show ?thesis
    by (auto simp: ebr_work_loop_def Let_def intro: ebr_list_guards_mono split: if_splits)
qed

lemma ebr_min_epoch_guards:
  assumes "ebr_reader k p s"
  shows "(ebr_call_guards k p (E_min is deferred answer) \<longrightarrow>
      (\<exists>d. C_derived d \<in> set (ebr_min_epoch is deferred answer s) \<and> ebr_call_guards k p d)) \<and>
    (\<forall>d. C_derived d \<in> set (ebr_min_epoch is deferred answer s) \<longrightarrow> \<not> ebr_drains d)"
  using assms by (cases "is") (auto simp: ebr_reader_def min_le_iff_disj)

lemma ebr_eject_pass_guards:
  assumes "ebr_eject_pass t m todo kept s = (new, s')" "t < ebr_threads s"
  shows "(ebr_list_guards k p s \<or> ebr_call_guards k p (E_eject m todo kept) \<longrightarrow>
      ebr_list_guards k p s' \<or> (\<exists>d. C_derived d \<in> set new \<and> ebr_call_guards k p d)) \<and>
    (\<forall>d. C_derived d \<in> set new \<longrightarrow> \<not> ebr_drains d)"
proof (cases todo)
  case Nil
  with assms show ?thesis by (auto intro: ebr_list_guards_mono ebr_list_guardsI [of t])
next
  case (Cons x todo')
  have "er_held p (snd k) x \<Longrightarrow> m \<le> snd k \<Longrightarrow> \<not> er_retireTS x < m"
    by (auto simp: er_held_def)
  with Cons assms show ?thesis by (auto split: if_splits)
qed

lemma ebr_derived_guards:
  assumes "t < ebr_threads s" "ebr_reader k p s" "\<not> ebr_drains d" "ebr_derived t d s = Inr (new, s')"
  shows "ebr_reader k p s' \<and> (ebr_list_guards k p s \<or> ebr_call_guards k p d \<longrightarrow>
      ebr_list_guards k p s' \<or> (\<exists>d'. C_derived d' \<in> set new \<and> ebr_call_guards k p d')) \<and>
    (\<forall>d'. C_derived d' \<in> set new \<longrightarrow> \<not> ebr_drains d')"
proof -
  have "ebr_reader k p s'"
    using ebr_derived_progress [OF assms(1), of d] assms(2,4) by (auto simp: ebr_reader_cong)
  with assms ebr_work_loop_guards [of t s new s' k p] ebr_min_epoch_guards [of k p s]
    ebr_eject_pass_guards [of t _ _ _ s new s' k p]
  show ?thesis by (cases d) (auto simp del: ebr_call_guards.simps(1,2))
qed

lemma er_held_token: "x \<in> set xs \<Longrightarrow> er_held p e x \<Longrightarrow> (T_strong, p) \<in># entries_tokens (map er_entry xs)"
  by (force simp: entries_tokens_def entry_token_def er_entry_def er_held_def)

lemma ebr_call_guards_token: "ebr_call_guards k p d \<Longrightarrow> (T_strong, p) \<in># ebr_call_tokens d"
  by (cases d) (auto dest: er_held_token)

lemma ebr_list_guards_token:
  assumes "ebr_list_guards k p s"
  shows "(T_strong, p) \<in># ebr_tokens s"
proof -
  from assms obtain t where "t < ebr_threads s" "(T_strong, p) \<in># entries_tokens (map er_entry (ebr_deferred s t))"
    by (auto simp: ebr_list_guards_def dest: er_held_token)
  then show ?thesis unfolding ebr_tokens_def in_sum_tokens [symmetric] by blast
qed

interpretation ebr: protecting_scheme ebr_retire ebr_derived ebr_call_tokens ebr_call_weight ebr_call_length
  ebr_tokens ebr_weight ebr_length "\<lambda>t s. t < ebr_threads s"
  ebr_call_guards ebr_list_guards ebr_reader ebr_drains
proof
  fix s s' :: "(('v, 'x) counted_object_scheme, 'e) acquire_retire_ebr_scheme" and k p t q type new
  show "ebr_tokens s' = ebr_tokens s \<and> ebr_weight s' = ebr_weight s \<and> ebr_length s' = ebr_length s \<and>
      (t < ebr_threads s') = (t < ebr_threads s)" if "mm.more s' = mm.more s"
    using ebr_more_fields [OF that] by (simp add: ebr_tokens_def ebr_weight_def ebr_length_def)
  show "\<exists>new s'. ebr_retire t p type s = Inr (new, s') \<and>
      scheme_progress ebr_call_tokens ebr_call_weight ebr_call_length ebr_tokens ebr_weight ebr_length
        (C_retire p type) s new s' \<and> (\<forall>u. u < ebr_threads s \<longrightarrow> u < ebr_threads s')" if "t < ebr_threads s"
    using ebr_retire_progress [OF that, of p type] that by (simp add: ebr_progress_def ebr_retire_def)
  show "(ebr_list_guards k p s \<longrightarrow> ebr_list_guards k p s') \<and> (ebr_reader k p s \<longrightarrow> ebr_reader k p s')"
    if "mm.more s' = mm.more s"
    using ebr_more_fields [OF that] by (simp add: ebr_list_guards_def ebr_reader_def)
  show "ebr_reader k p s' \<and>
      (ebr_list_guards k p s \<or> q = p \<and> type = RT_decrement_strong_count \<longrightarrow>
       ebr_list_guards k p s' \<or> (\<exists>d. C_derived d \<in> set new \<and> ebr_call_guards k p d)) \<and>
      (\<forall>d. C_derived d \<in> set new \<longrightarrow> \<not> ebr_drains d)"
    if "t < ebr_threads s" "ebr_reader k p s" "ebr_retire t q type s = Inr (new, s')"
    using ebr_retire_guards [OF that(3,1,2)] ebr_reader_cong [OF ebr_retire_progress [OF that(1,3)]] that(2) by auto
next
  fix s :: "(('v, 'x) counted_object_scheme, 'e) acquire_retire_ebr_scheme" and t d
  assume "t < ebr_threads s"
  with ebr_derived_progress [OF this, of d]
  show "\<exists>new s'. ebr_derived t d s = Inr (new, s') \<and>
      scheme_progress ebr_call_tokens ebr_call_weight ebr_call_length ebr_tokens ebr_weight ebr_length
        (C_derived d) s new s' \<and> (\<forall>u. u < ebr_threads s \<longrightarrow> u < ebr_threads s')"
    by (auto simp: ebr_progress_def)
qed (rule ebr_derived_guards ebr_call_guards_token ebr_list_guards_token; assumption)+

section \<open>Properties\<close>

text \<open>
  (C30) Every stack of calls of the epoch-based scheme, started in a state whose reference counts agree with the references,
  runs to the end without an access to a deleted object, a second destruction or a failed assertion, and
  afterwards the counts agree again.
\<close>

theorem ebr_calls_return:
  assumes "t < ebr_threads s" and "mm_ok (R + calls_tokens ebr_call_tokens cs + ebr_tokens s) s"
  shows "\<exists>s'. mm_run ebr_step t cs s = Some (Inr s') \<and> mm_ok (R + ebr_tokens s') s'"
  using ebr.machine.run_ok [of t s R cs] assms by (auto simp: ebr_step_def)

text \<open>A state with one object, two threads, and thread 0 in a critical section.\<close>

definition ebr_demo :: "unit counted_object acquire_retire_ebr" where
  "ebr_demo = (let s = ebr_create_object 0 16 \<lparr>payload = (), members = []\<rparr> (acquire_retire_ebr_init 2)
               in s\<lparr>epochs := snd (begin_critical_section 0 (epochs s))\<rparr>)"

lemma ebr_create_object_fields [simp]:
  "heap (ebr_create_object t p v s) = fmupd p (new_counted_object v) (heap s)"
  "ebr_threads (ebr_create_object t p v s) = ebr_threads s"
  "ebr_deferred (ebr_create_object t p v s) = ebr_deferred s"
  "ebr_eject_work (ebr_create_object t p v s) = ebr_eject_work s"
  by (simp_all add: ebr_create_object_def put_object_def ebr_work_toward_advancing_epoch_def
      increment_allocations_def Let_def)

lemma ebr_create_object_ok:
  assumes "mm_ok (members_tokens (members v) + R) s" and "p \<noteq> nullptr" "fmlookup (heap s) p = None"
  shows "mm_ok (add_mset (T_strong, p) R) (ebr_create_object t p v s)"
  using create_object_ok [OF assms(1) fresh_new_counted_object assms(2,3), of t]
  by (subst mm_ok_cong [of _ "create_object t p (new_counted_object v) s"])
     (simp_all add: create_object_def put_object_def increment_allocations_def)

lemma ebr_demo_ok: "mm_ok {#(T_strong, 16)#} ebr_demo"
  using ebr_create_object_ok [of "\<lparr>payload = (), members = []\<rparr>" "{#}" "acquire_retire_ebr_init 2" 16 0]
  by (subst mm_ok_cong [of _ "ebr_create_object 0 16 \<lparr>payload = (), members = []\<rparr> (acquire_retire_ebr_init 2)"])
     (simp_all add: ebr_demo_def Let_def members_tokens_def mm_ok_empty acquire_retire_ebr_init_def)

lemma ebr_demo_fields [simp]:
  "ebr_threads ebr_demo = 2" "ebr_tokens ebr_demo = {#}" "ebr_deferred ebr_demo t = []"
  "local_epoch (epochs ebr_demo) 0 = 0" "global_epoch (epochs ebr_demo) = 0"
  by (simp_all add: ebr_demo_def ebr_tokens_def Let_def acquire_retire_ebr_init_def ebr_create_object_def put_object_def
      ebr_work_toward_advancing_epoch_def increment_allocations_def begin_critical_section_def epoch_tracker_init_def
      ebr_epoch_frequency_def)

theorem ebr_calls_return_witness:
  "\<exists>s'. mm_run ebr_step 1 [C_decrement_ref_cnt 16] ebr_demo = Some (Inr s') \<and> mm_ok (ebr_tokens s') s'"
  using ebr_calls_return [of 1 ebr_demo "{#}" "[C_decrement_ref_cnt 16]"] ebr_demo_ok by simp

text \<open>
  (C28) A critical section protects: while a thread announces an epoch, a pointer that an atomic location holds, or
  whose reference was given up by a location since that epoch, keeps its object: no calls of any
  thread apply the last such reference, and the object stays alive with a positive count.
\<close>

theorem ebr_section_protects:
  assumes "t < ebr_threads s" and "mm_ok (R + calls_tokens ebr_call_tokens cs + ebr_tokens s) s"
    and "\<forall>d. C_derived d \<in> set cs \<longrightarrow> \<not> ebr_drains d"
    and "u < ebr_threads s" and "local_epoch (epochs s) u = e" and "e \<le> global_epoch (epochs s)"
    and "p \<noteq> nullptr" and "ebr_guarded (u, e) p cs s"
  shows "\<exists>s'. mm_run ebr_step t cs s = Some (Inr s') \<and> local_epoch (epochs s') u = e \<and> ebr_guarded (u, e) p [] s' \<and>
    (\<exists>ob n. fmlookup (heap s') p = Some ob \<and> storage ob \<noteq> None \<and> get_use_count ob = (n, ob) \<and> n \<noteq> 0)"
  using ebr.run_protects [of t s R cs "(u, e)" p] assms
  by (auto simp: ebr_reader_def ebr_guarded_def ebr_step_def)

theorem ebr_section_protects_witness:
  "\<exists>s'. mm_run ebr_step 1 [C_delayed_decrement_ref_cnt 16] ebr_demo = Some (Inr s') \<and>
    local_epoch (epochs s') 0 = 0 \<and> ebr_guarded (0, 0) 16 [] s' \<and>
    (\<exists>ob n. fmlookup (heap s') 16 = Some ob \<and> storage ob \<noteq> None \<and> get_use_count ob = (n, ob) \<and> n \<noteq> 0)"
  by (rule ebr_section_protects [where R = "{#}"])
     (use ebr_demo_ok in \<open>simp_all add: ebr_guarded_def guarded_def\<close>)

text \<open>
  (C32) The destructor of the epoch-based scheme returns with all lists empty and only the references of
  the client and of live objects left.
\<close>

theorem ebr_destructor_drains:
  assumes "t < ebr_threads s" and "mm_ok (R + ebr_tokens s) s"
  shows "\<exists>s'. acquire_retire_ebr_dtor t s = Some (Inr s') \<and> mm_ok R s' \<and> (\<forall>u<ebr_threads s'. ebr_deferred s' u = [])"
proof -
  let ?s = "s\<lparr>ebr_in_progress := (\<lambda>_. True)\<rparr>"
  let ?P = "\<lambda>cs s. if cs = [] then \<forall>u<ebr_threads s. ebr_deferred s u = [] else last cs = C_derived E_drain"
  have inv: "t < ebr_threads ?s \<and> mm_ok (R + calls_tokens ebr_call_tokens [C_derived E_drain] + ebr_tokens ?s) ?s"
    using assms mm_ok_cong [of ?s s] by (simp add: ebr_tokens_def)
  have P: "?P [C_derived E_drain] ?s" by simp
  have "\<exists>s'. mm_run (mm_step ebr_retire ebr_derived) t [C_derived E_drain] ?s = Some (Inr s') \<and>
      (t < ebr_threads s' \<and> mm_ok (R + calls_tokens ebr_call_tokens [] + ebr_tokens s') s') \<and> ?P [] s'"
  proof (rule ebr.machine.run_keeps [where P = ?P and R = R, OF inv P])
    fix c cs s new s'
    assume P: "?P (c # cs) s" and step: "mm_step ebr_retire ebr_derived t c s = Inr (new, s')"
    show "?P (new @ cs) s'"
    proof (cases cs)
      case Nil
      with P step show ?thesis by (auto simp: ebr_drain_def list_ex_iff split: if_splits)
    next
      case Cons
      with P show ?thesis by simp
    qed
  qed
  then obtain s' where s': "acquire_retire_ebr_dtor t s = Some (Inr s')" "mm_ok (R + ebr_tokens s') s'"
      "\<forall>u<ebr_threads s'. ebr_deferred s' u = []"
    by (auto simp: acquire_retire_ebr_dtor_def ebr_step_def)
  then have "ebr_tokens s' = {#}" by (simp add: ebr_tokens_def)
  with s' show ?thesis by auto
qed

theorem ebr_destructor_drains_witness:
  "\<exists>s'. acquire_retire_ebr_dtor 0 (ebr_demo\<lparr>ebr_deferred := (\<lambda>_. [])(1 := [\<lparr>er_obj = 16, er_retireTS = 0, er_type = RT_decrement_strong_count\<rparr>])\<rparr>) =
      Some (Inr s') \<and> mm_ok {#} s' \<and> (\<forall>u. u < ebr_threads s' \<longrightarrow> ebr_deferred s' u = [])"
proof -
  let ?s = "ebr_demo\<lparr>ebr_deferred := (\<lambda>_. [])(1 := [\<lparr>er_obj = 16, er_retireTS = 0, er_type = RT_decrement_strong_count\<rparr>])\<rparr>"
  have "ebr_tokens ?s = {#(T_strong, 16)#}" by (simp add: ebr_tokens_def lessThan_Suc numeral_2_eq_2 entry_token_def er_entry_def)
  then show ?thesis
    using ebr_destructor_drains [of 0 ?s "{#}"] ebr_demo_ok mm_ok_cong [of ?s ebr_demo] by simp
qed

end
