(* ===== verification/Acquire_Retire_IBR.thy ===== *)
theory Acquire_Retire_IBR
  imports Deferred_Lists Epoch_Tracker
begin

text \<open>
  \<^verbatim>\<open>include/cdrc/internal/smr/acquire_retire_ibr.h\<close>: deferred reference counting with
  interval-based reclamation. Objects carry the epoch of their birth, retired pointers that of their retirement; a
  thread in a critical section announces an interval of epochs. A pass collects the announced intervals and
  keeps the entries whose lifetime meets one of them.
\<close>

section \<open>State\<close>

definition ibr_epoch_frequency :: nat where "ibr_epoch_frequency = 40"
definition ibr_eject_delay :: nat where "ibr_eject_delay = 2"
definition INVALID_TS :: u64 where "INVALID_TS = 0"

record 'v stamped_counted_object = "'v counted_object" +
  birthTS :: u64

record ibr_retired =
  ir_obj :: ptr
  ir_birthTS :: u64
  ir_retireTS :: u64
  ir_type :: RetireType

record 'o acquire_retire_ibr = "'o mm" +
  ibr_threads :: nat
  iepochs :: epoch_tracker
  endTS_ann :: "tid \<Rightarrow> u64"
  ibr_in_progress :: "tid \<Rightarrow> bool"
  ibr_deferred :: "tid \<Rightarrow> ibr_retired list"
  ibr_eject_work :: "tid \<Rightarrow> u32"
  ibr_epoch_work :: "tid \<Rightarrow> u32"

definition acquire_retire_ibr_init :: "nat \<Rightarrow> 'o acquire_retire_ibr" where
  "acquire_retire_ibr_init num_threads =
     \<lparr>heap = fmempty, num_allocated = (\<lambda>_. 0), ibr_threads = num_threads, iepochs = epoch_tracker_init,
      endTS_ann = (\<lambda>_. INVALID_TS), ibr_in_progress = (\<lambda>_. False), ibr_deferred = (\<lambda>_. []),
      ibr_eject_work = (\<lambda>_. 0), ibr_epoch_work = (\<lambda>_. 0)\<rparr>"

section \<open>Creating and acquiring\<close>

definition ibr_work_toward_advancing_epoch :: "tid \<Rightarrow> ('o, 'e) acquire_retire_ibr_scheme \<Rightarrow> ('o, 'e) acquire_retire_ibr_scheme" where
  "ibr_work_toward_advancing_epoch t s =
     (let w = ibr_epoch_work s t + 1
      in if ibr_epoch_frequency * ibr_threads s \<le> unat w
         then s\<lparr>ibr_epoch_work := (ibr_epoch_work s)(t := 0), iepochs := snd (advance_global_epoch (iepochs s))\<rparr>
         else s\<lparr>ibr_epoch_work := (ibr_epoch_work s)(t := w)\<rparr>)"

definition new_stamped_counted_object :: "u64 \<Rightarrow> 'v managed \<Rightarrow> 'v stamped_counted_object" where
  "new_stamped_counted_object ts v =
     \<lparr>storage = Some v, ref_cnt = sc_init 1, weak_cnt = sc_init 1, disposed = False, birthTS = ts\<rparr>"

definition ibr_create_object :: "tid \<Rightarrow> ptr \<Rightarrow> 'v managed \<Rightarrow> ('v stamped_counted_object, 'e) acquire_retire_ibr_scheme \<Rightarrow>
    ('v stamped_counted_object, 'e) acquire_retire_ibr_scheme" where
  "ibr_create_object t p v s =
     (let s1 = ibr_work_toward_advancing_epoch t (increment_allocations t s)
      in put_object p (new_stamped_counted_object (get_current_epoch (iepochs s1)) v) s1)"

definition get_birth_timestamp :: "('v, 'x) stamped_counted_object_scheme \<Rightarrow> u64" where
  "get_birth_timestamp ob = birthTS ob"

definition ibr_reserve :: "tid \<Rightarrow> ptr \<Rightarrow> ('o, 'e) acquire_retire_ibr_scheme \<Rightarrow> ptr \<times> ('o, 'e) acquire_retire_ibr_scheme" where
  "ibr_reserve t p s =
     (let curTS = get_current_epoch (iepochs s)
      in (p, if endTS_ann s t \<noteq> curTS then s\<lparr>endTS_ann := (endTS_ann s)(t := curTS)\<rparr> else s))"

text \<open>
  The loop of \<^verbatim>\<open>protect_snapshot\<close>: each round reads the location and then the epoch, which other threads may have
  advanced meanwhile; the script lists the two values of each round.
\<close>

fun ibr_protect_loop :: "tid \<Rightarrow> u64 \<Rightarrow> (ptr \<times> u64) list \<Rightarrow> (('v, 'x) stamped_counted_object_scheme, 'e) acquire_retire_ibr_scheme \<Rightarrow>
    (error + ptr \<times> (('v, 'x) stamped_counted_object_scheme, 'e) acquire_retire_ibr_scheme) option" where
  "ibr_protect_loop t p_epoch [] s = None"
| "ibr_protect_loop t p_epoch ((result, curTS) # script) s =
     (if p_epoch = curTS then
        Some (if result = nullptr then Inr (nullptr, s)
              else with_object result s (\<lambda>ob. let (n, ob') = get_use_count ob
                     in Inr (if n = 0 then nullptr else result, put_object result ob' s)))
      else ibr_protect_loop t curTS script (s\<lparr>endTS_ann := (endTS_ann s)(t := curTS)\<rparr>))"

definition ibr_protect_snapshot :: "tid \<Rightarrow> (ptr \<times> u64) list \<Rightarrow> (('v, 'x) stamped_counted_object_scheme, 'e) acquire_retire_ibr_scheme \<Rightarrow>
    (error + ptr \<times> (('v, 'x) stamped_counted_object_scheme, 'e) acquire_retire_ibr_scheme) option" where
  "ibr_protect_snapshot t script s = ibr_protect_loop t (endTS_ann s t) script s"

definition ibr_acquire :: "tid \<Rightarrow> (ptr \<times> u64) list \<Rightarrow> (('v, 'x) stamped_counted_object_scheme, 'e) acquire_retire_ibr_scheme \<Rightarrow>
    (error + ptr \<times> (('v, 'x) stamped_counted_object_scheme, 'e) acquire_retire_ibr_scheme) option" where
  "ibr_acquire t script s = ibr_protect_snapshot t script s"

section \<open>Retiring\<close>

type_synonym intervals = "(u64 \<times> u64) list"

text \<open>The calls of a pass: the loop of \<^verbatim>\<open>work_toward_ejects\<close>, the scan of the announced epochs and, for a thread with
  an announcement, the read of the end of its interval, the pass over the entries, and the two loops of
  the destructor.\<close>

datatype ibr_call =
    I_work
  | I_scan "tid list" "ibr_retired list" intervals
  | I_end tid u64 "tid list" "ibr_retired list" intervals
  | I_eject intervals "ibr_retired list" "ibr_retired list"
  | I_drain
  | I_drain_list "entry list"

definition ibr_threshold :: "('o, 'e) acquire_retire_ibr_scheme \<Rightarrow> nat" where
  "ibr_threshold s = max 30 (ibr_eject_delay * ibr_threads s)"

definition ibr_work_loop :: "tid \<Rightarrow> ('o, 'e) acquire_retire_ibr_scheme \<Rightarrow> ibr_call mm_call list \<times> ('o, 'e) acquire_retire_ibr_scheme" where
  "ibr_work_loop t s =
     (if \<not> ibr_in_progress s t \<and> ibr_threshold s \<le> unat (ibr_eject_work s t) then
        let s1 = s\<lparr>ibr_eject_work := (ibr_eject_work s)(t := 0)\<rparr> in
        if ibr_deferred s t = [] then ([], s1)
        else ([C_derived (I_scan [0..<ibr_threads s] (ibr_deferred s t) [])],
              s1\<lparr>ibr_in_progress := (ibr_in_progress s)(t := True),
                 ibr_deferred := (ibr_deferred s)(t := [])\<rparr>)
      else ([], s))"

fun ibr_scan :: "tid list \<Rightarrow> ibr_retired list \<Rightarrow> intervals \<Rightarrow> ('o, 'e) acquire_retire_ibr_scheme \<Rightarrow> ibr_call mm_call list" where
  "ibr_scan [] deferred announced s = [C_derived (I_eject announced deferred [])]"
| "ibr_scan (i # is) deferred announced s =
     (let e = local_epoch (iepochs s) i
      in [C_derived (if e \<noteq> no_epoch then I_end i e is deferred announced else I_scan is deferred announced)])"

definition ibr_end :: "tid \<Rightarrow> u64 \<Rightarrow> tid list \<Rightarrow> ibr_retired list \<Rightarrow> intervals \<Rightarrow> ('o, 'e) acquire_retire_ibr_scheme \<Rightarrow> ibr_call mm_call list" where
  "ibr_end index startTS is deferred announced s =
     (let endTS = endTS_ann s index
      in [C_derived (I_scan is deferred (if startTS \<le> endTS then announced @ [(startTS, endTS)] else announced))])"

definition ibr_reserved :: "intervals \<Rightarrow> ibr_retired \<Rightarrow> bool" where
  "ibr_reserved announced x = list_ex (\<lambda>ann. \<not> (ir_retireTS x < fst ann \<or> ir_birthTS x > snd ann)) announced"

fun ibr_eject_pass :: "tid \<Rightarrow> intervals \<Rightarrow> ibr_retired list \<Rightarrow> ibr_retired list \<Rightarrow> ('o, 'e) acquire_retire_ibr_scheme \<Rightarrow>
    ibr_call mm_call list \<times> ('o, 'e) acquire_retire_ibr_scheme" where
  "ibr_eject_pass t announced [] kept s =
     ([C_derived I_work],
      s\<lparr>ibr_deferred := (ibr_deferred s)(t := ibr_deferred s t @ kept),
        ibr_in_progress := (ibr_in_progress s)(t := False)\<rparr>)"
| "ibr_eject_pass t announced (x # todo) kept s =
     (if \<not> ibr_reserved announced x then ([C_eject (ir_obj x) (ir_type x), C_derived (I_eject announced todo kept)], s)
      else ([C_derived (I_eject announced todo (kept @ [x]))], s))"

definition ir_entry :: "ibr_retired \<Rightarrow> entry" where
  "ir_entry x = (ir_obj x, ir_type x)"

definition ibr_drain :: "('o, 'e) acquire_retire_ibr_scheme \<Rightarrow> ibr_call mm_call list \<times> ('o, 'e) acquire_retire_ibr_scheme" where
  "ibr_drain s =
     (if list_ex (\<lambda>t. ibr_deferred s t \<noteq> []) [0..<ibr_threads s] then
        ([C_derived (I_drain_list (concat (map (\<lambda>t. map ir_entry (ibr_deferred s t)) [0..<ibr_threads s]))), C_derived I_drain],
         s\<lparr>ibr_deferred := (\<lambda>t. if t < ibr_threads s then [] else ibr_deferred s t)\<rparr>)
      else ([], s))"

fun ibr_drain_list :: "entry list \<Rightarrow> ibr_call mm_call list" where
  "ibr_drain_list [] = []"
| "ibr_drain_list (x # xs) = [C_eject (fst x) (snd x), C_derived (I_drain_list xs)]"

fun ibr_derived :: "(('o, 'e) acquire_retire_ibr_scheme, ibr_call) derived_fn" where
  "ibr_derived t I_work s = Inr (ibr_work_loop t s)"
| "ibr_derived t (I_scan is deferred announced) s = Inr (ibr_scan is deferred announced s, s)"
| "ibr_derived t (I_end index startTS is deferred announced) s = Inr (ibr_end index startTS is deferred announced s, s)"
| "ibr_derived t (I_eject announced todo kept) s = Inr (ibr_eject_pass t announced todo kept s)"
| "ibr_derived t I_drain s = Inr (ibr_drain s)"
| "ibr_derived t (I_drain_list xs) s = Inr (ibr_drain_list xs, s)"

definition ibr_retire :: "((('v, 'x) stamped_counted_object_scheme, 'e) acquire_retire_ibr_scheme, ibr_call) retire_fn" where
  "ibr_retire t p type s =
     with_object p s (\<lambda>ob.
       Inr ([C_derived I_work],
            s\<lparr>ibr_deferred := (ibr_deferred s)(t := ibr_deferred s t @
                  [\<lparr>ir_obj = p, ir_birthTS = get_birth_timestamp ob, ir_retireTS = get_current_epoch (iepochs s), ir_type = type\<rparr>]),
              ibr_eject_work := (ibr_eject_work s)(t := ibr_eject_work s t + 1)\<rparr>))"

definition ibr_step ::
  "tid \<Rightarrow> ibr_call mm_call \<Rightarrow> (('v, 'x) stamped_counted_object_scheme, 'e) acquire_retire_ibr_scheme \<Rightarrow>
   error + ibr_call mm_call list \<times> (('v, 'x) stamped_counted_object_scheme, 'e) acquire_retire_ibr_scheme" where
  "ibr_step = mm_step ibr_retire ibr_derived"

definition acquire_retire_ibr_dtor ::
  "tid \<Rightarrow> (('v, 'x) stamped_counted_object_scheme, 'e) acquire_retire_ibr_scheme \<Rightarrow>
   (error + (('v, 'x) stamped_counted_object_scheme, 'e) acquire_retire_ibr_scheme) option" where
  "acquire_retire_ibr_dtor t s = mm_run ibr_step t [C_derived I_drain] (s\<lparr>ibr_in_progress := (\<lambda>_. True)\<rparr>)"

section \<open>Accounts and measure\<close>

fun ibr_call_tokens :: "ibr_call \<Rightarrow> tokens" where
  "ibr_call_tokens I_work = {#}"
| "ibr_call_tokens (I_scan is deferred announced) = entries_tokens (map ir_entry deferred)"
| "ibr_call_tokens (I_end index startTS is deferred announced) = entries_tokens (map ir_entry deferred)"
| "ibr_call_tokens (I_eject announced todo kept) = entries_tokens (map ir_entry todo) + entries_tokens (map ir_entry kept)"
| "ibr_call_tokens I_drain = {#}"
| "ibr_call_tokens (I_drain_list xs) = entries_tokens xs"

fun ibr_call_weight :: "ibr_call \<Rightarrow> nat" where
  "ibr_call_weight I_work = 1"
| "ibr_call_weight (I_scan is deferred announced) = 3 + entries_weight (map ir_entry deferred)"
| "ibr_call_weight (I_end index startTS is deferred announced) = 3 + entries_weight (map ir_entry deferred)"
| "ibr_call_weight (I_eject announced todo kept) = 2 + entries_weight (map ir_entry todo) + entries_weight (map ir_entry kept)"
| "ibr_call_weight I_drain = 0"
| "ibr_call_weight (I_drain_list xs) = entries_weight xs"

fun ibr_call_length :: "ibr_call mm_call \<Rightarrow> nat" where
  "ibr_call_length (C_derived (I_scan is deferred announced)) = 2 * length is"
| "ibr_call_length (C_derived (I_end index startTS is deferred announced)) = 1 + 2 * length is"
| "ibr_call_length (C_derived (I_eject announced todo kept)) = length todo"
| "ibr_call_length (C_derived I_drain) = 1"
| "ibr_call_length (C_derived (I_drain_list xs)) = 1 + length xs"
| "ibr_call_length _ = 0"

definition ibr_tokens :: "('o, 'e) acquire_retire_ibr_scheme \<Rightarrow> tokens" where
  "ibr_tokens s = (\<Sum>t<ibr_threads s. entries_tokens (map ir_entry (ibr_deferred s t)))"

definition ibr_weight :: "('o, 'e) acquire_retire_ibr_scheme \<Rightarrow> nat" where
  "ibr_weight s = (\<Sum>t<ibr_threads s. entries_weight (map ir_entry (ibr_deferred s t))) + (\<Sum>t<ibr_threads s. unat (ibr_eject_work s t))"

definition ibr_length :: "('o, 'e) acquire_retire_ibr_scheme \<Rightarrow> nat" where
  "ibr_length s = (\<Sum>t<ibr_threads s. 3 * length (ibr_deferred s t))"

definition ibr_progress :: "ibr_call mm_call \<Rightarrow> ('o, 'e) acquire_retire_ibr_scheme \<Rightarrow>
    ibr_call mm_call list \<Rightarrow> ('o, 'e) acquire_retire_ibr_scheme \<Rightarrow> bool" where
  "ibr_progress c s new s' \<longleftrightarrow>
     scheme_progress ibr_call_tokens ibr_call_weight ibr_call_length ibr_tokens ibr_weight ibr_length c s new s' \<and>
     ibr_threads s' = ibr_threads s \<and> iepochs s' = iepochs s \<and> endTS_ann s' = endTS_ann s"

lemmas ibr_progress_defs = ibr_progress_def scheme_progress_def ibr_tokens_def ibr_weight_def ibr_length_def

lemma ibr_more_fields:
  "mm.more s' = mm.more s \<Longrightarrow>
   ibr_threads s' = ibr_threads s \<and> iepochs s' = iepochs s \<and> endTS_ann s' = endTS_ann s \<and> ibr_in_progress s' = ibr_in_progress s \<and>
   ibr_deferred s' = ibr_deferred s \<and> ibr_eject_work s' = ibr_eject_work s"
  for s s' :: "('o, 'e) acquire_retire_ibr_scheme"
  by (cases s; cases s') simp

lemma ibr_sums:
  assumes "t < (n :: nat)"
  shows "(\<Sum>i<n. entries_tokens (map ir_entry ((d(t := x)) i))) + entries_tokens (map ir_entry (d t)) =
      (\<Sum>i<n. entries_tokens (map ir_entry (d i))) + entries_tokens (map ir_entry x)"
    and "(\<Sum>i<n. entries_weight (map ir_entry ((d(t := x)) i))) + entries_weight (map ir_entry (d t)) =
      (\<Sum>i<n. entries_weight (map ir_entry (d i))) + entries_weight (map ir_entry x)"
    and "(\<Sum>i<n. unat ((a(t := y)) i)) + unat (a t) = (\<Sum>i<n. unat (a i)) + unat y"
  using sum_lessThan_upd [OF assms, of "\<lambda>xs. entries_tokens (map ir_entry xs)" d x]
    sum_lessThan_upd [OF assms, of "\<lambda>xs. entries_weight (map ir_entry xs)" d x]
    sum_lessThan_upd [OF assms, of unat a y] by simp_all

lemma ir_entry_weight_pos: "0 < entry_weight (snd (ir_entry x))"
  by (cases "ir_type x") (simp_all add: ir_entry_def)

lemma ibr_retire_progress:
  assumes "t < ibr_threads s" and "ibr_retire t p type s = Inr (new, s')"
  shows "ibr_progress (C_retire p type) s new s'"
proof -
  from assms(2) obtain ob where ob: "fmlookup (heap s) p = Some ob" by (auto simp: ibr_retire_def with_object_Inr)
  have "unat (ibr_eject_work s t + 1) \<le> unat (ibr_eject_work s t) + 1" by (rule unat_plus_one_le)
  then show ?thesis
    using assms ob ibr_sums(1,2) [OF assms(1), of "ibr_deferred s" "ibr_deferred s t @
        [\<lparr>ir_obj = p, ir_birthTS = get_birth_timestamp ob, ir_retireTS = get_current_epoch (iepochs s), ir_type = type\<rparr>]"]
      ibr_sums(3) [OF assms(1), of "ibr_eject_work s" "ibr_eject_work s t + 1"]
    by (auto simp: ibr_retire_def with_object_def ibr_progress_defs entry_token_def ir_entry_def)
qed

lemma ibr_work_loop_progress:
  assumes "t < ibr_threads s" and "ibr_work_loop t s = (new, s')"
  shows "ibr_progress (C_derived I_work) s new s'"
proof (cases "\<not> ibr_in_progress s t \<and> ibr_threshold s \<le> unat (ibr_eject_work s t)")
  case True
  then have "30 \<le> unat (ibr_eject_work s t)" by (simp add: ibr_threshold_def)
  with True assms ibr_sums(1,2) [OF assms(1), of "ibr_deferred s" "[]"] ibr_sums(3) [OF assms(1), of "ibr_eject_work s" 0]
  show ?thesis
    by (auto simp: ibr_work_loop_def ibr_progress_defs Let_def ac_simps split: if_splits)
next
  case False
  with assms show ?thesis by (auto simp: ibr_work_loop_def ibr_progress_defs)
qed

lemma ibr_scan_progress: "ibr_progress (C_derived (I_scan is deferred announced)) s (ibr_scan is deferred announced s) s"
  by (cases "is") (auto simp: ibr_progress_defs Let_def)

lemma ibr_end_progress:
  "ibr_progress (C_derived (I_end index startTS is deferred announced)) s (ibr_end index startTS is deferred announced s) s"
  by (auto simp: ibr_end_def ibr_progress_defs Let_def)

lemma ibr_eject_pass_progress:
  assumes "t < ibr_threads s" and "ibr_eject_pass t m todo kept s = (new, s')"
  shows "ibr_progress (C_derived (I_eject m todo kept)) s new s'"
proof (cases todo)
  case Nil
  with assms ibr_sums(1,2) [OF assms(1), of "ibr_deferred s" "ibr_deferred s t @ kept"]
  show ?thesis by (auto simp: ibr_progress_defs ac_simps)
next
  case (Cons x xs)
  with assms ir_entry_weight_pos [of x] show ?thesis
    by (auto simp: ibr_progress_defs entry_token_def ir_entry_def ac_simps split: if_splits)
qed

lemma ibr_drain_progress:
  assumes "ibr_drain s = (new, s')"
  shows "ibr_progress (C_derived I_drain) s new s'"
proof (cases "list_ex (\<lambda>t. ibr_deferred s t \<noteq> []) [0..<ibr_threads s]")
  case True
  then obtain t where "t < ibr_threads s" "ibr_deferred s t \<noteq> []" by (auto simp: list_ex_iff)
  then have "0 < (\<Sum>t<ibr_threads s. length (ibr_deferred s t))"
    by (intro sum_pos2 [where i = t]) auto
  then have "1 + (\<Sum>t<ibr_threads s. length (ibr_deferred s t)) < (\<Sum>t<ibr_threads s. 3 * length (ibr_deferred s t))"
    unfolding sum_distrib_left [symmetric] by simp
  with True assms show ?thesis
    by (auto simp: ibr_drain_def ibr_progress_defs entries_concat)
next
  case False
  with assms show ?thesis by (auto simp: ibr_drain_def ibr_progress_defs)
qed

lemma ibr_drain_list_progress: "ibr_progress (C_derived (I_drain_list xs)) s (ibr_drain_list xs) s"
proof (cases xs)
  case (Cons x xs')
  have "0 < entry_weight (snd x)" by (cases "snd x") simp_all
  with Cons show ?thesis by (auto simp: ibr_progress_defs entry_token_def)
qed (auto simp: ibr_progress_defs)

lemma ibr_derived_progress:
  assumes "t < ibr_threads s"
  shows "\<exists>new s'. ibr_derived t d s = Inr (new, s') \<and> ibr_progress (C_derived d) s new s'"
proof -
  obtain r where r: "ibr_derived t d s = Inr r" by (cases d) simp_all
  with assms have "ibr_progress (C_derived d) s (fst r) (snd r)"
    by (cases d) (auto intro: ibr_work_loop_progress ibr_scan_progress ibr_end_progress ibr_eject_pass_progress
        ibr_drain_progress ibr_drain_list_progress)
  with r show ?thesis by (cases r) simp
qed

section \<open>Intervals protect\<close>

text \<open>
  A thread \<open>u\<close> that announces the interval from \<open>e\<close> to \<open>f\<close> is a reader of the objects born by \<open>f\<close>. Held back for
  it are the entries of such objects retired at \<open>e\<close> or later, in a list, or in a pass that has not yet read the
  announcement or has collected the interval.
\<close>

type_synonym ibr_key = "tid \<times> u64 \<times> u64"

definition ir_held :: "ptr \<Rightarrow> ibr_key \<Rightarrow> ibr_retired \<Rightarrow> bool" where
  "ir_held p k x \<longleftrightarrow> ir_obj x = p \<and> ir_type x = RT_decrement_strong_count \<and>
     fst (snd k) \<le> ir_retireTS x \<and> ir_birthTS x \<le> snd (snd k)"

fun ibr_call_guards :: "ibr_key \<Rightarrow> ptr \<Rightarrow> ibr_call \<Rightarrow> bool" where
  "ibr_call_guards k p (I_scan is deferred announced) \<longleftrightarrow>
     (\<exists>x\<in>set deferred. ir_held p k x) \<and> (fst k \<in> set is \<or> snd k \<in> set announced)"
| "ibr_call_guards k p (I_end index startTS is deferred announced) \<longleftrightarrow>
     (\<exists>x\<in>set deferred. ir_held p k x) \<and>
     (fst k \<in> set is \<or> snd k \<in> set announced \<or> index = fst k \<and> startTS = fst (snd k))"
| "ibr_call_guards k p (I_eject announced todo kept) \<longleftrightarrow>
     (\<exists>x\<in>set kept. ir_held p k x) \<or> (\<exists>x\<in>set todo. ir_held p k x) \<and> snd k \<in> set announced"
| "ibr_call_guards k p _ \<longleftrightarrow> False"

definition ibr_list_guards :: "ibr_key \<Rightarrow> ptr \<Rightarrow> ('o, 'e) acquire_retire_ibr_scheme \<Rightarrow> bool" where
  "ibr_list_guards k p s \<longleftrightarrow> (\<exists>t<ibr_threads s. \<exists>x\<in>set (ibr_deferred s t). ir_held p k x)"

definition ibr_reader :: "ibr_key \<Rightarrow> ptr \<Rightarrow> (('v, 'x) stamped_counted_object_scheme, 'e) acquire_retire_ibr_scheme \<Rightarrow> bool" where
  "ibr_reader k p s \<longleftrightarrow>
     (case k of (u, e, f) \<Rightarrow> u < ibr_threads s \<and> local_epoch (iepochs s) u = e \<and> e \<noteq> no_epoch \<and> e \<le> global_epoch (iepochs s) \<and>
        endTS_ann s u = f \<and> e \<le> f \<and> (\<forall>ob. fmlookup (heap s) p = Some ob \<longrightarrow> birthTS ob \<le> f))"

definition ibr_guarded :: "ibr_key \<Rightarrow> ptr \<Rightarrow> ibr_call mm_call list \<Rightarrow>
    (('v, 'x) stamped_counted_object_scheme, 'e) acquire_retire_ibr_scheme \<Rightarrow> bool" where
  "ibr_guarded k p = guarded (ibr_call_guards k p) (ibr_list_guards k p) p"

fun ibr_drains :: "ibr_call \<Rightarrow> bool" where
  "ibr_drains I_drain \<longleftrightarrow> True"
| "ibr_drains (I_drain_list xs) \<longleftrightarrow> True"
| "ibr_drains _ \<longleftrightarrow> False"

lemma ibr_reader_cong: "ibr_progress c s new s' \<Longrightarrow> ibr_reader k p s' = ibr_reader k p s"
  by (simp add: ibr_reader_def ibr_progress_def scheme_progress_def)

lemma ibr_list_guards_mono:
  "ibr_list_guards k p s \<Longrightarrow> ibr_threads s' = ibr_threads s \<Longrightarrow>
   (\<And>u. set (ibr_deferred s u) \<subseteq> set (ibr_deferred s' u)) \<Longrightarrow> ibr_list_guards k p s'"
  unfolding ibr_list_guards_def by (metis subsetD)

lemma ibr_list_guardsI: "t < ibr_threads s \<Longrightarrow> x \<in> set (ibr_deferred s t) \<Longrightarrow> ir_held p k x \<Longrightarrow> ibr_list_guards k p s"
  by (auto simp: ibr_list_guards_def)

lemma ibr_retire_guards:
  assumes "ibr_retire t q type s = Inr (new, s')" "t < ibr_threads s" "ibr_reader k p s"
  shows "new = [C_derived I_work] \<and>
    (ibr_list_guards k p s \<or> q = p \<and> type = RT_decrement_strong_count \<longrightarrow> ibr_list_guards k p s')"
  using assms
  by (auto simp: ibr_retire_def with_object_Inr ibr_reader_def ir_held_def get_current_epoch_def get_birth_timestamp_def
      intro: ibr_list_guards_mono ibr_list_guardsI [of t])

lemma ibr_work_loop_guards:
  assumes step: "ibr_work_loop t s = (new, s')" and k: "ibr_reader k p s"
  shows "(ibr_list_guards k p s \<longrightarrow> ibr_list_guards k p s' \<or> (\<exists>d. C_derived d \<in> set new \<and> ibr_call_guards k p d)) \<and>
   (\<forall>d. C_derived d \<in> set new \<longrightarrow> \<not> ibr_drains d)"
proof (cases "\<not> ibr_in_progress s t \<and> ibr_threshold s \<le> unat (ibr_eject_work s t) \<and> ibr_deferred s t \<noteq> []")
  case True
  then have new: "new = [C_derived (I_scan [0..<ibr_threads s] (ibr_deferred s t) [])]"
      and s': "ibr_deferred s' = (ibr_deferred s)(t := [])" "ibr_threads s' = ibr_threads s"
    using step by (auto simp: ibr_work_loop_def Let_def)
  show ?thesis
  proof (intro conjI impI)
    assume "ibr_list_guards k p s"
    then obtain u x where u: "u < ibr_threads s" "x \<in> set (ibr_deferred s u)" "ir_held p k x"
      by (auto simp: ibr_list_guards_def)
    then show "ibr_list_guards k p s' \<or> (\<exists>d. C_derived d \<in> set new \<and> ibr_call_guards k p d)"
      using k new s' by (cases "u = t") (auto simp: ibr_reader_def split: prod.splits intro: ibr_list_guardsI [of u])
  qed (simp add: new)
next
  case False
  with step show ?thesis
    by (auto simp: ibr_work_loop_def Let_def intro: ibr_list_guards_mono split: if_splits)
qed

lemma ibr_scan_guards:
  assumes "ibr_reader k p s"
  shows "(ibr_call_guards k p (I_scan is deferred announced) \<longrightarrow>
      (\<exists>d. C_derived d \<in> set (ibr_scan is deferred announced s) \<and> ibr_call_guards k p d)) \<and>
    (\<forall>d. C_derived d \<in> set (ibr_scan is deferred announced s) \<longrightarrow> \<not> ibr_drains d)"
  using assms by (cases "is") (auto simp: ibr_reader_def Let_def split: if_splits)

lemma ibr_end_guards:
  assumes "ibr_reader k p s"
  shows "(ibr_call_guards k p (I_end index startTS is deferred announced) \<longrightarrow>
      (\<exists>d. C_derived d \<in> set (ibr_end index startTS is deferred announced s) \<and> ibr_call_guards k p d)) \<and>
    (\<forall>d. C_derived d \<in> set (ibr_end index startTS is deferred announced s) \<longrightarrow> \<not> ibr_drains d)"
  using assms by (auto simp: ibr_end_def ibr_reader_def Let_def split: if_splits)

lemma ir_held_reserved: "ir_held p k x \<Longrightarrow> snd k \<in> set announced \<Longrightarrow> ibr_reserved announced x"
  by (force simp: ir_held_def ibr_reserved_def list_ex_iff)

lemma ibr_eject_pass_guards:
  assumes "ibr_eject_pass t m todo kept s = (new, s')" "t < ibr_threads s"
  shows "(ibr_list_guards k p s \<or> ibr_call_guards k p (I_eject m todo kept) \<longrightarrow>
      ibr_list_guards k p s' \<or> (\<exists>d. C_derived d \<in> set new \<and> ibr_call_guards k p d)) \<and>
    (\<forall>d. C_derived d \<in> set new \<longrightarrow> \<not> ibr_drains d)"
proof (cases todo)
  case Nil
  with assms show ?thesis by (auto intro: ibr_list_guards_mono ibr_list_guardsI [of t])
next
  case (Cons x todo')
  with assms ir_held_reserved [of p k x m] show ?thesis by (auto split: if_splits)
qed

lemma ibr_derived_guards:
  assumes "t < ibr_threads s" "ibr_reader k p s" "\<not> ibr_drains d" "ibr_derived t d s = Inr (new, s')"
  shows "ibr_reader k p s' \<and> (ibr_list_guards k p s \<or> ibr_call_guards k p d \<longrightarrow>
      ibr_list_guards k p s' \<or> (\<exists>d'. C_derived d' \<in> set new \<and> ibr_call_guards k p d')) \<and>
    (\<forall>d'. C_derived d' \<in> set new \<longrightarrow> \<not> ibr_drains d')"
proof -
  have "ibr_reader k p s'"
    using ibr_derived_progress [OF assms(1), of d] assms(2,4) by (auto simp: ibr_reader_cong)
  with assms ibr_work_loop_guards [of t s new s' k p] ibr_scan_guards [of k p s] ibr_end_guards [of k p s]
    ibr_eject_pass_guards [of t _ _ _ s new s' k p]
  show ?thesis by (cases d) (auto simp del: ibr_call_guards.simps(1,2,3))
qed

lemma ir_held_token: "x \<in> set xs \<Longrightarrow> ir_held p k x \<Longrightarrow> (T_strong, p) \<in># entries_tokens (map ir_entry xs)"
  by (force simp: entries_tokens_def entry_token_def ir_entry_def ir_held_def)

lemma stamped_birth:
  "counted_object.more ob' = counted_object.more ob \<Longrightarrow> birthTS ob' = birthTS ob"
  for ob ob' :: "('v, 'x) stamped_counted_object_scheme"
  by (cases ob; cases ob') simp

lemma stamps_le_birth:
  assumes "stamps_le s' s" "\<forall>ob. fmlookup (heap s) p = Some ob \<longrightarrow> birthTS ob \<le> f" "fmlookup (heap s') p = Some ob'"
  shows "birthTS ob' \<le> f"
proof -
  from assms(1,3) obtain ob where "fmlookup (heap s) p = Some ob" "counted_object.more ob' = counted_object.more ob"
    by (auto simp: stamps_le_def)
  with assms(2) stamped_birth [of ob' ob] show ?thesis by simp
qed

lemma ibr_call_guards_token: "ibr_call_guards k p d \<Longrightarrow> (T_strong, p) \<in># ibr_call_tokens d"
  by (cases d) (auto dest: ir_held_token)

lemma ibr_list_guards_token:
  assumes "ibr_list_guards k p s"
  shows "(T_strong, p) \<in># ibr_tokens s"
proof -
  from assms obtain t where "t < ibr_threads s" "(T_strong, p) \<in># entries_tokens (map ir_entry (ibr_deferred s t))"
    by (auto simp: ibr_list_guards_def dest: ir_held_token)
  then show ?thesis unfolding ibr_tokens_def in_sum_tokens [symmetric] by blast
qed

interpretation ibr: protecting_scheme ibr_retire ibr_derived ibr_call_tokens ibr_call_weight ibr_call_length
  ibr_tokens ibr_weight ibr_length "\<lambda>t s. t < ibr_threads s"
  ibr_call_guards ibr_list_guards ibr_reader ibr_drains
proof
  fix s s' :: "(('v, 'x) stamped_counted_object_scheme, 'e) acquire_retire_ibr_scheme" and k p t q type new
  show "ibr_tokens s' = ibr_tokens s \<and> ibr_weight s' = ibr_weight s \<and> ibr_length s' = ibr_length s \<and>
      (t < ibr_threads s') = (t < ibr_threads s)" if "mm.more s' = mm.more s"
    using ibr_more_fields [OF that] by (simp add: ibr_tokens_def ibr_weight_def ibr_length_def)
  show "\<exists>new s'. ibr_retire t p type s = Inr (new, s') \<and>
      scheme_progress ibr_call_tokens ibr_call_weight ibr_call_length ibr_tokens ibr_weight ibr_length
        (C_retire p type) s new s' \<and> (\<forall>u. u < ibr_threads s \<longrightarrow> u < ibr_threads s')" if "t < ibr_threads s" "fmlookup (heap s) p = Some ob" for ob
    using ibr_retire_progress [OF that(1), of p type] that by (simp add: ibr_progress_def ibr_retire_def with_object_def)
  show "(ibr_list_guards k p s \<longrightarrow> ibr_list_guards k p s') \<and> (ibr_reader k p s \<longrightarrow> ibr_reader k p s')"
    if "mm.more s' = mm.more s" "stamps_le s' s"
    using ibr_more_fields [OF that(1)] stamps_le_birth [OF that(2)]
    by (auto simp: ibr_list_guards_def ibr_reader_def)
  show "ibr_reader k p s' \<and>
      (ibr_list_guards k p s \<or> q = p \<and> type = RT_decrement_strong_count \<longrightarrow>
       ibr_list_guards k p s' \<or> (\<exists>d. C_derived d \<in> set new \<and> ibr_call_guards k p d)) \<and>
      (\<forall>d. C_derived d \<in> set new \<longrightarrow> \<not> ibr_drains d)"
    if "t < ibr_threads s" "ibr_reader k p s" "ibr_retire t q type s = Inr (new, s')"
    using ibr_retire_guards [OF that(3,1,2)] ibr_reader_cong [OF ibr_retire_progress [OF that(1,3)]] that(2) by auto
next
  fix s :: "(('v, 'x) stamped_counted_object_scheme, 'e) acquire_retire_ibr_scheme" and t d
  assume "t < ibr_threads s"
  with ibr_derived_progress [OF this, of d]
  show "\<exists>new s'. ibr_derived t d s = Inr (new, s') \<and>
      scheme_progress ibr_call_tokens ibr_call_weight ibr_call_length ibr_tokens ibr_weight ibr_length
        (C_derived d) s new s' \<and> (\<forall>u. u < ibr_threads s \<longrightarrow> u < ibr_threads s')"
    by (auto simp: ibr_progress_def)
qed (rule ibr_derived_guards ibr_call_guards_token ibr_list_guards_token; assumption)+

section \<open>Taking snapshots\<close>

lemma use_count_alive:
  fixes s :: "(('v, 'x) counted_object_scheme, 'e) mm_scheme"
  assumes "mm_ok R s" and "p \<in> fset (fmdom (heap s))"
  shows "with_object p s (\<lambda>ob. let (n, ob') = get_use_count ob in Inr (if n = 0 then nullptr else p, put_object p ob' s)) =
    Inr (if (T_strong, p) \<in># R + heap_tokens s then p else nullptr, s)"
proof -
  from assms(2) obtain ob where ob: "fmlookup (heap s) p = Some ob" by (auto simp: fmlookup_dom_iff)
  let ?n = "token_count (R + heap_tokens s) p T_strong"
  from mm_ok_lookup [OF assms(1) ob] have rep: "strong_rep ob ?n" by (simp add: object_ok_def)
  have "?n = 0 \<longleftrightarrow> (T_strong, p) \<notin># R + heap_tokens s" by (simp add: token_count_def not_in_iff)
  with ob show ?thesis
    by (simp only: with_object_def ob option.case get_use_count_rep [OF rep] Let_def prod.case count_zero_iff(1) [OF rep] put_object_same [OF ob])
       simp
qed

lemma ibr_protect_loop_find:
  fixes s :: "(('v, 'x) stamped_counted_object_scheme, 'e) acquire_retire_ibr_scheme"
  assumes "mm_ok R s" and "endTS_ann s t = p_epoch" and "\<forall>(p, e)\<in>set script. p = nullptr \<or> p \<in> fset (fmdom (heap s))"
  shows "ibr_protect_loop t p_epoch script s =
    map_option (\<lambda>((p, e), announced). Inr (if (T_strong, p) \<in># R + heap_tokens s then p else nullptr,
        s\<lparr>endTS_ann := (endTS_ann s)(t := e)\<rparr>))
      (find (\<lambda>((p, e), announced). e = announced) (zip script (p_epoch # map snd script)))"
  using assms
proof (induction t p_epoch script s rule: ibr_protect_loop.induct)
  case (2 t p_epoch result curTS script s)
  show ?case
  proof (cases "p_epoch = curTS")
    case True
    then have "s\<lparr>endTS_ann := (endTS_ann s)(t := curTS)\<rparr> = s" using 2(3) by (cases s) auto
    with True 2(4) use_count_alive [OF 2(2), of result] show ?thesis
      by (cases "result = nullptr") (simp_all del: fun_upd_apply)
  next
    case False
    let ?s = "s\<lparr>endTS_ann := (endTS_ann s)(t := curTS)\<rparr>"
    have "mm_ok R ?s" "heap_tokens ?s = heap_tokens s" using 2(2) by (simp_all add: mm_ok_cong [of ?s s] heap_tokens_def)
    with 2(1) [OF False] 2(4) False show ?thesis by (simp del: fun_upd_apply add: fun_upd_same)
  qed
qed simp

section \<open>Properties\<close>

text \<open>
  (C31) Every stack of calls of the interval-based scheme, started in a state whose reference counts agree with the references,
  runs to the end without an access to a deleted object (reading the birth stamp of a
  retired one included), a second destruction or a failed assertion, and afterwards the counts agree again.
\<close>

theorem ibr_calls_return:
  assumes "t < ibr_threads s" and "mm_ok (R + calls_tokens ibr_call_tokens cs + ibr_tokens s) s"
  shows "\<exists>s'. mm_run ibr_step t cs s = Some (Inr s') \<and> mm_ok (R + ibr_tokens s') s'"
  using ibr.machine.run_ok [of t s R cs] assms by (auto simp: ibr_step_def)

text \<open>A state with one object, two threads, and thread 0 in a critical section with an announced interval.\<close>

definition ibr_demo :: "unit stamped_counted_object acquire_retire_ibr" where
  "ibr_demo = (let s = ibr_create_object 0 16 \<lparr>payload = (), members = []\<rparr> (acquire_retire_ibr_init 2)
               in s\<lparr>iepochs := snd (begin_critical_section 0 (iepochs s))\<rparr>)"

lemma ibr_create_object_ok:
  assumes "mm_ok (members_tokens (members v) + R) s" and "p \<noteq> nullptr" "fmlookup (heap s) p = None"
  shows "mm_ok (add_mset (T_strong, p) R) (ibr_create_object t p v s)"
proof -
  define ts where "ts = get_current_epoch (iepochs (ibr_work_toward_advancing_epoch t (increment_allocations t s)))"
  have ts: "heap (ibr_create_object t p v s) = fmupd p (new_stamped_counted_object ts v) (heap s)"
    unfolding ibr_create_object_def ts_def
    by (simp add: put_object_def Let_def) (simp add: ibr_work_toward_advancing_epoch_def increment_allocations_def Let_def)
  have "fresh_object v (new_stamped_counted_object ts v)"
    by (simp add: fresh_object_def new_stamped_counted_object_def)
  from create_object_ok [OF assms(1) this assms(2,3), of t] show ?thesis
    by (subst mm_ok_cong [of _ "create_object t p (new_stamped_counted_object ts v) s"])
       (simp_all add: ts create_object_def put_object_def increment_allocations_def)
qed

lemma ibr_demo_ok: "mm_ok {#(T_strong, 16)#} ibr_demo"
  using ibr_create_object_ok [of "\<lparr>payload = (), members = []\<rparr>" "{#}" "acquire_retire_ibr_init 2" 16 0]
  by (subst mm_ok_cong [of _ "ibr_create_object 0 16 \<lparr>payload = (), members = []\<rparr> (acquire_retire_ibr_init 2)"])
     (simp_all add: ibr_demo_def Let_def members_tokens_def mm_ok_empty acquire_retire_ibr_init_def)

lemma ibr_demo_fields [simp]:
  "ibr_threads ibr_demo = 2" "ibr_tokens ibr_demo = {#}" "ibr_deferred ibr_demo t = []"
  "local_epoch (iepochs ibr_demo) 0 = 0" "global_epoch (iepochs ibr_demo) = 0" "endTS_ann ibr_demo 0 = 0"
  "fmlookup (heap ibr_demo) 16 = Some (new_stamped_counted_object 0 \<lparr>payload = (), members = []\<rparr>)"
  by (simp_all add: ibr_demo_def ibr_tokens_def Let_def acquire_retire_ibr_init_def ibr_create_object_def put_object_def
      ibr_work_toward_advancing_epoch_def increment_allocations_def begin_critical_section_def epoch_tracker_init_def
      ibr_epoch_frequency_def get_current_epoch_def INVALID_TS_def)

theorem ibr_calls_return_witness:
  "\<exists>s'. mm_run ibr_step 1 [C_decrement_ref_cnt 16] ibr_demo = Some (Inr s') \<and> mm_ok (ibr_tokens s') s'"
  using ibr_calls_return [of 1 ibr_demo "{#}" "[C_decrement_ref_cnt 16]"] ibr_demo_ok by simp

text \<open>
  (C29) An announced interval protects: while a thread announces the epochs from \<open>e\<close> to \<open>f\<close>, an object born
  by \<open>f\<close> that an atomic location holds, or whose reference was given up by a location since \<open>e\<close>, stays alive with a
  positive count through all calls of any thread.
\<close>

theorem ibr_interval_protects:
  assumes "t < ibr_threads s" and "mm_ok (R + calls_tokens ibr_call_tokens cs + ibr_tokens s) s"
    and "\<forall>d. C_derived d \<in> set cs \<longrightarrow> \<not> ibr_drains d"
    and "ibr_reader (u, e, f) p s" and "p \<noteq> nullptr" and "ibr_guarded (u, e, f) p cs s"
  shows "\<exists>s'. mm_run ibr_step t cs s = Some (Inr s') \<and> ibr_reader (u, e, f) p s' \<and> ibr_guarded (u, e, f) p [] s' \<and>
    (\<exists>ob n. fmlookup (heap s') p = Some ob \<and> storage ob \<noteq> None \<and> get_use_count ob = (n, ob) \<and> n \<noteq> 0)"
  using ibr.run_protects [of t s R cs "(u, e, f)" p] assms
  by (auto simp: ibr_guarded_def ibr_step_def)

theorem ibr_interval_protects_witness:
  "\<exists>s'. mm_run ibr_step 1 [C_delayed_decrement_ref_cnt 16] ibr_demo = Some (Inr s') \<and>
    ibr_reader (0, 0, 0) 16 s' \<and> ibr_guarded (0, 0, 0) 16 [] s' \<and>
    (\<exists>ob n. fmlookup (heap s') 16 = Some ob \<and> storage ob \<noteq> None \<and> get_use_count ob = (n, ob) \<and> n \<noteq> 0)"
  by (rule ibr_interval_protects [where R = "{#}"])
     (use ibr_demo_ok in \<open>simp_all add: ibr_guarded_def guarded_def ibr_reader_def no_epoch_def new_stamped_counted_object_def\<close>)

text \<open>
  (C33) The rounds of \<^verbatim>\<open>protect_snapshot\<close>, whatever pointers and epochs other threads write: the call returns at the first round whose epoch
  is the one that the thread had announced before that round read the location, and never earlier, so the pointer was
  read under the announcement. It returns the pointer of that round, or null if the object has no strong reference left. Only the end
  of the thread's interval changes; it is the epoch of that round. Without such a round the call is still running.
\<close>

theorem ibr_snapshot_announces_epoch:
  fixes s :: "(('v, 'x) stamped_counted_object_scheme, 'e) acquire_retire_ibr_scheme"
  assumes "mm_ok R s" and "\<forall>(p, e)\<in>set script. p = nullptr \<or> p \<in> fset (fmdom (heap s))"
  shows "ibr_protect_snapshot t script s =
    map_option (\<lambda>((p, e), announced). Inr (if (T_strong, p) \<in># R + heap_tokens s then p else nullptr,
        s\<lparr>endTS_ann := (endTS_ann s)(t := e)\<rparr>))
      (find (\<lambda>((p, e), announced). e = announced) (zip script (endTS_ann s t # map snd script)))"
  unfolding ibr_protect_snapshot_def by (rule ibr_protect_loop_find [OF assms(1) refl assms(2)])

theorem ibr_snapshot_announces_epoch_witness:
  "ibr_protect_snapshot 1 [(16, 6), (nullptr, 7), (16, 7)] ibr_demo =
     Some (Inr (16, ibr_demo\<lparr>endTS_ann := (endTS_ann ibr_demo)(1 := 7)\<rparr>))"
proof -
  have "endTS_ann ibr_demo 1 = 0"
    by (simp add: ibr_demo_def Let_def acquire_retire_ibr_init_def ibr_create_object_def put_object_def
      ibr_work_toward_advancing_epoch_def increment_allocations_def INVALID_TS_def ibr_epoch_frequency_def)
  with ibr_snapshot_announces_epoch [OF ibr_demo_ok, of "[(16, 6), (nullptr, 7), (16, 7)]" 1] show ?thesis
    by (simp add: fmlookup_dom_iff)
qed

end
