(* ===== verification/Backends.thy ===== *)
theory Backends
  imports Smart_Backend Acquire_Retire Acquire_Retire_EBR Acquire_Retire_IBR
begin

text \<open>
  The backends of \<^verbatim>\<open>include/cdrc/internal/fwd_decl.h\<close>: hazard pointers, epochs and intervals as memory managers of the smart
  pointers, each an interpretation of \<open>smart_backend\<close>. In the state of a backend with at least \<open>n\<close> threads, the
  threads below \<open>n\<close> are those that run.
\<close>

declare split_paired_Ex [simp del] split_paired_All [simp del]

section \<open>Any number of threads\<close>

lemma reclamation_threads:
  fixes retire :: "((('v, 'x) counted_object_scheme, 'e) mm_scheme, 'c) retire_fn"
  assumes "reclamation_scheme retire derived ctoks cweight clen etoks eweight elen (\<lambda>t s. t < thr s)"
  shows "reclamation_scheme retire derived ctoks cweight clen etoks eweight elen (\<lambda>t s. t < n \<and> n \<le> thr s)"
proof -
  note laws = assms [unfolded reclamation_scheme_def]
  have thr: "(\<forall>u. u < a \<longrightarrow> u < b) \<Longrightarrow> n \<le> a \<Longrightarrow> n \<le> b" for a b n :: nat
    by (cases n) (auto simp: Suc_le_eq)
  show ?thesis
    unfolding reclamation_scheme_def
  proof (intro conjI allI impI; (elim conjE)?)
    fix s' s :: "(('v, 'x) counted_object_scheme, 'e) mm_scheme" and t
    assume "mm.more s' = mm.more s"
    with laws have "etoks s' = etoks s \<and> eweight s' = eweight s \<and> elen s' = elen s \<and> (\<forall>t. t < thr s' \<longleftrightarrow> t < thr s)"
      by blast
    then show "etoks s' = etoks s" "eweight s' = eweight s" "elen s' = elen s"
      "(t < n \<and> n \<le> thr s') = (t < n \<and> n \<le> thr s)" by (auto intro: thr)
  next
    fix t s p ob type
    assume "t < n" "n \<le> thr s" "fmlookup (heap s) p = Some ob"
    then have "t < thr s" by simp
    with laws \<open>fmlookup _ _ = _\<close> show "\<exists>new s'. retire t p type s = Inr (new, s') \<and>
        scheme_progress ctoks cweight clen etoks eweight elen (C_retire p type) s new s' \<and>
        (\<forall>u. u < n \<and> n \<le> thr s \<longrightarrow> u < n \<and> n \<le> thr s')" by (meson thr)
  next
    fix t s d
    assume "t < n" "n \<le> thr s"
    then have "t < thr s" by simp
    with laws show "\<exists>new s'. derived t d s = Inr (new, s') \<and>
        scheme_progress ctoks cweight clen etoks eweight elen (C_derived d) s new s' \<and>
        (\<forall>u. u < n \<and> n \<le> thr s \<longrightarrow> u < n \<and> n \<le> thr s')" by (meson thr)
  qed
qed

section \<open>Hazard pointers\<close>

text \<open>The states of the scheme: every thread has its array of announcement slots.\<close>

definition hp_ready :: "nat \<Rightarrow> ('o, 'e) acquire_retire_scheme \<Rightarrow> bool" where
  "hp_ready n s \<longleftrightarrow> n \<le> threads s \<and> (\<forall>t. length (snapshot_announcements s t) = snapshot_slots)"

lemma hp_ready_frame:
  "threads s' = threads s \<Longrightarrow> snapshot_announcements s' = snapshot_announcements s \<Longrightarrow> hp_ready n s' = hp_ready n s"
  by (simp add: hp_ready_def)

lemma hp_ready_scheme:
  "reclamation_scheme retire (hp_derived :: ((('v, 'x) counted_object_scheme, 'e) acquire_retire_scheme, hp_call) derived_fn)
     hp_call_tokens hp_call_weight hp_call_length deferred_tokens deferred_weight deferred_length (\<lambda>t s. t < n \<and> hp_ready n s)"
proof
  fix s s' :: "(('v, 'x) counted_object_scheme, 'e) acquire_retire_scheme" and t p type d
  show "deferred_tokens s' = deferred_tokens s \<and> deferred_weight s' = deferred_weight s \<and>
      deferred_length s' = deferred_length s \<and> (t < n \<and> hp_ready n s') = (t < n \<and> hp_ready n s)" if "mm.more s' = mm.more s"
    using more_fields [OF that] by (simp add: deferred_tokens_def deferred_weight_def deferred_length_def hp_ready_def)
  assume "t < n \<and> hp_ready n s"
  then have t: "t < threads s" by (simp add: hp_ready_def)
  show "\<exists>new s'. retire t p type s = Inr (new, s') \<and>
      scheme_progress hp_call_tokens hp_call_weight hp_call_length deferred_tokens deferred_weight deferred_length
      (C_retire p type) s new s' \<and> (\<forall>u. u < n \<and> hp_ready n s \<longrightarrow> u < n \<and> hp_ready n s')"
    using retire_progress [OF t, of p type] by (simp add: hp_progress_def retire_def hp_ready_def)
  show "\<exists>new s'. hp_derived t d s = Inr (new, s') \<and>
      scheme_progress hp_call_tokens hp_call_weight hp_call_length deferred_tokens deferred_weight deferred_length
        (C_derived d) s new s' \<and> (\<forall>u. u < n \<and> hp_ready n s \<longrightarrow> u < n \<and> hp_ready n s')"
    using hp_derived_progress [OF t, of d] hp_ready_frame [of _ s n] by (fastforce simp: hp_progress_def)
qed

definition hp_backend :: "(hp_call, acquired_pointer, 'v, ('v counted_object, 'e) acquire_retire_scheme) memory_manager" where
  "hp_backend =
     \<lparr>mg_step = mm_step retire hp_derived, mg_create_object = (\<lambda>t p v s. create_object t p (new_counted_object v) s),
      mg_acquire = (\<lambda>t p s. map_option Inr (acquire t [(p, p)] s)),
      mg_reserve = reserve, mg_reserve_nothing = reserve_nothing,
      mg_protect_snapshot = (\<lambda>t p s. protect_snapshot t [(p, p)] [([(p, p)], p)] s),
      mg_get = ap_value, mg_is_protected = ap_is_protected, mg_clear = ap_clear, mg_destruct = clear_protection\<rparr>"

lemma slot_store_quiet:
  "quiet deferred_tokens (\<lambda>t s. t < n \<and> hp_ready n s) s (slot_store sl p s)"
  by (cases sl) (simp_all add: quiet_def deferred_tokens_def hp_ready_def)

lemma clear_protection_quiet:
  "quiet deferred_tokens (\<lambda>t s. t < n \<and> hp_ready n s) s (clear_protection a s)"
  using slot_store_quiet [of n s _ nullptr] by (auto simp: clear_protection_def quiet_def split: option.splits)

lemma hp_protect:
  fixes s :: "('v counted_object, 'e) acquire_retire_scheme"
  assumes ok: "t < n \<and> hp_ready n s" "mm_ok (R + deferred_tokens s) s"
    and p: "p \<noteq> nullptr \<Longrightarrow> (k, p) \<in># R + deferred_tokens s + heap_tokens s \<and> k \<in> {T_strong, T_weak} \<and> strong_room p s"
  shows "\<exists>a s'. protect_snapshot t [(p, p)] [([(p, p)], p)] s = ret (a, s') \<and> (t < n \<and> hp_ready n s') \<and>
    mm_ok (snapshot_tokens hp_backend a + R + deferred_tokens s') s' \<and>
    deferred_tokens s' = deferred_tokens s \<and> heap_tokens s' = heap_tokens s \<and>
    (ap_value a = p \<or> k = T_weak \<and> ap_value a = nullptr)"
proof (cases "get_free_slot t s")
  case (Some sl)
  note q = slot_store_quiet [of n s sl p]
  have "protect_snapshot t [(p, p)] [([(p, p)], p)] s =
      ret (\<lparr>ap_value = p, ap_slot = if p = nullptr then None else Some sl\<rparr>, slot_store sl p s)"
    using Some by (simp add: protect_snapshot_def ret_def)
  moreover have "mm_ok (R + deferred_tokens (slot_store sl p s)) (slot_store sl p s)"
    using ok q mm_ok_cong [of "slot_store sl p s" s] by (simp add: quiet_def)
  ultimately show ?thesis using ok q quiet_heap_tokens [OF q]
    by (auto simp: snapshot_tokens_def hp_backend_def ap_is_protected_def quiet_def intro!: exI)
next
  case None
  let ?a = "\<lparr>ap_value = p, ap_slot = Some (Announcement t)\<rparr>" and ?s1 = "slot_store (Announcement t) p s"
  note q1 = slot_store_quiet [of n s "Announcement t" p]
  have mm1: "mm_ok (R + deferred_tokens s) ?s1"
    using ok(2) mm_ok_cong [of ?s1 s] q1 unfolding quiet_def by blast
  have keep: "(t < n \<and> hp_ready n s') \<and> deferred_tokens s' = deferred_tokens s \<and> heap_tokens s' = heap_tokens s \<and>
      mm_ok (X + deferred_tokens s') s'" if "s' = clear_protection ?a s2" "mm_ok (X + deferred_tokens s) s2"
      "heap_tokens s2 = heap_tokens s" "mm.more s2 = mm.more ?s1" for s' s2 :: "('v counted_object, 'e) acquire_retire_scheme" and X
  proof -
    note q2 = clear_protection_quiet [of n s2 ?a]
    have "hp_ready n s2 = hp_ready n s \<and> deferred_tokens s2 = deferred_tokens s"
      using more_fields [OF that(4)] by (simp add: deferred_tokens_def hp_ready_def)
    with that ok(1) q2 quiet_heap_tokens [OF q2] mm_ok_cong [of s' s2] show ?thesis
      unfolding that(1) by (auto simp: quiet_def clear_protection_def)
  qed
  show ?thesis
  proof (cases "p = nullptr")
    case True
    then have "protect_snapshot t [(p, p)] [([(p, p)], p)] s = ret (\<lparr>ap_value = nullptr, ap_slot = None\<rparr>, clear_protection ?a ?s1)"
      using None by (simp add: protect_snapshot_def ret_def)
    with keep [OF refl mm1] True quiet_heap_tokens [OF q1] show ?thesis
      by (auto simp: snapshot_tokens_def hp_backend_def intro!: exI)
  next
    case False
    have tok: "(k, p) \<in># R + deferred_tokens s + heap_tokens ?s1" "strong_room p ?s1"
      using p [OF False] quiet_heap_tokens [OF q1] quiet_room(1) [OF q1] by simp_all
    from token_object [OF mm1 tok(1)] obtain ob where ob: "fmlookup (heap ?s1) p = Some ob" by blast
    define alive where "alive = (0 < token_count (R + deferred_tokens s + heap_tokens ?s1) p T_strong)"
    have dead: "k = T_weak" if "\<not> alive"
      using that tok(1) p [OF False] by (auto simp: alive_def token_count_def)
    from increment_ref_cnt_ok [OF mm1 ob tok(2) alive_def] obtain s2 where
      s2: "increment_ref_cnt p ?s1 = Inr (alive, s2)" "heap_tokens s2 = heap_tokens s" "mm.more s2 = mm.more ?s1"
        "mm_ok (if alive then add_mset (T_strong, p) (R + deferred_tokens s) else R + deferred_tokens s) s2"
      using quiet_heap_tokens [OF q1] by auto
    have run: "protect_snapshot t [(p, p)] [([(p, p)], p)] s =
        ret (\<lparr>ap_value = if alive then p else nullptr, ap_slot = None\<rparr>, clear_protection ?a s2)"
      using None False s2(1) by (simp add: protect_snapshot_def ret_def)
    have "mm_ok ((if alive then {#(T_strong, p)#} else {#}) + R + deferred_tokens s) s2" using s2(4) by (cases alive) simp_all
    from keep [OF refl this s2(2,3)] run dead False show ?thesis
      by (cases alive) (auto simp: snapshot_tokens_def hp_backend_def ap_is_protected_def intro!: exI)
  qed
qed

interpretation hp_smart: smart_backend retire hp_derived hp_call_tokens hp_call_weight hp_call_length
  deferred_tokens deferred_weight deferred_length "\<lambda>t s. t < n \<and> hp_ready n s" hp_backend for n
proof (intro smart_backend.intro smart_backend_axioms.intro)
  show "reclamation_scheme retire hp_derived hp_call_tokens hp_call_weight hp_call_length
      deferred_tokens deferred_weight deferred_length (\<lambda>t s. t < n \<and> hp_ready n s)"
    by (rule hp_ready_scheme)
next
  fix t p k R and s :: "('v counted_object, 'e) acquire_retire_scheme"
  show "quiet deferred_tokens (\<lambda>t s. t < n \<and> hp_ready n s) s (snd (mg_reserve hp_backend t p s))"
    using slot_store_quiet [of n s "Announcement t" p] by (simp add: hp_backend_def reserve_def)
  show "\<exists>a s'. mg_acquire hp_backend t p s = ret (a, s') \<and> quiet deferred_tokens (\<lambda>t s. t < n \<and> hp_ready n s) s s' \<and>
        (mg_get hp_backend a = p \<or> k = T_weak \<and> mg_get hp_backend a = nullptr)"
    using slot_store_quiet [of n s "Announcement t" p] by (simp add: hp_backend_def ret_def)
  show "\<exists>a s'. mg_protect_snapshot hp_backend t p s = ret (a, s') \<and> (t < n \<and> hp_ready n s') \<and>
      mm_ok (snapshot_tokens hp_backend a + R + deferred_tokens s') s' \<and>
      deferred_tokens s' = deferred_tokens s \<and> heap_tokens s' = heap_tokens s \<and>
      (mg_get hp_backend a = p \<or> k = T_weak \<and> mg_get hp_backend a = nullptr)"
    if "t < n \<and> hp_ready n s" "mm_ok (R + deferred_tokens s) s"
      "p \<noteq> nullptr \<Longrightarrow> (k, p) \<in># R + deferred_tokens s + heap_tokens s \<and> k \<in> {T_strong, T_weak} \<and> strong_room p s"
    using hp_protect [OF that] by (simp add: hp_backend_def)
  fix v :: "'v managed"
  show "(t < n \<and> hp_ready n (mg_create_object hp_backend t p v s)) \<and>
      mm_ok (add_mset (T_strong, p) (R + deferred_tokens (mg_create_object hp_backend t p v s))) (mg_create_object hp_backend t p v s)"
    if "t < n \<and> hp_ready n s" "mm_ok (members_tokens (members v) + R + deferred_tokens s) s" "p \<noteq> nullptr" "fmlookup (heap s) p = None"
    using create_object_ok [of v "R + deferred_tokens s" s "new_counted_object v" p t] that fresh_new_counted_object [of v]
    by (simp add: hp_backend_def create_object_def put_object_def increment_allocations_def deferred_tokens_def hp_ready_def add.assoc)
next
  fix a and s :: "('v counted_object, 'e) acquire_retire_scheme"
  show "quiet deferred_tokens (\<lambda>t s. t < n \<and> hp_ready n s) s (mg_destruct hp_backend a s)"
    "quiet deferred_tokens (\<lambda>t s. t < n \<and> hp_ready n s) s (snd (mg_clear hp_backend a s))"
    using clear_protection_quiet [of n s a] by (simp_all add: hp_backend_def ap_clear_def)
  show "mg_get hp_backend (fst (mg_clear hp_backend a s)) = nullptr"
    by (simp add: hp_backend_def ap_clear_def acquired_nothing_def)
qed (simp_all add: hp_backend_def reserve_nothing_def acquired_nothing_def)

section \<open>Basic acquired pointers\<close>

text \<open>\<^verbatim>\<open>basic_acquired_pointer\<close> of \<^verbatim>\<open>memory_manager_base.h\<close>: just the value, protected by the critical section
  that the reader is in.\<close>

type_synonym basic_acquired_pointer = ptr

definition bap_get :: "basic_acquired_pointer \<Rightarrow> ptr" where
  "bap_get a = a"

definition bap_is_protected :: "basic_acquired_pointer \<Rightarrow> bool" where
  "bap_is_protected a = True"

definition bap_clear :: "basic_acquired_pointer \<Rightarrow> 's \<Rightarrow> basic_acquired_pointer \<times> 's" where
  "bap_clear a s = (nullptr, s)"

definition bap_destruct :: "basic_acquired_pointer \<Rightarrow> 's \<Rightarrow> 's" where
  "bap_destruct a s = s"

definition bap_move :: "basic_acquired_pointer \<Rightarrow> basic_acquired_pointer \<times> basic_acquired_pointer" where
  "bap_move other = (other, nullptr)"

definition bap_swap :: "basic_acquired_pointer \<Rightarrow> basic_acquired_pointer \<Rightarrow> basic_acquired_pointer \<times> basic_acquired_pointer" where
  "bap_swap a b = (b, a)"

lemmas bap_defs = bap_get_def bap_is_protected_def bap_clear_def bap_destruct_def

section \<open>Epochs\<close>

definition ebr_backend :: "(ebr_call, basic_acquired_pointer, 'v, ('v counted_object, 'e) acquire_retire_ebr_scheme) memory_manager" where
  "ebr_backend =
     \<lparr>mg_step = mm_step ebr_retire ebr_derived, mg_create_object = ebr_create_object,
      mg_acquire = (\<lambda>t p s. ret (ebr_acquire p, s)), mg_reserve = (\<lambda>t p s. (ebr_reserve p, s)), mg_reserve_nothing = nullptr,
      mg_protect_snapshot = (\<lambda>t p s. Some (ebr_protect_snapshot p s)),
      mg_get = bap_get, mg_is_protected = bap_is_protected, mg_clear = bap_clear, mg_destruct = bap_destruct\<rparr>"

text \<open>The check of the use count that \<^verbatim>\<open>protect_snapshot\<close> makes.\<close>

lemma use_count_check:
  assumes "mm_ok R s" and "(k, p) \<in># R + heap_tokens s" and "k \<in> {T_strong, T_weak}"
  shows "\<exists>q. with_object p s (\<lambda>ob. let (n, ob') = get_use_count ob in Inr (if n = 0 then nullptr else p, put_object p ob' s)) = Inr (q, s) \<and>
    (q = p \<or> k = T_weak \<and> q = nullptr)"
proof -
  from mm_invD [OF assms(1) [unfolded mm_ok_def], of p k] assms(2) have "p \<in> fset (fmdom (heap s))"
    by (auto simp: token_count_def fmlookup_dom_iff)
  from use_count_alive [OF assms(1) this] assms(2,3) show ?thesis by auto
qed

lemma ebr_protect:
  fixes s :: "('v counted_object, 'e) acquire_retire_ebr_scheme"
  assumes "mm_ok (R + ebr_tokens s) s" and "p \<noteq> nullptr \<Longrightarrow> (k, p) \<in># R + ebr_tokens s + heap_tokens s \<and> k \<in> {T_strong, T_weak}"
  shows "\<exists>q. ebr_protect_snapshot p s = Inr (q, s) \<and> (q = p \<or> k = T_weak \<and> q = nullptr)"
  using use_count_check [OF assms(1), of k p] assms(2) by (auto simp: ebr_protect_snapshot_def)

lemma ebr_tokens_fields:
  "ebr_threads s' = ebr_threads s \<Longrightarrow> ebr_deferred s' = ebr_deferred s \<Longrightarrow> ebr_tokens s' = ebr_tokens s"
  by (simp add: ebr_tokens_def)

interpretation ebr_smart: smart_backend ebr_retire ebr_derived ebr_call_tokens ebr_call_weight ebr_call_length
  ebr_tokens ebr_weight ebr_length "\<lambda>t s. t < n \<and> n \<le> ebr_threads s" ebr_backend for n
proof (intro smart_backend.intro smart_backend_axioms.intro)
  show "reclamation_scheme ebr_retire ebr_derived ebr_call_tokens ebr_call_weight ebr_call_length
      ebr_tokens ebr_weight ebr_length (\<lambda>t s. t < n \<and> n \<le> ebr_threads s)"
    by (rule reclamation_threads [OF ebr.reclamation_scheme_axioms])
next
  fix t p k R and s :: "('v counted_object, 'e) acquire_retire_ebr_scheme"
  show "\<exists>a s'. mg_protect_snapshot ebr_backend t p s = ret (a, s') \<and> (t < n \<and> n \<le> ebr_threads s') \<and>
      mm_ok (snapshot_tokens ebr_backend a + R + ebr_tokens s') s' \<and>
      ebr_tokens s' = ebr_tokens s \<and> heap_tokens s' = heap_tokens s \<and>
      (mg_get ebr_backend a = p \<or> k = T_weak \<and> mg_get ebr_backend a = nullptr)"
    if "t < n \<and> n \<le> ebr_threads s" "mm_ok (R + ebr_tokens s) s"
      "p \<noteq> nullptr \<Longrightarrow> (k, p) \<in># R + ebr_tokens s + heap_tokens s \<and> k \<in> {T_strong, T_weak} \<and> strong_room p s"
    using ebr_protect [of R s p k] that by (auto simp: ebr_backend_def ret_def snapshot_tokens_def bap_defs)
  fix v :: "'v managed"
  let ?s' = "mg_create_object ebr_backend t p v s"
  show "(t < n \<and> n \<le> ebr_threads ?s') \<and> mm_ok (add_mset (T_strong, p) (R + ebr_tokens ?s')) ?s'"
    if "t < n \<and> n \<le> ebr_threads s" "mm_ok (members_tokens (members v) + R + ebr_tokens s) s" "p \<noteq> nullptr" "fmlookup (heap s) p = None"
    using ebr_create_object_ok [of v "R + ebr_tokens s" s p t] that ebr_create_object_fields [of t p v s] ebr_tokens_fields [of ?s' s]
    by (simp add: ebr_backend_def add.assoc)
qed (auto simp: ebr_backend_def bap_defs quiet_def ebr_acquire_def)

section \<open>Intervals\<close>

text \<open>Nobody advances the epoch during the call: the second round at the latest finds it announced.\<close>

definition ibr_reads :: "ptr \<Rightarrow> ('o, 'e) acquire_retire_ibr_scheme \<Rightarrow> (ptr \<times> u64) list" where
  "ibr_reads p s = replicate 2 (p, get_current_epoch (iepochs s))"

definition ibr_backend :: "(ibr_call, basic_acquired_pointer, 'v, ('v stamped_counted_object, 'e) acquire_retire_ibr_scheme) memory_manager" where
  "ibr_backend =
     \<lparr>mg_step = mm_step ibr_retire ibr_derived, mg_create_object = ibr_create_object,
      mg_acquire = (\<lambda>t p s. ibr_acquire t (ibr_reads p s) s), mg_reserve = ibr_reserve, mg_reserve_nothing = nullptr,
      mg_protect_snapshot = (\<lambda>t p s. ibr_protect_snapshot t (ibr_reads p s) s),
      mg_get = bap_get, mg_is_protected = bap_is_protected, mg_clear = bap_clear, mg_destruct = bap_destruct\<rparr>"

lemma ibr_protect:
  fixes s :: "('v stamped_counted_object, 'e) acquire_retire_ibr_scheme"
  assumes "mm_ok (R + ibr_tokens s) s" and "p \<noteq> nullptr \<Longrightarrow> (k, p) \<in># R + ibr_tokens s + heap_tokens s \<and> k \<in> {T_strong, T_weak}"
  shows "\<exists>q s'. ibr_protect_snapshot t (ibr_reads p s) s = ret (q, s') \<and>
    quiet ibr_tokens (\<lambda>t s. t < n \<and> n \<le> ibr_threads s) s s' \<and> (q = p \<or> k = T_weak \<and> q = nullptr)"
proof -
  let ?e = "get_current_epoch (iepochs s)"
  define s1 where "s1 = (if endTS_ann s t = ?e then s else s\<lparr>endTS_ann := (endTS_ann s)(t := ?e)\<rparr>)"
  have q: "quiet ibr_tokens (\<lambda>t s. t < n \<and> n \<le> ibr_threads s) s s1"
    by (simp add: s1_def quiet_def ibr_tokens_def)
  then have mm1: "mm_ok (R + ibr_tokens s) s1" using assms(1) mm_ok_cong [of s1 s] by (simp add: quiet_def)
  have "\<exists>q. (if p = nullptr then Inr (nullptr, s1) else with_object p s1 (\<lambda>ob. let (n, ob') = get_use_count ob
      in Inr (if n = 0 then nullptr else p, put_object p ob' s1))) = Inr (q, s1) \<and> (q = p \<or> k = T_weak \<and> q = nullptr)"
    using use_count_check [OF mm1, of k p] assms(2) quiet_heap_tokens [OF q] by auto
  with q show ?thesis
    by (auto simp: ibr_protect_snapshot_def ibr_reads_def numeral_2_eq_2 ret_def s1_def)
qed

lemma ibr_tokens_fields:
  "ibr_threads s' = ibr_threads s \<Longrightarrow> ibr_deferred s' = ibr_deferred s \<Longrightarrow> ibr_tokens s' = ibr_tokens s"
  by (simp add: ibr_tokens_def)

lemma ibr_create_object_fields:
  "ibr_threads (ibr_create_object t p v s) = ibr_threads s" "ibr_deferred (ibr_create_object t p v s) = ibr_deferred s"
  by (simp_all add: ibr_create_object_def Let_def ibr_work_toward_advancing_epoch_def put_object_def increment_allocations_def)

interpretation ibr_smart: smart_backend ibr_retire ibr_derived ibr_call_tokens ibr_call_weight ibr_call_length
  ibr_tokens ibr_weight ibr_length "\<lambda>t s. t < n \<and> n \<le> ibr_threads s" ibr_backend for n
proof (intro smart_backend.intro smart_backend_axioms.intro)
  show "reclamation_scheme ibr_retire ibr_derived ibr_call_tokens ibr_call_weight ibr_call_length
      ibr_tokens ibr_weight ibr_length (\<lambda>t s. t < n \<and> n \<le> ibr_threads s)"
    by (rule reclamation_threads [OF ibr.reclamation_scheme_axioms])
next
  fix t p k R and s :: "('v stamped_counted_object, 'e) acquire_retire_ibr_scheme"
  show "quiet ibr_tokens (\<lambda>t s. t < n \<and> n \<le> ibr_threads s) s (snd (mg_reserve ibr_backend t p s))"
    by (simp add: ibr_backend_def ibr_reserve_def Let_def quiet_def ibr_tokens_def)
  show "\<exists>a s'. mg_acquire ibr_backend t p s = ret (a, s') \<and> quiet ibr_tokens (\<lambda>t s. t < n \<and> n \<le> ibr_threads s) s s' \<and>
      (mg_get ibr_backend a = p \<or> k = T_weak \<and> mg_get ibr_backend a = nullptr)"
    if "mm_ok (R + ibr_tokens s) s" "p \<noteq> nullptr \<Longrightarrow> (k, p) \<in># R + ibr_tokens s + heap_tokens s \<and> k \<in> {T_strong, T_weak}"
    using ibr_protect [of R s p k t n] that by (simp add: ibr_backend_def ibr_acquire_def bap_defs)
  show "\<exists>a s'. mg_protect_snapshot ibr_backend t p s = ret (a, s') \<and> (t < n \<and> n \<le> ibr_threads s') \<and>
      mm_ok (snapshot_tokens ibr_backend a + R + ibr_tokens s') s' \<and>
      ibr_tokens s' = ibr_tokens s \<and> heap_tokens s' = heap_tokens s \<and>
      (mg_get ibr_backend a = p \<or> k = T_weak \<and> mg_get ibr_backend a = nullptr)"
    if ok: "t < n \<and> n \<le> ibr_threads s" "mm_ok (R + ibr_tokens s) s"
      "p \<noteq> nullptr \<Longrightarrow> (k, p) \<in># R + ibr_tokens s + heap_tokens s \<and> k \<in> {T_strong, T_weak} \<and> strong_room p s"
  proof -
    from ibr_protect [of R s p k t n] ok obtain q s' where
      q: "ibr_protect_snapshot t (ibr_reads p s) s = ret (q, s')" "quiet ibr_tokens (\<lambda>t s. t < n \<and> n \<le> ibr_threads s) s s'"
        "q = p \<or> k = T_weak \<and> q = nullptr" by auto
    with ok mm_ok_cong [of s' s] quiet_heap_tokens [OF q(2)] show ?thesis
      by (auto simp: ibr_backend_def snapshot_tokens_def bap_defs quiet_def)
  qed
  fix v :: "'v managed"
  let ?s' = "mg_create_object ibr_backend t p v s"
  show "(t < n \<and> n \<le> ibr_threads ?s') \<and> mm_ok (add_mset (T_strong, p) (R + ibr_tokens ?s')) ?s'"
    if "t < n \<and> n \<le> ibr_threads s" "mm_ok (members_tokens (members v) + R + ibr_tokens s) s" "p \<noteq> nullptr" "fmlookup (heap s) p = None"
    using ibr_create_object_ok [of v "R + ibr_tokens s" s p t] that ibr_create_object_fields [of t p v s] ibr_tokens_fields [of ?s' s]
    by (simp add: ibr_backend_def add.assoc)
qed (auto simp: ibr_backend_def bap_defs quiet_def)

end
