(* ===== verification/Clients.thy ===== *)
theory Clients
  imports Client Backends
begin

text \<open>
  Clients of the three backends: the interpretations of \<open>smart_client\<close> and the properties of whole programs over the smart
  pointers. The last section has two uses of the pointers that the accounts do not cover, and what they lead to.
\<close>

declare split_paired_Ex [simp del] split_paired_All [simp del]

interpretation hp_client: smart_client retire hp_derived hp_call_tokens hp_call_weight hp_call_length
  deferred_tokens deferred_weight deferred_length n "hp_ready n" hp_backend for n ..

interpretation ebr_client: smart_client ebr_retire ebr_derived ebr_call_tokens ebr_call_weight ebr_call_length
  ebr_tokens ebr_weight ebr_length n "\<lambda>s. n \<le> ebr_threads s" ebr_backend for n ..

interpretation ibr_client: smart_client ibr_retire ibr_derived ibr_call_tokens ibr_call_weight ibr_call_length
  ibr_tokens ibr_weight ibr_length n "\<lambda>s. n \<le> ibr_threads s" ibr_backend for n ..

section \<open>Fresh clients\<close>

text \<open>A client before its first operation: empty snapshots and empty variables, of whatever types.\<close>

definition fresh_client :: "('c, 'a, 'v, 's) memory_manager \<Rightarrow> nat \<Rightarrow> member list \<Rightarrow> 's \<Rightarrow> ('a, 's) client" where
  "fresh_client M k vs s0 = (replicate k (mg_reserve_nothing M), (vs, s0))"

definition all_null :: "member list \<Rightarrow> bool" where
  "all_null vs \<longleftrightarrow> list_all (\<lambda>m. member_ptr m = nullptr) vs"

lemma all_null_tokens: "all_null vs \<Longrightarrow> members_tokens vs = {#}"
proof (induction vs)
  case (Cons m vs)
  then show ?case by (cases m) (simp_all add: all_null_def)
qed simp

lemma fresh_client_ok:
  assumes "all_null vs" and "mg_get M (mg_reserve_nothing M) = nullptr" and "heap s0 = fmempty" and "etoks s0 = {#}" and "good s0"
  shows "client_ok M etoks good (fresh_client M k vs s0)"
proof -
  have "snapshots_tokens M (replicate k (mg_reserve_nothing M)) = {#}"
    using assms(2) by (induction k) (simp_all add: snapshots_tokens_def snapshot_tokens_def)
  with assms show ?thesis
    by (simp add: client_ok_def fresh_client_def prog_ok_def all_null_tokens mm_ok_empty)
qed

lemma fresh_states:
  "client_ok hp_backend deferred_tokens (hp_ready n) (fresh_client hp_backend k vs (acquire_retire_init n))"
  "client_ok ebr_backend ebr_tokens (\<lambda>s. n \<le> ebr_threads s) (fresh_client ebr_backend k vs (acquire_retire_ebr_init n))"
  "client_ok ibr_backend ibr_tokens (\<lambda>s. n \<le> ibr_threads s) (fresh_client ibr_backend k vs (acquire_retire_ibr_init n))"
  if "all_null vs"
  by (rule fresh_client_ok [OF that]; simp add: hp_backend_def reserve_nothing_def acquired_nothing_def acquire_retire_init_def hp_ready_def
      deferred_tokens_def ebr_backend_def bap_defs acquire_retire_ebr_init_def ebr_tokens_def
      ibr_backend_def acquire_retire_ibr_init_def ibr_tokens_def)+

section \<open>Programs over the smart pointers\<close>

text \<open>
  (C5) Reference counting is invisible, with the hazard-pointer backend: from empty variables, in any run in which the threads
  take turns with operations on \<^verbatim>\<open>rc_ptr\<close>, \<^verbatim>\<open>weak_ptr\<close>, \<^verbatim>\<open>atomic_rc_ptr\<close>, \<^verbatim>\<open>atomic_weak_ptr\<close> and \<^verbatim>\<open>snapshot_ptr\<close>, every
  well-typed operation returns, with no assertion failed and no access to freed storage, and does to the variables what plain pointers
  under a garbage collector would do.
\<close>

theorem hp_clients_refine_gc:
  assumes "all_null vs" and "client_run hp_backend n (fresh_client hp_backend k vs (acquire_retire_init n)) c"
    and "t < n" and "enabled op c"
  shows "\<exists>c'. exec hp_backend t op c = ret c' \<and> gc_step op (\<lambda>l. loc_ptr l (snd c)) (fst (snd c)) (fst (snd c'))"
proof -
  from hp_client.client_run_ok [OF assms(2) fresh_states(1) [OF assms(1)]]
  have "client_ok hp_backend deferred_tokens (hp_ready n) c" .
  from hp_client.exec_ok [OF this assms(3,4)] show ?thesis by blast
qed

theorem hp_clients_refine_gc_witness:
  "\<exists>c'. exec hp_backend 0 (Op_make 0 (1::ptr) (7::nat) [] []) (fresh_client hp_backend 1 [M_rc nullptr, M_arc nullptr] (acquire_retire_init 2)) = ret c' \<and>
     gc_step (Op_make 0 1 (7::nat) [] []) (\<lambda>l. loc_ptr l (snd (fresh_client hp_backend 1 [M_rc nullptr, M_arc nullptr] (acquire_retire_init 2 :: (nat counted_object, unit) acquire_retire_scheme))))
       [M_rc nullptr, M_arc nullptr] (fst (snd c'))"
  using hp_clients_refine_gc [of "[M_rc nullptr, M_arc nullptr]" 2 1 _ 0 "Op_make 0 1 (7::nat) [] []", OF _ client_run.start]
  by (simp add: all_null_def fresh_client_def acquire_retire_init_def typed_def)

text \<open>
  (C12) The same for the epoch-based backend.
\<close>

theorem ebr_clients_refine_gc:
  assumes "all_null vs" and "client_run ebr_backend n (fresh_client ebr_backend k vs (acquire_retire_ebr_init n)) c"
    and "t < n" and "enabled op c"
  shows "\<exists>c'. exec ebr_backend t op c = ret c' \<and> gc_step op (\<lambda>l. loc_ptr l (snd c)) (fst (snd c)) (fst (snd c'))"
proof -
  from ebr_client.client_run_ok [OF assms(2) fresh_states(2) [OF assms(1)]]
  have "client_ok ebr_backend ebr_tokens (\<lambda>s. n \<le> ebr_threads s) c" .
  from ebr_client.exec_ok [OF this assms(3,4)] show ?thesis by blast
qed

theorem ebr_clients_refine_gc_witness:
  "\<exists>c'. exec ebr_backend 0 (Op_make 0 (1::ptr) (7::nat) [] []) (fresh_client ebr_backend 1 [M_rc nullptr, M_arc nullptr] (acquire_retire_ebr_init 2)) = ret c' \<and>
     gc_step (Op_make 0 1 (7::nat) [] []) (\<lambda>l. loc_ptr l (snd (fresh_client ebr_backend 1 [M_rc nullptr, M_arc nullptr] (acquire_retire_ebr_init 2 :: (nat counted_object, unit) acquire_retire_ebr_scheme))))
       [M_rc nullptr, M_arc nullptr] (fst (snd c'))"
  using ebr_clients_refine_gc [of "[M_rc nullptr, M_arc nullptr]" 2 1 _ 0 "Op_make 0 1 (7::nat) [] []", OF _ client_run.start]
  by (simp add: all_null_def fresh_client_def acquire_retire_ebr_init_def typed_def)

text \<open>
  (C13) The same for the interval-based backend.
\<close>

theorem ibr_clients_refine_gc:
  assumes "all_null vs" and "client_run ibr_backend n (fresh_client ibr_backend k vs (acquire_retire_ibr_init n)) c"
    and "t < n" and "enabled op c"
  shows "\<exists>c'. exec ibr_backend t op c = ret c' \<and> gc_step op (\<lambda>l. loc_ptr l (snd c)) (fst (snd c)) (fst (snd c'))"
proof -
  from ibr_client.client_run_ok [OF assms(2) fresh_states(3) [OF assms(1)]]
  have "client_ok ibr_backend ibr_tokens (\<lambda>s. n \<le> ibr_threads s) c" .
  from ibr_client.exec_ok [OF this assms(3,4)] show ?thesis by blast
qed

theorem ibr_clients_refine_gc_witness:
  "\<exists>c'. exec ibr_backend 0 (Op_make 0 (1::ptr) (7::nat) [] []) (fresh_client ibr_backend 1 [M_rc nullptr, M_arc nullptr] (acquire_retire_ibr_init 2)) = ret c' \<and>
     gc_step (Op_make 0 1 (7::nat) [] []) (\<lambda>l. loc_ptr l (snd (fresh_client ibr_backend 1 [M_rc nullptr, M_arc nullptr] (acquire_retire_ibr_init 2 :: (nat stamped_counted_object, unit) acquire_retire_ibr_scheme))))
       [M_rc nullptr, M_arc nullptr] (fst (snd c'))"
  using ibr_clients_refine_gc [of "[M_rc nullptr, M_arc nullptr]" 2 1 _ 0 "Op_make 0 1 (7::nat) [] []", OF _ client_run.start]
  by (simp add: all_null_def fresh_client_def acquire_retire_ibr_init_def typed_def)

section \<open>Counts and storage\<close>

text \<open>
  (C14) In every reachable state of a client, storage is allocated for a pointer exactly if there is a reference to it: in a
  variable, in a member of an object that is itself allocated, in an unprotected snapshot or on a deferred list. So storage is freed when
  the last reference goes and never before. (Objects that refer to each other in a cycle stay allocated.)
\<close>

theorem hp_allocated_iff_referenced:
  assumes "all_null vs" and "client_run hp_backend n (fresh_client hp_backend k vs (acquire_retire_init n)) c"
  shows "fmlookup (heap (snd (snd c))) p \<noteq> None \<longleftrightarrow> (\<exists>kind. (kind, p) \<in># client_tokens hp_backend deferred_tokens c)"
  using hp_client.allocated_iff_owned [OF hp_client.client_run_ok [OF assms(2) fresh_states(1) [OF assms(1)]]] .

theorem hp_allocated_iff_referenced_witness:
  "\<exists>c. client_run hp_backend 1 (fresh_client hp_backend 1 [M_rc nullptr, M_rc nullptr, M_arc nullptr]
        (acquire_retire_init 1 :: nat counted_object acquire_retire)) c \<and>
     fst (snd c) = [M_rc nullptr, M_rc nullptr, M_arc nullptr] \<and>
     fmlookup (heap (snd (snd c))) 1 \<noteq> None \<and> (\<exists>kind. (kind, 1) \<in># client_tokens hp_backend deferred_tokens c) \<and>
     fmlookup (heap (snd (snd c))) 2 = None \<and> (\<nexists>kind. (kind, 2) \<in># client_tokens hp_backend deferred_tokens c)"
proof -
  let ?c0 = "fresh_client hp_backend 1 [M_rc nullptr, M_rc nullptr, M_arc nullptr] (acquire_retire_init 1 :: nat counted_object acquire_retire)"
  let ?run = "execs hp_backend 1 [(0, Op_make 0 1 5 [] []), (0, Op_make 1 2 7 [] []), (0, Op_store_move (Var 2) 0),
      (0, Op_store_null (Var 2)), (0, Op_clear 1)] ?c0"
  have "map_option (map_sum id (\<lambda>c. (fst (snd c), fmlookup (heap (snd (snd c))) 1 = None, fmlookup (heap (snd (snd c))) 2 = None))) ?run =
      Some (Inr ([M_rc nullptr, M_rc nullptr, M_arc nullptr], False, True))"
    by code_simp
  then obtain c where c: "?run = ret c" "fst (snd c) = [M_rc nullptr, M_rc nullptr, M_arc nullptr]"
      "fmlookup (heap (snd (snd c))) 1 \<noteq> None" "fmlookup (heap (snd (snd c))) 2 = None"
    by (auto simp: map_option_case map_sum_def ret_def split: option.splits sum.splits)
  note run = execs_run [OF c(1) client_run.start]
  have null: "all_null [M_rc nullptr, M_rc nullptr, M_arc nullptr]" by (simp add: all_null_def)
  from hp_allocated_iff_referenced [OF null run, of 1] hp_allocated_iff_referenced [OF null run, of 2] c run show ?thesis
    by blast
qed

text \<open>
  (C15) An \<^verbatim>\<open>rc_ptr\<close> variable that is not empty is valid at any time: it can be dereferenced, \<^verbatim>\<open>use_count\<close> is the number of
  strong references there are and \<^verbatim>\<open>weak_count\<close> that of the weak ones, the deferred ones included.
\<close>

theorem hp_rc_ptr_counts:
  assumes "all_null vs" and "client_run hp_backend n (fresh_client hp_backend k vs (acquire_retire_init n)) c"
    and "place_get (Var x) (snd c) = Inr (M_rc p)" and "p \<noteq> nullptr"
  shows "(\<exists>m. rc_deref p (snd c) = Inr m) \<and>
    rc_use_count p (snd c) = ret (of_nat (token_count (client_tokens hp_backend deferred_tokens c) p T_strong), snd c) \<and>
    rc_weak_count p (snd c) = ret (of_nat (token_count (client_tokens hp_backend deferred_tokens c) p T_weak), snd c)"
  using hp_client.rc_var_valid [OF hp_client.client_run_ok [OF assms(2) fresh_states(1) [OF assms(1)]] assms(3,4)] by blast

text \<open>A run that makes an object.\<close>

definition made_client :: "(acquired_pointer, nat counted_object acquire_retire) client res" where
  "made_client = execs hp_backend 1 [(0, Op_make 0 1 5 [] []), (0, Op_weak_from 1 0)]
     (fresh_client hp_backend 1 [M_rc nullptr, M_weak nullptr] (acquire_retire_init 1))"

lemma made_client_run:
  "\<exists>c. client_run hp_backend 1 (fresh_client hp_backend 1 [M_rc nullptr, M_weak nullptr]
      (acquire_retire_init 1 :: nat counted_object acquire_retire)) c \<and>
     fst (snd c) = [M_rc 1, M_weak 1] \<and> strong_room 1 (snd (snd c))"
proof -
  have "map_option (map_sum id (\<lambda>c. (fst (snd c), strong_room 1 (snd (snd c))))) made_client = Some (Inr ([M_rc 1, M_weak 1], True))"
    by code_simp
  then obtain c where "made_client = ret c" "fst (snd c) = [M_rc 1, M_weak 1]" "strong_room 1 (snd (snd c))"
    by (auto simp: map_option_case map_sum_def ret_def split: option.splits sum.splits)
  with execs_run [OF _ client_run.start] show ?thesis unfolding made_client_def by blast
qed

theorem hp_rc_ptr_counts_witness:
  "\<exists>c. client_run hp_backend 1 (fresh_client hp_backend 1 [M_rc nullptr, M_weak nullptr]
        (acquire_retire_init 1 :: nat counted_object acquire_retire)) c \<and>
     (\<exists>m. rc_deref 1 (snd c) = Inr m) \<and>
     rc_use_count 1 (snd c) = ret (of_nat (token_count (client_tokens hp_backend deferred_tokens c) 1 T_strong), snd c)"
proof -
  from made_client_run obtain c where
    c: "client_run hp_backend 1 (fresh_client hp_backend 1 [M_rc nullptr, M_weak nullptr]
        (acquire_retire_init 1 :: nat counted_object acquire_retire)) c" "fst (snd c) = [M_rc 1, M_weak 1]" by blast
  from hp_rc_ptr_counts [OF _ c(1), of 0 1] c show ?thesis
    by (auto simp: all_null_def get_var_iff)
qed

text \<open>
  (C16) \<^verbatim>\<open>weak_ptr::lock\<close> is exact: it gives a strong reference if there is one left, held by anybody or waiting on a deferred
  list, and an empty pointer otherwise.
\<close>

theorem hp_lock_exact:
  assumes "all_null vs" and "client_run hp_backend n (fresh_client hp_backend k vs (acquire_retire_init n)) c"
    and "0 < n" and "place_get (Var w) (snd c) = Inr (M_weak p)" and "p \<noteq> nullptr" and "strong_room p (snd (snd c))"
  shows "\<exists>st'. weak_lock p (snd c) =
    ret (if (T_strong, p) \<in># client_tokens hp_backend deferred_tokens c then p else nullptr, st')"
  using hp_client.lock_exact [OF hp_client.client_run_ok [OF assms(2) fresh_states(1) [OF assms(1)]] assms(3-6)] .

theorem hp_lock_exact_witness:
  "\<exists>c st'. client_run hp_backend 1 (fresh_client hp_backend 1 [M_rc nullptr, M_weak nullptr]
        (acquire_retire_init 1 :: nat counted_object acquire_retire)) c \<and>
     weak_lock 1 (snd c) = ret (if (T_strong, 1) \<in># client_tokens hp_backend deferred_tokens c then 1 else nullptr, st')"
proof -
  from made_client_run obtain c where
    c: "client_run hp_backend 1 (fresh_client hp_backend 1 [M_rc nullptr, M_weak nullptr]
        (acquire_retire_init 1 :: nat counted_object acquire_retire)) c" "fst (snd c) = [M_rc 1, M_weak 1]" "strong_room 1 (snd (snd c))" by blast
  from hp_lock_exact [OF _ c(1), of 1 1] c show ?thesis
    by (auto simp: all_null_def get_var_iff)
qed

section \<open>swap\<close>

lemma swap_loop_exchanges:
  assumes "l < length vs" and "x < length vs" and "l \<noteq> x" and "vs ! l = M_arc cur" and "vs ! x = M_rc cur" and "False \<in> set spurious"
  shows "arc_swap_loop (Var l) (Var x) d spurious (vs, s) = ret (vs[l := M_arc d], s)"
  using assms(6)
proof (induction spurious)
  case (Cons b spurious)
  have same: "vs[x := M_rc cur] = vs" "vs[l := M_arc d, x := M_rc cur] = vs[l := M_arc d]"
    using assms(3,5) list_update_id [of vs x] by (simp, metis list_update_swap)
  show ?case
  proof (cases b)
    case True
    with Cons same assms(1-5) show ?thesis by (simp add: atomic_load_def ret_def [symmetric])
  next
    case False
    with same assms(1-5) show ?thesis
      by (simp add: atomic_compare_exchange_def atomic_load_def compare_exchange_strong_def ret_def [symmetric])
  qed
qed simp

text \<open>
  (C17) \<^verbatim>\<open>atomic_rc_ptr::swap\<close>, a loop of weak compare-and-swaps that may fail spuriously any number of times, exchanges the
  location with the \<^verbatim>\<open>rc_ptr\<close> as soon as one attempt is not spurious, and touches no count.
\<close>

theorem arc_swap_exchanges:
  assumes "l < length vs" and "x < length vs" and "vs ! l = M_arc cur" and "vs ! x = M_rc d" and "False \<in> set spurious"
  shows "arc_swap M t (Var l) (Var x) spurious (vs, s) = ret (vs[x := M_rc cur, l := M_arc d], s)"
proof -
  have "l \<noteq> x" using assms(3,4) by auto
  then show ?thesis
    using assms swap_loop_exchanges [of l "vs[x := M_rc cur]" x cur spurious d s]
    by (simp add: arc_swap_def rc_release_def ptr_release_def rc_construct_def atomic_load_def rc_assign_from_def ptr_assign_from_def
        ret_def [symmetric])
qed

theorem arc_swap_exchanges_witness:
  "arc_swap hp_backend 0 (Var 0) (Var 1) [True, True, False] ([M_arc 3, M_rc 4], acquire_retire_init 1 :: nat counted_object acquire_retire) =
   ret ([M_arc 4, M_rc 3], acquire_retire_init 1)"
  using arc_swap_exchanges [of 0 "[M_arc 3, M_rc 4]" 1 3 4 "[True, True, False]" hp_backend 0] by simp

section \<open>Two flaws\<close>

text \<open>
  (C18) \<^verbatim>\<open>atomic_rc_ptr::exchange\<close> hands the reference of the location to an \<^verbatim>\<open>rc_ptr\<close>, whose destructor does not defer the
  decrement: a client takes a snapshot that its hazard slot protects, another thread exchanges the location and drops the old value, and
  the snapshot dangles although it is protected.
\<close>

theorem hp_exchange_unprotects:
  "\<exists>c a. client_run hp_backend 2 (fresh_client hp_backend 1 [M_rc nullptr, M_arc nullptr]
       (acquire_retire_init 2 :: nat counted_object acquire_retire)) c \<and>
     fst c = [a] \<and> ap_value a = 1 \<and> snapshot_is_protected (hp_backend :: (_, _, nat, unit, unit acquire_retire_ext) backend) a \<and>
     snapshot_deref hp_backend a (snd c) = Inl (UseAfterFree 1)"
proof -
  let ?run = "execs hp_backend 2
     [(0, Op_make 0 1 (5 :: nat) [] []), (0, Op_store_move (Var 1) 0), (0, Op_snapshot 0 (Var 1)), (1, Op_exchange 0 (Var 1) 0), (1, Op_clear 0)]
     (fresh_client hp_backend 1 [M_rc nullptr, M_arc nullptr] (acquire_retire_init 2))"
  have "map_option (map_sum id (\<lambda>c. (fst c, snapshot_deref hp_backend (hd (fst c)) (snd c)))) ?run =
      Some (Inr ([\<lparr>ap_value = 1, ap_slot = Some (SnapshotSlot 0 0)\<rparr>], Inl (UseAfterFree 1)))"
    by code_simp
  then obtain c where c: "?run = ret c" "fst c = [\<lparr>ap_value = 1, ap_slot = Some (SnapshotSlot 0 0)\<rparr>]"
      "snapshot_deref hp_backend (hd (fst c)) (snd c) = Inl (UseAfterFree 1)"
    by (auto simp: map_option_case map_sum_def ret_def split: option.splits sum.splits)
  with execs_run [OF c(1) client_run.start] show ?thesis
    by (auto simp: snapshot_is_protected_def hp_backend_def ap_is_protected_def)
qed

text \<open>
  (C19) Move assignment of an \<^verbatim>\<open>rc_ptr\<close> to itself releases its reference and keeps its pointer: after \<^verbatim>\<open>x = std::move(x)\<close> of the only
  reference to an object, \<^verbatim>\<open>x\<close> dangles.
\<close>

theorem rc_self_move_dangles:
  "\<exists>c st'. client_run hp_backend 1 (fresh_client hp_backend 1 [M_rc nullptr]
       (acquire_retire_init 1 :: nat counted_object acquire_retire)) c \<and>
     rc_move_assign hp_backend 0 (Var 0) (Var 0) (snd c) = ret st' \<and> fst st' = [M_rc 1] \<and> rc_deref 1 st' = Inl (UseAfterFree 1)"
proof -
  let ?run = "execs hp_backend 1 [(0, Op_make 0 1 (5 :: nat) [] [])] (fresh_client hp_backend 1 [M_rc nullptr] (acquire_retire_init 1))"
  have "map_option (map_sum id (\<lambda>c. map_option (map_sum id (\<lambda>st'. (fst st', rc_deref 1 st')))
        (rc_move_assign hp_backend 0 (Var 0) (Var 0) (snd c)))) ?run = Some (Inr (Some (Inr ([M_rc 1], Inl (UseAfterFree 1)))))"
    by code_simp
  then obtain c st' where c: "?run = ret c" "rc_move_assign hp_backend 0 (Var 0) (Var 0) (snd c) = ret st'" "fst st' = [M_rc 1]"
      "rc_deref 1 st' = Inl (UseAfterFree 1)"
    by (auto simp: map_option_case map_sum_def ret_def split: option.splits sum.splits)
  with execs_run [OF c(1) client_run.start] show ?thesis by blast
qed

end
