(* ===== verification/Hp_Snapshots.thy ===== *)
theory Hp_Snapshots
  imports Snapshot_Safety Clients
begin

text \<open>
  Snapshots with the hazard-pointer backend: the interpretation of \<open>guarding_client\<close> and the safety of protected snapshots.
\<close>

declare split_paired_Ex [simp del] split_paired_All [simp del]

fun is_snapshot_slot :: "slot \<Rightarrow> bool" where
  "is_snapshot_slot (SnapshotSlot t i) = True"
| "is_snapshot_slot (Announcement t) = False"

section \<open>Announcements of the hazard-pointer backend\<close>

lemma slot_load_store: "sl \<noteq> sl' \<Longrightarrow> slot_load sl (slot_store sl' p s) = slot_load sl s"
  by (cases sl; cases sl') auto

lemma announces_store: "sl \<noteq> sl' \<Longrightarrow> announces sl p (slot_store sl' q s) = announces sl p s"
  using slot_load_store [of sl sl' q s] by (cases sl') (auto simp: announces_def)

lemma list_guards_store: "list_guards k p (slot_store sl q s) = list_guards k p s"
  by (cases sl) (simp_all add: list_guards_def)

lemma heap_store [simp]: "heap (slot_store sl q s) = heap s"
  by (cases sl) simp_all

lemma hp_ready_store: "hp_ready n (slot_store sl q s) = hp_ready n s"
  by (cases sl) (auto simp: hp_ready_def)

lemma untouched_store:
  "untouched is_snapshot_slot announces list_guards (\<lambda>t s. t < n \<and> hp_ready n s) {Some sl} s (slot_store sl q s)"
  by (auto simp: untouched_def same_values_heap list_guards_store hp_ready_store announces_store)

lemma untouched_mono:
  "untouched snap reader eg ok X s s' \<Longrightarrow> (\<And>k. snap k \<Longrightarrow> Some k \<in> X \<Longrightarrow> Some k \<in> Y) \<Longrightarrow> untouched snap reader eg ok Y s s'"
  unfolding untouched_def by blast

lemma untouched_refl: "untouched snap reader eg ok X s s"
  by (simp add: untouched_def same_values_heap)

lemma untouched_trans:
  "untouched snap reader eg ok X s s' \<Longrightarrow> untouched snap reader eg ok X s' s'' \<Longrightarrow> untouched snap reader eg ok X s s''"
  by (auto simp: untouched_def intro: same_values_trans)

lemma find_free_ge: "find_free ps i = Some j \<Longrightarrow> i \<le> j \<and> j < i + length ps \<and> ps ! (j - i) = nullptr"
proof (induction ps i rule: find_free.induct)
  case (2 p ps i)
  then show ?case by (cases "p = nullptr") (auto simp: nth_Cons split: nat.splits dest: Suc_diff_le)
qed simp

lemma free_slot:
  assumes "t < n \<and> hp_ready n s" and "get_free_slot t s = Some sl"
  shows "is_snapshot_slot sl \<and> sl \<in> set (scan_order (threads s)) \<and> slot_load sl s = nullptr"
proof -
  from assms(2) obtain i where i: "find_free (snapshot_announcements s t) 0 = Some i" "sl = SnapshotSlot t i"
    by (auto simp: get_free_slot_def)
  from find_free_ge [OF i(1)] i(2) assms(1) show ?thesis by (auto simp: in_scan_order hp_ready_def)
qed

lemma slot_load_stored:
  assumes "t < n \<and> hp_ready n s" and "sl \<in> set (scan_order (threads s))" and "is_snapshot_slot sl"
  shows "slot_load sl (slot_store sl q s) = q"
  using assms by (cases sl) (auto simp: in_scan_order hp_ready_def)

lemma retire_plain: "retire t q type s = Inr (new, s') \<Longrightarrow> plain new"
  by (auto simp: retire_def plain_def)

lemma hp_derived_plain:
  assumes "hp_derived t d s = Inr (new, s')"
  shows "plain new"
proof (cases d)
  case D_work with assms show ?thesis by (auto simp: work_loop_def plain_def Let_def split: if_splits)
next
  case (D_scan sls deferred m) with assms show ?thesis by (cases sls) (auto simp: plain_def Let_def)
next
  case (D_eject m todo kept) with assms show ?thesis by (cases todo) (auto simp: plain_def split: option.splits)
next
  case D_drain with assms show ?thesis by (auto simp: drain_def plain_def split: if_splits)
next
  case (D_drain_list xs) with assms show ?thesis by (cases xs) (auto simp: plain_def)
qed

lemma untouched_clear:
  "untouched is_snapshot_slot announces list_guards (\<lambda>t s. t < n \<and> hp_ready n s) (if ap_is_protected a then {ap_slot a} else {}) s (clear_protection a s)"
  using untouched_store [of n "the (ap_slot a)" s nullptr]
  by (auto simp: clear_protection_def ap_is_protected_def untouched_refl split: option.splits)

text \<open>The announcement slot of a thread is none of the snapshots'.\<close>

lemma untouched_announcement:
  "untouched is_snapshot_slot announces list_guards (\<lambda>t s. t < n \<and> hp_ready n s) {} s (slot_store (Announcement t) q s)"
  "ap_slot a = Some (Announcement t) \<Longrightarrow>
   untouched is_snapshot_slot announces list_guards (\<lambda>t s. t < n \<and> hp_ready n s) {} s (clear_protection a s)"
  by (rule untouched_mono [OF untouched_store], auto)
     (rule untouched_mono [OF untouched_clear], auto split: if_splits)

lemma untouched_increment:
  fixes s :: "('v, 'x, 'e acquire_retire_ext) mm_state"
  assumes "increment_ref_cnt q s = Inr (b, s')"
  shows "untouched is_snapshot_slot announces list_guards (\<lambda>t s. t < n \<and> hp_ready n s) {} s s'"
proof -
  from increments_same(1) [OF assms] have s': "same_values s s'" "mm.more s' = mm.more s" by auto
  from more_fields [OF s'(2)] slot_load_cong [of s' s] s'(1) show ?thesis
    by (auto simp: untouched_def list_guards_def announces_def hp_ready_def)
qed

lemma hp_protect_guard:
  fixes s :: "('v counted_object, 'e) acquire_retire_scheme"
  assumes ok: "t < n \<and> hp_ready n s" and run: "protect_snapshot t [(q, q)] [([(q, q)], q)] s = ret (a, s')"
  shows "untouched is_snapshot_slot announces list_guards (\<lambda>t s. t < n \<and> hp_ready n s) {} s s' \<and>
    (ap_is_protected a \<longrightarrow> (\<exists>k. ap_slot a = Some k \<and> is_snapshot_slot k \<and> announces k (ap_value a) s' \<and>
      (\<forall>p. p \<noteq> nullptr \<longrightarrow> \<not> announces k p s)))"
proof (cases "get_free_slot t s")
  case (Some sl)
  note sl = free_slot [OF ok Some]
  have "announces sl q (slot_store sl q s)"
    using sl slot_load_stored [OF ok, of sl q] by (cases sl) (simp_all add: announces_def)
  moreover have "untouched is_snapshot_slot announces list_guards (\<lambda>t s. t < n \<and> hp_ready n s) {} s (slot_store sl q s)"
    using untouched_store [of n sl s q] sl by (auto simp: untouched_def announces_def)
  ultimately show ?thesis using run Some sl
    by (auto simp: protect_snapshot_def ret_def ap_is_protected_def announces_def split: if_splits)
next
  case None
  let ?a = "\<lparr>ap_value = q, ap_slot = Some (Announcement t)\<rparr>" and ?s1 = "slot_store (Announcement t) q s"
  let ?u = "untouched is_snapshot_slot announces list_guards (\<lambda>t s. t < n \<and> hp_ready n s) {}"
  have 1: "?u s ?s1" by (rule untouched_announcement)
  have clear: "?u s2 (clear_protection ?a s2)" for s2 :: "('v counted_object, 'e) acquire_retire_scheme"
    by (rule untouched_announcement(2)) simp
  show ?thesis
  proof (cases "q = nullptr")
    case True
    with run None clear [of ?s1] 1 show ?thesis
      by (auto simp: protect_snapshot_def ret_def ap_is_protected_def intro: untouched_trans)
  next
    case False
    with run None obtain b s2 where s2: "increment_ref_cnt q ?s1 = Inr (b, s2)" "s' = clear_protection ?a s2" "ap_slot a = None"
      by (auto simp: protect_snapshot_def ret_def split: sum.splits bool.splits)
    from untouched_trans [OF untouched_trans [OF 1 untouched_increment [OF s2(1)]] clear] s2(2,3) show ?thesis
      by (auto simp: ap_is_protected_def)
  qed
qed

interpretation hp_guard: guarding_client retire hp_derived hp_call_tokens hp_call_weight hp_call_length
  deferred_tokens deferred_weight deferred_length n "hp_ready n" hp_backend hp_call_guards list_guards announces drains ap_slot is_snapshot_slot for n
proof unfold_locales
  fix s s' :: "('v counted_object, 'e) acquire_retire_scheme" and sl p t q type new d
  show "(list_guards sl p s \<longrightarrow> list_guards sl p s') \<and> (announces sl p s \<longrightarrow> announces sl p s')"
    if "mm.more s' = mm.more s" "stamps_le s' s"
    using hp.ext_guards [OF that] .
  show "announces sl p s' \<and>
      (list_guards sl p s \<or> q = p \<and> type = RT_decrement_strong_count \<longrightarrow>
       list_guards sl p s' \<or> (\<exists>d. C_derived d \<in> set new \<and> hp_call_guards sl p d)) \<and>
      (\<forall>d. C_derived d \<in> set new \<longrightarrow> \<not> drains d)"
    if "t < n \<and> hp_ready n s" "announces sl p s" "p \<noteq> nullptr" "retire t q type s = Inr (new, s')"
    using hp.retire_guards [OF _ that(2-4)] that(1) by (simp add: hp_ready_def)
  show "announces sl p s' \<and>
      (list_guards sl p s \<or> hp_call_guards sl p d \<longrightarrow> list_guards sl p s' \<or> (\<exists>d'. C_derived d' \<in> set new \<and> hp_call_guards sl p d')) \<and>
      (\<forall>d'. C_derived d' \<in> set new \<longrightarrow> \<not> drains d')"
    if "t < n \<and> hp_ready n s" "announces sl p s" "p \<noteq> nullptr" "\<not> drains d" "hp_derived t d s = Inr (new, s')"
    using hp.derived_guards [OF _ that(2-5)] that(1) by (simp add: hp_ready_def)
  show "heap s' = heap s \<and> (t < n \<and> hp_ready n s') \<and> plain new" if "t < n \<and> hp_ready n s" "retire t q type s = Inr (new, s')"
    using that retire_plain [OF that(2)] by (auto simp: retire_def hp_ready_def)
  show "untouched is_snapshot_slot announces list_guards (\<lambda>t s. t < n \<and> hp_ready n s) {} s (snd (mg_reserve hp_backend t q s)) \<and>
      (\<forall>k. ap_slot (fst (mg_reserve hp_backend t q s)) = Some k \<longrightarrow> \<not> is_snapshot_slot k)"
    using untouched_announcement(1) [of n s t q] by (simp add: hp_backend_def reserve_def)
next
  fix s s' :: "('v counted_object, 'e) acquire_retire_scheme" and t q a
  show "untouched is_snapshot_slot announces list_guards (\<lambda>t s. t < n \<and> hp_ready n s) {} s s' \<and>
      (\<forall>k. ap_slot a = Some k \<longrightarrow> \<not> is_snapshot_slot k)" if "mg_acquire hp_backend t q s = ret (a, s')"
    using that untouched_announcement(1) [of n s t q] by (auto simp: hp_backend_def ret_def)
  show "untouched is_snapshot_slot announces list_guards (\<lambda>t s. t < n \<and> hp_ready n s) {ap_slot a} s (mg_destruct hp_backend a s)"
  proof -
    have "mg_destruct hp_backend a s = clear_protection a s" by (simp add: hp_backend_def)
    then show ?thesis by (auto intro: untouched_mono [OF untouched_clear] split: if_splits)
  qed
  show "untouched is_snapshot_slot announces list_guards (\<lambda>t s. t < n \<and> hp_ready n s)
      (if announced_snapshot hp_backend a then {ap_slot a} else {}) s (snd (mg_clear hp_backend a s))"
    using untouched_clear [of n a s] by (simp add: announced_snapshot_def hp_backend_def ap_clear_def ap_is_protected_def)
  show "untouched is_snapshot_slot announces list_guards (\<lambda>t s. t < n \<and> hp_ready n s) {} s s' \<and>
      (announced_snapshot hp_backend a \<longrightarrow> (\<exists>k. ap_slot a = Some k \<and> is_snapshot_slot k \<and> announces k (mg_get hp_backend a) s' \<and>
        (\<forall>p. p \<noteq> nullptr \<longrightarrow> \<not> announces k p s)))"
    if "t < n \<and> hp_ready n s" "mg_protect_snapshot hp_backend t q s = ret (a, s')"
    using hp_protect_guard [OF that(1), of q a s'] that(2) by (auto simp: announced_snapshot_def hp_backend_def)
next
  fix s :: "('v counted_object, 'e) acquire_retire_scheme" and sl p t q and v :: "'v managed"
  show "announces sl p (mg_create_object hp_backend t q v s) \<and> (list_guards sl p s \<longrightarrow> list_guards sl p (mg_create_object hp_backend t q v s)) \<and>
      (t < n \<and> hp_ready n s \<longrightarrow> t < n \<and> hp_ready n (mg_create_object hp_backend t q v s)) \<and>
      (\<exists>ob. heap (mg_create_object hp_backend t q v s) = fmupd q ob (heap s) \<and> \<not> disposed ob)" if "announces sl p s"
    using that slot_load_cong [of "mg_create_object hp_backend t q v s" s sl]
    by (auto simp: hp_backend_def create_object_def put_object_def increment_allocations_def list_guards_def announces_def hp_ready_def
        new_counted_object_def)
qed (simp_all add: hp.dg_token hp.eg_token hp_derived_plain hp_backend_def reserve_nothing_def acquired_nothing_def)

section \<open>Protected snapshots\<close>

lemma fresh_guarded: "hp_guard.snapshots_guarded n (fresh_client hp_backend k vs (acquire_retire_init n))"
  unfolding hp_guard.snapshots_guarded_def
  by (auto simp: fresh_client_def announced_snapshot_def hp_backend_def ap_is_protected_def
      reserve_nothing_def acquired_nothing_def)

text \<open>
  (C2) Snapshots are safe: from empty variables, in any run in which threads take turns with operations other than \<^verbatim>\<open>exchange\<close>, every snapshot
  that is not empty can be dereferenced, however long ago it was taken and whatever was stored, destroyed and reclaimed since: those that
  own a count because their thread had no free slot, and those that only an announcement protects. (\<^verbatim>\<open>atomic_rc_ptr::swap\<close>, which hands a
  reference out without deferral as \<^verbatim>\<open>exchange\<close> does, is not among the operations.)
\<close>

theorem hp_snapshots_valid:
  assumes "all_null vs" and "deferring_run hp_backend n (fresh_client hp_backend k vs (acquire_retire_init n)) c"
    and "i < length (fst c)" and "ap_value (fst c ! i) \<noteq> nullptr"
  shows "\<exists>m. snapshot_deref hp_backend (fst c ! i) (snd c) = Inr m"
proof -
  note ok0 = fresh_states(1) [OF assms(1), of n k]
  have "client_ok hp_backend deferred_tokens (hp_ready n) c"
    using hp_client.client_run_ok [OF deferring_client_run [OF assms(2)] ok0] .
  from hp_guard.snapshot_valid [OF this hp_guard.deferring_run_guarded [OF assms(2) ok0 fresh_guarded] assms(3)] assms(4)
  show ?thesis by (simp add: hp_backend_def)
qed

theorem hp_snapshots_valid_witness:
  "\<exists>c. deferring_run hp_backend 2 (fresh_client hp_backend 1 [M_rc nullptr, M_arc nullptr]
       (acquire_retire_init 2 :: nat counted_object acquire_retire)) c \<and>
     fst (snd c) = [M_rc nullptr, M_arc nullptr] \<and> ap_value (fst c ! 0) = 1 \<and>
     (\<exists>m. snapshot_deref hp_backend (fst c ! 0) (snd c) = Inr m)"
proof -
  let ?run = "execs hp_backend 2
     [(0, Op_make 0 1 (5 :: nat) [] []), (0, Op_store_move (Var 1) 0), (0, Op_snapshot 0 (Var 1)), (1, Op_store_null (Var 1))]
     (fresh_client hp_backend 1 [M_rc nullptr, M_arc nullptr] (acquire_retire_init 2))"
  have "map_option (map_sum id (\<lambda>c. (fst c, fst (snd c)))) ?run =
      Some (Inr ([\<lparr>ap_value = 1, ap_slot = Some (SnapshotSlot 0 0)\<rparr>], [M_rc nullptr, M_arc nullptr]))"
    by code_simp
  then obtain c where c: "?run = ret c" "fst c = [\<lparr>ap_value = 1, ap_slot = Some (SnapshotSlot 0 0)\<rparr>]" "fst (snd c) = [M_rc nullptr, M_arc nullptr]"
    by (auto simp: map_option_case map_sum_def split: option.splits sum.splits)
  have run: "deferring_run hp_backend 2 (fresh_client hp_backend 1 [M_rc nullptr, M_arc nullptr]
       (acquire_retire_init 2 :: nat counted_object acquire_retire)) c"
    by (rule execs_deferring_run [OF c(1)]) (simp_all add: deferring_run.start)
  from hp_snapshots_valid [OF _ run, of 0] c(2,3) run show ?thesis by (auto simp: all_null_def)
qed

end
