(* ===== verification/Stacks.thy ===== *)
theory Stacks
  imports Stack_Linear Hp_Snapshots
begin

text \<open>
  The concurrent stack over hazard pointers: in every interleaving its steps return, and its histories are those of the atomic stack.
\<close>

declare split_paired_Ex [simp del] split_paired_All [simp del]

section \<open>Runs\<close>

context stack_backend
begin

lemma run_inv:
  assumes "stack_run M n s0 h ps c" and "client_ok M etoks good (stack_init M n s0)" and "heap s0 = fmempty"
  shows "\<exists>ap xs. atomic_stack n h ap xs \<and> stack_inv ps c ap xs"
  using assms(1)
proof induction
  case start
  have null: "\<not> announced_snapshot M (replicate n (mg_reserve_nothing M) ! i)" if "i < n" for i
    using that empty_snapshot by (simp add: announced_snapshot_def)
  have "contents s0 = Map.empty" using assms(3) by (simp add: contents_def fun_eq_iff)
  moreover have "snapshots_guarded (stack_init M n s0)" using null by (simp add: snapshots_guarded_def stack_init_def)
  ultimately have "stack_inv (\<lambda>_. Idle) (stack_init M n s0) (\<lambda>_. A_idle) []"
    using assms(2) by (simp add: stack_inv_def sound_def layout_def nodes_only_def stack_init_def var_ptr_def)
  with atomic_stack.start show ?case by blast
next
  case (call h ps c t op)
  then obtain ap xs where a: "atomic_stack n h ap xs" "stack_inv ps c ap xs" by blast
  then have "ap t = A_idle" using call by (auto simp: stack_inv_def)
  have "thread_ok c t (stack_entry op) (Pending op)" by (cases op) simp_all
  with advance [OF a(2) moved_refl [OF a(2) call(2)], of xs] a(2) have "stack_inv (ps(t := stack_entry op)) c (ap(t := Pending op)) xs"
    by (simp add: stack_inv_def)
  with atomic_stack.call [OF a(1) call(2) \<open>ap t = A_idle\<close>] show ?case by blast
next
  case (step h ps c t q pc' c')
  then obtain ap xs where a: "atomic_stack n h ap xs" "stack_inv ps c ap xs" by blast
  from stack_simulates [OF a(2) step(2,3)] step(4) obtain ap' xs' where
    "stack_inv (ps(t := pc')) c' ap' xs'" "ap' = ap \<and> xs' = xs \<or> (\<exists>op r. ap t = Pending op \<and> stack_apply op xs = (xs', r) \<and> ap' = ap(t := Done r))"
    by (auto simp: simulates_def)
  with atomic_stack.effect [OF a(1) step(2)] a(1) show ?case by blast
next
  case (response h ps c t r)
  then obtain ap xs where a: "atomic_stack n h ap xs" "stack_inv ps c ap xs" by blast
  then have "ap t = Done r" using response by (auto simp: stack_inv_def)
  from advance [OF a(2) moved_refl [OF a(2) response(2)], of xs Idle A_idle] a(2) have "stack_inv (ps(t := Idle)) c (ap(t := A_idle)) xs"
    by (simp add: stack_inv_def)
  with atomic_stack.response [OF a(1) response(2) \<open>ap t = Done r\<close>] show ?case by blast
qed

text \<open>A thread that is left alone comes to its response.\<close>

lemma steps_left_0: "steps_left c t pc = 0 \<longleftrightarrow> pc = Idle \<or> (\<exists>r. pc = Return r)"
  by (cases pc) simp_all

lemma solo:
  assumes "stack_inv ps c ap xs" and t: "t < n" and "steps_left c t (ps t) \<le> length qs"
  shows "(\<exists>i<length qs. \<exists>ps' c'. stack_exec M n (map (Act_step t) (take i qs)) (h, ps, c) = ret (h, ps', c') \<and> \<not> stack_enabled (qs ! i) c') \<or>
    (\<exists>ps' c'. stack_exec M n (map (Act_step t) qs) (h, ps, c) = ret (h, ps', c') \<and> (ps' t = Idle \<or> (\<exists>r. ps' t = Return r)))"
  using assms(1,3)
proof (induction qs arbitrary: ps c ap xs)
  case (Cons q qs)
  show ?case
  proof (cases "stack_enabled q c")
    case True
    from stack_simulates [OF Cons.prems(1) t True] obtain pc' c' ap' xs' where 1: "stack_step M t q (ps t) c = ret (pc', c')"
        "stack_inv (ps(t := pc')) c' ap' xs'" "steps_left c' t pc' < steps_left c t (ps t) \<or> steps_left c t (ps t) = 0 \<and> pc' = ps t"
      by (auto simp: simulates_def)
    then have "steps_left c' t ((ps(t := pc')) t) \<le> length qs" using Cons.prems(2) steps_left_0 [of c] steps_left_0 [of c'] by fastforce
    from Cons.IH [OF 1(2) this] show ?thesis
    proof
      assume "\<exists>i<length qs. \<exists>ps' c''. stack_exec M n (map (Act_step t) (take i qs)) (h, ps(t := pc'), c') = ret (h, ps', c'') \<and> \<not> stack_enabled (qs ! i) c''"
      then obtain i ps' c'' where "i < length qs" "stack_exec M n (map (Act_step t) (take i qs)) (h, ps(t := pc'), c') = ret (h, ps', c'')" "\<not> stack_enabled (qs ! i) c''" by blast
      with 1(1) t True show ?thesis by (intro disjI1 exI [of _ "Suc i"] conjI exI [of _ ps'] exI [of _ c'']) simp_all
    qed (use 1(1) t True in \<open>intro disjI2, simp add: fun_upd_def\<close>)
  qed auto
qed (auto simp: steps_left_0)

end

section \<open>Hazard pointers\<close>

interpretation hp_stack: stack_backend retire hp_derived hp_call_tokens hp_call_weight hp_call_length
  deferred_tokens deferred_weight deferred_length n "hp_ready n" hp_backend hp_call_guards list_guards announces drains ap_slot is_snapshot_slot for n
  by unfold_locales (auto simp: hp_backend_def create_object_def put_object_def increment_allocations_def hp_ready_def new_counted_object_def
      ap_clear_def acquired_nothing_def)

lemma stack_init_ok:
  "client_ok hp_backend deferred_tokens (hp_ready n) (stack_init hp_backend n (acquire_retire_init n))"
proof -
  have "all_null (M_arc nullptr # replicate (2 * n) (M_rc nullptr))" by (simp add: all_null_def list_all_iff)
  from fresh_states(1) [OF this, of n n] show ?thesis by (simp add: stack_init_def fresh_client_def)
qed

lemma hp_stack_inv:
  assumes "stack_run hp_backend n (acquire_retire_init n) h ps c"
  shows "\<exists>ap xs. atomic_stack n h ap xs \<and> hp_stack.stack_inv n ps c ap xs"
  using hp_stack.run_inv [OF assms stack_init_ok] by (simp add: acquire_retire_init_def)

text \<open>A run of two threads: thread 0 pushes, thread 1 takes its snapshot before and pops after.\<close>

definition stack_demo :: "nat stack_action list" where
  "stack_demo = [Act_call 0 (Push_front 5), Act_step 0 1, Act_step 0 1, Act_call 1 Pop_front, Act_step 0 2, Act_step 1 2, Act_step 1 2,
     Act_step 0 2, Act_response 0, Act_step 1 2, Act_step 1 2, Act_response 1]"

text \<open>
  (C3) The concurrent stack is linearizable. Over hazard pointers, for any number of threads that interleave after every operation on a smart pointer, the
  history of calls and responses is one that the atomic stack has, where each operation has its effect at a single moment between its call and its response; and the
  nodes from \<^verbatim>\<open>head\<close> on hold just the elements of the atomic stack.
\<close>

theorem stack_linearizable:
  assumes "stack_run hp_backend n (acquire_retire_init n) h ps c"
  shows "\<exists>ap xs. atomic_stack n h ap xs \<and> rep (contents (snd (snd c))) (var_ptr 0 (snd c)) xs"
  using hp_stack_inv [OF assms] by (auto simp: hp_stack.stack_inv_def)

lemma stack_demo_run:
  "\<exists>ps c. stack_run hp_backend 2 (acquire_retire_init 2 :: nat counted_object acquire_retire)
     [Invoke 0 (Push_front 5), Invoke 1 Pop_front, Response 0 R_void, Response 1 (R_value (Some 5))] ps c"
proof -
  let ?run = "stack_exec hp_backend 2 stack_demo ([], \<lambda>_. Idle, stack_init hp_backend 2 (acquire_retire_init 2 :: nat counted_object acquire_retire))"
  have "map_option (map_sum id fst) ?run =
      Some (Inr [Invoke 0 (Push_front 5), Invoke 1 Pop_front, Response 0 R_void, Response 1 (R_value (Some 5))])"
    by code_simp
  then obtain ps c where "?run = ret ([Invoke 0 (Push_front 5), Invoke 1 Pop_front, Response 0 R_void, Response 1 (R_value (Some 5))], ps, c)"
    by (auto simp: map_option_case map_sum_def ret_def split: option.splits sum.splits prod.splits)
  from stack_exec_run [OF this stack_run.start] show ?thesis by blast
qed

theorem stack_linearizable_witness:
  "\<exists>ps (c :: (acquired_pointer, nat counted_object acquire_retire) client) ap xs.
     stack_run hp_backend 2 (acquire_retire_init 2) [Invoke 0 (Push_front 5), Invoke 1 Pop_front, Response 0 R_void, Response 1 (R_value (Some 5))] ps c \<and>
     atomic_stack 2 [Invoke 0 (Push_front 5), Invoke 1 Pop_front, Response 0 R_void, Response 1 (R_value (Some 5))] ap xs \<and>
     rep (contents (snd (snd c))) (var_ptr 0 (snd c)) xs"
  using stack_demo_run stack_linearizable by blast

text \<open>
  (C10) No step of the concurrent stack fails: in every reachable state the next step of any thread returns, so that no node is read after it was freed. This covers
  \<^verbatim>\<open>find\<close>, which walks along the list with plain pointers and relies on its one snapshot to keep the entire list, even if it has been popped meanwhile.
\<close>

theorem stack_steps_return:
  assumes "stack_run hp_backend n (acquire_retire_init n) h ps c" and "t < n" and "stack_enabled q c"
  shows "\<exists>pc' c'. stack_step hp_backend t q (ps t) c = ret (pc', c')"
  using hp_stack_inv [OF assms(1)] hp_stack.stack_simulates [OF _ assms(2,3)] by (fastforce simp: hp_stack.simulates_def)

lemma stack_run_call:
  "stack_run hp_backend 1 (acquire_retire_init 1 :: nat counted_object acquire_retire) [Invoke 0 (Push_front 7)] ((\<lambda>_. Idle)(0 := Push_load 7))
     (stack_init hp_backend 1 (acquire_retire_init 1))"
  using stack_run.call [OF stack_run.start, of 0 1 hp_backend "acquire_retire_init 1" "Push_front 7"] by simp

theorem stack_steps_return_witness:
  "\<exists>pc' c'. stack_step hp_backend 0 1 (Push_load (7 :: nat)) (stack_init hp_backend 1 (acquire_retire_init 1 :: nat counted_object acquire_retire)) = ret (pc', c')"
  using stack_steps_return [OF stack_run_call, of 0 1] by (simp add: stack_enabled_def stack_init_def acquire_retire_init_def)

text \<open>
  (C38) The operations of the stack are obstruction free: from every reachable state there is a number of steps after which a thread that runs alone has come to its
  response, whatever addresses the allocator hands out, unless an address that is in use is handed out or a count is at its limit on the way.
\<close>

theorem stack_solo_returns:
  assumes "stack_run hp_backend n (acquire_retire_init n) h ps c" and "t < n"
  shows "\<exists>k. \<forall>qs. k \<le> length qs \<longrightarrow>
    (\<exists>i<length qs. \<exists>ps' c'. stack_exec hp_backend n (map (Act_step t) (take i qs)) (h, ps, c) = ret (h, ps', c') \<and> \<not> stack_enabled (qs ! i) c') \<or>
    (\<exists>ps' c'. stack_exec hp_backend n (map (Act_step t) qs) (h, ps, c) = ret (h, ps', c') \<and> (ps' t = Idle \<or> (\<exists>r. ps' t = Return r)))"
  using hp_stack_inv [OF assms(1)] hp_stack.solo [OF _ assms(2)] by blast

theorem stack_solo_returns_witness:
  "\<exists>k. \<forall>qs. k \<le> length qs \<longrightarrow>
    (\<exists>i<length qs. \<exists>ps' c'. stack_exec hp_backend 1 (map (Act_step 0) (take i qs)) ([Invoke 0 (Push_front 7)], (\<lambda>_. Idle)(0 := Push_load 7),
       stack_init hp_backend 1 (acquire_retire_init 1 :: nat counted_object acquire_retire)) = ret ([Invoke 0 (Push_front 7)], ps', c') \<and>
       \<not> stack_enabled (qs ! i) c') \<or>
    (\<exists>ps' c'. stack_exec hp_backend 1 (map (Act_step 0) qs) ([Invoke 0 (Push_front 7)], (\<lambda>_. Idle)(0 := Push_load 7),
       stack_init hp_backend 1 (acquire_retire_init 1 :: nat counted_object acquire_retire)) = ret ([Invoke 0 (Push_front 7)], ps', c') \<and>
       (ps' 0 = Idle \<or> (\<exists>r. ps' 0 = Return r)))"
  using stack_solo_returns [OF stack_run_call, of 0] by simp

end
