(* ===== verification/Stack_Dtor.thy ===== *)
theory Stack_Dtor
  imports Stacks
begin

text \<open>
  The destructor of \<^verbatim>\<open>examples/stack.h\<close>. It takes the list apart node by node, because references that are still deferred could otherwise free a long chain
  recursively later. It runs when no other thread uses the stack; the other threads' variables stay as they are. The local variables \<^verbatim>\<open>node\<close> and \<^verbatim>\<open>next\<close> are the variables
  \<open>tmp_var t\<close> and \<open>new_var t\<close>, and the function is cut after every operation on a smart pointer.
\<close>

declare split_paired_Ex [simp del] split_paired_All [simp del]

section \<open>The destructor\<close>

datatype dtor_pc =
    Dtor_load
  | Dtor_store
  | Dtor_next
  | Dtor_unlink
  | Dtor_node
  | Dtor_end_next
  | Dtor_end_node
  | Dtor_end_head
  | Dtor_done

type_synonym ('a, 'v, 'x, 'e) dtor_res = "(dtor_pc \<times> ('a, 'v, 'x, 'e) stack_client) res"

text \<open>\<^verbatim>\<open>auto node = head.load()\<close> and the test of \<^verbatim>\<open>node\<close>\<close>

definition dtor_load :: "('c, 'a, 'v, 'x, 'e) backend \<Rightarrow> tid \<Rightarrow> ('a, 'v, 'x, 'e) stack_client \<Rightarrow> ('a, 'v, 'x, 'e) dtor_res" where
  "dtor_load M t c =
     rbind (exec M t (Op_load (tmp_var t) (Var 0)) c) (\<lambda>c1.
     ret (if var_ptr (tmp_var t) (snd c1) \<noteq> nullptr then Dtor_store else Dtor_end_node, c1))"

definition dtor_store :: "('c, 'a, 'v, 'x, 'e) backend \<Rightarrow> tid \<Rightarrow> ('a, 'v, 'x, 'e) stack_client \<Rightarrow> ('a, 'v, 'x, 'e) dtor_res" where
  "dtor_store M t c = rbind (exec M t (Op_store_null (Var 0)) c) (\<lambda>c1. ret (Dtor_next, c1))"

text \<open>\<^verbatim>\<open>next = node->next\<close>; the first time it is a declaration, of a variable that is empty.\<close>

definition dtor_next :: "('c, 'a, 'v, 'x, 'e) backend \<Rightarrow> tid \<Rightarrow> ('a, 'v, 'x, 'e) stack_client \<Rightarrow> ('a, 'v, 'x, 'e) dtor_res" where
  "dtor_next M t c =
     rbind (rc_copy_assign M t (Var (new_var t)) (Field (var_ptr (tmp_var t) (snd c)) 0) (snd c)) (\<lambda>st1. ret (Dtor_unlink, (fst c, st1)))"

text \<open>\<^verbatim>\<open>node->next = nullptr\<close> and the condition of the loop\<close>

definition dtor_unlink :: "('c, 'a, 'v, 'x, 'e) backend \<Rightarrow> tid \<Rightarrow> ('a, 'v, 'x, 'e) stack_client \<Rightarrow> ('a, 'v, 'x, 'e) dtor_res" where
  "dtor_unlink M t c =
     rbind (rc_assign_null M t (Field (var_ptr (tmp_var t) (snd c)) 0) (snd c)) (\<lambda>st1.
     ret (if var_ptr (new_var t) st1 \<noteq> nullptr then Dtor_node else Dtor_end_next, (fst c, st1)))"

text \<open>\<^verbatim>\<open>node = next\<close>\<close>

definition dtor_node :: "('c, 'a, 'v, 'x, 'e) backend \<Rightarrow> tid \<Rightarrow> ('a, 'v, 'x, 'e) stack_client \<Rightarrow> ('a, 'v, 'x, 'e) dtor_res" where
  "dtor_node M t c = rbind (exec M t (Op_copy (tmp_var t) (new_var t)) c) (\<lambda>c1. ret (Dtor_next, c1))"

text \<open>The ends of the scopes of \<^verbatim>\<open>next\<close> and \<^verbatim>\<open>node\<close>, and the destructor of the member \<^verbatim>\<open>head\<close>\<close>

definition dtor_end_var :: "('c, 'a, 'v, 'x, 'e) backend \<Rightarrow> tid \<Rightarrow> nat \<Rightarrow> dtor_pc \<Rightarrow> ('a, 'v, 'x, 'e) stack_client \<Rightarrow> ('a, 'v, 'x, 'e) dtor_res" where
  "dtor_end_var M t x pc c = rbind (exec M t (Op_clear x) c) (\<lambda>c1. ret (pc, c1))"

definition dtor_end_head :: "('c, 'a, 'v, 'x, 'e) backend \<Rightarrow> tid \<Rightarrow> ('a, 'v, 'x, 'e) stack_client \<Rightarrow> ('a, 'v, 'x, 'e) dtor_res" where
  "dtor_end_head M t c = rbind (arc_dtor M t (Var 0) (snd c)) (\<lambda>st1. ret (Dtor_done, (fst c, st1)))"

fun dtor_step :: "('c, 'a, 'v, 'x, 'e) backend \<Rightarrow> tid \<Rightarrow> dtor_pc \<Rightarrow> ('a, 'v, 'x, 'e) stack_client \<Rightarrow> ('a, 'v, 'x, 'e) dtor_res" where
  "dtor_step M t Dtor_load c = dtor_load M t c"
| "dtor_step M t Dtor_store c = dtor_store M t c"
| "dtor_step M t Dtor_next c = dtor_next M t c"
| "dtor_step M t Dtor_unlink c = dtor_unlink M t c"
| "dtor_step M t Dtor_node c = dtor_node M t c"
| "dtor_step M t Dtor_end_next c = dtor_end_var M t (new_var t) Dtor_end_node c"
| "dtor_step M t Dtor_end_node c = dtor_end_var M t (tmp_var t) Dtor_end_head c"
| "dtor_step M t Dtor_end_head c = dtor_end_head M t c"
| "dtor_step M t Dtor_done c = ret (Dtor_done, c)"

text \<open>The first \<open>k\<close> steps of the destructor.\<close>

fun dtor_run :: "('c, 'a, 'v, 'x, 'e) backend \<Rightarrow> tid \<Rightarrow> nat \<Rightarrow> dtor_pc \<Rightarrow> ('a, 'v, 'x, 'e) stack_client \<Rightarrow> ('a, 'v, 'x, 'e) dtor_res" where
  "dtor_run M t 0 pc c = ret (pc, c)"
| "dtor_run M t (Suc k) pc c = rbind (dtor_step M t pc c) (\<lambda>(pc1, c1). dtor_run M t k pc1 c1)"

text \<open>No count is at its limit.\<close>

definition counts_room :: "('a, 'v, 'x, 'e) stack_client \<Rightarrow> bool" where
  "counts_room c \<longleftrightarrow> (\<forall>p\<in>fset (fmdom (heap (snd (snd c)))). strong_room p (snd (snd c)))"

section \<open>Clearing a member whose object has another owner\<close>

text \<open>The part of \<^verbatim>\<open>decrement_ref_cnt\<close> that touches the counts.\<close>

definition release_one :: "ptr \<Rightarrow> ('v, 'x, 'e) mm_state \<Rightarrow> error + (u32 \<times> EjectAction) \<times> ('v, 'x, 'e) mm_state" where
  "release_one p s =
     (if p = nullptr then Inl (AssertionFailed ''ptr != nullptr'')
      else with_object p s (\<lambda>ob. let (n, ob1) = get_use_count ob; (result, ob2) = release_refs 1 ob1 in Inr ((n, result), put_object p ob2 s)))"

lemma release_one_decrement:
  "decrement_ref_cnt p s = Inr ([], s') \<longleftrightarrow> (\<exists>m. 1 \<le> m \<and> release_one p s = Inr ((m, EA_nothing), s'))"
proof (cases "p = nullptr \<or> fmlookup (heap s) p = None")
  case True
  then show ?thesis by (auto simp: decrement_ref_cnt_def release_one_def with_object_def)
next
  case False
  then obtain ob where ob: "p \<noteq> nullptr" "fmlookup (heap s) p = Some ob" by auto
  obtain m ob1 where m: "get_use_count ob = (m, ob1)" by fastforce
  obtain res ob2 where res: "release_refs 1 ob1 = (res, ob2)" by fastforce
  from ob m res show ?thesis
    by (cases res) (auto simp: decrement_ref_cnt_def release_one_def with_object_def split: option.splits)
qed

lemma counts_storage:
  "get_use_count (ob\<lparr>storage := x\<rparr>) = (fst (get_use_count ob), (snd (get_use_count ob))\<lparr>storage := x\<rparr>)" "storage (snd (get_use_count ob)) = storage ob"
  "release_refs k (ob\<lparr>storage := x\<rparr>) = (fst (release_refs k ob), (snd (release_refs k ob))\<lparr>storage := x\<rparr>)" "storage (snd (release_refs k ob)) = storage ob"
proof -
  obtain z y where d: "sc_decrement (ref_cnt ob) (ucast k) = (z, y)" by fastforce
  obtain w v where w: "sc_load (weak_cnt ob) = (w, v)" by fastforce
  from d w show "release_refs k (ob\<lparr>storage := x\<rparr>) = (fst (release_refs k ob), (snd (release_refs k ob))\<lparr>storage := x\<rparr>)"
    "storage (snd (release_refs k ob)) = storage ob" by (simp_all add: release_refs_def get_weak_count_def Let_def)
  obtain n u where "sc_load (ref_cnt ob) = (n, u)" by fastforce
  then show "get_use_count (ob\<lparr>storage := x\<rparr>) = (fst (get_use_count ob), (snd (get_use_count ob))\<lparr>storage := x\<rparr>)"
    "storage (snd (get_use_count ob)) = storage ob" by (simp_all add: get_use_count_def)
qed

lemma release_one_put:
  fixes st :: "('v, 'x, 'e) mm_state prog"
  assumes "release_one p (snd st) = Inr (b, s')" and "place_put pl m st = Inr st1"
  shows "\<exists>s2. release_one p (snd st1) = Inr (b, s2) \<and> place_put pl m (fst st, s') = Inr (fst st1, s2)"
proof -
  let ?upd = "\<lambda>ob :: ('v, 'x) counted_object_scheme. ((fst (get_use_count ob), fst (release_refs 1 (snd (get_use_count ob)))), snd (release_refs 1 (snd (get_use_count ob))))"
  show ?thesis
  proof (rule count_update_put [where inc = release_one and upd = ?upd, OF _ _ _ assms])
    fix p and s :: "('v, 'x, 'e) mm_state"
    show "release_one p s = (if p = nullptr then Inl (AssertionFailed ''ptr != nullptr'')
        else with_object p s (\<lambda>ob. Inr (fst (?upd ob), put_object p (snd (?upd ob)) s)))"
      by (simp add: release_one_def case_prod_beta Let_def)
  qed (simp_all add: counts_storage)
qed

lemma release_one_contents:
  assumes "release_one p s = Inr (b, s')"
  shows "contents s' = contents s" and "mm.more s' = mm.more s"
  using assms
  by (auto simp: counts_storage(2,4) release_one_def with_object_Inr case_prod_beta Let_def contents_def put_object_def fun_eq_iff split: if_splits)

lemma decrement_shared:
  assumes ok: "mm_ok (add_mset (T_strong, p) R) s" and other: "(T_strong, p) \<in># R + heap_tokens s"
  shows "\<exists>s'. decrement_ref_cnt p s = Inr ([] :: 'c mm_call list, s') \<and> mm_ok R s'"
proof -
  from ok obtain ob c where ob: "fmlookup (heap s) p = Some ob" "p \<noteq> nullptr"
      and c: "c = token_count (R + heap_tokens s) p" "object_ok ob (c(T_strong := Suc (c T_strong)))"
    by (rule mm_ok_object)
  have pos: "0 < c T_strong" using other c(1) by (simp add: token_count_def)
  have rep: "strong_rep ob (Suc (c T_strong))" "\<exists>m. weak_rep ob m" using c(2) pos by (auto simp: object_ok_def split: if_splits)
  then obtain m where m: "weak_rep ob m" by blast
  from release_refs_rep [OF rep(1) _ m] pos obtain x where x: "release_refs 1 ob = (EA_nothing, ob\<lparr>ref_cnt := x\<rparr>)" by auto
  have "decrement_ref_cnt p s = Inr ([] :: 'c mm_call list, put_object p (ob\<lparr>ref_cnt := x\<rparr>) s)"
    using ob count_zero_iff(1) [OF rep(1)] x
    by (simp add: decrement_ref_cnt_def with_object_def get_use_count_rep [OF rep(1)] one_le_u32 del: of_nat_Suc)
  moreover from spendsD [OF decrement_ref_cnt_spends ok] obtain new :: "'c mm_call list" and s' where
    "decrement_ref_cnt p s = Inr (new, s')" "mm_ok (calls_tokens (\<lambda>_. {#}) new + R) s'" by blast
  ultimately show ?thesis by auto
qed

section \<open>What is left of the list\<close>

definition unlinked :: "'v vmap \<Rightarrow> ptr \<Rightarrow> bool" where
  "unlinked f q \<longleftrightarrow> q = nullptr \<or> f q = None \<or> members (the (f q)) = [M_rc nullptr]"

text \<open>The nodes of \<open>Q\<close> are unlinked, or still to come from \<open>a\<close> on.\<close>

definition linked_from :: "ptr set \<Rightarrow> 'v vmap \<Rightarrow> ptr \<Rightarrow> bool" where
  "linked_from Q f a \<longleftrightarrow> (\<forall>q\<in>Q. unlinked f q \<or> (follows f)\<^sup>*\<^sup>* a q)"

lemma unlinked_le:
  assumes "unlinked f q" and "f' \<subseteq>\<^sub>m f"
  shows "unlinked f' q"
proof (cases "f' q = None")
  case False
  then have "q \<in> dom f'" by blast
  with assms(2) have "f' q = f q" by (simp add: map_le_def)
  with assms(1) show ?thesis by (simp add: unlinked_def)
qed (simp add: unlinked_def)

lemma value_kept:
  assumes "f' \<subseteq>\<^sub>m f ++ [p \<mapsto> m]" and "alive f' y" and "y \<noteq> nullptr"
  shows "f' y = (if y = p then Some m else f y)"
proof -
  have "y \<in> dom f'" using assms(2,3) by (auto simp: alive_def)
  with assms(1) have "f' y = (f ++ [p \<mapsto> m]) y" by (simp add: map_le_def)
  then show ?thesis by simp
qed

lemma linked_from_le:
  assumes "linked_from Q f a" and "f' \<subseteq>\<^sub>m f" and "node_heap f'" and "alive f' a"
  shows "linked_from Q f' a"
  using assms unlinked_le [OF _ assms(2)] path_keeps [of f a _ f' Map.empty] by (auto simp: linked_from_def)

lemma follows_null [simp]: "(follows f)\<^sup>*\<^sup>* nullptr q \<longleftrightarrow> q = nullptr"
  by (auto elim: converse_rtranclpE simp: follows_def)

lemma follows_deterministic: "follows f p q \<Longrightarrow> follows f p r \<Longrightarrow> q = r"
  by (auto simp: follows_def)

lemma rep_path: "(follows f)\<^sup>*\<^sup>* a b \<Longrightarrow> rep f a xs \<Longrightarrow> \<exists>ys. rep f b ys \<and> length ys \<le> length xs"
proof (induction arbitrary: xs rule: converse_rtranclp_induct)
  case (step y z)
  then obtain x xs' where "xs = x # xs'" "rep f z xs'" by (cases xs) (auto simp: follows_def)
  with step.IH [of xs'] show ?case by fastforce
qed blast

lemma rep_acyclic:
  assumes "rep f p xs" and "follows f p d"
  shows "\<not> (follows f)\<^sup>*\<^sup>* d p"
proof
  assume "(follows f)\<^sup>*\<^sup>* d p"
  moreover obtain x ys where ys: "xs = x # ys" "rep f d ys" using assms by (cases xs) (auto simp: follows_def)
  ultimately obtain zs where "rep f p zs" "length zs \<le> length ys" using rep_path by blast
  with rep_elements [OF assms(1), of zs] ys show False by auto
qed

text \<open>A node that the rest of the list does not lead to loses its successor.\<close>

lemma rest_keeps:
  assumes "(follows f)\<^sup>*\<^sup>* d q" and f': "f' \<subseteq>\<^sub>m f ++ [p \<mapsto> m]" and "\<not> (follows f)\<^sup>*\<^sup>* d p" and "node_heap f'" and "alive f' d"
  shows "(follows f')\<^sup>*\<^sup>* d q \<and> alive f' q"
  using assms(1,3,5)
proof (induction rule: converse_rtranclp_induct)
  case (step y z)
  have y: "y \<noteq> p" "y \<noteq> nullptr" using step.prems(1) step.hyps(1) by (auto simp: follows_def)
  then have "f' y = f y" using value_kept [OF f' step.prems(2)] by simp
  with step.hyps(1) have "follows f' y z" by (simp add: follows_def)
  moreover have "\<not> (follows f)\<^sup>*\<^sup>* z p" using step.prems(1) step.hyps(1) by (meson converse_rtranclp_into_rtranclp)
  ultimately show ?case using step.IH alive_follows [OF assms(4)] by (meson converse_rtranclp_into_rtranclp)
qed simp

lemma rest_rep:
  assumes "rep f d xs" and f': "f' \<subseteq>\<^sub>m f ++ [p \<mapsto> m]" and "\<not> (follows f)\<^sup>*\<^sup>* d p" and "node_heap f'" and "alive f' d"
  shows "rep f' d xs"
  using assms(1,3,5)
proof (induction xs arbitrary: d)
  case (Cons x xs)
  then obtain z where z: "d \<noteq> nullptr" "f d = Some \<lparr>payload = x, members = [M_rc z]\<rparr>" "rep f z xs" by auto
  have "d \<noteq> p" using Cons.prems(2) by auto
  then have fd: "f' d = f d" using value_kept [OF f' Cons.prems(3) z(1)] by simp
  have fol: "follows f d z" "follows f' d z" using z fd by (simp_all add: follows_def)
  then have "\<not> (follows f)\<^sup>*\<^sup>* z p" using Cons.prems(2) by (meson converse_rtranclp_into_rtranclp)
  from Cons.IH [OF z(3) this alive_follows [OF assms(4) fol(2)]] fd z show ?case by simp
qed simp

context stack_backend
begin

lemma shared_clear:
  assumes ok: "okay t st" "prog_ok etoks R st" and x: "x < length (fst st)" "fst st ! x = M_rc d" and F: "place_get (Field p i) st = Inr (M_rc d)"
  shows "\<exists>st' st1. rc_assign_null M t (Field p i) st = ret st' \<and> okay t st' \<and> prog_ok etoks R st' \<and> fst st' = fst st \<and>
    place_put (Field p i) (M_rc nullptr) st = Inr st1 \<and> contents (snd st') = contents (snd st1)"
proof -
  from place_exchange [OF F, of t "M_rc nullptr" R] ok obtain st1 where
    st1: "place_put (Field p i) (M_rc nullptr) st = Inr st1" "prog_ok etoks (member_tokens (M_rc d) + R) st1" "okay t st1" by auto
  have vars: "fst st1 = fst st" using place_put_vars [OF st1(1)] by simp
  show ?thesis
  proof (cases "d = nullptr")
    case True
    then have "rc_assign_null M t (Field p i) st = ret st1"
      using F st1(1) by (simp add: rc_assign_null_def rc_clear_def ptr_clear_def ret_def del: place_get.simps place_put.simps)
    with st1 vars True show ?thesis by auto
  next
    case False
    let ?X = "R + members_tokens (fst st) + etoks (snd st1)"
    have "(T_strong, d) \<in># members_tokens (fst st)" using members_tokens_nth [OF x(1), of "(T_strong, d)"] x(2) False by simp
    moreover have "mm_ok (add_mset (T_strong, d) ?X) (snd st1)" using st1(2) vars False by (simp add: prog_ok_def)
    ultimately obtain s2 where s2: "decrement_ref_cnt d (snd st1) = Inr ([] :: 'c mm_call list, s2)" "mm_ok ?X s2"
      using decrement_shared [of d ?X "snd st1"] by auto
    then obtain m where m: "1 \<le> m" "release_one d (snd st1) = Inr ((m, EA_nothing), s2)" by (auto simp: release_one_decrement)
    have "d \<in> fset (fmdom (heap (snd st)))"
      using token_object [OF ok(2) [unfolded prog_ok_def], of T_strong d] \<open>(T_strong, d) \<in># members_tokens (fst st)\<close> by (auto intro: fmdomI)
    then obtain b s' where s': "release_one d (snd st) = Inr (b, s')"
      using False by (cases "release_one d (snd st)") (auto simp: release_one_def with_object_def case_prod_beta Let_def split: option.splits)
    from release_one_put [OF s' st1(1)] m(2) have put: "b = (m, EA_nothing)" "place_put (Field p i) (M_rc nullptr) (fst st, s') = Inr (fst st1, s2)" by auto
    have "decrement_ref_cnt d (snd st) = Inr ([] :: 'c mm_call list, s')" using s' put(1) m(1) by (auto simp: release_one_decrement)
    then have "mm_run (mm_step retire derived) t [C_decrement_ref_cnt d] (snd st) = ret s'" by (simp add: mm_run_Cons ret_def)
    then have "run_calls (mg_step M) t [C_decrement_ref_cnt d] st = ret (fst st, s')" by (simp add: run_calls_eq_ret step)
    with F put(2) False have "rc_assign_null M t (Field p i) st = ret (fst st1, s2)"
      by (simp add: rc_assign_null_def rc_clear_def ptr_clear_def ret_def del: place_get.simps place_put.simps)
    moreover have "contents s2 = contents (snd st1)" "mm.more s2 = mm.more (snd st1)" using release_one_contents [OF m(2)] by simp_all
    moreover have "okay t (fst st1, s2)" "etoks s2 = etoks (snd st1)" using ext [of s2 "snd st1" t] calculation(3) st1(3) by auto
    ultimately show ?thesis using st1(1) s2(2) vars by (auto simp: prog_ok_def)
  qed
qed

section \<open>Steps of the destructor\<close>

definition fine :: "('a, ('v, 'x, 'e) mm_state) client \<Rightarrow> bool" where
  "fine c \<longleftrightarrow> client_ok M etoks good c \<and> layout c \<and> nodes_only (cont c)"

lemma fineD: "fine c \<Longrightarrow> client_ok M etoks good c" "fine c \<Longrightarrow> layout c" "fine c \<Longrightarrow> node_heap (cont c)"
  "fine c \<Longrightarrow> t < n \<Longrightarrow> okay t (snd c) \<and> prog_ok etoks (snapshots_tokens M (fst c)) (snd c)"
  by (simp_all add: fine_def client_node_heap) (simp add: client_ok_def)

lemma fine_alive:
  assumes "fine c" and "t < n"
  shows "alive (cont c) (head c)" and "alive (cont c) (tmp c t)" and "alive (cont c) (new c t)"
  using layout_vars [OF fineD(2) [OF assms(1)]] assms(2) client_var_alive [OF fineD(1) [OF assms(1)]] by blast+

lemma nodes_only_le: "nodes_only f \<Longrightarrow> f' \<subseteq>\<^sub>m f \<Longrightarrow> nodes_only f'"
  unfolding nodes_only_def map_le_def by (metis domI)

text \<open>A statement that writes one variable and no member.\<close>

lemma fine_update:
  assumes "fine (sn, st)" and "t < n" and "turns t Map.empty st st'" and "prog_ok etoks (snapshots_tokens M sn) st'"
    and "fst st' = (fst st)[i := m]" and "kind_of m = kind_of (fst st ! i)"
  shows "fine (sn, st') \<and> contents (snd st') \<subseteq>\<^sub>m contents (snd st)"
  using assms layout_update [of sn st m i sn st'] nodes_only_le [of "contents (snd st)" "contents (snd st')"]
  by (auto simp: fine_def turns_def client_ok_def)

lemma exec_fine:
  assumes c: "fine (sn, st)" "t < n" and en: "enabled op (sn, st)" and "\<And>sn st. exec M t op (sn, st) = rbind (exec_prog M t op st) (\<lambda>st1. ret (sn, st1))"
    and "\<And>st'. exec_prog M t op st = ret st' \<Longrightarrow> turns t Map.empty st st'"
    and "\<And>vs. gc_step op (\<lambda>l. loc_ptr l st) (fst st) vs \<Longrightarrow> vs = (fst st)[i := m]" and "kind_of m = kind_of (fst st ! i)"
  shows "\<exists>st'. exec M t op (sn, st) = ret (sn, st') \<and> fine (sn, st') \<and> contents (snd st') \<subseteq>\<^sub>m contents (snd st) \<and> fst st' = (fst st)[i := m]"
proof -
  from exec_ok [OF fineD(1) [OF c(1)] c(2) en] assms(4) obtain st' where
    st': "exec_prog M t op st = ret st'" "client_ok M etoks good (sn, st')" "gc_step op (\<lambda>l. loc_ptr l st) (fst st) (fst st')"
    by (auto simp: rbind_eq_ret)
  from fine_update [OF c assms(5) [OF st'(1)] _ assms(6) [OF st'(3)] assms(7)] st' assms(4,6) show ?thesis by (auto simp: client_ok_def)
qed

lemma copy_assign_turns:
  assumes "rc_copy_assign M t (Var x) pl st = ret st'" and "okay t st"
  shows "turns t Map.empty st st'"
proof -
  from assms(1) obtain tmp m st1 q st2 where 1: "place_put (Var x) (M_rc (member_ptr m)) st = Inr st1" "ptr_copy increment_ref_cnt (member_ptr m) st1 = ret (q, st2)"
      "(if member_ptr tmp \<noteq> nullptr then run_calls (mm_step retire derived) t [C_decrement_ref_cnt (member_ptr tmp)] st2 else ret st2) = ret st'"
    by (auto simp: rc_copy_assign_def step ptr_copy_assign_def rbind_eq_ret simp del: place_get.simps place_put.simps)
  note 2 = put_still [OF 1(1) assms(2)]
  from copy_still [OF 1(2) _ conjunct1 [OF 2]] have 3: "okay t st2 \<and> contents (snd st2) = contents (snd st1)" by blast
  from turns_drop [OF 1(3) conjunct1 [OF 3]] 2 3 show ?thesis by (auto simp: turns_def)
qed

lemma store_null_turns:
  assumes "arc_store_null M t (Var x) st = ret st'" and "okay t st"
  shows "turns t Map.empty st st'"
proof -
  from assms(1) obtain p st1 where 1: "place_put (Var x) (M_arc nullptr) st = Inr st1" "drop_delayed (mm_step retire derived) C_delayed_decrement_ref_cnt t p st1 = ret st'"
    by (auto simp: arc_store_null_def step loc_store_def atomic_exchange_def rbind_eq_ret simp del: place_put.simps)
  note 2 = put_still [OF 1(1) assms(2)]
  from turns_drop [OF 1(2) [unfolded drop_delayed_def] conjunct1 [OF 2]] 2 show ?thesis by (auto simp: turns_def)
qed

text \<open>At each place: what is still to be unlinked, and how many steps are left at most.\<close>

fun dtor_ok :: "tid \<Rightarrow> ptr set \<Rightarrow> dtor_pc \<Rightarrow> ('a, ('v, 'x, 'e) mm_state) client \<Rightarrow> nat \<Rightarrow> bool" where
  "dtor_ok t Q Dtor_load c m \<longleftrightarrow> fine c \<and> (\<exists>xs. rep (cont c) (head c) xs \<and> m = 3 * length xs + 8) \<and> linked_from Q (cont c) (head c)"
| "dtor_ok t Q Dtor_store c m \<longleftrightarrow> fine c \<and> tmp c t \<noteq> nullptr \<and> (\<exists>xs. rep (cont c) (tmp c t) xs \<and> m = 3 * length xs + 6) \<and> linked_from Q (cont c) (tmp c t)"
| "dtor_ok t Q Dtor_next c m \<longleftrightarrow> fine c \<and> head c = nullptr \<and> tmp c t \<noteq> nullptr \<and> (\<exists>xs. rep (cont c) (tmp c t) xs \<and> m = 3 * length xs + 5) \<and>
     linked_from Q (cont c) (tmp c t)"
| "dtor_ok t Q Dtor_unlink c m \<longleftrightarrow> fine c \<and> head c = nullptr \<and> follows (cont c) (tmp c t) (new c t) \<and>
     (\<exists>xs. rep (cont c) (tmp c t) xs \<and> m = 3 * length xs + 4) \<and> linked_from Q (cont c) (tmp c t)"
| "dtor_ok t Q Dtor_node c m \<longleftrightarrow> fine c \<and> head c = nullptr \<and> new c t \<noteq> nullptr \<and> (\<exists>xs. rep (cont c) (new c t) xs \<and> m = 3 * length xs + 6) \<and>
     linked_from Q (cont c) (new c t)"
| "dtor_ok t Q Dtor_end_next c m \<longleftrightarrow> fine c \<and> head c = nullptr \<and> linked_from Q (cont c) nullptr \<and> m = 3"
| "dtor_ok t Q Dtor_end_node c m \<longleftrightarrow> fine c \<and> head c = nullptr \<and> linked_from Q (cont c) nullptr \<and> m = 2"
| "dtor_ok t Q Dtor_end_head c m \<longleftrightarrow> fine c \<and> head c = nullptr \<and> linked_from Q (cont c) nullptr \<and> m = 1"
| "dtor_ok t Q Dtor_done c m \<longleftrightarrow> fine c \<and> head c = nullptr \<and> linked_from Q (cont c) nullptr \<and> m = 0"

lemma chain_kept:
  assumes "fine c'" and "cont c' \<subseteq>\<^sub>m cont c" and "alive (cont c') a"
  shows "rep (cont c) a xs \<Longrightarrow> rep (cont c') a xs" and "linked_from Q (cont c) a \<Longrightarrow> linked_from Q (cont c') a"
  using rep_keeps [of "cont c" a xs "cont c'" Map.empty] linked_from_le [of Q "cont c" a "cont c'"] fineD(3) [OF assms(1)] assms(2,3) by simp_all

definition dtor_goes :: "tid \<Rightarrow> ptr set \<Rightarrow> dtor_pc \<Rightarrow> ('a, ('v, 'x, 'e) mm_state) client \<Rightarrow> nat \<Rightarrow> bool" where
  "dtor_goes t Q pc c m \<longleftrightarrow> (\<exists>pc' c' m'. dtor_step M t pc c = ret (pc', c') \<and> dtor_ok t Q pc' c' m' \<and> m' < m)"

lemma goes: "dtor_step M t pc c = ret (pc', c') \<Longrightarrow> dtor_ok t Q pc' c' m' \<Longrightarrow> m' < m \<Longrightarrow> dtor_goes t Q pc c m"
  by (auto simp: dtor_goes_def)

lemma room_ptr:
  assumes "counts_room c" and "alive (cont c) p"
  shows "room_strong p (snd c)"
  using assms by (auto simp: counts_room_def room_strong_def alive_def contents_eq_Some intro: fmdomI)

lemma dtor_load_goes:
  assumes "dtor_ok t Q Dtor_load c m" and t: "t < n" and room: "counts_room c"
  shows "dtor_goes t Q Dtor_load c m"
proof -
  obtain sn st where c: "c = (sn, st)" by (cases c)
  from assms(1) obtain xs where f: "fine c" and xs: "rep (cont c) (head c) xs" "m = 3 * length xs + 8" "linked_from Q (cont c) (head c)" by auto
  note vars = layout_vars [OF fineD(2) [OF f]]
  have h: "loc_ptr (Var 0) st = head c" using vars(1,2) c by (cases st) (simp add: loc_ptr_def)
  have en: "enabled (Op_load (tmp_var t) (Var 0)) (sn, st)"
    using vars(1,2) vars(3) [OF t] room_ptr [OF room fine_alive(1) [OF f t]] h c by (cases st) (simp add: typed_def)
  have "okay t st" using fineD(4) [OF f t] c by simp
  then have "turns t Map.empty st st'" if "exec_prog M t (Op_load (tmp_var t) (Var 0)) st = ret st'" for st' using that load_turns by blast
  from exec_fine [OF f [unfolded c] t en _ this, of "tmp_var t" "M_rc (head c)"] vars(3) [OF t] h c obtain st' where
    st': "exec M t (Op_load (tmp_var t) (Var 0)) (sn, st) = ret (sn, st')" "fine (sn, st')" "contents (snd st') \<subseteq>\<^sub>m contents (snd st)"
      "fst st' = (fst st)[tmp_var t := M_rc (head c)]" by (auto simp del: exec_prog.simps)
  have ptr: "var_ptr x st' = (if x = tmp_var t then head c else var_ptr x st)" for x
    using var_ptr_update [OF st'(4)] vars(3) [OF t] c by simp
  have a: "alive (cont (sn, st')) (head c)" using fine_alive(1) [OF st'(2) t] ptr c by simp
  note kept = chain_kept [OF st'(2) _ a, of c]
  let ?pc = "if head c \<noteq> nullptr then Dtor_store else Dtor_end_node" and ?m = "if head c \<noteq> nullptr then 3 * length xs + 6 else 2"
  have ok: "dtor_ok t Q ?pc (sn, st') ?m" using st' kept(1) [of xs] kept(2) [of Q] xs ptr c by auto
  have step: "dtor_step M t Dtor_load c = ret (?pc, (sn, st'))" using st'(1) ptr c by (simp add: dtor_load_def)
  show ?thesis by (rule goes [OF step ok]) (simp add: xs(2))
qed

lemma dtor_store_goes:
  assumes "dtor_ok t Q Dtor_store c m" and t: "t < n"
  shows "dtor_goes t Q Dtor_store c m"
proof -
  obtain sn st where c: "c = (sn, st)" by (cases c)
  from assms(1) obtain xs where f: "fine c" and xs: "rep (cont c) (tmp c t) xs" "m = 3 * length xs + 6" "linked_from Q (cont c) (tmp c t)" "tmp c t \<noteq> nullptr" by auto
  note vars = layout_vars [OF fineD(2) [OF f]]
  have en: "enabled (Op_store_null (Var 0)) (sn, st)" using vars(1,2) c by (cases st) (simp add: typed_def)
  have "okay t st" using fineD(4) [OF f t] c by simp
  then have "turns t Map.empty st st'" if "exec_prog M t (Op_store_null (Var 0)) st = ret st'" for st' using that store_null_turns [of t 0 st st'] by simp
  from exec_fine [OF f [unfolded c] t en _ this, of 0 "M_arc nullptr"] vars(1,2) c obtain st' where
    st': "exec M t (Op_store_null (Var 0)) (sn, st) = ret (sn, st')" "fine (sn, st')" "contents (snd st') \<subseteq>\<^sub>m contents (snd st)"
      "fst st' = (fst st)[0 := M_arc nullptr]" by auto
  have ptr: "var_ptr x st' = (if x = 0 then nullptr else var_ptr x st)" for x using var_ptr_update [OF st'(4)] vars(1) c by simp
  have a: "alive (cont (sn, st')) (tmp c t)" using fine_alive(2) [OF st'(2) t] ptr c by simp
  note kept = chain_kept [OF st'(2) _ a, of c]
  have ok: "dtor_ok t Q Dtor_next (sn, st') (3 * length xs + 5)" using st' kept(1) [of xs] kept(2) [of Q] xs ptr c by auto
  have step: "dtor_step M t Dtor_store c = ret (Dtor_next, (sn, st'))" using st'(1) c by (simp add: dtor_store_def)
  show ?thesis by (rule goes [OF step ok]) (simp add: xs(2))
qed

lemma dtor_node_goes:
  assumes "dtor_ok t Q Dtor_node c m" and t: "t < n" and room: "counts_room c"
  shows "dtor_goes t Q Dtor_node c m"
proof -
  obtain sn st where c: "c = (sn, st)" by (cases c)
  from assms(1) obtain xs where f: "fine c" and xs: "rep (cont c) (new c t) xs" "m = 3 * length xs + 6" "linked_from Q (cont c) (new c t)" "new c t \<noteq> nullptr" "head c = nullptr"
    by auto
  note vars = layout_vars [OF fineD(2) [OF f]]
  have en: "enabled (Op_copy (tmp_var t) (new_var t)) (sn, st)"
    using vars(3,4) [OF t] room_ptr [OF room fine_alive(3) [OF f t]] c by (cases st) (simp add: typed_def)
  have "okay t st" using fineD(4) [OF f t] c by simp
  then have "turns t Map.empty st st'" if "exec_prog M t (Op_copy (tmp_var t) (new_var t)) st = ret st'" for st'
    using that copy_assign_turns [of t "tmp_var t" "Var (new_var t)" st st'] by simp
  from exec_fine [OF f [unfolded c] t en _ this, of "tmp_var t" "M_rc (new c t)"] vars(3,4) [OF t] c obtain st' where
    st': "exec M t (Op_copy (tmp_var t) (new_var t)) (sn, st) = ret (sn, st')" "fine (sn, st')" "contents (snd st') \<subseteq>\<^sub>m contents (snd st)"
      "fst st' = (fst st)[tmp_var t := M_rc (new c t)]" by (auto simp: ptr_of_def)
  have ptr: "var_ptr x st' = (if x = tmp_var t then new c t else var_ptr x st)" for x
    using var_ptr_update [OF st'(4)] vars(3) [OF t] c by simp
  have a: "alive (cont (sn, st')) (new c t)" using fine_alive(3) [OF st'(2) t] ptr c by simp
  note kept = chain_kept [OF st'(2) _ a, of c]
  have ok: "dtor_ok t Q Dtor_next (sn, st') (3 * length xs + 5)" using st' kept(1) [of xs] kept(2) [of Q] xs ptr c by auto
  have step: "dtor_step M t Dtor_node c = ret (Dtor_next, (sn, st'))" using st'(1) c by (simp add: dtor_node_def)
  show ?thesis by (rule goes [OF step ok]) (simp add: xs(2))
qed

lemma dtor_next_goes:
  assumes "dtor_ok t Q Dtor_next c m" and t: "t < n" and room: "counts_room c"
  shows "dtor_goes t Q Dtor_next c m"
proof -
  obtain sn st where c: "c = (sn, st)" by (cases c)
  from assms(1) obtain xs where f: "fine c" and xs: "rep (cont c) (tmp c t) xs" "m = 3 * length xs + 5" "linked_from Q (cont c) (tmp c t)" "tmp c t \<noteq> nullptr" "head c = nullptr"
    by auto
  note vars = layout_vars [OF fineD(2) [OF f]]
  have ok: "okay t st" "prog_ok etoks (snapshots_tokens M sn) st" using fineD(4) [OF f t] c by simp_all
  from xs(1,4) obtain v ys d where p: "xs = v # ys" "cont c (tmp c t) = Some \<lparr>payload = v, members = [M_rc d]\<rparr>" "rep (cont c) d ys" by (cases xs) auto
  have get: "place_get (Var (new_var t)) st = Inr (M_rc (new c t))" "place_get (Field (tmp c t) 0) st = Inr (M_rc d)"
    using vars(4) [OF t] p(2) c by (simp_all add: get_var_iff field_contents del: place_get.simps)
  have "room_strong d (snd c)" using room_ptr [OF room rep_alive [OF p(3)]] .
  then have "d \<noteq> nullptr \<Longrightarrow> strong_room d (snd st)" using c by (simp add: room_strong_def)
  from strong.copy_assign_ok [OF ok get this] obtain st' where
    st': "rc_copy_assign M t (Var (new_var t)) (Field (tmp c t) 0) st = ret st'" "prog_ok etoks (snapshots_tokens M sn) st'"
      "fst st' = (fst st)[new_var t := M_rc d]" by (auto simp: rc_copy_assign_def step)
  have "kind_of (M_rc d) = kind_of (fst st ! new_var t)" using vars(4) [OF t] c by simp
  from fine_update [OF f [unfolded c] t copy_assign_turns [OF st'(1)] st'(2,3) this] ok c
  have f': "fine (sn, st')" "contents (snd st') \<subseteq>\<^sub>m contents (snd st)" by auto
  have ptr: "var_ptr x st' = (if x = new_var t then d else var_ptr x st)" for x using var_ptr_update [OF st'(3)] vars(4) [OF t] c by simp
  have a: "alive (cont (sn, st')) (tmp c t)" using fine_alive(2) [OF f'(1) t] ptr c by simp
  note kept = chain_kept [OF f'(1) _ a, of c]
  have "follows (cont (sn, st')) (tmp c t) d"
    using kept_value [of "cont c" "tmp c t" _ "cont (sn, st')" Map.empty, OF p(2)] a f'(2) xs(4) c by (simp add: follows_def)
  then have ok': "dtor_ok t Q Dtor_unlink (sn, st') (3 * length xs + 4)" using f' kept(1) [of xs] kept(2) [of Q] xs ptr c by auto
  have step: "dtor_step M t Dtor_next c = ret (Dtor_unlink, (sn, st'))" using st'(1) c by (simp add: dtor_next_def)
  show ?thesis by (rule goes [OF step ok']) (simp add: xs(2))
qed

lemma dtor_unlink_goes:
  assumes "dtor_ok t Q Dtor_unlink c m" and t: "t < n"
  shows "dtor_goes t Q Dtor_unlink c m"
proof -
  obtain sn st where c: "c = (sn, st)" by (cases c)
  define p d where "p = tmp c t" and "d = new c t"
  from assms(1) obtain xs where f: "fine c" and xs: "rep (cont c) p xs" "m = 3 * length xs + 4" "linked_from Q (cont c) p" "head c = nullptr" and fol: "follows (cont c) p d"
    by (auto simp: p_def d_def)
  note vars = layout_vars [OF fineD(2) [OF f]]
  have ok: "okay t st" "prog_ok etoks (snapshots_tokens M sn) st" using fineD(4) [OF f t] c by simp_all
  from fol obtain v where v: "p \<noteq> nullptr" "cont c p = Some \<lparr>payload = v, members = [M_rc d]\<rparr>" by (auto simp: follows_def)
  with xs(1) obtain ys where ys: "xs = v # ys" "rep (cont c) d ys" by (cases xs) auto
  have get: "place_get (Field p 0) st = Inr (M_rc d)" using v c by (simp add: field_contents del: place_get.simps)
  have var: "new_var t < length (fst st)" "fst st ! new_var t = M_rc d" using vars(4) [OF t] c by (simp_all add: d_def)
  from shared_clear [OF ok var get] obtain st' st1 where
    st': "rc_assign_null M t (Field p 0) st = ret st'" "okay t st'" "prog_ok etoks (snapshots_tokens M sn) st'" "fst st' = fst st"
      "place_put (Field p 0) (M_rc nullptr) st = Inr st1" "contents (snd st') = contents (snd st1)" by blast
  let ?m = "\<lparr>payload = v, members = [M_rc nullptr]\<rparr>"
  have cont': "contents (snd st') = (contents (snd st))(p \<mapsto> ?m)"
    using place_put_values(3) [OF st'(5) refl] st'(6) v(2) c by auto
  have "nodes_only (contents (snd st'))" using f c unfolding cont' by (auto simp: fine_def nodes_only_def)
  then have f': "fine (sn, st')" using f st'(2-4) c by (simp add: fine_def client_ok_def layout_def)
  have ptr: "var_ptr x st' = var_ptr x st" for x using st'(4) by (simp add: var_ptr_def)
  have acyc: "\<not> (follows (cont c))\<^sup>*\<^sup>* d p" using rep_acyclic [OF xs(1) fol] .
  have le: "cont (sn, st') \<subseteq>\<^sub>m cont c ++ [p \<mapsto> ?m]" using cont' c by simp
  have a: "alive (cont (sn, st')) d" using fine_alive(3) [OF f' t] ptr c by (simp add: d_def)
  have rep': "rep (cont (sn, st')) d ys" by (rule rest_rep [OF ys(2) le acyc fineD(3) [OF f'] a])
  have Q': "linked_from Q (cont (sn, st')) d" unfolding linked_from_def
  proof
    fix q assume "q \<in> Q"
    with xs(3) consider "q = p" | "q \<noteq> p" "unlinked (cont c) q" | "q \<noteq> p" "(follows (cont c))\<^sup>*\<^sup>* p q" by (auto simp: linked_from_def)
    then show "unlinked (cont (sn, st')) q \<or> (follows (cont (sn, st')))\<^sup>*\<^sup>* d q"
    proof cases
      case 3
      then obtain z where "follows (cont c) p z" "(follows (cont c))\<^sup>*\<^sup>* z q" by (metis converse_rtranclpE)
      with follows_deterministic [OF fol] have "(follows (cont c))\<^sup>*\<^sup>* d q" by metis
      from rest_keeps [OF this le acyc fineD(3) [OF f'] a] show ?thesis by blast
    qed (simp_all add: unlinked_def cont' c)
  qed
  let ?pc = "if d \<noteq> nullptr then Dtor_node else Dtor_end_next" and ?k = "if d \<noteq> nullptr then 3 * length ys + 6 else 3"
  have ok': "dtor_ok t Q ?pc (sn, st') ?k" using f' rep' Q' ptr xs(4) c by (auto simp: d_def)
  have step: "dtor_step M t Dtor_unlink c = ret (?pc, (sn, st'))" using st'(1) ptr c by (simp add: dtor_unlink_def p_def d_def)
  show ?thesis by (rule goes [OF step ok']) (simp add: xs(2) ys(1))
qed

lemma dtor_end_goes:
  assumes "dtor_ok t Q pc c m" and t: "t < n" and pc: "pc = Dtor_end_next \<or> pc = Dtor_end_node"
  shows "dtor_goes t Q pc c m"
proof -
  obtain sn st where c: "c = (sn, st)" by (cases c)
  define x where "x = (if pc = Dtor_end_next then new_var t else tmp_var t)"
  from assms(1) pc have f: "fine c" and Q: "linked_from Q (cont c) nullptr" "head c = nullptr" by auto
  note vars = layout_vars [OF fineD(2) [OF f]] and ok = fineD(4) [OF f t]
  have v: "x < length (fst st)" "fst st ! x = M_rc (var_ptr x st)" "x \<noteq> 0" using vars(3,4) [OF t] c by (simp_all add: x_def)
  then have en: "enabled (Op_clear x) (sn, st)" by (cases st) (simp add: typed_def)
  have "turns t Map.empty st st'" if "exec_prog M t (Op_clear x) st = ret st'" for st' using that turns_clear [of t x st st'] ok c by simp
  from exec_fine [OF f [unfolded c] t en _ this, of x "M_rc nullptr"] v obtain st' where
    st': "exec M t (Op_clear x) (sn, st) = ret (sn, st')" "fine (sn, st')" "contents (snd st') \<subseteq>\<^sub>m contents (snd st)"
      "fst st' = (fst st)[x := M_rc nullptr]" by (auto simp del: exec_prog.simps)
  have ptr: "var_ptr 0 st' = nullptr" using var_ptr_update [OF st'(4) v(1), of 0] v(3) Q(2) c by simp
  have "alive (cont (sn, st')) nullptr" by (simp add: alive_def)
  note kept = chain_kept(2) [OF st'(2) _ this, of c Q]
  let ?pc = "if pc = Dtor_end_next then Dtor_end_node else Dtor_end_head" and ?k = "if pc = Dtor_end_next then 2 else 1"
  have ok': "dtor_ok t Q ?pc (sn, st') ?k" using st'(2,3) kept Q ptr c by simp
  have step: "dtor_step M t pc c = ret (?pc, (sn, st'))" using st'(1) pc c by (auto simp: dtor_end_var_def x_def)
  show ?thesis by (rule goes [OF step ok']) (use assms(1) pc in auto)
qed

lemma dtor_head_goes:
  assumes "dtor_ok t Q Dtor_end_head c m" and t: "t < n"
  shows "dtor_goes t Q Dtor_end_head c m"
proof -
  obtain sn vs s where c: "c = (sn, (vs, s))" by (metis prod.exhaust)
  from assms(1) have f: "fine c" and Q: "linked_from Q (cont c) nullptr" "head c = nullptr" "m = 1" by auto
  have v: "0 < length vs" "vs ! 0 = M_arc nullptr" using layout_vars(1,2) [OF fineD(2) [OF f]] Q(2) c by simp_all
  then have "vs[0 := M_arc nullptr] = vs" by (metis list_update_id)
  with v have "arc_dtor M t (Var 0) (vs, s) = ret (vs, s)" by (simp add: arc_dtor_def loc_dtor_def atomic_load_def drop_delayed_def ret_def)
  then have step: "dtor_step M t Dtor_end_head c = ret (Dtor_done, c)" by (simp add: dtor_end_head_def c)
  show ?thesis by (rule goes [OF step, of Q 0]) (use f Q in auto)
qed

lemma dtor_steps:
  assumes "dtor_ok t Q pc c m" and "t < n" and "counts_room c" and "pc \<noteq> Dtor_done"
  shows "dtor_goes t Q pc c m"
  using assms dtor_load_goes dtor_store_goes dtor_next_goes dtor_unlink_goes dtor_node_goes dtor_end_goes dtor_head_goes by (cases pc) (simp_all del: dtor_ok.simps)

lemma dtor_finishes:
  assumes "dtor_ok t Q pc c m" and "t < n"
  shows "\<exists>k pc' c'. dtor_run M t k pc c = ret (pc', c') \<and> (\<not> counts_room c' \<or> pc' = Dtor_done \<and> dtor_ok t Q Dtor_done c' 0)"
  using assms(1)
proof (induction m arbitrary: pc c rule: less_induct)
  case (less m)
  show ?case
  proof (cases "counts_room c \<and> pc \<noteq> Dtor_done")
    case True
    with dtor_steps [OF less.prems assms(2)] obtain pc1 c1 m1 where
      1: "dtor_step M t pc c = ret (pc1, c1)" "dtor_ok t Q pc1 c1 m1" "m1 < m" by (auto simp: dtor_goes_def)
    from less.IH [OF 1(3,2)] obtain k pc' c' where
      "dtor_run M t k pc1 c1 = ret (pc', c')" "\<not> counts_room c' \<or> pc' = Dtor_done \<and> dtor_ok t Q Dtor_done c' 0" by blast
    with 1(1) have "dtor_run M t (Suc k) pc c = ret (pc', c')" by simp
    with \<open>\<not> counts_room c' \<or> pc' = Dtor_done \<and> dtor_ok t Q Dtor_done c' 0\<close> show ?thesis by blast
  next
    case False
    have "dtor_run M t 0 pc c = ret (pc, c)" by simp
    moreover have "\<not> counts_room c \<or> pc = Dtor_done \<and> dtor_ok t Q Dtor_done c 0" using False less.prems by auto
    ultimately show ?thesis by blast
  qed
qed

end

section \<open>Hazard pointers\<close>

text \<open>
  (C40) The destructor of the stack terminates without an error and takes the list apart. From every reachable state, when one thread runs it with no other in between, it comes to
  its end with \<^verbatim>\<open>head\<close> empty, and each node that was in the list has been freed or has no successor any more, so that no chain of nodes is left to be destroyed recursively; unless
  a count is at its limit on the way.
\<close>

theorem stack_dtor_unlinks:
  assumes "stack_run hp_backend n (acquire_retire_init n) h ps c" and "t < n"
  shows "\<exists>k pc' c'. dtor_run hp_backend t k Dtor_load c = ret (pc', c') \<and>
    (\<not> counts_room c' \<or> pc' = Dtor_done \<and> var_ptr 0 (snd c') = nullptr \<and>
      (\<forall>q. (follows (contents (snd (snd c))))\<^sup>*\<^sup>* (var_ptr 0 (snd c)) q \<longrightarrow> unlinked (contents (snd (snd c'))) q))"
proof -
  let ?Q = "{q. (follows (contents (snd (snd c))))\<^sup>*\<^sup>* (var_ptr 0 (snd c)) q}"
  from hp_stack_inv [OF assms(1)] obtain xs where "hp_stack.fine n c" "rep (contents (snd (snd c))) (var_ptr 0 (snd c)) xs"
    by (auto simp: hp_stack.stack_inv_def hp_stack.fine_def hp_stack.sound_def)
  then have "hp_stack.dtor_ok n t ?Q Dtor_load c (3 * length xs + 8)" by (auto simp: linked_from_def)
  from hp_stack.dtor_finishes [OF this assms(2)] obtain k pc' c' where
    k: "dtor_run hp_backend t k Dtor_load c = ret (pc', c')" "\<not> counts_room c' \<or> pc' = Dtor_done \<and> hp_stack.dtor_ok n t ?Q Dtor_done c' 0" by blast
  have "unlinked f q" if "linked_from ?Q f nullptr" "q \<in> ?Q" for f :: "'b vmap" and q
    using that by (auto simp: linked_from_def unlinked_def)
  with k(2) have "\<not> counts_room c' \<or> pc' = Dtor_done \<and> var_ptr 0 (snd c') = nullptr \<and> (\<forall>q. q \<in> ?Q \<longrightarrow> unlinked (contents (snd (snd c'))) q)" by auto
  with k(1) show ?thesis by blast
qed

lemma stack_pushed_run:
  "\<exists>h ps (c :: (acquired_pointer, nat counted_object acquire_retire) client).
     stack_run hp_backend 1 (acquire_retire_init 1) h ps c \<and> var_ptr 0 (snd c) = 1"
proof -
  let ?run = "stack_exec hp_backend 1 [Act_call 0 (Push_front 5), Act_step 0 1, Act_step 0 1, Act_step 0 2, Act_step 0 2, Act_response 0]
    ([], \<lambda>_. Idle, stack_init hp_backend 1 (acquire_retire_init 1 :: nat counted_object acquire_retire))"
  have "map_option (map_sum id (\<lambda>(h, ps, c). var_ptr 0 (snd c))) ?run = Some (Inr 1)" by code_simp
  then obtain h ps c where "?run = ret (h, ps, c)" "var_ptr 0 (snd c) = 1"
    by (auto simp: map_option_case map_sum_def ret_def split: option.splits sum.splits prod.splits)
  with stack_exec_run [OF _ stack_run.start] show ?thesis by blast
qed

theorem stack_dtor_unlinks_witness:
  "\<exists>(c :: (acquired_pointer, nat counted_object acquire_retire) client) k pc' c'. var_ptr 0 (snd c) = 1 \<and> dtor_run hp_backend 0 k Dtor_load c = ret (pc', c') \<and>
    (\<not> counts_room c' \<or> pc' = Dtor_done \<and> var_ptr 0 (snd c') = nullptr \<and>
      (\<forall>q. (follows (contents (snd (snd c))))\<^sup>*\<^sup>* (var_ptr 0 (snd c)) q \<longrightarrow> unlinked (contents (snd (snd c'))) q))"
proof -
  from stack_pushed_run obtain h ps and c :: "(acquired_pointer, nat counted_object acquire_retire) client" where
    c: "stack_run hp_backend 1 (acquire_retire_init 1) h ps c" "var_ptr 0 (snd c) = 1" by blast
  have "(0 :: tid) < 1" by simp
  from stack_dtor_unlinks [OF c(1) this] c(2) show ?thesis by blast
qed

end
