(* ===== verification/Linked_List.thy ===== *)
theory Linked_List
  imports Marked_Ptr
begin

text \<open>
  \<^verbatim>\<open>examples/linked_list.h\<close>: a sorted list that threads change concurrently. A node is removed in two steps: its \<^verbatim>\<open>next\<close> pointer is marked, then it is taken out of the list,
  by the thread that marked it or by any other that comes along.

  A node is its key and the word in its \<^verbatim>\<open>next\<close>, pointer and mark. Each function is cut at its accesses to a \<^verbatim>\<open>next\<close> pointer, and threads interleave between any two
  of these steps; keys do not change and are read with the access before. A snapshot is the word that it holds: nodes stay allocated here, as they do for a snapshot or a counted
  pointer. The value of an \<^verbatim>\<open>int\<close> is a HOL integer, since keys are only compared.
\<close>

section \<open>Nodes\<close>

record list_node =
  node_key :: int
  node_next :: ptr

record linked_list =
  nodes :: "ptr \<Rightarrow> list_node option"
  tail_ptr :: ptr
  head_ptr :: ptr

definition int_max :: int where "int_max = 2 ^ 31 - 1"

definition int_lowest :: int where "int_lowest = - (2 ^ 31)"

definition node_at :: "ptr \<Rightarrow> linked_list \<Rightarrow> error + list_node" where
  "node_at p st = (case nodes st (get_ptr p) of None \<Rightarrow> Inl (UseAfterFree (get_ptr p)) | Some nd \<Rightarrow> Inr nd)"

text \<open>\<^verbatim>\<open>p->next.get_snapshot()\<close>\<close>

definition next_snapshot :: "ptr \<Rightarrow> linked_list \<Rightarrow> error + ptr" where
  "next_snapshot p st = ebind (node_at p st) (\<lambda>nd. Inr (node_next nd))"

definition set_next :: "ptr \<Rightarrow> list_node \<Rightarrow> ptr \<Rightarrow> linked_list \<Rightarrow> linked_list" where
  "set_next p nd x st = st\<lparr>nodes := (nodes st)(get_ptr p \<mapsto> nd\<lparr>node_next := x\<rparr>)\<rparr>"

text \<open>\<^verbatim>\<open>p->next.compare_and_swap(expected, desired)\<close>, which compares pointers and marks.\<close>

definition next_compare_and_swap :: "ptr \<Rightarrow> ptr \<Rightarrow> ptr \<Rightarrow> linked_list \<Rightarrow> error + bool \<times> linked_list" where
  "next_compare_and_swap p expected desired st =
     ebind (node_at p st) (\<lambda>nd. let (ok, _, x) = compare_exchange_strong (node_next nd) expected desired in Inr (ok, set_next p nd x st))"

text \<open>\<^verbatim>\<open>p->next.compare_and_set_mark(expected, mark)\<close>\<close>

definition next_compare_and_set_mark :: "ptr \<Rightarrow> ptr \<Rightarrow> ptr \<Rightarrow> linked_list \<Rightarrow> error + bool \<times> linked_list" where
  "next_compare_and_set_mark p expected mark st =
     ebind (node_at p st) (\<lambda>nd. ebind (compare_and_set_mark (node_next nd) expected mark) (\<lambda>(ok, x). Inr (ok, set_next p nd x st)))"

text \<open>The constructor: the two sentinels, at the addresses that the allocator gives out.\<close>

definition list_init :: "ptr \<Rightarrow> ptr \<Rightarrow> linked_list" where
  "list_init a b =
     \<lparr>nodes = [a \<mapsto> \<lparr>node_key = int_max, node_next = nullptr\<rparr>, b \<mapsto> \<lparr>node_key = int_lowest, node_next = a\<rparr>], tail_ptr = a, head_ptr = b\<rparr>"

section \<open>Places in the code\<close>

datatype list_call = Find_key int | Insert_key int | Remove_key int

text \<open>Who called \<^verbatim>\<open>search\<close>; \<open>By_unlink\<close> is the search at the end of \<^verbatim>\<open>remove\<close>.\<close>

datatype searcher = By_find int | By_insert int | By_remove int | By_unlink int

fun search_key :: "searcher \<Rightarrow> int" where
  "search_key (By_find k) = k"
| "search_key (By_insert k) = k"
| "search_key (By_remove k) = k"
| "search_key (By_unlink k) = k"

datatype list_pc =
    Search_head searcher
  | Search_next searcher ptr
  | Search_loop searcher ptr ptr ptr ptr
  | Search_cas searcher ptr ptr ptr
  | Search_mark searcher ptr ptr
  | Insert_make int ptr ptr
  | Insert_cas int ptr ptr ptr
  | Remove_next int ptr ptr
  | Remove_mark int ptr ptr ptr
  | Remove_unlink int ptr ptr ptr
  | List_return bool
  | List_idle

fun list_entry :: "list_call \<Rightarrow> list_pc" where
  "list_entry (Find_key k) = Search_head (By_find k)"
| "list_entry (Insert_key k) = Search_head (By_insert k)"
| "list_entry (Remove_key k) = Search_head (By_remove k)"

type_synonym list_res = "error + list_pc \<times> linked_list"

section \<open>search\<close>

text \<open>\<^verbatim>\<open>right = head.get_snapshot()\<close>, then \<^verbatim>\<open>right_nxt = right->next.get_snapshot()\<close>; \<^verbatim>\<open>left\<close> and \<^verbatim>\<open>left_nxt\<close> are empty.\<close>

definition search_head :: "searcher \<Rightarrow> linked_list \<Rightarrow> list_res" where
  "search_head who st = Inr (Search_next who (head_ptr st), st)"

definition search_next :: "searcher \<Rightarrow> ptr \<Rightarrow> linked_list \<Rightarrow> list_res" where
  "search_next who right st = ebind (next_snapshot right st) (\<lambda>right_nxt. Inr (Search_loop who nullptr nullptr right right_nxt, st))"

text \<open>The first half of the body of the loop: \<^verbatim>\<open>left\<close> and \<^verbatim>\<open>left_nxt\<close> are moved up; a snapshot that is moved from is empty.\<close>

definition search_shift :: "ptr \<Rightarrow> ptr \<Rightarrow> ptr \<Rightarrow> ptr \<Rightarrow> ptr \<times> ptr" where
  "search_shift left left_nxt right right_nxt =
     (if snapshot_get_mark right_nxt = 0 then (right, nullptr)
      else if left_nxt = nullptr then (left, right) else (left, left_nxt))"

text \<open>A round of the loop up to its condition, and where it goes on.\<close>

definition search_loop :: "searcher \<Rightarrow> ptr \<Rightarrow> ptr \<Rightarrow> ptr \<Rightarrow> ptr \<Rightarrow> linked_list \<Rightarrow> list_res" where
  "search_loop who left left_nxt right right_nxt st =
     (let (left, left_nxt) = search_shift left left_nxt right right_nxt in
      ebind (snapshot_set_mark right_nxt 0) (\<lambda>right.
      ebind (next_snapshot right st) (\<lambda>right_nxt.
      ebind (node_at right st) (\<lambda>nd.
      Inr (if snapshot_get_mark right_nxt \<noteq> 0 \<or> node_key nd < search_key who then Search_loop who left left_nxt right right_nxt
           else if left_nxt = nullptr then Search_mark who left right
           else Search_cas who left left_nxt right, st)))))"

text \<open>\<^verbatim>\<open>left->next.compare_and_swap(left_nxt, right)\<close> takes the marked nodes between out; if it fails the search starts again.\<close>

definition search_cas :: "searcher \<Rightarrow> ptr \<Rightarrow> ptr \<Rightarrow> ptr \<Rightarrow> linked_list \<Rightarrow> list_res" where
  "search_cas who left left_nxt right st =
     ebind (next_compare_and_swap left left_nxt right st) (\<lambda>(ok, st1).
     Inr (if ok then Search_mark who left right else Search_head who, st1))"

text \<open>What the caller does with the two nodes.\<close>

fun search_done :: "searcher \<Rightarrow> ptr \<Rightarrow> ptr \<Rightarrow> int \<Rightarrow> list_pc" where
  "search_done (By_find k) left right right_key = List_return (right_key = k)"
| "search_done (By_insert k) left right right_key = (if right_key = k then List_return False else Insert_make k left right)"
| "search_done (By_remove k) left right right_key = (if right_key \<noteq> k then List_return False else Remove_next k left right)"
| "search_done (By_unlink k) left right right_key = List_return True"

definition search_mark :: "searcher \<Rightarrow> ptr \<Rightarrow> ptr \<Rightarrow> linked_list \<Rightarrow> list_res" where
  "search_mark who left right st =
     ebind (node_at right st) (\<lambda>nd.
     Inr (if arc_get_mark (node_next nd) = 0 then search_done who left right (node_key nd) else Search_head who, st))"

section \<open>insert and remove\<close>

text \<open>\<^verbatim>\<open>sp_t::make_shared(key, right)\<close> at an address \<open>q\<close> from the allocator.\<close>

definition insert_make :: "ptr \<Rightarrow> int \<Rightarrow> ptr \<Rightarrow> ptr \<Rightarrow> linked_list \<Rightarrow> list_res" where
  "insert_make q k left right st =
     Inr (Insert_cas k left right q, st\<lparr>nodes := (nodes st)(q \<mapsto> \<lparr>node_key = k, node_next = right\<rparr>)\<rparr>)"

definition insert_cas :: "int \<Rightarrow> ptr \<Rightarrow> ptr \<Rightarrow> ptr \<Rightarrow> linked_list \<Rightarrow> list_res" where
  "insert_cas k left right new_node st =
     ebind (next_compare_and_swap left right new_node st) (\<lambda>(ok, st1).
     Inr (if ok then List_return True else Search_head (By_insert k), st1))"

definition remove_next :: "int \<Rightarrow> ptr \<Rightarrow> ptr \<Rightarrow> linked_list \<Rightarrow> list_res" where
  "remove_next k left right st =
     ebind (next_snapshot right st) (\<lambda>next.
     Inr (if snapshot_get_mark next = 0 then Remove_mark k left right next else Search_head (By_remove k), st))"

definition remove_mark :: "int \<Rightarrow> ptr \<Rightarrow> ptr \<Rightarrow> ptr \<Rightarrow> linked_list \<Rightarrow> list_res" where
  "remove_mark k left right next st =
     ebind (next_compare_and_set_mark right next 1 st) (\<lambda>(ok, st1).
     Inr (if ok then Remove_unlink k left right next else Search_head (By_remove k), st1))"

definition remove_unlink :: "int \<Rightarrow> ptr \<Rightarrow> ptr \<Rightarrow> ptr \<Rightarrow> linked_list \<Rightarrow> list_res" where
  "remove_unlink k left right next st =
     ebind (next_compare_and_swap left right next st) (\<lambda>(ok, st1).
     Inr (if ok then List_return True else Search_head (By_unlink k), st1))"

section \<open>Threads\<close>

fun list_step :: "ptr \<Rightarrow> list_pc \<Rightarrow> linked_list \<Rightarrow> list_res" where
  "list_step q (Search_head who) st = search_head who st"
| "list_step q (Search_next who right) st = search_next who right st"
| "list_step q (Search_loop who left left_nxt right right_nxt) st = search_loop who left left_nxt right right_nxt st"
| "list_step q (Search_cas who left left_nxt right) st = search_cas who left left_nxt right st"
| "list_step q (Search_mark who left right) st = search_mark who left right st"
| "list_step q (Insert_make k left right) st = insert_make q k left right st"
| "list_step q (Insert_cas k left right new_node) st = insert_cas k left right new_node st"
| "list_step q (Remove_next k left right) st = remove_next k left right st"
| "list_step q (Remove_mark k left right next) st = remove_mark k left right next st"
| "list_step q (Remove_unlink k left right next) st = remove_unlink k left right next st"
| "list_step q (List_return b) st = Inr (List_return b, st)"
| "list_step q List_idle st = Inr (List_idle, st)"

text \<open>The address is not null, not in use and aligned.\<close>

definition fresh_address :: "ptr \<Rightarrow> linked_list \<Rightarrow> bool" where
  "fresh_address q st \<longleftrightarrow> q \<noteq> nullptr \<and> aligned4 q \<and> nodes st q = None"

datatype list_event = Call tid list_call | Reply tid bool

inductive list_run :: "nat \<Rightarrow> linked_list \<Rightarrow> list_event list \<Rightarrow> (tid \<Rightarrow> list_pc) \<Rightarrow> linked_list \<Rightarrow> bool" for n st0 where
  start: "list_run n st0 [] (\<lambda>_. List_idle) st0"
| call: "list_run n st0 h ps st \<Longrightarrow> t < n \<Longrightarrow> ps t = List_idle \<Longrightarrow> list_run n st0 (h @ [Call t op]) (ps(t := list_entry op)) st"
| step: "list_run n st0 h ps st \<Longrightarrow> t < n \<Longrightarrow> fresh_address q st \<Longrightarrow> list_step q (ps t) st = Inr (pc', st') \<Longrightarrow>
    list_run n st0 h (ps(t := pc')) st'"
| reply: "list_run n st0 h ps st \<Longrightarrow> t < n \<Longrightarrow> ps t = List_return b \<Longrightarrow> list_run n st0 (h @ [Reply t b]) (ps(t := List_idle)) st"

text \<open>A schedule, carried out: calls, steps with the address of the allocator, replies.\<close>

datatype list_action = Do_call tid list_call | Do_step tid ptr | Do_reply tid

fun list_exec :: "nat \<Rightarrow> list_action list \<Rightarrow> list_event list \<times> (tid \<Rightarrow> list_pc) \<times> linked_list \<Rightarrow>
    (error + list_event list \<times> (tid \<Rightarrow> list_pc) \<times> linked_list) option" where
  "list_exec n [] w = Some (Inr w)"
| "list_exec n (Do_call t op # acts) (h, ps, st) =
     (if t < n \<and> ps t = List_idle then list_exec n acts (h @ [Call t op], ps(t := list_entry op), st) else None)"
| "list_exec n (Do_step t q # acts) (h, ps, st) =
     (if t < n \<and> fresh_address q st
      then (case list_step q (ps t) st of Inl e \<Rightarrow> Some (Inl e) | Inr (pc', st') \<Rightarrow> list_exec n acts (h, ps(t := pc'), st')) else None)"
| "list_exec n (Do_reply t # acts) (h, ps, st) =
     (case ps t of List_return b \<Rightarrow> if t < n then list_exec n acts (h @ [Reply t b], ps(t := List_idle), st) else None | _ \<Rightarrow> None)"

lemma list_exec_run:
  assumes "list_exec n acts (h, ps, st) = Some (Inr (h', ps', st'))" and "list_run n st0 h ps st"
  shows "list_run n st0 h' ps' st'"
  using assms
proof (induction acts arbitrary: h ps st)
  case (Cons act acts)
  show ?case
  proof (cases act)
    case (Do_call t op)
    with Cons show ?thesis by (auto split: if_splits intro: list_run.call)
  next
    case (Do_step t q)
    with Cons show ?thesis by (auto split: if_splits sum.splits intro: list_run.step)
  next
    case (Do_reply t)
    with Cons show ?thesis by (auto split: if_splits list_pc.splits intro: list_run.reply)
  qed
qed simp

section \<open>The abstract set\<close>

text \<open>What an operation means, done at once.\<close>

fun set_apply :: "list_call \<Rightarrow> int set \<Rightarrow> int set \<times> bool" where
  "set_apply (Find_key k) S = (S, k \<in> S)"
| "set_apply (Insert_key k) S = (insert k S, k \<notin> S)"
| "set_apply (Remove_key k) S = (S - {k}, k \<in> S)"

datatype set_pc = Set_idle | Set_pending list_call | Set_done bool

text \<open>The atomic set: between its call and its reply an operation has its effect at one moment.\<close>

inductive atomic_set :: "nat \<Rightarrow> list_event list \<Rightarrow> (tid \<Rightarrow> set_pc) \<Rightarrow> int set \<Rightarrow> bool" for n where
  start: "atomic_set n [] (\<lambda>_. Set_idle) {}"
| call: "atomic_set n h ap S \<Longrightarrow> t < n \<Longrightarrow> ap t = Set_idle \<Longrightarrow> atomic_set n (h @ [Call t op]) (ap(t := Set_pending op)) S"
| effect: "atomic_set n h ap S \<Longrightarrow> t < n \<Longrightarrow> ap t = Set_pending op \<Longrightarrow> set_apply op S = (S', b) \<Longrightarrow> atomic_set n h (ap(t := Set_done b)) S'"
| reply: "atomic_set n h ap S \<Longrightarrow> t < n \<Longrightarrow> ap t = Set_done b \<Longrightarrow> atomic_set n (h @ [Reply t b]) (ap(t := Set_idle)) S"

text \<open>
  The same with operations that only look and say afterwards when: \<open>seen t\<close> are the values that the set has had since thread \<open>t\<close> began its operation, and an operation
  that leaves one of them as it is may have had its effect then.
\<close>

inductive watched_set :: "nat \<Rightarrow> list_event list \<Rightarrow> (tid \<Rightarrow> set_pc) \<Rightarrow> (tid \<Rightarrow> int set set) \<Rightarrow> int set \<Rightarrow> bool" for n where
  start: "watched_set n [] (\<lambda>_. Set_idle) (\<lambda>_. {{}}) {}"
| call: "watched_set n h ap seen S \<Longrightarrow> t < n \<Longrightarrow> ap t = Set_idle \<Longrightarrow> watched_set n (h @ [Call t op]) (ap(t := Set_pending op)) (seen(t := {S})) S"
| effect: "watched_set n h ap seen S \<Longrightarrow> t < n \<Longrightarrow> ap t = Set_pending op \<Longrightarrow> set_apply op S = (S', b) \<Longrightarrow>
    watched_set n h (ap(t := Set_done b)) (\<lambda>u. insert S' (seen u)) S'"
| observe: "watched_set n h ap seen S \<Longrightarrow> t < n \<Longrightarrow> ap t = Set_pending op \<Longrightarrow> S' \<in> seen t \<Longrightarrow> set_apply op S' = (S', b) \<Longrightarrow>
    watched_set n h (ap(t := Set_done b)) seen S"
| reply: "watched_set n h ap seen S \<Longrightarrow> t < n \<Longrightarrow> ap t = Set_done b \<Longrightarrow> watched_set n (h @ [Reply t b]) (ap(t := Set_idle)) seen S"

text \<open>Saying it afterwards makes no difference: at any time any of the looking operations may already have looked.\<close>

definition looked :: "set_pc \<Rightarrow> int set set \<Rightarrow> set_pc \<Rightarrow> bool" where
  "looked a W b \<longleftrightarrow> (\<exists>op r S. a = Set_pending op \<and> S \<in> W \<and> set_apply op S = (S, r) \<and> b = Set_done r)"

lemma look_all:
  assumes "finite D" and "atomic_set n h ap S" and "\<And>t. t \<in> D \<Longrightarrow> t < n \<and> looked (ap t) {S} (ap' t)"
  shows "atomic_set n h (\<lambda>t. if t \<in> D then ap' t else ap t) S"
  using assms(1,3)
proof (induction D)
  case (insert u D)
  obtain op r where u: "u < n" "ap u = Set_pending op" "set_apply op S = (S, r)" "ap' u = Set_done r" using insert.prems [of u] by (auto simp: looked_def)
  have "(\<lambda>t. if t \<in> D then ap' t else ap t) u = Set_pending op" using insert.hyps u by simp
  from atomic_set.effect [OF insert.IH u(1) this u(3)] insert.prems
  have "atomic_set n h ((\<lambda>t. if t \<in> D then ap' t else ap t)(u := Set_done r)) S" by simp
  moreover have "(\<lambda>t. if t \<in> D then ap' t else ap t)(u := Set_done r) = (\<lambda>t. if t \<in> insert u D then ap' t else ap t)"
    using u by (auto simp: fun_eq_iff)
  ultimately show ?case by simp
qed (use assms(2) in simp)

lemma watched_idle: "watched_set n h ap seen S \<Longrightarrow> n \<le> t \<Longrightarrow> ap t = Set_idle"
  by (induction rule: watched_set.induct) auto

lemma watched_atomic_choice:
  assumes "watched_set n h ap seen S" and "\<And>t. ap' t = ap t \<or> looked (ap t) (seen t) (ap' t)"
  shows "atomic_set n h ap' S"
  using assms
proof (induction arbitrary: ap')
  case start
  then have "ap' = (\<lambda>_. Set_idle)" by (auto simp: looked_def)
  then show ?case using atomic_set.start by simp
next
  case (call h ap seen S t op)
  have "atomic_set n h (ap'(t := Set_idle)) S"
    by (rule call.IH) (use call.prems call.hyps in \<open>fastforce split: if_splits\<close>)
  from atomic_set.call [OF this call.hyps(2), of op] have pending: "atomic_set n (h @ [Call t op]) (ap'(t := Set_pending op)) S" by simp
  from call.prems [of t] consider "ap' t = Set_pending op" | r where "set_apply op S = (S, r)" "ap' t = Set_done r" by (auto simp: looked_def)
  then show ?case
  proof cases
    case 1
    with pending show ?thesis by (metis fun_upd_triv)
  next
    case 2
    from atomic_set.effect [OF pending call.hyps(2) _ 2(1)] 2(2) show ?thesis by (metis fun_upd_same fun_upd_triv fun_upd_upd)
  qed
next
  case (effect h ap seen S u op S' b)
  define D where "D = {t. t \<noteq> u \<and> \<not> (ap' t = ap t \<or> looked (ap t) (seen t) (ap' t))}"
  let ?ap = "\<lambda>t. if t = u \<or> t \<in> D then ap t else ap' t"
  have D: "t < n \<and> looked (ap t) {S'} (ap' t)" if "t \<in> D" for t
  proof -
    have l: "looked (ap t) {S'} (ap' t)" using that effect.prems [of t] unfolding looked_def D_def by fastforce
    with watched_idle [OF effect.hyps(1), of t] show ?thesis by (cases "t < n") (auto simp: looked_def)
  qed
  then have "D \<subseteq> {..<n}" by blast
  then have fin: "finite D" by (rule finite_subset) simp
  have "atomic_set n h ?ap S" by (rule effect.IH) (auto simp: D_def)
  from atomic_set.effect [OF this effect.hyps(2) _ effect.hyps(4)] effect.hyps(3)
  have "atomic_set n h (?ap(u := Set_done b)) S'" by simp
  from look_all [OF fin this] D
  have "atomic_set n h (\<lambda>t. if t \<in> D then ap' t else (?ap(u := Set_done b)) t) S'" by (simp add: D_def)
  moreover have "ap' u = Set_done b" using effect.prems [of u] by (simp add: looked_def)
  then have "(\<lambda>t. if t \<in> D then ap' t else (?ap(u := Set_done b)) t) = ap'" by (simp add: fun_eq_iff)
  ultimately show ?case by simp
next
  case (observe h ap seen S t op S' b)
  have "looked (ap t) (seen t) (ap' t)" using observe.prems [of t] observe.hyps by (auto simp: looked_def)
  then show ?case by (intro observe.IH) (use observe.prems in \<open>auto split: if_splits\<close>, metis)
next
  case (reply h ap seen S t b)
  have "atomic_set n h (ap'(t := Set_done b)) S"
    by (rule reply.IH) (use reply.prems reply.hyps in \<open>fastforce split: if_splits\<close>)
  from atomic_set.reply [OF this reply.hyps(2)] have "atomic_set n (h @ [Reply t b]) (ap'(t := Set_idle)) S" by simp
  moreover have "ap' t = Set_idle" using reply.prems [of t] by (simp add: looked_def)
  ultimately show ?case by (metis fun_upd_triv)
qed

lemma watched_atomic: "watched_set n h ap seen S \<Longrightarrow> atomic_set n h ap S"
  by (erule watched_atomic_choice) simp

end
