(* ===== verification/List_Chains.thy ===== *)
theory List_Chains
  imports Linked_List
begin

text \<open>
  The shape of the list: sorted by key, every node that is not marked can be reached from the head. What the four ways in which a thread changes a \<^verbatim>\<open>next\<close> pointer
  do to it.
\<close>

type_synonym node_map = "ptr \<Rightarrow> list_node option"

definition nkey :: "node_map \<Rightarrow> ptr \<Rightarrow> int" where
  "nkey N p = node_key (the (N p))"

definition nword :: "node_map \<Rightarrow> ptr \<Rightarrow> ptr" where
  "nword N p = node_next (the (N p))"

definition link :: "node_map \<Rightarrow> ptr \<Rightarrow> ptr \<Rightarrow> bool" where
  "link N p q \<longleftrightarrow> N p \<noteq> None \<and> get_ptr (nword N p) = q"

definition marked :: "node_map \<Rightarrow> ptr \<Rightarrow> bool" where
  "marked N p \<longleftrightarrow> get_mark (nword N p) \<noteq> 0"

definition dead_link :: "node_map \<Rightarrow> ptr \<Rightarrow> ptr \<Rightarrow> bool" where
  "dead_link N p q \<longleftrightarrow> link N p q \<and> marked N p"

text \<open>\<open>V\<close> are the nodes that have been in the list.\<close>

definition list_ok :: "ptr set \<Rightarrow> linked_list \<Rightarrow> bool" where
  "list_ok V st \<longleftrightarrow> nodes st nullptr = None \<and> head_ptr st \<in> V \<and> tail_ptr st \<in> V \<and>
     (\<forall>p\<in>V. nodes st p \<noteq> None \<and> p \<noteq> nullptr \<and> get_ptr p = p) \<and>
     nkey (nodes st) (head_ptr st) = int_lowest \<and> \<not> marked (nodes st) (head_ptr st) \<and>
     nkey (nodes st) (tail_ptr st) = int_max \<and> \<not> marked (nodes st) (tail_ptr st) \<and>
     (\<forall>p\<in>V. p \<noteq> tail_ptr st \<longrightarrow> get_ptr (nword (nodes st) p) \<in> V \<and> nkey (nodes st) p < nkey (nodes st) (get_ptr (nword (nodes st) p))) \<and>
     get_ptr (nword (nodes st) (tail_ptr st)) = nullptr \<and>
     (\<forall>p\<in>V. \<not> marked (nodes st) p \<longrightarrow> (link (nodes st))\<^sup>*\<^sup>* (head_ptr st) p)"

definition elems :: "ptr set \<Rightarrow> linked_list \<Rightarrow> int set" where
  "elems V st = nkey (nodes st) ` {p \<in> V. \<not> marked (nodes st) p \<and> p \<noteq> head_ptr st \<and> p \<noteq> tail_ptr st}"

lemma list_okD:
  assumes "list_ok V st"
  shows "head_ptr st \<in> V" "tail_ptr st \<in> V" "p \<in> V \<Longrightarrow> nodes st p \<noteq> None" "p \<in> V \<Longrightarrow> p \<noteq> nullptr" "p \<in> V \<Longrightarrow> get_ptr p = p"
    "nkey (nodes st) (head_ptr st) = int_lowest" "\<not> marked (nodes st) (head_ptr st)"
    "nkey (nodes st) (tail_ptr st) = int_max" "\<not> marked (nodes st) (tail_ptr st)"
    "p \<in> V \<Longrightarrow> p \<noteq> tail_ptr st \<Longrightarrow> get_ptr (nword (nodes st) p) \<in> V"
    "p \<in> V \<Longrightarrow> p \<noteq> tail_ptr st \<Longrightarrow> nkey (nodes st) p < nkey (nodes st) (get_ptr (nword (nodes st) p))"
    "get_ptr (nword (nodes st) (tail_ptr st)) = nullptr"
    "p \<in> V \<Longrightarrow> \<not> marked (nodes st) p \<Longrightarrow> (link (nodes st))\<^sup>*\<^sup>* (head_ptr st) p"
    "nodes st nullptr = None"
  using assms by (simp_all add: list_ok_def)

lemma reach_sorted:
  assumes "list_ok V st" and "(link (nodes st))\<^sup>*\<^sup>* p q" and "p \<in> V" and "q \<noteq> nullptr"
  shows "q \<in> V \<and> (p = q \<or> nkey (nodes st) p < nkey (nodes st) q)"
  using assms(2,4)
proof (induction)
  case (step y z)
  have "y \<noteq> nullptr" using step.hyps(2) list_okD(14) [OF assms(1)] by (auto simp: link_def)
  with step.IH have y: "y \<in> V" "p = y \<or> nkey (nodes st) p < nkey (nodes st) y" by blast+
  have z: "z = get_ptr (nword (nodes st) y)" using step.hyps(2) by (simp add: link_def)
  then have "y \<noteq> tail_ptr st" using list_okD(12) [OF assms(1)] step.prems by auto
  with list_okD(10,11) [OF assms(1) y(1)] z y(2) show ?case by auto
qed (use assms(3) in simp)

lemma link_right_unique: "link N p q \<Longrightarrow> link N p r \<Longrightarrow> q = r"
  by (simp add: link_def)

lemma reach_linear:
  assumes "(link N)\<^sup>*\<^sup>* a p" and "(link N)\<^sup>*\<^sup>* a q"
  shows "(link N)\<^sup>*\<^sup>* p q \<or> (link N)\<^sup>*\<^sup>* q p"
  using assms
proof (induction)
  case (step y z)
  then consider "(link N)\<^sup>*\<^sup>* y q" | "(link N)\<^sup>*\<^sup>* q y" by blast
  then show ?case
  proof cases
    case 1
    then show ?thesis
    proof (cases rule: converse_rtranclpE)
      case base
      with step.hyps(2) show ?thesis by blast
    next
      case (step w)
      with \<open>link N y z\<close> link_right_unique show ?thesis by metis
    qed
  qed (use step.hyps(2) in \<open>auto intro: rtranclp.rtrancl_into_rtrancl\<close>)
qed simp

text \<open>Unmarked nodes differ in their keys, and there is none between a node and its successor.\<close>

lemma unmarked_unique:
  assumes ok: "list_ok V st" and p: "p \<in> V" "\<not> marked (nodes st) p" and q: "q \<in> V" "\<not> marked (nodes st) q" and "nkey (nodes st) p = nkey (nodes st) q"
  shows "p = q"
  using reach_linear [OF list_okD(13) [OF ok p] list_okD(13) [OF ok q]] reach_sorted [OF ok, of p q] reach_sorted [OF ok, of q p]
    list_okD(4) [OF ok] assms by force

lemma gap:
  assumes ok: "list_ok V st" and l: "l \<in> V" "\<not> marked (nodes st) l" and r: "get_ptr (nword (nodes st) l) = r" "r \<in> V"
    and k: "nkey (nodes st) l < k" "k < nkey (nodes st) r"
  shows "k \<notin> elems V st"
proof
  assume "k \<in> elems V st"
  then obtain p where p: "p \<in> V" "\<not> marked (nodes st) p" "k = nkey (nodes st) p" by (auto simp: elems_def)
  have null: "p \<noteq> nullptr" "l \<noteq> nullptr" using list_okD(4) [OF ok] p l by blast+
  from reach_linear [OF list_okD(13) [OF ok l] list_okD(13) [OF ok p(1,2)]] show False
  proof
    assume "(link (nodes st))\<^sup>*\<^sup>* l p"
    then show False
    proof (cases rule: converse_rtranclpE)
      case (step y)
      then have "y = r" using r by (simp add: link_def)
      with reach_sorted [OF ok step(2)] r null k p show False by auto
    qed (use k p in simp)
  next
    assume "(link (nodes st))\<^sup>*\<^sup>* p l"
    from reach_sorted [OF ok this p(1)] null k p show False by auto
  qed
qed

section \<open>Changes of a next pointer\<close>

lemma unmarked_ptr: "get_ptr p = p \<longleftrightarrow> get_mark p = 0"
proof
  have "(p AND NOT (mask 2)) AND mask 2 = 0" by (auto intro!: bit_word_eqI simp: bit_simps)
  then show "get_ptr p = p \<Longrightarrow> get_mark p = 0" unfolding get_ptr_def get_mark_def mark_mask by metis
  show "get_mark p = 0 \<Longrightarrow> get_ptr p = p" using ptr_mark_split [of p] by simp
qed

lemma get_ptr_twice [simp]: "get_ptr (get_ptr p) = get_ptr p" "get_mark (get_ptr p) = 0"
proof -
  show "get_ptr (get_ptr p) = get_ptr p" unfolding get_ptr_def by (simp add: word_bw_assocs)
  then show "get_mark (get_ptr p) = 0" using unmarked_ptr by blast
qed

definition relinked :: "linked_list \<Rightarrow> ptr \<Rightarrow> ptr \<Rightarrow> linked_list \<Rightarrow> bool" where
  "relinked st l x st' \<longleftrightarrow> head_ptr st' = head_ptr st \<and> tail_ptr st' = tail_ptr st \<and> nodes st l \<noteq> None \<and>
     nodes st' = (nodes st)(l \<mapsto> (the (nodes st l))\<lparr>node_next := x\<rparr>)"

lemma relinked_simps:
  assumes "relinked st l x st'"
  shows "head_ptr st' = head_ptr st" "tail_ptr st' = tail_ptr st" "nodes st' p = None \<longleftrightarrow> nodes st p = None"
    "nkey (nodes st') p = nkey (nodes st) p" "nword (nodes st') p = (if p = l then x else nword (nodes st) p)"
  using assms by (auto simp: relinked_def nkey_def nword_def)

lemma relinked_link:
  assumes "relinked st l x st'"
  shows "link (nodes st') p q \<longleftrightarrow> (if p = l then q = get_ptr x else link (nodes st) p q)"
  using relinked_simps [OF assms] assms by (auto simp: link_def relinked_def)

lemma relinked_marked: "relinked st l x st' \<Longrightarrow> marked (nodes st') p \<longleftrightarrow> (if p = l then get_mark x \<noteq> 0 else marked (nodes st) p)"
  by (simp add: marked_def relinked_simps)

text \<open>Marked nodes are taken out.\<close>

lemma skip_reach:
  assumes rl: "relinked st l b st'" and b: "get_ptr b = b" and path: "(dead_link (nodes st))\<^sup>*\<^sup>* (get_ptr (nword (nodes st) l)) b"
    and "(link (nodes st))\<^sup>*\<^sup>* h p"
  shows "(link (nodes st'))\<^sup>*\<^sup>* h p \<or> (dead_link (nodes st))\<^sup>+\<^sup>+ p b \<and> (link (nodes st'))\<^sup>*\<^sup>* h b"
  using assms(4)
proof (induction)
  case (step y z)
  have on: "?case" if "(dead_link (nodes st))\<^sup>*\<^sup>* z b" "(link (nodes st'))\<^sup>*\<^sup>* h b"
    using that by (metis rtranclpD)
  from step.IH show ?case
  proof
    assume y: "(link (nodes st'))\<^sup>*\<^sup>* h y"
    show ?thesis
    proof (cases "y = l")
      case True
      have "(link (nodes st'))\<^sup>*\<^sup>* h b" using y relinked_link [OF rl, of l b] True b by (auto intro: rtranclp.rtrancl_into_rtrancl)
      moreover have "z = get_ptr (nword (nodes st) l)" using step.hyps(2) True by (simp add: link_def)
      ultimately show ?thesis using on path by simp
    next
      case False
      with y relinked_link [OF rl, of y z] step.hyps(2) show ?thesis by (auto intro: rtranclp.rtrancl_into_rtrancl)
    qed
  next
    assume y: "(dead_link (nodes st))\<^sup>+\<^sup>+ y b \<and> (link (nodes st'))\<^sup>*\<^sup>* h b"
    then obtain w where w: "dead_link (nodes st) y w" "(dead_link (nodes st))\<^sup>*\<^sup>* w b" by (metis tranclpD)
    then have "w = z" using step.hyps(2) link_right_unique [of "nodes st" y w z] by (simp add: dead_link_def)
    with w(2) y show ?thesis by (intro on) simp_all
  qed
qed simp

lemma dead_marked: "(dead_link N)\<^sup>+\<^sup>+ p q \<Longrightarrow> marked N p"
  by (metis dead_link_def tranclpD)

lemma not_tail:
  assumes "list_ok V st" and "(dead_link (nodes st))\<^sup>*\<^sup>* (get_ptr (nword (nodes st) l)) b" and "b \<in> V"
  shows "l \<noteq> tail_ptr st"
proof
  assume "l = tail_ptr st"
  with assms(2) list_okD(12) [OF assms(1)] have "(dead_link (nodes st))\<^sup>*\<^sup>* nullptr b" by simp
  then show False
  proof (cases rule: converse_rtranclpE)
    case (step w)
    then show False using list_okD(14) [OF assms(1)] by (simp add: dead_link_def link_def)
  qed (use list_okD(4) [OF assms(1,3)] in simp)
qed

lemma skip_ok:
  assumes ok: "list_ok V st" and l: "l \<in> V" "\<not> marked (nodes st) l" and b: "b \<in> V" "nkey (nodes st) l < nkey (nodes st) b"
    and path: "(dead_link (nodes st))\<^sup>*\<^sup>* (get_ptr (nword (nodes st) l)) b" and rl: "relinked st l b st'"
  shows "list_ok V st'" and "elems V st' = elems V st"
proof -
  note D = list_okD [OF ok] and simps = relinked_simps [OF rl]
  have bp: "get_ptr b = b" "get_mark b = 0" using D(5) [OF b(1)] unmarked_ptr by auto
  have nt: "l \<noteq> tail_ptr st" by (rule not_tail [OF ok path b(1)])
  have marks: "marked (nodes st') p = marked (nodes st) p" for p using relinked_marked [OF rl, of p] l(2) bp by simp
  have "(link (nodes st'))\<^sup>*\<^sup>* (head_ptr st) p" if "p \<in> V" "\<not> marked (nodes st) p" for p
    using skip_reach [OF rl bp(1) path D(13) [OF that]] dead_marked that(2) by blast
  with D b nt bp show "list_ok V st'" unfolding list_ok_def simps marks by auto
  show "elems V st' = elems V st" unfolding elems_def marks simps by (simp add: simps(4))
qed

text \<open>A node is put in.\<close>

lemma insert_ok:
  assumes ok: "list_ok V st" and l: "l \<in> V" "\<not> marked (nodes st) l" and r: "nword (nodes st) l = r" "r \<in> V"
    and q: "q \<notin> V" "nodes st q = Some \<lparr>node_key = k, node_next = r\<rparr>" "q \<noteq> nullptr" "get_ptr q = q"
    and k: "nkey (nodes st) l < k" "k < nkey (nodes st) r" and rl: "relinked st l q st'"
  shows "list_ok (insert q V) st'" and "elems (insert q V) st' = insert k (elems V st)" and "k \<notin> elems V st"
proof -
  note D = list_okD [OF ok] and simps = relinked_simps [OF rl]
  have qm: "get_mark q = 0" "get_ptr r = r" "get_mark r = 0" using q(4) D(5) [OF r(2)] unmarked_ptr by auto
  have qn: "nkey (nodes st) q = k" "nword (nodes st) q = r" "q \<noteq> l" "q \<noteq> head_ptr st" "q \<noteq> tail_ptr st" "\<not> marked (nodes st) q"
    using q l D(1,2) qm by (auto simp: nkey_def nword_def marked_def)
  have nt: "l \<noteq> tail_ptr st" using D(12) D(4) [OF r(2)] r(1) qm by auto
  have marks: "marked (nodes st') p = marked (nodes st) p" for p using relinked_marked [OF rl, of p] l(2) qm by simp
  have links: "link (nodes st') l q" "link (nodes st') q r" "p \<noteq> l \<Longrightarrow> link (nodes st) p z \<Longrightarrow> link (nodes st') p z" for p z
    using relinked_link [OF rl] q qn qm by (auto simp: link_def)
  have reach: "(link (nodes st'))\<^sup>*\<^sup>* (head_ptr st) p" if "(link (nodes st))\<^sup>*\<^sup>* (head_ptr st) p" for p
    using that
  proof (induction)
    case (step y z)
    show ?case
    proof (cases "y = l")
      case True
      with step.hyps(2) r qm have "z = r" by (simp add: link_def)
      with step.IH links(1,2) True show ?thesis by (meson rtranclp.rtrancl_into_rtrancl)
    qed (use step.IH links(3) step.hyps(2) in \<open>auto intro: rtranclp.rtrancl_into_rtrancl\<close>)
  qed simp
  then have "(link (nodes st'))\<^sup>*\<^sup>* (head_ptr st) q" using D(13) [OF l] links(1) by (meson rtranclp.rtrancl_into_rtrancl)
  with D reach q qn qm k r nt show "list_ok (insert q V) st'" unfolding list_ok_def simps marks by auto
  show "elems (insert q V) st' = insert k (elems V st)" unfolding elems_def marks simps using qn q by (auto simp: simps(4))
  show "k \<notin> elems V st" using gap [OF ok l] r qm k by auto
qed

text \<open>A node is marked.\<close>

lemma mark_ok:
  assumes ok: "list_ok V st" and r: "r \<in> V" "\<not> marked (nodes st) r" "r \<noteq> head_ptr st" "r \<noteq> tail_ptr st"
    and x: "get_ptr x = get_ptr (nword (nodes st) r)" "get_mark x \<noteq> 0" and rl: "relinked st r x st'"
  shows "list_ok V st'" and "elems V st' = elems V st - {nkey (nodes st) r}" and "nkey (nodes st) r \<in> elems V st"
proof -
  note D = list_okD [OF ok] and simps = relinked_simps [OF rl]
  have ptrs: "get_ptr (nword (nodes st') p) = get_ptr (nword (nodes st) p)" for p using simps(5) [of p] x by simp
  have links: "link (nodes st') = link (nodes st)" by (simp add: fun_eq_iff link_def ptrs simps(3))
  have marks: "marked (nodes st') p \<longleftrightarrow> p = r \<or> marked (nodes st) p" for p using relinked_marked [OF rl, of p] x by simp
  show "list_ok V st'" using D r unfolding list_ok_def simps(1-4) links ptrs marks by auto
  show "elems V st' = elems V st - {nkey (nodes st) r}"
    using unmarked_unique [OF ok] r unfolding elems_def marks simps(1,2) by (auto simp: simps(4))
  show "nkey (nodes st) r \<in> elems V st" using r by (auto simp: elems_def)
qed

end
