(* ===== verification/List_Linear.thy ===== *)
theory List_Linear
  imports List_Chains
begin

text \<open>
  The concurrent list refines the set that is watched: every step of a thread returns, and it is invisible, or the effect of its operation, the successful exchange of \<^verbatim>\<open>insert\<close>
  and the marking in \<^verbatim>\<open>remove\<close>, or it settles that the operation has seen the set in a state that agrees with its result. A \<^verbatim>\<open>search\<close> returns two nodes that were neighbours
  at some time since the operation began.
\<close>

section \<open>The invariant\<close>

definition valid_key :: "int \<Rightarrow> bool" where
  "valid_key k \<longleftrightarrow> int_lowest < k \<and> k < int_max"

fun call_key :: "list_call \<Rightarrow> int" where
  "call_key (Find_key k) = k"
| "call_key (Insert_key k) = k"
| "call_key (Remove_key k) = k"

fun caller :: "searcher \<Rightarrow> set_pc" where
  "caller (By_find k) = Set_pending (Find_key k)"
| "caller (By_insert k) = Set_pending (Insert_key k)"
| "caller (By_remove k) = Set_pending (Remove_key k)"
| "caller (By_unlink k) = Set_done True"

definition gap_seen :: "linked_list \<Rightarrow> int set set \<Rightarrow> ptr \<Rightarrow> ptr \<Rightarrow> bool" where
  "gap_seen st W l r \<longleftrightarrow> (\<exists>S\<in>W. \<forall>k. nkey (nodes st) l < k \<and> k < nkey (nodes st) r \<longrightarrow> k \<notin> S)"

definition between :: "ptr set \<Rightarrow> linked_list \<Rightarrow> ptr \<Rightarrow> int \<Rightarrow> ptr \<Rightarrow> bool" where
  "between V st l k r \<longleftrightarrow> l \<in> V \<and> r \<in> V \<and> nkey (nodes st) l < k \<and> k \<le> nkey (nodes st) r \<and> valid_key k"

fun pc_ok :: "ptr set \<Rightarrow> linked_list \<Rightarrow> int set set \<Rightarrow> list_pc \<Rightarrow> set_pc \<Rightarrow> bool" where
  "pc_ok V st W (Search_head who) a \<longleftrightarrow> a = caller who \<and> valid_key (search_key who)"
| "pc_ok V st W (Search_next who r) a \<longleftrightarrow> a = caller who \<and> valid_key (search_key who) \<and> r = head_ptr st"
| "pc_ok V st W (Search_loop who l ln r rn) a \<longleftrightarrow> a = caller who \<and> valid_key (search_key who) \<and> r \<in> V \<and> get_ptr rn \<in> V \<and>
     (if get_mark rn = 0 then nkey (nodes st) r < search_key who \<and> gap_seen st W r rn
      else dead_link (nodes st) r (get_ptr rn) \<and> l \<in> V \<and> nkey (nodes st) l < search_key who) \<and>
     (ln \<noteq> nullptr \<longrightarrow> ln \<in> V \<and> (dead_link (nodes st))\<^sup>*\<^sup>* ln r)"
| "pc_ok V st W (Search_cas who l ln r) a \<longleftrightarrow> a = caller who \<and> between V st l (search_key who) r \<and> ln \<in> V \<and> (dead_link (nodes st))\<^sup>*\<^sup>* ln r"
| "pc_ok V st W (Search_mark who l r) a \<longleftrightarrow> a = caller who \<and> between V st l (search_key who) r \<and> gap_seen st W l r"
| "pc_ok V st W (Insert_make k l r) a \<longleftrightarrow> a = Set_pending (Insert_key k) \<and> between V st l k r \<and> nkey (nodes st) r \<noteq> k"
| "pc_ok V st W (Insert_cas k l r q) a \<longleftrightarrow> a = Set_pending (Insert_key k) \<and> between V st l k r \<and> nkey (nodes st) r \<noteq> k \<and>
     q \<notin> V \<and> nodes st q = Some \<lparr>node_key = k, node_next = r\<rparr> \<and> q \<noteq> nullptr \<and> get_ptr q = q"
| "pc_ok V st W (Remove_next k l r) a \<longleftrightarrow> a = Set_pending (Remove_key k) \<and> between V st l k r \<and> nkey (nodes st) r = k"
| "pc_ok V st W (Remove_mark k l r x) a \<longleftrightarrow> a = Set_pending (Remove_key k) \<and> between V st l k r \<and> nkey (nodes st) r = k \<and> get_mark x = 0"
| "pc_ok V st W (Remove_unlink k l r x) a \<longleftrightarrow> a = Set_done True \<and> between V st l k r \<and> nkey (nodes st) r = k \<and> x \<in> V \<and> dead_link (nodes st) r x"
| "pc_ok V st W (List_return b) a \<longleftrightarrow> a = Set_done b"
| "pc_ok V st W List_idle a \<longleftrightarrow> a = Set_idle"

text \<open>The node that a thread has made and not yet put in.\<close>

fun own_node :: "list_pc \<Rightarrow> ptr set" where
  "own_node (Insert_cas k l r q) = {q}"
| "own_node pc = {}"

definition threads_ok :: "nat \<Rightarrow> ptr set \<Rightarrow> (tid \<Rightarrow> list_pc) \<Rightarrow> linked_list \<Rightarrow> (tid \<Rightarrow> set_pc) \<Rightarrow> (tid \<Rightarrow> int set set) \<Rightarrow> bool" where
  "threads_ok n V ps st ap W \<longleftrightarrow> (\<forall>t<n. pc_ok V st (W t) (ps t) (ap t) \<and> elems V st \<in> W t) \<and>
     (\<forall>t<n. \<forall>u<n. t \<noteq> u \<longrightarrow> own_node (ps t) \<inter> own_node (ps u) = {})"

definition list_inv :: "nat \<Rightarrow> (tid \<Rightarrow> list_pc) \<Rightarrow> linked_list \<Rightarrow> (tid \<Rightarrow> set_pc) \<Rightarrow> (tid \<Rightarrow> int set set) \<Rightarrow> int set \<Rightarrow> bool" where
  "list_inv n ps st ap W S \<longleftrightarrow> (\<exists>V. list_ok V st \<and> S = elems V st \<and> threads_ok n V ps st ap W)"

section \<open>What a step leaves to the others\<close>

definition evolves :: "ptr set \<Rightarrow> linked_list \<Rightarrow> ptr set \<Rightarrow> linked_list \<Rightarrow> bool" where
  "evolves V st V' st' \<longleftrightarrow> V \<subseteq> V' \<and> head_ptr st' = head_ptr st \<and> (\<forall>p\<in>V. nkey (nodes st') p = nkey (nodes st) p) \<and>
     (\<forall>p. nodes st p \<noteq> None \<longrightarrow> marked (nodes st) p \<or> p \<notin> V \<longrightarrow> nodes st' p = nodes st p)"

lemma evolves_dead:
  assumes "evolves V st V' st'"
  shows "dead_link (nodes st) p q \<Longrightarrow> dead_link (nodes st') p q" and "(dead_link (nodes st))\<^sup>*\<^sup>* p q \<Longrightarrow> (dead_link (nodes st'))\<^sup>*\<^sup>* p q"
proof -
  have mono: "dead_link (nodes st) p q \<Longrightarrow> dead_link (nodes st') p q" for p q
    using assms by (auto simp: evolves_def dead_link_def link_def marked_def nword_def)
  then show "dead_link (nodes st) p q \<Longrightarrow> dead_link (nodes st') p q" .
  show "(dead_link (nodes st))\<^sup>*\<^sup>* p q \<Longrightarrow> (dead_link (nodes st'))\<^sup>*\<^sup>* p q" using mono by (metis mono_rtranclp)
qed

lemma pc_stable:
  assumes ev: "evolves V st V' st'" and "W \<subseteq> W'" and "own_node pc \<inter> V' = {}" and "pc_ok V st W pc a"
  shows "pc_ok V' st' W' pc a"
proof -
  have V: "p \<in> V \<Longrightarrow> p \<in> V' \<and> nkey (nodes st') p = nkey (nodes st) p" for p using ev by (auto simp: evolves_def)
  have gap: "gap_seen st W l r \<Longrightarrow> l \<in> V \<Longrightarrow> r \<in> V \<Longrightarrow> gap_seen st' W' l r" for l r
    using assms(2) V unfolding gap_seen_def by (metis subsetD)
  have btw: "between V st l k r \<Longrightarrow> between V' st' l k r" for l k r using V by (auto simp: between_def)
  have lr: "between V st l k r \<Longrightarrow> l \<in> V \<and> r \<in> V" for l k r by (simp add: between_def)
  show ?thesis
  proof (cases pc)
    case (Search_loop who l ln r rn)
    then show ?thesis using assms(4) V gap [of r rn] evolves_dead [OF ev] unmarked_ptr [of rn] by auto
  next
    case (Insert_cas k l r q)
    with ev assms(3,4) have "nodes st' q = nodes st q" by (auto simp: evolves_def)
    with Insert_cas assms(3,4) btw lr V show ?thesis by auto
  qed (use assms(4) ev V gap btw lr evolves_dead [OF ev] in \<open>auto simp: evolves_def\<close>)
qed

lemma advance_list:
  assumes old: "threads_ok n V ps st ap W" and ev: "evolves V st V' st'" and ok: "list_ok V' st'"
    and t: "pc_ok V' st' (W' t) pc' a'" and W: "\<And>u. u < n \<Longrightarrow> W u \<subseteq> W' u \<and> elems V' st' \<in> W' u"
    and priv: "V' \<subseteq> V \<union> own_node (ps t)" "\<And>q. q \<in> own_node pc' \<Longrightarrow> q \<in> own_node (ps t) \<or> nodes st q = None" "t < n"
  shows "list_inv n (ps(t := pc')) st' (ap(t := a')) W' (elems V' st')"
proof -
  have mem: "pc_ok V st (W u) (ps u) (ap u)" if "u < n" for u using old that by (simp add: threads_ok_def)
  have dom: "q \<in> own_node (ps u) \<Longrightarrow> nodes st q \<noteq> None \<and> q \<notin> V" if "u < n" for q u
    using mem [OF that] by (cases "ps u") auto
  have apart: "u < n \<Longrightarrow> v < n \<Longrightarrow> u \<noteq> v \<Longrightarrow> own_node (ps u) \<inter> own_node (ps v) = {}" for u v using old by (simp add: threads_ok_def)
  have others: "pc_ok V' st' (W' u) (ps u) (ap u)" if "u < n" "u \<noteq> t" for u
    by (rule pc_stable [OF ev _ _ mem [OF that(1)]]) (use W that dom [OF that(1)] apart [OF that(1) priv(3)] priv(1) in auto)
  have new: "own_node pc' \<inter> own_node (ps u) = {}" if "u < n" "u \<noteq> t" for u
    using priv(2) dom [OF that(1)] apart [OF that(1) priv(3) that(2)] by blast
  have "threads_ok n V' (ps(t := pc')) st' (ap(t := a')) W'"
    using others t W new apart unfolding threads_ok_def by (simp add: Int_commute)
  with ok show ?thesis by (auto simp: list_inv_def)
qed

section \<open>The steps\<close>

definition list_simulates :: "nat \<Rightarrow> tid \<Rightarrow> ptr \<Rightarrow> (tid \<Rightarrow> list_pc) \<Rightarrow> linked_list \<Rightarrow> (tid \<Rightarrow> set_pc) \<Rightarrow> (tid \<Rightarrow> int set set) \<Rightarrow> int set \<Rightarrow> bool" where
  "list_simulates n t q ps st ap W S \<longleftrightarrow> (\<exists>pc' st' ap' W' S'. list_step q (ps t) st = Inr (pc', st') \<and> list_inv n (ps(t := pc')) st' ap' W' S' \<and>
     (ap' = ap \<and> W' = W \<and> S' = S \<or>
      (\<exists>op b. ap t = Set_pending op \<and> set_apply op S = (S', b) \<and> ap' = ap(t := Set_done b) \<and> W' = (\<lambda>u. insert S' (W u))) \<or>
      (\<exists>op b. \<exists>S0\<in>W t. ap t = Set_pending op \<and> set_apply op S0 = (S0, b) \<and> ap' = ap(t := Set_done b) \<and> W' = W \<and> S' = S)))"

lemma evolves_refl: "evolves V st V st"
  by (simp add: evolves_def)

lemma list_stutter:
  assumes "threads_ok n V ps st ap W" and "list_ok V st'" and "t < n" and "list_step q (ps t) st = Inr (pc', st')" and "evolves V st V st'"
    and "elems V st' = elems V st" and "pc_ok V st' (W t) pc' (ap t)" and "\<And>q. q \<in> own_node pc' \<Longrightarrow> q \<in> own_node (ps t) \<or> nodes st q = None"
  shows "list_simulates n t q ps st ap W (elems V st)"
proof -
  have "list_inv n (ps(t := pc')) st' (ap(t := ap t)) W (elems V st')"
    by (rule advance_list [OF assms(1,5,2)]) (use assms in \<open>auto simp: threads_ok_def\<close>)
  then have "list_inv n (ps(t := pc')) st' ap W (elems V st)" using assms(6) by simp
  with assms(4) show ?thesis unfolding list_simulates_def by blast
qed

lemma list_effect:
  assumes "threads_ok n V ps st ap W" and "list_ok V' st'" and "t < n" and "list_step q (ps t) st = Inr (pc', st')" and "evolves V st V' st'"
    and "ap t = Set_pending op" and "set_apply op (elems V st) = (elems V' st', b)" and "pc_ok V' st' (insert (elems V' st') (W t)) pc' (Set_done b)"
    and "own_node pc' = {}" and "V' \<subseteq> V \<union> own_node (ps t)"
  shows "list_simulates n t q ps st ap W (elems V st)"
proof -
  have "list_inv n (ps(t := pc')) st' (ap(t := Set_done b)) (\<lambda>u. insert (elems V' st') (W u)) (elems V' st')"
    by (rule advance_list [OF assms(1,5,2)]) (use assms in auto)
  with assms(4,6,7) show ?thesis unfolding list_simulates_def by blast
qed

lemma list_observe:
  assumes "threads_ok n V ps st ap W" and "list_ok V st" and "t < n" and "list_step q (ps t) st = Inr (List_return b, st)"
    and "ap t = Set_pending op" and "S0 \<in> W t" and "set_apply op S0 = (S0, b)"
  shows "list_simulates n t q ps st ap W (elems V st)"
proof -
  have "list_inv n (ps(t := List_return b)) st (ap(t := Set_done b)) W (elems V st)"
    by (rule advance_list [OF assms(1) evolves_refl assms(2)]) (use assms in \<open>auto simp: threads_ok_def\<close>)
  with assms(4-7) show ?thesis unfolding list_simulates_def by blast
qed

lemma node_simps:
  assumes "list_ok V st" and "p \<in> V"
  shows "node_at p st = Inr (the (nodes st p))" and "next_snapshot p st = Inr (nword (nodes st) p)"
proof -
  from list_okD(3,5) [OF assms(1) assms(2)] show "node_at p st = Inr (the (nodes st p))" by (auto simp: node_at_def)
  then show "next_snapshot p st = Inr (nword (nodes st) p)" by (simp add: next_snapshot_def nword_def)
qed

lemma set_next_relinked:
  assumes "list_ok V st" and "p \<in> V"
  shows "relinked st p x (set_next p (the (nodes st p)) x st)" and "set_next p (the (nodes st p)) (nword (nodes st) p) st = st"
proof -
  obtain nd where nd: "nodes st p = Some nd" "get_ptr p = p" using list_okD(3,5) [OF assms(1) assms(2)] by auto
  then show "relinked st p x (set_next p (the (nodes st p)) x st)" by (simp add: relinked_def set_next_def)
  from nd have "nodes st = (nodes st)(p \<mapsto> nd)" by auto
  with nd show "set_next p (the (nodes st p)) (nword (nodes st) p) st = st" by (simp add: set_next_def nword_def)
qed

lemma cas_cases:
  assumes "list_ok V st" and "l \<in> V"
  shows "\<exists>st'. next_compare_and_swap l e d st = Inr (nword (nodes st) l = e, st') \<and> (if nword (nodes st) l = e then relinked st l d st' else st' = st)"
proof (cases "nword (nodes st) l = e")
  case True
  with set_next_relinked(1) [OF assms, of d] node_simps(1) [OF assms] show ?thesis
    by (simp add: next_compare_and_swap_def compare_exchange_strong_def nword_def)
next
  case False
  with set_next_relinked(2) [OF assms] node_simps(1) [OF assms] show ?thesis
    by (simp add: next_compare_and_swap_def compare_exchange_strong_def nword_def)
qed

lemma set_mark_word:
  "set_mark p 0 = Inr (get_ptr p)" "get_ptr (get_ptr p OR 1) = get_ptr p" "get_mark (get_ptr p OR 1) = 1" "set_mark p 1 = Inr (get_ptr p OR 1)"
proof -
  show m: "set_mark p 0 = Inr (get_ptr p)" "set_mark p 1 = Inr (get_ptr p OR 1)" by (simp_all add: set_mark_def clear_mark_def get_ptr_def)
  show "get_ptr (get_ptr p OR 1) = get_ptr p" "get_mark (get_ptr p OR 1) = 1" using set_mark_Inr [OF m(2)] by simp_all
qed

lemma mark_cases:
  assumes "list_ok V st" and "r \<in> V" and "get_mark x = 0"
  shows "\<exists>st'. next_compare_and_set_mark r x 1 st = Inr (nword (nodes st) r = x, st') \<and> (if nword (nodes st) r = x then relinked st r (x OR 1) st' else st' = st)"
proof -
  have m: "set_mark x 1 = Inr (x OR 1)" using set_mark_word(4) [of x] unmarked_ptr [of x] assms(3) by simp
  show ?thesis
  proof (cases "nword (nodes st) r = x")
    case True
    with set_next_relinked(1) [OF assms(1,2), of "x OR 1"] node_simps(1) [OF assms(1,2)] m show ?thesis
      by (simp add: next_compare_and_set_mark_def compare_and_set_mark_def compare_exchange_strong_def nword_def)
  next
    case False
    with set_next_relinked(2) [OF assms(1,2)] node_simps(1) [OF assms(1,2)] m show ?thesis
      by (simp add: next_compare_and_set_mark_def compare_and_set_mark_def compare_exchange_strong_def nword_def)
  qed
qed

lemma evolves_relinked:
  assumes rl: "relinked st l x st'" and "l \<in> V" and "\<not> marked (nodes st) l" and "V \<subseteq> V'"
  shows "evolves V st V' st'"
proof -
  have "nodes st' p = nodes st p" if "p \<noteq> l" for p using rl that by (simp add: relinked_def)
  with assms relinked_simps(1,4) [OF rl] show ?thesis unfolding evolves_def by metis
qed

lemma gap_now:
  assumes "list_ok V st" and "l \<in> V" and "\<not> marked (nodes st) l" and "l \<noteq> tail_ptr st" and "elems V st \<in> W"
  shows "gap_seen st W l (get_ptr (nword (nodes st) l))"
  using gap [OF assms(1-3) refl list_okD(10) [OF assms(1,2,4)]] assms(5) by (auto simp: gap_seen_def)

lemma key_not_tail: "list_ok V st \<Longrightarrow> nkey (nodes st) p < k \<Longrightarrow> valid_key k \<Longrightarrow> p \<noteq> tail_ptr st"
  by (auto simp: list_ok_def valid_key_def)

lemma key_not_head: "list_ok V st \<Longrightarrow> k \<le> nkey (nodes st) p \<Longrightarrow> valid_key k \<Longrightarrow> p \<noteq> head_ptr st"
  by (auto simp: list_ok_def valid_key_def)

lemma thread_ok:
  assumes "threads_ok n V ps st ap W" and "t < n"
  shows "pc_ok V st (W t) (ps t) (ap t)" and "elems V st \<in> W t"
  using assms by (simp_all add: threads_ok_def)

lemma simulates_search_next:
  assumes T: "threads_ok n V ps st ap W" and ok: "list_ok V st" and t: "t < n" and pc: "ps t = Search_next who r"
  shows "list_simulates n t q ps st ap W (elems V st)"
proof -
  note D = list_okD [OF ok]
  have p: "ap t = caller who" "valid_key (search_key who)" "r = head_ptr st" using thread_ok(1) [OF T t] pc by auto
  have h: "r \<in> V" "\<not> marked (nodes st) r" "nkey (nodes st) r < search_key who" using D(1,6,7) p by (auto simp: valid_key_def)
  have nt: "r \<noteq> tail_ptr st" by (rule key_not_tail [OF ok h(3) p(2)])
  have m: "get_mark (nword (nodes st) r) = 0" using h(2) by (simp add: marked_def)
  then have w: "get_ptr (nword (nodes st) r) = nword (nodes st) r" using unmarked_ptr by blast
  have step: "list_step q (ps t) st = Inr (Search_loop who nullptr nullptr r (nword (nodes st) r), st)"
    using pc node_simps(2) [OF ok h(1)] by (simp add: search_next_def)
  show ?thesis
    by (rule list_stutter [OF T ok t step evolves_refl refl])
      (use p h m D(10) [OF h(1) nt] gap_now [OF ok h(1,2) nt thread_ok(2) [OF T t]] w in auto)
qed

lemma shift_ok:
  assumes "pc_ok V st W (Search_loop who l ln r rn) a" and "search_shift l ln r rn = (l', ln')" and "list_ok V st"
  shows "l' \<in> V \<and> nkey (nodes st) l' < search_key who \<and>
    (if ln' = nullptr then gap_seen st W l' (get_ptr rn) else ln' \<in> V \<and> (dead_link (nodes st))\<^sup>*\<^sup>* ln' (get_ptr rn))"
proof (cases "get_mark rn = 0")
  case True
  then show ?thesis using assms(1,2) unmarked_ptr [of rn] by (auto simp: search_shift_def snapshot_get_mark_def)
next
  case False
  with assms(1) have d: "dead_link (nodes st) r (get_ptr rn)" "l \<in> V" "nkey (nodes st) l < search_key who" "r \<in> V"
    "ln \<noteq> nullptr \<longrightarrow> ln \<in> V \<and> (dead_link (nodes st))\<^sup>*\<^sup>* ln r" by auto
  then show ?thesis using assms(2) False list_okD(4) [OF assms(3) d(4)]
    by (auto simp: search_shift_def snapshot_get_mark_def intro: rtranclp.rtrancl_into_rtrancl split: if_splits)
qed

lemma simulates_search_loop:
  assumes T: "threads_ok n V ps st ap W" and ok: "list_ok V st" and t: "t < n" and pc: "ps t = Search_loop who l ln r rn"
  shows "list_simulates n t q ps st ap W (elems V st)"
proof -
  note D = list_okD [OF ok]
  have pok: "pc_ok V st (W t) (Search_loop who l ln r rn) (ap t)" using thread_ok(1) [OF T t] pc by simp
  obtain l' ln' where sh: "search_shift l ln r rn = (l', ln')" by fastforce
  note L = shift_ok [OF pok sh ok]
  define r' rn' where "r' = get_ptr rn" and "rn' = nword (nodes st) r'"
  have p: "ap t = caller who" "valid_key (search_key who)" "r' \<in> V" using pok by (auto simp: r'_def)
  define pc' where "pc' = (if get_mark rn' \<noteq> 0 \<or> nkey (nodes st) r' < search_key who then Search_loop who l' ln' r' rn'
           else if ln' = nullptr then Search_mark who l' r' else Search_cas who l' ln' r')"
  have step: "list_step q (ps t) st = Inr (pc', st)"
    using pc sh set_mark_word(1) [of rn] node_simps [OF ok p(3)]
    by (simp add: search_loop_def snapshot_set_mark_def snapshot_get_mark_def pc'_def r'_def rn'_def nkey_def)
  have go: "get_ptr rn' \<in> V \<and> (if get_mark rn' = 0 then gap_seen st (W t) r' rn' else dead_link (nodes st) r' (get_ptr rn'))"
    if "get_mark rn' \<noteq> 0 \<or> nkey (nodes st) r' < search_key who"
  proof -
    have nt: "r' \<noteq> tail_ptr st" using that key_not_tail [OF ok _ p(2), of r'] D(9) by (auto simp: marked_def rn'_def)
    have "gap_seen st (W t) r' rn'" if "get_mark rn' = 0"
      using gap_now [OF ok p(3) _ nt thread_ok(2) [OF T t]] that unmarked_ptr [of rn'] by (simp add: marked_def rn'_def)
    with D(3) [OF p(3)] D(10) [OF p(3) nt] show ?thesis by (auto simp: dead_link_def link_def marked_def rn'_def)
  qed
  have "pc_ok V st (W t) pc' (ap t)"
    using p L go unfolding pc'_def r'_def [symmetric] by (auto simp: between_def)
  then show ?thesis by (rule list_stutter [OF T ok t step evolves_refl refl]) (auto simp: pc'_def split: if_splits)
qed

lemma simulates_search_cas:
  assumes T: "threads_ok n V ps st ap W" and ok: "list_ok V st" and t: "t < n" and pc: "ps t = Search_cas who l ln r"
  shows "list_simulates n t q ps st ap W (elems V st)"
proof -
  have p: "ap t = caller who" "between V st l (search_key who) r" "ln \<in> V" "(dead_link (nodes st))\<^sup>*\<^sup>* ln r" using thread_ok(1) [OF T t] pc by auto
  then have b: "l \<in> V" "r \<in> V" "nkey (nodes st) l < nkey (nodes st) r" "valid_key (search_key who)" "nkey (nodes st) l < search_key who"
    by (auto simp: between_def)
  from cas_cases [OF ok b(1), of ln r] obtain st' where st': "next_compare_and_swap l ln r st = Inr (nword (nodes st) l = ln, st')"
    "if nword (nodes st) l = ln then relinked st l r st' else st' = st" by blast
  show ?thesis
  proof (cases "nword (nodes st) l = ln")
    case True
    with st' have rl: "relinked st l r st'" and step: "list_step q (ps t) st = Inr (Search_mark who l r, st')"
      using pc by (simp_all add: search_cas_def)
    have ln: "get_ptr ln = ln" "get_mark ln = 0" and r0: "get_ptr r = r" "get_mark r = 0"
      using list_okD(5) [OF ok p(3)] list_okD(5) [OF ok b(2)] unmarked_ptr by auto
    have um: "\<not> marked (nodes st) l" using True ln by (simp add: marked_def)
    have path: "(dead_link (nodes st))\<^sup>*\<^sup>* (get_ptr (nword (nodes st) l)) r" using p(4) True ln by simp
    note new = skip_ok [OF ok b(1) um b(2,3) path rl]
    have simps: "\<not> marked (nodes st') l" "l \<noteq> tail_ptr st'" "nword (nodes st') l = r" "between V st' l (search_key who) r"
      using relinked_marked [OF rl, of l] r0 key_not_tail [OF ok b(5,4)] relinked_simps [OF rl] p(2) by (auto simp: between_def)
    have "gap_seen st' (W t) l r"
      using gap_now [OF new(1) b(1) simps(1,2), of "W t"] thread_ok(2) [OF T t] new(2) simps(3) r0 by simp
    then show ?thesis
      by (intro list_stutter [OF T new(1) t step evolves_relinked [OF rl b(1) um] new(2)]) (use p(1) simps in auto)
  next
    case False
    with st' have step: "list_step q (ps t) st = Inr (Search_head who, st)" using pc by (simp add: search_cas_def)
    show ?thesis by (rule list_stutter [OF T ok t step evolves_refl refl]) (use p(1) b in auto)
  qed
qed

lemma in_elems:
  assumes "list_ok V st" and "p \<in> V" and "\<not> marked (nodes st) p" and "valid_key (nkey (nodes st) p)"
  shows "nkey (nodes st) p \<in> elems V st"
  using assms(2,3,4) list_okD(6,8) [OF assms(1)] by (auto simp: elems_def valid_key_def)

lemma simulates_search_mark:
  assumes T: "threads_ok n V ps st ap W" and ok: "list_ok V st" and t: "t < n" and pc: "ps t = Search_mark who l r"
  shows "list_simulates n t q ps st ap W (elems V st)"
proof -
  have p: "ap t = caller who" "between V st l (search_key who) r" "gap_seen st (W t) l r" using thread_ok(1) [OF T t] pc by auto
  then have r: "r \<in> V" "valid_key (search_key who)" by (auto simp: between_def)
  have step: "list_step q (ps t) st = Inr (if \<not> marked (nodes st) r then search_done who l r (nkey (nodes st) r) else Search_head who, st)"
    using pc node_simps(1) [OF ok r(1)] by (simp add: search_mark_def arc_get_mark_def marked_def nword_def nkey_def)
  note stutter = list_stutter [OF T ok t step evolves_refl refl]
  show ?thesis
  proof (cases "marked (nodes st) r")
    case True
    then show ?thesis by (intro stutter) (use p r in auto)
  next
    case False
    have found: "search_key who \<in> elems V st" if "nkey (nodes st) r = search_key who" using in_elems [OF ok r(1) False] that r(2) by simp
    obtain S where S: "S \<in> W t" "nkey (nodes st) r \<noteq> search_key who \<Longrightarrow> search_key who \<notin> S"
      using p(2,3) by (auto simp: gap_seen_def between_def)
    define S0 where "S0 = (if nkey (nodes st) r = search_key who then elems V st else S)"
    have S0: "S0 \<in> W t" "search_key who \<in> S0 \<longleftrightarrow> nkey (nodes st) r = search_key who"
      using S found thread_ok(2) [OF T t] by (auto simp: S0_def)
    show ?thesis
    proof (cases who)
      case (By_find k)
      show ?thesis by (rule list_observe [OF T ok t, of q "nkey (nodes st) r = k" "Find_key k" S0]) (use step By_find False p S0 in auto)
    next
      case (By_insert k)
      show ?thesis
      proof (cases "nkey (nodes st) r = k")
        case True
        show ?thesis by (rule list_observe [OF T ok t, of q False "Insert_key k" S0]) (use step By_insert True False p S0 in auto)
      qed (intro stutter; use By_insert False p in auto)
    next
      case (By_remove k)
      show ?thesis
      proof (cases "nkey (nodes st) r = k")
        case False
        show ?thesis by (rule list_observe [OF T ok t, of q False "Remove_key k" S0]) (use step By_remove False \<open>\<not> marked (nodes st) r\<close> p S0 in auto)
      qed (intro stutter; use By_remove False p in auto)
    next
      case (By_unlink k)
      then show ?thesis by (intro stutter) (use False p in auto)
    qed
  qed
qed

text \<open>A new node, which nobody else can reach.\<close>

lemma alloc_ok:
  assumes ok: "list_ok V st" and q: "nodes st q = None" "q \<noteq> nullptr" and st': "st' = st\<lparr>nodes := (nodes st)(q \<mapsto> nd)\<rparr>"
  shows "list_ok V st'" and "elems V st' = elems V st" and "evolves V st V st'"
proof -
  note D = list_okD [OF ok]
  have N: "nodes st' = (nodes st)(q \<mapsto> nd)" "head_ptr st' = head_ptr st" "tail_ptr st' = tail_ptr st" using st' by simp_all
  have ne: "p \<noteq> q" if "p \<in> V" for p using D(3) [OF that] q by auto
  then have same: "nkey (nodes st') p = nkey (nodes st) p" "nword (nodes st') p = nword (nodes st) p" "marked (nodes st') p = marked (nodes st) p"
    if "p \<in> V" for p using that by (simp_all add: N nkey_def nword_def marked_def)
  have "link (nodes st) p z \<Longrightarrow> link (nodes st') p z" for p z using q by (auto simp: N link_def nword_def)
  then have reach: "(link (nodes st))\<^sup>*\<^sup>* p z \<Longrightarrow> (link (nodes st'))\<^sup>*\<^sup>* p z" for p z by (metis mono_rtranclp)
  have sorted: "nkey (nodes st') p < nkey (nodes st') (get_ptr (nword (nodes st') p))" "get_ptr (nword (nodes st') p) \<in> V"
    if "p \<in> V" "p \<noteq> tail_ptr st" for p using D(10,11) [OF that] same that by simp_all
  have dom: "nodes st' p \<noteq> None" if "p \<in> V" for p using D(3) that by (simp add: N)
  have "nodes st' nullptr = None" using D(14) q by (simp add: N)
  then show "list_ok V st'" unfolding list_ok_def N(2,3) using D same sorted dom reach by simp
  show "elems V st' = elems V st" using same unfolding elems_def N(2,3) by (auto simp: image_iff)
  show "evolves V st V st'" using same q by (auto simp: evolves_def N)
qed

lemma simulates_insert_make:
  assumes T: "threads_ok n V ps st ap W" and ok: "list_ok V st" and t: "t < n" and q: "fresh_address q st" and pc: "ps t = Insert_make k l r"
  shows "list_simulates n t q ps st ap W (elems V st)"
proof -
  have p: "ap t = Set_pending (Insert_key k)" "between V st l k r" "nkey (nodes st) r \<noteq> k" using thread_ok(1) [OF T t] pc by auto
  have q': "nodes st q = None" "q \<noteq> nullptr" "get_ptr q = q"
    using q unmarked_ptr [of q] by (auto simp: fresh_address_def aligned4_def get_mark_def mark_mask mark_3)
  define st' where "st' = st\<lparr>nodes := (nodes st)(q \<mapsto> \<lparr>node_key = k, node_next = r\<rparr>)\<rparr>"
  note new = alloc_ok [OF ok q'(1,2) st'_def]
  have step: "list_step q (ps t) st = Inr (Insert_cas k l r q, st')" using pc by (simp add: insert_make_def st'_def)
  have "q \<notin> V" using list_okD(3) [OF ok] q'(1) by blast
  moreover have "between V st' l k r" "nkey (nodes st') r = nkey (nodes st) r" using p(2) new(3) by (auto simp: between_def evolves_def)
  ultimately show ?thesis
    by (intro list_stutter [OF T new(1) t step new(3,2)]) (use p q' in \<open>auto simp: st'_def\<close>)
qed

lemma simulates_insert_cas:
  assumes T: "threads_ok n V ps st ap W" and ok: "list_ok V st" and t: "t < n" and pc: "ps t = Insert_cas k l r x"
  shows "list_simulates n t q ps st ap W (elems V st)"
proof -
  have p: "ap t = Set_pending (Insert_key k)" "between V st l k r" "nkey (nodes st) r \<noteq> k" "x \<notin> V" "nodes st x = Some \<lparr>node_key = k, node_next = r\<rparr>"
    "x \<noteq> nullptr" "get_ptr x = x" using thread_ok(1) [OF T t] pc by auto
  then have b: "l \<in> V" "r \<in> V" "nkey (nodes st) l < k" "k < nkey (nodes st) r" "valid_key k" by (auto simp: between_def)
  from cas_cases [OF ok b(1), of r x] obtain st' where st': "next_compare_and_swap l r x st = Inr (nword (nodes st) l = r, st')"
    "if nword (nodes st) l = r then relinked st l x st' else st' = st" by blast
  show ?thesis
  proof (cases "nword (nodes st) l = r")
    case True
    with st' have rl: "relinked st l x st'" and step: "list_step q (ps t) st = Inr (List_return True, st')"
      using pc by (simp_all add: insert_cas_def)
    have um: "\<not> marked (nodes st) l" using True list_okD(5) [OF ok b(2)] unmarked_ptr [of r] by (simp add: marked_def)
    note new = insert_ok [OF ok b(1) um True b(2) p(4-7) b(3,4) rl]
    have "set_apply (Insert_key k) (elems V st) = (elems (insert x V) st', True)" using new by simp
    from list_effect [OF T new(1) t step evolves_relinked [OF rl b(1) um] p(1) this] pc show ?thesis by auto
  next
    case False
    with st' have step: "list_step q (ps t) st = Inr (Search_head (By_insert k), st)" using pc by (simp add: insert_cas_def)
    show ?thesis by (rule list_stutter [OF T ok t step evolves_refl refl]) (use p(1) b in auto)
  qed
qed

lemma simulates_remove_next:
  assumes T: "threads_ok n V ps st ap W" and ok: "list_ok V st" and t: "t < n" and pc: "ps t = Remove_next k l r"
  shows "list_simulates n t q ps st ap W (elems V st)"
proof -
  have p: "ap t = Set_pending (Remove_key k)" "between V st l k r" "nkey (nodes st) r = k" using thread_ok(1) [OF T t] pc by auto
  then have r: "r \<in> V" "valid_key k" by (auto simp: between_def)
  have step: "list_step q (ps t) st = Inr (if get_mark (nword (nodes st) r) = 0 then Remove_mark k l r (nword (nodes st) r) else Search_head (By_remove k), st)"
    using pc node_simps(2) [OF ok r(1)] by (simp add: remove_next_def snapshot_get_mark_def)
  show ?thesis by (rule list_stutter [OF T ok t step evolves_refl refl]) (use p r in \<open>auto split: if_splits\<close>)
qed

lemma simulates_remove_mark:
  assumes T: "threads_ok n V ps st ap W" and ok: "list_ok V st" and t: "t < n" and pc: "ps t = Remove_mark k l r x"
  shows "list_simulates n t q ps st ap W (elems V st)"
proof -
  have p: "ap t = Set_pending (Remove_key k)" "between V st l k r" "nkey (nodes st) r = k" "get_mark x = 0" using thread_ok(1) [OF T t] pc by auto
  then have r: "l \<in> V" "r \<in> V" "valid_key k" by (auto simp: between_def)
  from mark_cases [OF ok r(2) p(4)] obtain st' where st': "next_compare_and_set_mark r x 1 st = Inr (nword (nodes st) r = x, st')"
    "if nword (nodes st) r = x then relinked st r (x OR 1) st' else st' = st" by blast
  show ?thesis
  proof (cases "nword (nodes st) r = x")
    case True
    with st' have rl: "relinked st r (x OR 1) st'" and step: "list_step q (ps t) st = Inr (Remove_unlink k l r x, st')"
      using pc by (simp_all add: remove_mark_def)
    have um: "\<not> marked (nodes st) r" using True p(4) by (simp add: marked_def)
    have x: "get_ptr x = x" "get_ptr (x OR 1) = x" "get_mark (x OR 1) = 1" using p(4) unmarked_ptr [of x] set_mark_word(2,3) [of x] by simp_all
    have ends: "r \<noteq> head_ptr st" "r \<noteq> tail_ptr st" using p(3) r(3) list_okD(6,8) [OF ok] by (auto simp: valid_key_def)
    have ptr: "get_ptr (x OR 1) = get_ptr (nword (nodes st) r)" "get_mark (x OR 1) \<noteq> 0" using x True by simp_all
    note new = mark_ok [OF ok r(2) um ends ptr rl]
    have app: "set_apply (Remove_key k) (elems V st) = (elems V st', True)" using new p(3) by simp
    have "x \<in> V" using list_okD(10) [OF ok r(2) ends(2)] True x by simp
    moreover have "dead_link (nodes st') r x" using relinked_link [OF rl, of r x] relinked_marked [OF rl, of r] x by (simp add: dead_link_def)
    ultimately show ?thesis
      by (intro list_effect [OF T new(1) t step evolves_relinked [OF rl r(2) um] p(1) app])
        (use p(2,3) relinked_simps(4) [OF rl] in \<open>auto simp: between_def\<close>)
  next
    case False
    with st' have step: "list_step q (ps t) st = Inr (Search_head (By_remove k), st)" using pc by (simp add: remove_mark_def)
    show ?thesis by (rule list_stutter [OF T ok t step evolves_refl refl]) (use p(1) r in auto)
  qed
qed

lemma simulates_remove_unlink:
  assumes T: "threads_ok n V ps st ap W" and ok: "list_ok V st" and t: "t < n" and pc: "ps t = Remove_unlink k l r x"
  shows "list_simulates n t q ps st ap W (elems V st)"
proof -
  have p: "ap t = Set_done True" "between V st l k r" "nkey (nodes st) r = k" "x \<in> V" "dead_link (nodes st) r x" using thread_ok(1) [OF T t] pc by auto
  then have r: "l \<in> V" "r \<in> V" "valid_key k" "nkey (nodes st) l < nkey (nodes st) r" by (auto simp: between_def)
  from cas_cases [OF ok r(1), of r x] obtain st' where st': "next_compare_and_swap l r x st = Inr (nword (nodes st) l = r, st')"
    "if nword (nodes st) l = r then relinked st l x st' else st' = st" by blast
  show ?thesis
  proof (cases "nword (nodes st) l = r")
    case True
    with st' have rl: "relinked st l x st'" and step: "list_step q (ps t) st = Inr (List_return True, st')"
      using pc by (simp_all add: remove_unlink_def)
    have r0: "get_ptr r = r" "get_mark r = 0" using list_okD(5) [OF ok r(2)] unmarked_ptr by auto
    have um: "\<not> marked (nodes st) l" using True r0 by (simp add: marked_def)
    have path: "(dead_link (nodes st))\<^sup>*\<^sup>* (get_ptr (nword (nodes st) l)) x" using True r0 p(5) by simp
    have "r \<noteq> tail_ptr st" using p(3) r(3) list_okD(8) [OF ok] by (auto simp: valid_key_def)
    then have "nkey (nodes st) r < nkey (nodes st) x" using list_okD(11) [OF ok r(2)] p(5) by (auto simp: dead_link_def link_def)
    then have lt: "nkey (nodes st) l < nkey (nodes st) x" using r(4) by simp
    note new = skip_ok [OF ok r(1) um p(4) lt path rl]
    show ?thesis by (rule list_stutter [OF T new(1) t step evolves_relinked [OF rl r(1) um] new(2)]) (use p(1) in auto)
  next
    case False
    with st' have step: "list_step q (ps t) st = Inr (Search_head (By_unlink k), st)" using pc by (simp add: remove_unlink_def)
    show ?thesis by (rule list_stutter [OF T ok t step evolves_refl refl]) (use p(1) r in auto)
  qed
qed

lemma list_steps_simulate:
  assumes "list_inv n ps st ap W S" and t: "t < n" and q: "fresh_address q st"
  shows "list_simulates n t q ps st ap W S"
proof -
  from assms(1) obtain V where T: "threads_ok n V ps st ap W" and ok: "list_ok V st" and S: "S = elems V st" by (auto simp: list_inv_def)
  note idle = list_stutter [OF T ok t _ evolves_refl refl]
  have "list_simulates n t q ps st ap W (elems V st)"
  proof (cases "ps t")
    case (Search_head who)
    then show ?thesis using thread_ok(1) [OF T t] by (intro idle) (auto simp: search_head_def)
  next
    case List_idle
    then show ?thesis using thread_ok(1) [OF T t] by (intro idle) auto
  next
    case (List_return b)
    then show ?thesis using thread_ok(1) [OF T t] by (intro idle) auto
  qed (fact simulates_search_next [OF T ok t] simulates_search_loop [OF T ok t] simulates_search_cas [OF T ok t] simulates_search_mark [OF T ok t]
      simulates_insert_make [OF T ok t q] simulates_insert_cas [OF T ok t] simulates_remove_next [OF T ok t] simulates_remove_mark [OF T ok t]
      simulates_remove_unlink [OF T ok t])+
  with S show ?thesis by simp
qed

end
