(* ===== verification/Linked_Lists.thy ===== *)
theory Linked_Lists
  imports List_Linear
begin

text \<open>
  The concurrent list in every interleaving: its histories are those of the atomic set and no step fails, for keys between those of the sentinels; and what becomes of the
  largest \<^verbatim>\<open>int\<close>.
\<close>

section \<open>Runs\<close>

definition sentinels_ok :: "ptr \<Rightarrow> ptr \<Rightarrow> bool" where
  "sentinels_ok a b \<longleftrightarrow> a \<noteq> nullptr \<and> b \<noteq> nullptr \<and> a \<noteq> b \<and> aligned4 a \<and> aligned4 b"

lemma aligned_ptr: "aligned4 p \<longleftrightarrow> get_ptr p = p"
  by (simp add: unmarked_ptr aligned4_def get_mark_def mark_mask mark_3)

lemma list_init_ok:
  assumes "sentinels_ok a b"
  shows "list_ok {a, b} (list_init a b)" and "elems {a, b} (list_init a b) = {}"
proof -
  have p: "a \<noteq> nullptr" "b \<noteq> nullptr" "a \<noteq> b" "get_ptr a = a" "get_ptr b = b" "get_mark a = 0"
    using assms unmarked_ptr [of a] by (simp_all add: sentinels_ok_def aligned_ptr)
  have null: "get_ptr nullptr = nullptr" "get_mark nullptr = 0" by (simp_all add: get_ptr_def get_mark_def)
  have N: "nkey (nodes (list_init a b)) a = int_max" "nkey (nodes (list_init a b)) b = int_lowest" "nword (nodes (list_init a b)) a = nullptr"
    "nword (nodes (list_init a b)) b = a" "head_ptr (list_init a b) = b" "tail_ptr (list_init a b) = a"
    "nodes (list_init a b) a \<noteq> None" "nodes (list_init a b) b \<noteq> None" "nodes (list_init a b) nullptr = None"
    using p by (auto simp: list_init_def nkey_def nword_def)
  have "link (nodes (list_init a b)) b a" using N p by (auto simp: link_def)
  then have "(link (nodes (list_init a b)))\<^sup>*\<^sup>* b a" by blast
  then show "list_ok {a, b} (list_init a b)" using p N null by (simp add: list_ok_def marked_def int_max_def int_lowest_def)
  show "elems {a, b} (list_init a b) = {}" using N by (auto simp: elems_def)
qed

definition keys_valid :: "list_event list \<Rightarrow> bool" where
  "keys_valid h \<longleftrightarrow> (\<forall>t op. Call t op \<in> set h \<longrightarrow> valid_key (call_key op))"

lemma list_run_inv:
  assumes "list_run n (list_init a b) h ps st" and "sentinels_ok a b" and "keys_valid h"
  shows "\<exists>ap W S. watched_set n h ap W S \<and> list_inv n ps st ap W S"
  using assms(1,3)
proof induction
  case start
  have "threads_ok n {a, b} (\<lambda>_. List_idle) (list_init a b) (\<lambda>_. Set_idle) (\<lambda>_. {{}})" using list_init_ok(2) [OF assms(2)] by (simp add: threads_ok_def)
  with list_init_ok [OF assms(2)] have "list_inv n (\<lambda>_. List_idle) (list_init a b) (\<lambda>_. Set_idle) (\<lambda>_. {{}}) {}" unfolding list_inv_def by metis
  with watched_set.start show ?case by blast
next
  case (call h ps st t op)
  then obtain ap W S where a: "watched_set n h ap W S" "list_inv n ps st ap W S" by (auto simp: keys_valid_def)
  then obtain V where V: "list_ok V st" "S = elems V st" "threads_ok n V ps st ap W" by (auto simp: list_inv_def)
  then have idle: "ap t = Set_idle" using thread_ok(1) [OF V(3) call(2)] call(3) by simp
  have "valid_key (call_key op)" using call.prems by (auto simp: keys_valid_def)
  then have "pc_ok V st {S} (list_entry op) (Set_pending op)" by (cases op) simp_all
  moreover have "own_node (list_entry op) = {}" by (cases op) simp_all
  ultimately have "threads_ok n V (ps(t := list_entry op)) st (ap(t := Set_pending op)) (W(t := {S}))"
    using V(2,3) unfolding threads_ok_def by simp
  with V have "list_inv n (ps(t := list_entry op)) st (ap(t := Set_pending op)) (W(t := {S})) S" by (auto simp: list_inv_def)
  with watched_set.call [OF a(1) call(2) idle, of op] show ?case by blast
next
  case (step h ps st t q pc' st')
  then obtain ap W S where a: "watched_set n h ap W S" "list_inv n ps st ap W S" by blast
  from list_steps_simulate [OF a(2) step(2,3)] obtain pc1 st1 ap' W' S' where
    1: "list_step q (ps t) st = Inr (pc1, st1)" "list_inv n (ps(t := pc1)) st1 ap' W' S'" "ap' = ap \<and> W' = W \<and> S' = S \<or>
      (\<exists>op b. ap t = Set_pending op \<and> set_apply op S = (S', b) \<and> ap' = ap(t := Set_done b) \<and> W' = (\<lambda>u. insert S' (W u))) \<or>
      (\<exists>op b. \<exists>S0\<in>W t. ap t = Set_pending op \<and> set_apply op S0 = (S0, b) \<and> ap' = ap(t := Set_done b) \<and> W' = W \<and> S' = S)"
    unfolding list_simulates_def by blast
  from 1(3) have "watched_set n h ap' W' S'"
    using a(1) watched_set.effect [OF a(1) step(2)] watched_set.observe [OF a(1) step(2)] by blast
  moreover have "pc1 = pc'" "st1 = st'" using 1(1) step(4) by simp_all
  ultimately show ?case using 1(2) by blast
next
  case (reply h ps st t b)
  then obtain ap W S where a: "watched_set n h ap W S" "list_inv n ps st ap W S" by (auto simp: keys_valid_def)
  then obtain V where V: "list_ok V st" "S = elems V st" "threads_ok n V ps st ap W" by (auto simp: list_inv_def)
  then have "ap t = Set_done b" using thread_ok(1) [OF V(3) reply(2)] reply(3) by simp
  moreover have "threads_ok n V (ps(t := List_idle)) st (ap(t := Set_idle)) W" using V(3) unfolding threads_ok_def by simp
  with V have "list_inv n (ps(t := List_idle)) st (ap(t := Set_idle)) W S" by (auto simp: list_inv_def)
  ultimately show ?case using watched_set.reply [OF a(1) reply(2)] by blast
qed

text \<open>The keys in the list: those of the nodes that can be reached from the head and are not marked.\<close>

definition list_keys :: "linked_list \<Rightarrow> int set" where
  "list_keys st = nkey (nodes st) ` {p. (link (nodes st))\<^sup>*\<^sup>* (head_ptr st) p \<and> p \<noteq> nullptr \<and> \<not> marked (nodes st) p \<and> p \<noteq> head_ptr st \<and> p \<noteq> tail_ptr st}"

lemma elems_keys:
  assumes "list_ok V st"
  shows "elems V st = list_keys st"
  using reach_sorted [OF assms, of "head_ptr st"] list_okD(1) [OF assms] list_okD(4,13) [OF assms] unfolding elems_def list_keys_def by blast

text \<open>
  (C4) The concurrent sorted list is linearizable and no step of it fails. For any number of threads that interleave between any two accesses to a \<^verbatim>\<open>next\<close> pointer, and keys between
  the two sentinels, the history of calls and replies is one that the atomic set has, where each operation has its effect at a single moment between its call and its reply, and
  the set has just the keys of the nodes that can be reached from \<^verbatim>\<open>head\<close> and are not marked. In each state the next step of every thread returns.
\<close>

theorem list_linearizable:
  assumes "list_run n (list_init a b) h ps st" and "sentinels_ok a b" and "keys_valid h"
  shows "(\<exists>ap. atomic_set n h ap (list_keys st)) \<and> (\<forall>t<n. \<forall>q. fresh_address q st \<longrightarrow> (\<exists>pc' st'. list_step q (ps t) st = Inr (pc', st')))"
proof -
  from list_run_inv [OF assms] obtain ap W S where inv: "watched_set n h ap W S" "list_inv n ps st ap W S" by blast
  then have "S = list_keys st" using elems_keys by (auto simp: list_inv_def)
  with watched_atomic [OF inv(1)] list_steps_simulate [OF inv(2)] show ?thesis unfolding list_simulates_def by blast
qed

text \<open>A run of two threads: thread 0 inserts 5; thread 1 removes it, after a failed exchange of thread 0's second insertion.\<close>

definition list_demo :: "list_action list" where
  "list_demo = Do_call 0 (Insert_key 5) # replicate 5 (Do_step 0 24) @ [Do_step 0 32, Do_reply 0, Do_call 1 (Remove_key 5), Do_call 0 (Insert_key 7)] @ replicate 6 (Do_step 0 32) @
     replicate 7 (Do_step 1 40) @ [Do_reply 1] @ replicate 6 (Do_step 0 40) @ [Do_step 0 48, Do_reply 0]"

lemma list_demo_run:
  "\<exists>ps st. list_run 2 (list_init 8 16) [Call 0 (Insert_key 5), Reply 0 True, Call 1 (Remove_key 5), Call 0 (Insert_key 7), Reply 1 True, Reply 0 True] ps st"
proof -
  have "map_option (map_sum id fst) (list_exec 2 list_demo ([], \<lambda>_. List_idle, list_init 8 16)) =
      Some (Inr [Call 0 (Insert_key 5), Reply 0 True, Call 1 (Remove_key 5), Call 0 (Insert_key 7), Reply 1 True, Reply 0 True])"
    by code_simp
  then obtain ps st where "list_exec 2 list_demo ([], \<lambda>_. List_idle, list_init 8 16) =
      Some (Inr ([Call 0 (Insert_key 5), Reply 0 True, Call 1 (Remove_key 5), Call 0 (Insert_key 7), Reply 1 True, Reply 0 True], ps, st))"
    by (auto simp: map_option_case map_sum_def split: option.splits sum.splits prod.splits)
  from list_exec_run [OF this list_run.start] show ?thesis by blast
qed

theorem list_linearizable_witness:
  "\<exists>ps st. list_run 2 (list_init 8 16) [Call 0 (Insert_key 5), Reply 0 True, Call 1 (Remove_key 5), Call 0 (Insert_key 7), Reply 1 True, Reply 0 True] ps st \<and>
     (\<exists>ap. atomic_set 2 [Call 0 (Insert_key 5), Reply 0 True, Call 1 (Remove_key 5), Call 0 (Insert_key 7), Reply 1 True, Reply 0 True] ap (list_keys st)) \<and>
     (\<forall>t<2. \<forall>q. fresh_address q st \<longrightarrow> (\<exists>pc' st'. list_step q (ps t) st = Inr (pc', st')))"
proof -
  have "sentinels_ok 8 16" by (simp add: sentinels_ok_def aligned4_def)
  moreover have "keys_valid [Call 0 (Insert_key 5), Reply 0 True, Call 1 (Remove_key 5), Call 0 (Insert_key 7), Reply 1 True, Reply 0 True]"
    by (auto simp: keys_valid_def valid_key_def int_lowest_def int_max_def)
  ultimately show ?thesis using list_demo_run list_linearizable [of 2 8 16] by blast
qed

section \<open>The key of the tail\<close>

text \<open>
  (C39) The largest \<^verbatim>\<open>int\<close> is not a key that the list can handle, although nothing keeps it out: in an empty list \<^verbatim>\<open>find\<close> says that it is there, because it finds the sentinel;
  and \<^verbatim>\<open>remove\<close> removes the sentinel, so that the next \<^verbatim>\<open>find\<close> of any key dereferences a null pointer.
\<close>

theorem list_tail_key_breaks:
  "(\<exists>ps st. list_exec 1 (Do_call 0 (Find_key int_max) # replicate 4 (Do_step 0 24) @ [Do_reply 0]) ([], \<lambda>_. List_idle, list_init 8 16) =
      Some (Inr ([Call 0 (Find_key int_max), Reply 0 True], ps, st))) \<and>
   list_exec 1 (Do_call 0 (Remove_key int_max) # replicate 7 (Do_step 0 24) @ [Do_reply 0, Do_call 0 (Find_key 0)] @ replicate 3 (Do_step 0 24))
      ([], \<lambda>_. List_idle, list_init 8 16) = Some (Inl (UseAfterFree nullptr))"
proof
  let ?run = "list_exec 1 (Do_call 0 (Find_key int_max) # replicate 4 (Do_step 0 24) @ [Do_reply 0]) ([], \<lambda>_. List_idle, list_init 8 16)"
  have "map_option (map_sum id fst) ?run = Some (Inr [Call 0 (Find_key int_max), Reply 0 True])" by code_simp
  then show "\<exists>ps st. ?run = Some (Inr ([Call 0 (Find_key int_max), Reply 0 True], ps, st))"
    by (auto simp: map_option_case map_sum_def split: option.splits sum.splits prod.splits)
  have "map_option (map_sum id fst) (list_exec 1 (Do_call 0 (Remove_key int_max) # replicate 7 (Do_step 0 24) @ [Do_reply 0, Do_call 0 (Find_key 0)] @ replicate 3 (Do_step 0 24))
      ([], \<lambda>_. List_idle, list_init 8 16)) = Some (Inl (UseAfterFree nullptr))" by code_simp
  then show "list_exec 1 (Do_call 0 (Remove_key int_max) # replicate 7 (Do_step 0 24) @ [Do_reply 0, Do_call 0 (Find_key 0)] @ replicate 3 (Do_step 0 24))
      ([], \<lambda>_. List_idle, list_init 8 16) = Some (Inl (UseAfterFree nullptr))"
    by (auto simp: map_option_case map_sum_def split: option.splits sum.splits prod.splits)
qed

end
