(* ===== verification/Acquire_Retire_Hyaline.thy ===== *)
theory Acquire_Retire_Hyaline
  imports Deferred_Lists
begin

text \<open>
  \<^verbatim>\<open>include/cdrc/internal/smr/acquire_retire_hyaline.h\<close>: deferred reference counting with Hyaline. Retired pointers are
  collected in batches of nodes. A full batch is hung, one node each, into the lists of the threads that are inside a critical section; a thread
  that leaves gives back its nodes, and whoever gives back the last one frees the batch. The tracker is a singleton of its own in the
  code; here it is a part of the state. The nodes are in a heap of their own, and every loop iteration that touches memory that threads share
  is a call of its own.
\<close>

section \<open>Nodes\<close>

type_synonym nptr = nat

abbreviation null_node :: nptr where "null_node \<equiv> 0"

definition invptr :: nptr where "invptr = 1"

definition REFC_PROTECT :: u64 where "REFC_PROTECT = push_bit 62 1"

text \<open>
  The two unions of \<^verbatim>\<open>Node\<close>. The code relies on the first: \<^verbatim>\<open>refc\<close> and \<^verbatim>\<open>bnext\<close> share a machine word, so
  that a count of zero ends the list of the batch. The third word is the next node or the function that ejects, which is one of three.
\<close>

datatype refc_bnext = U_refc u64 | U_bnext nptr

fun as_refc :: "refc_bnext \<Rightarrow> u64" where
  "as_refc (U_refc r) = r"
| "as_refc (U_bnext p) = of_nat p"

fun as_bnext :: "refc_bnext \<Rightarrow> nptr" where
  "as_bnext (U_refc r) = unat r"
| "as_bnext (U_bnext p) = p"

datatype next_decrement = U_next nptr | U_decrement RetireType

fun as_next :: "next_decrement \<Rightarrow> error + nptr" where
  "as_next (U_next p) = Inr p"
| "as_next (U_decrement type) = Inl WrongMember"

fun as_decrement :: "next_decrement \<Rightarrow> error + RetireType" where
  "as_decrement (U_next p) = Inl WrongMember"
| "as_decrement (U_decrement type) = Inr type"

record hy_node =
  hn_obj :: ptr
  hn_refc :: refc_bnext
  hn_next :: next_decrement
  hn_blink :: nptr

definition new_hy_node :: "ptr \<Rightarrow> hy_node" where
  "new_hy_node ob = \<lparr>hn_obj = ob, hn_refc = U_bnext null_node, hn_next = U_next null_node, hn_blink = null_node\<rparr>"

record hy_batch =
  b_first :: nptr
  b_refs :: nptr
  b_counter :: u64

definition new_hy_batch :: hy_batch where
  "new_hy_batch = \<lparr>b_first = null_node, b_refs = null_node, b_counter = 0\<rparr>"

section \<open>State\<close>

definition hy_batch_size :: nat where "hy_batch_size = 2"

record 'o acquire_retire_hyaline = "'o mm" +
  hy_threads :: nat
  hy_nodes :: "(nptr, hy_node) fmap"
  hy_critical :: "tid \<Rightarrow> bool"
  hy_rsrv :: "tid \<Rightarrow> nptr"
  hy_local :: "tid \<Rightarrow> hy_batch"
  hy_in_progress :: "tid \<Rightarrow> bool"

definition acquire_retire_hyaline_init :: "nat \<Rightarrow> 'o acquire_retire_hyaline" where
  "acquire_retire_hyaline_init num_threads =
     \<lparr>heap = fmempty, num_allocated = (\<lambda>_. 0), hy_threads = num_threads, hy_nodes = fmempty, hy_critical = (\<lambda>_. False),
      hy_rsrv = (\<lambda>_. invptr), hy_local = (\<lambda>_. new_hy_batch), hy_in_progress = (\<lambda>_. False)\<rparr>"

definition with_node :: "nptr \<Rightarrow> ('o, 'e) acquire_retire_hyaline_scheme \<Rightarrow> (hy_node \<Rightarrow> error + 'r) \<Rightarrow> error + 'r" where
  "with_node n s f = (case fmlookup (hy_nodes s) n of None \<Rightarrow> Inl (UseAfterFree (of_nat n)) | Some nd \<Rightarrow> f nd)"

definition put_node :: "nptr \<Rightarrow> hy_node \<Rightarrow> ('o, 'e) acquire_retire_hyaline_scheme \<Rightarrow> ('o, 'e) acquire_retire_hyaline_scheme" where
  "put_node n nd s = s\<lparr>hy_nodes := fmupd n nd (hy_nodes s)\<rparr>"

definition delete_node :: "nptr \<Rightarrow> ('o, 'e) acquire_retire_hyaline_scheme \<Rightarrow> ('o, 'e) acquire_retire_hyaline_scheme" where
  "delete_node n s = s\<lparr>hy_nodes := fmdrop n (hy_nodes s)\<rparr>"

section \<open>Calls\<close>

text \<open>
  The member functions that run code of other classes, cut at these calls and at the accesses to shared memory: the loop of \<^verbatim>\<open>retire\<close> and what
  follows its call of \<^verbatim>\<open>add_batch\<close>; \<^verbatim>\<open>add_batch\<close> with the loop over the threads, before the load and before the exchange (index, node,
  \<^verbatim>\<open>batch.refs\<close>, \<^verbatim>\<open>cnt\<close>, the value loaded); \<^verbatim>\<open>traverse\<close>; \<^verbatim>\<open>free_batch\<close> with its loop before and after the call of
  \<^verbatim>\<open>decrement\<close>; the end of \<^verbatim>\<open>end_critical_section\<close>; the loops of the destructor.
\<close>

datatype hy_call =
    H_retire_loop
  | H_retire_next
  | H_add_batch nptr nptr
  | H_add_load nat nptr nptr u64
  | H_add_cas nat nptr nptr u64 nptr
  | H_traverse nptr
  | H_free_batch nptr
  | H_free nptr RetireType nptr
  | H_free_next nptr RetireType nptr nptr
  | H_leave
  | H_dtor_for tid
  | H_dtor_while tid
  | H_dtor_node nptr nptr
  | H_dtor_next nptr nptr nptr

type_synonym ('o, 'e) hy_result = "error + hy_call mm_call list \<times> ('o, 'e) acquire_retire_hyaline_scheme"

section \<open>The tracker\<close>

definition hy_begin_critical_section :: "tid \<Rightarrow> ('o, 'e) acquire_retire_hyaline_scheme \<Rightarrow> bool \<times> ('o, 'e) acquire_retire_hyaline_scheme" where
  "hy_begin_critical_section t s =
     (if hy_critical s t then (False, s)
      else (True, s\<lparr>hy_rsrv := (hy_rsrv s)(t := snd (exchange (hy_rsrv s t) null_node)),
                    hy_critical := (hy_critical s)(t := True)\<rparr>))"

definition hy_end_critical_section :: "tid \<Rightarrow> ('o, 'e) acquire_retire_hyaline_scheme \<Rightarrow> ('o, 'e) hy_result" where
  "hy_end_critical_section t s =
     (if \<not> hy_critical s t then Inl (AssertionFailed ''critical_section[id]'')
      else let (p, v) = exchange (hy_rsrv s t) invptr in
        if p = invptr then Inl (AssertionFailed ''p != invptr'')
        else Inr ([C_derived (H_traverse p), C_derived H_leave], s\<lparr>hy_rsrv := (hy_rsrv s)(t := v)\<rparr>))"

definition hy_in_critical_section :: "tid \<Rightarrow> ('o, 'e) acquire_retire_hyaline_scheme \<Rightarrow> bool" where
  "hy_in_critical_section t s = hy_critical s t"

definition hy_add_batch :: "nptr \<Rightarrow> nptr \<Rightarrow> ('o, 'e) acquire_retire_hyaline_scheme \<Rightarrow> ('o, 'e) hy_result" where
  "hy_add_batch first refs s =
     with_node refs s (\<lambda>nd.
       Inr ([C_derived (H_add_load 0 first refs (- REFC_PROTECT))], put_node refs (nd\<lparr>hn_blink := first\<rparr>) s))"

text \<open>The next round of the loop of \<^verbatim>\<open>add_batch\<close>.\<close>

definition hy_add_round :: "nat \<Rightarrow> nptr \<Rightarrow> nptr \<Rightarrow> u64 \<Rightarrow> ('o, 'e) acquire_retire_hyaline_scheme \<Rightarrow> ('o, 'e) hy_result" where
  "hy_add_round i cur refs cnt s =
     with_node cur s (\<lambda>nd. Inr ([C_derived (H_add_load (Suc i) (as_bnext (hn_refc nd)) refs cnt)], s))"

definition hy_add_load :: "nat \<Rightarrow> nptr \<Rightarrow> nptr \<Rightarrow> u64 \<Rightarrow> ('o, 'e) acquire_retire_hyaline_scheme \<Rightarrow> ('o, 'e) hy_result" where
  "hy_add_load i cur refs cnt s =
     (if i < hy_threads s then
        let prev = hy_rsrv s i in
        if prev = invptr then hy_add_round i cur refs cnt s
        else Inr ([C_derived (H_add_cas i cur refs cnt prev)], s)
      else with_node refs s (\<lambda>nd.
        let (old, new) = fetch_add (as_refc (hn_refc nd)) cnt in
        Inr (if old = - cnt then [C_derived (H_free_batch refs)] else [], put_node refs (nd\<lparr>hn_refc := U_refc new\<rparr>) s)))"

definition hy_add_cas :: "nat \<Rightarrow> nptr \<Rightarrow> nptr \<Rightarrow> u64 \<Rightarrow> nptr \<Rightarrow> ('o, 'e) acquire_retire_hyaline_scheme \<Rightarrow> ('o, 'e) hy_result" where
  "hy_add_cas i cur refs cnt prev s =
     with_node cur s (\<lambda>nd.
       let s1 = put_node cur (nd\<lparr>hn_next := U_next prev\<rparr>) s;
           (success, _, v) = compare_exchange_strong (hy_rsrv s1 i) prev cur;
           s2 = s1\<lparr>hy_rsrv := (hy_rsrv s1)(i := v)\<rparr>
       in if success then hy_add_round i cur refs (cnt + 1) s2
          else Inr ([C_derived (H_add_load i cur refs cnt)], s2))"

definition hy_traverse :: "nptr \<Rightarrow> ('o, 'e) acquire_retire_hyaline_scheme \<Rightarrow> ('o, 'e) hy_result" where
  "hy_traverse cur s =
     (if cur = null_node then Inr ([], s)
      else if cur = invptr then Inl (AssertionFailed ''curr != invptr'')
      else with_node cur s (\<lambda>nd. ebind (as_next (hn_next nd)) (\<lambda>next.
        let refs = hn_blink nd in
        with_node refs s (\<lambda>rn.
          let (old, new) = fetch_add (as_refc (hn_refc rn)) (- 1) in
          Inr ((if old = 1 then [C_derived (H_free_batch refs)] else []) @ [C_derived (H_traverse next)],
               put_node refs (rn\<lparr>hn_refc := U_refc new\<rparr>) s)))))"

definition hy_free_batch :: "nptr \<Rightarrow> ('o, 'e) acquire_retire_hyaline_scheme \<Rightarrow> ('o, 'e) hy_result" where
  "hy_free_batch refs s =
     with_node refs s (\<lambda>rn. ebind (as_decrement (hn_next rn)) (\<lambda>decrement.
       Inr ([C_derived (H_free refs decrement (hn_blink rn))], s)))"

definition hy_free :: "nptr \<Rightarrow> RetireType \<Rightarrow> nptr \<Rightarrow> ('o, 'e) acquire_retire_hyaline_scheme \<Rightarrow> ('o, 'e) hy_result" where
  "hy_free refs decrement n s =
     (if n = invptr then Inl (AssertionFailed ''n != invptr'')
      else with_node n s (\<lambda>nd.
        Inr ([C_eject (hn_obj nd) decrement, C_derived (H_free_next refs decrement n (as_bnext (hn_refc nd)))], s)))"

definition hy_free_next :: "nptr \<Rightarrow> RetireType \<Rightarrow> nptr \<Rightarrow> nptr \<Rightarrow> ('o, 'e) acquire_retire_hyaline_scheme \<Rightarrow> ('o, 'e) hy_result" where
  "hy_free_next refs decrement node n s =
     with_node node s (\<lambda>_.
       Inr (if n \<noteq> null_node then [C_derived (H_free refs decrement n)] else [], delete_node node s))"

text \<open>\<^verbatim>\<open>hyaline_guard\<close>: what the constructor leaves in \<^verbatim>\<open>engaged\<close> decides what the destructor does.\<close>

definition hyaline_guard_dtor :: "tid \<Rightarrow> bool \<Rightarrow> ('o, 'e) acquire_retire_hyaline_scheme \<Rightarrow> ('o, 'e) hy_result" where
  "hyaline_guard_dtor t engaged s = (if engaged then hy_end_critical_section t s else Inr ([], s))"

section \<open>The memory manager\<close>

definition hy_create_object :: "tid \<Rightarrow> ptr \<Rightarrow> 'v managed \<Rightarrow> ('v counted_object, 'e) acquire_retire_hyaline_scheme \<Rightarrow>
    ('v counted_object, 'e) acquire_retire_hyaline_scheme" where
  "hy_create_object t p v s = put_object p (new_counted_object v) (increment_allocations t s)"

definition hy_acquire :: "ptr \<Rightarrow> ptr" where
  "hy_acquire loaded = loaded"

definition hy_reserve :: "ptr \<Rightarrow> ptr" where
  "hy_reserve p = p"

definition hy_protect_snapshot :: "ptr \<Rightarrow> (('v, 'x) counted_object_scheme, 'e) acquire_retire_hyaline_scheme \<Rightarrow>
    error + ptr \<times> (('v, 'x) counted_object_scheme, 'e) acquire_retire_hyaline_scheme" where
  "hy_protect_snapshot loaded s =
     (if loaded = nullptr then Inr (nullptr, s)
      else with_object loaded s (\<lambda>ob.
        let (n, ob') = get_use_count ob in Inr (if n = 0 then nullptr else loaded, put_object loaded ob' s)))"

text \<open>\<^verbatim>\<open>new Node\<close>: the allocator is an argument, a function of the nodes in use.\<close>

type_synonym node_alloc = "(nptr, hy_node) fmap \<Rightarrow> nptr"

definition hy_retire :: "node_alloc \<Rightarrow> (('o, 'e) acquire_retire_hyaline_scheme, hy_call) retire_fn" where
  "hy_retire alloc t p type s =
     (if p = nullptr then Inr ([], s)
      else
        let batch = hy_local s t;
            node = alloc (hy_nodes s);
            nd = new_hy_node p;
            (batch1, nd1) =
              (if b_first batch = null_node
               then (batch\<lparr>b_refs := node\<rparr>, nd\<lparr>hn_refc := U_refc REFC_PROTECT, hn_next := U_decrement type\<rparr>)
               else (batch, nd\<lparr>hn_blink := b_refs batch, hn_refc := U_bnext (b_first batch)\<rparr>))
        in Inr ([C_derived H_retire_loop],
                (put_node node nd1 s)\<lparr>hy_local := (hy_local s)(t := batch1\<lparr>b_first := node, b_counter := b_counter batch1 + 1\<rparr>)\<rparr>))"

definition hy_retire_loop :: "tid \<Rightarrow> ('o, 'e) acquire_retire_hyaline_scheme \<Rightarrow> ('o, 'e) hy_result" where
  "hy_retire_loop t s =
     (if \<not> hy_in_progress s t \<and> hy_batch_size * hy_threads s < unat (b_counter (hy_local s t)) then
        let batch_copy = hy_local s t in
        Inr ([C_derived (H_add_batch (b_first batch_copy) (b_refs batch_copy)), C_derived H_retire_next],
             s\<lparr>hy_local := (hy_local s)(t := batch_copy\<lparr>b_first := null_node, b_counter := 0\<rparr>),
               hy_in_progress := (hy_in_progress s)(t := True)\<rparr>)
      else Inr ([], s))"

definition hy_retire_next :: "tid \<Rightarrow> ('o, 'e) acquire_retire_hyaline_scheme \<Rightarrow> ('o, 'e) hy_result" where
  "hy_retire_next t s = Inr ([C_derived H_retire_loop], s\<lparr>hy_in_progress := (hy_in_progress s)(t := False)\<rparr>)"

definition hy_leave :: "tid \<Rightarrow> ('o, 'e) acquire_retire_hyaline_scheme \<Rightarrow> ('o, 'e) hy_result" where
  "hy_leave t s = Inr ([], s\<lparr>hy_critical := (hy_critical s)(t := False)\<rparr>)"

text \<open>The destructor, run by thread \<open>t\<close>.\<close>

definition hy_dtor_for :: "tid \<Rightarrow> tid \<Rightarrow> ('o, 'e) acquire_retire_hyaline_scheme \<Rightarrow> ('o, 'e) hy_result" where
  "hy_dtor_for t i s =
     (if i < hy_threads s then
        (if hy_rsrv s i \<noteq> invptr then Inl (AssertionFailed ''hyaline_tracker::instance().rsrv[i].list.load() == hyaline_tracker::invptr'')
         else Inr ([C_derived (H_dtor_while i)], s))
      else Inr (if b_first (hy_local s t) \<noteq> null_node then [C_derived (H_dtor_for 0)] else [], s))"

definition hy_dtor_while :: "tid \<Rightarrow> ('o, 'e) acquire_retire_hyaline_scheme \<Rightarrow> ('o, 'e) hy_result" where
  "hy_dtor_while i s =
     (let batch_copy = hy_local s i in
      if b_first batch_copy \<noteq> null_node then
        Inr ([C_derived (H_dtor_node (b_first batch_copy) (b_refs batch_copy)), C_derived (H_dtor_while i)],
             s\<lparr>hy_local := (hy_local s)(i := batch_copy\<lparr>b_first := null_node, b_counter := 0\<rparr>)\<rparr>)
      else Inr ([C_derived (H_dtor_for (Suc i))], s))"

definition hy_dtor_node :: "tid \<Rightarrow> nptr \<Rightarrow> nptr \<Rightarrow> ('o, 'e) acquire_retire_hyaline_scheme \<Rightarrow> ('o, 'e) hy_result" where
  "hy_dtor_node t node refs s =
     (if node = null_node then Inr ([], s)
      else with_node node s (\<lambda>nd. with_node refs s (\<lambda>rn. ebind (as_decrement (hn_next rn)) (\<lambda>decrement.
        Inr ([C_eject (hn_obj nd) decrement, C_derived (H_dtor_next node (as_bnext (hn_refc nd)) refs)],
             s\<lparr>hy_in_progress := (hy_in_progress s)(t := True)\<rparr>)))))"

definition hy_dtor_next :: "tid \<Rightarrow> nptr \<Rightarrow> nptr \<Rightarrow> nptr \<Rightarrow> ('o, 'e) acquire_retire_hyaline_scheme \<Rightarrow> ('o, 'e) hy_result" where
  "hy_dtor_next t node next refs s =
     with_node node s (\<lambda>_.
       Inr (if node = refs then [] else [C_derived (H_dtor_node next refs)],
            (delete_node node s)\<lparr>hy_in_progress := (hy_in_progress s)(t := False)\<rparr>))"

fun hy_derived :: "(('o, 'e) acquire_retire_hyaline_scheme, hy_call) derived_fn" where
  "hy_derived t H_retire_loop s = hy_retire_loop t s"
| "hy_derived t H_retire_next s = hy_retire_next t s"
| "hy_derived t (H_add_batch first refs) s = hy_add_batch first refs s"
| "hy_derived t (H_add_load i cur refs cnt) s = hy_add_load i cur refs cnt s"
| "hy_derived t (H_add_cas i cur refs cnt prev) s = hy_add_cas i cur refs cnt prev s"
| "hy_derived t (H_traverse p) s = hy_traverse p s"
| "hy_derived t (H_free_batch refs) s = hy_free_batch refs s"
| "hy_derived t (H_free refs decrement n) s = hy_free refs decrement n s"
| "hy_derived t (H_free_next refs decrement node n) s = hy_free_next refs decrement node n s"
| "hy_derived t H_leave s = hy_leave t s"
| "hy_derived t (H_dtor_for i) s = hy_dtor_for t i s"
| "hy_derived t (H_dtor_while i) s = hy_dtor_while i s"
| "hy_derived t (H_dtor_node node refs) s = hy_dtor_node t node refs s"
| "hy_derived t (H_dtor_next node next refs) s = hy_dtor_next t node next refs s"

definition hy_step ::
  "node_alloc \<Rightarrow> tid \<Rightarrow> hy_call mm_call \<Rightarrow> (('v, 'x) counted_object_scheme, 'e) acquire_retire_hyaline_scheme \<Rightarrow>
   (('v, 'x) counted_object_scheme, 'e) hy_result" where
  "hy_step alloc = mm_step (hy_retire alloc) hy_derived"

definition hy_run_result ::
  "node_alloc \<Rightarrow> tid \<Rightarrow> (('v, 'x) counted_object_scheme, 'e) hy_result \<Rightarrow>
   (error + (('v, 'x) counted_object_scheme, 'e) acquire_retire_hyaline_scheme) option" where
  "hy_run_result alloc t r = (case r of Inl e \<Rightarrow> Some (Inl e) | Inr (cs, s) \<Rightarrow> mm_run (hy_step alloc) t cs s)"

text \<open>\<^verbatim>\<open>with_hyaline_guard\<close>: the constructor, the function, the destructor with all that it sets off.\<close>

definition with_hyaline_guard ::
  "node_alloc \<Rightarrow> tid \<Rightarrow>
   ((('v, 'x) counted_object_scheme, 'e) acquire_retire_hyaline_scheme \<Rightarrow> (error + 'r \<times> (('v, 'x) counted_object_scheme, 'e) acquire_retire_hyaline_scheme) option) \<Rightarrow>
   (('v, 'x) counted_object_scheme, 'e) acquire_retire_hyaline_scheme \<Rightarrow>
   (error + 'r \<times> (('v, 'x) counted_object_scheme, 'e) acquire_retire_hyaline_scheme) option" where
  "with_hyaline_guard alloc t f s =
     (let (engaged, s1) = hy_begin_critical_section t s
      in case f s1 of
           None \<Rightarrow> None
         | Some (Inl e) \<Rightarrow> Some (Inl e)
         | Some (Inr (r, s2)) \<Rightarrow>
             (case hy_run_result alloc t (hyaline_guard_dtor t engaged s2) of
                None \<Rightarrow> None
              | Some (Inl e) \<Rightarrow> Some (Inl e)
              | Some (Inr s3) \<Rightarrow> Some (Inr (r, s3))))"

definition acquire_retire_hyaline_dtor ::
  "node_alloc \<Rightarrow> tid \<Rightarrow> (('v, 'x) counted_object_scheme, 'e) acquire_retire_hyaline_scheme \<Rightarrow>
   (error + (('v, 'x) counted_object_scheme, 'e) acquire_retire_hyaline_scheme) option" where
  "acquire_retire_hyaline_dtor alloc t s = mm_run (hy_step alloc) t [C_derived (H_dtor_for 0)] s"

end
