(* ===== verification/Hyaline_Batches.thy ===== *)
theory Hyaline_Batches
  imports Acquire_Retire_Hyaline
begin

text \<open>
  What the nodes, the lists and the calls of Hyaline have to do with each other. A ghost map \<open>g\<close> gives the nodes and the phase of every batch: it grows in
  the hands of a thread, is hung into the lists, is left there, and is freed. The invariant \<open>hy_inv\<close> says that the reference count of a batch
  is the number of its nodes that are in some list, that each batch that is not in the lists has one owner, and that every node belongs to one batch. It is stated
  for all calls of all threads at once, so that it holds under interleaving.
\<close>

section \<open>Paths\<close>

fun npath :: "(nptr, hy_node) fmap \<Rightarrow> nptr \<Rightarrow> nptr list \<Rightarrow> bool" where
  "npath N p [] \<longleftrightarrow> p = null_node"
| "npath N p (x # xs) \<longleftrightarrow> x = p \<and> p \<noteq> null_node \<and> p \<noteq> invptr \<and>
     (\<exists>nd q. fmlookup N p = Some nd \<and> hn_next nd = U_next q \<and> npath N q xs)"

definition chain :: "(nptr, hy_node) fmap \<Rightarrow> nptr \<Rightarrow> nptr list" where
  "chain N p = (if \<exists>xs. npath N p xs then THE xs. npath N p xs else [])"

lemma npath_unique: "npath N p xs \<Longrightarrow> npath N p ys \<Longrightarrow> xs = ys"
proof (induction xs arbitrary: p ys)
  case Nil
  then show ?case by (cases ys) auto
next
  case (Cons x xs)
  then show ?case by (cases ys) auto
qed

lemma npath_chain: "npath N p xs \<Longrightarrow> chain N p = xs"
  unfolding chain_def by (auto intro: the_equality npath_unique)

lemma chain_null [simp]: "chain N null_node = []"
  by (rule npath_chain) simp

lemma npath_inv: "\<not> npath N invptr xs"
  by (cases xs) (simp_all add: invptr_def)

lemma chain_inv [simp]: "chain N invptr = []"
  by (simp add: chain_def npath_inv)

lemma npath_frame:
  assumes "npath N p xs" and "\<And>x. x \<in> set xs \<Longrightarrow> map_option hn_next (fmlookup N' x) = map_option hn_next (fmlookup N x)"
  shows "npath N' p xs"
  using assms
proof (induction xs arbitrary: p)
  case (Cons x xs)
  then obtain nd q where nd: "fmlookup N p = Some nd" "hn_next nd = U_next q" "npath N q xs" "x = p" "p \<noteq> null_node" "p \<noteq> invptr"
    by auto
  with Cons.prems(2) [of x] obtain nd' where "fmlookup N' p = Some nd'" "hn_next nd' = U_next q" by auto
  moreover have "npath N' q xs" by (rule Cons.IH [OF nd(3)]) (use Cons.prems(2) in auto)
  ultimately show ?case using nd by simp
qed simp

lemma chain_npath: "x \<in> set (chain N p) \<Longrightarrow> npath N p (chain N p)"
  by (metis chain_def empty_iff list.set(1) npath_chain)

lemma npath_nodes: "npath N p xs \<Longrightarrow> x \<in> set xs \<Longrightarrow> \<exists>nd q. fmlookup N x = Some nd \<and> hn_next nd = U_next q"
  by (induction xs arbitrary: p) auto

section \<open>Batches\<close>

datatype phase = P_local | P_adding nat nat | P_published | P_freeing

type_synonym ghost = "nptr \<Rightarrow> (nptr list \<times> phase) option"

definition slot_node :: "(nptr, hy_node) fmap \<Rightarrow> nptr \<Rightarrow> nptr \<Rightarrow> nptr \<Rightarrow> bool" where
  "slot_node N r x y \<longleftrightarrow> (\<exists>nd q. fmlookup N x = Some nd \<and> hn_refc nd = U_bnext y \<and> hn_next nd = U_next q \<and> hn_blink nd = r)"

definition refs_node :: "(nptr, hy_node) fmap \<Rightarrow> nptr \<Rightarrow> u64 \<Rightarrow> nptr \<Rightarrow> bool" where
  "refs_node N r c b \<longleftrightarrow> (\<exists>nd. fmlookup N r = Some nd \<and> hn_refc nd = U_refc c \<and>
     hn_next nd = U_decrement RT_decrement_strong_count \<and> hn_blink nd = b)"

definition batch_nodes :: "(nptr, hy_node) fmap \<Rightarrow> nptr \<Rightarrow> nptr list \<Rightarrow> bool" where
  "batch_nodes N r ns \<longleftrightarrow> ns \<noteq> [] \<and> last ns = r \<and> distinct ns \<and>
     (\<forall>i. Suc i < length ns \<longrightarrow> slot_node N r (ns ! i) (ns ! Suc i))"

text \<open>The count of a batch in each phase; \<open>Q\<close> are its nodes that are in some list.\<close>

fun phase_ok :: "nat \<Rightarrow> nptr set \<Rightarrow> nptr list \<Rightarrow> u64 \<Rightarrow> nptr \<Rightarrow> phase \<Rightarrow> bool" where
  "phase_ok nt Q ns c b P_local \<longleftrightarrow> c = REFC_PROTECT \<and> Q = {}"
| "phase_ok nt Q ns c b (P_adding i k) \<longleftrightarrow> b = hd ns \<and> nt < length ns \<and> i \<le> nt \<and> k \<le> i \<and> Q \<subseteq> set (take i ns) \<and>
     card Q \<le> k \<and> c + of_nat k = of_nat (card Q) + REFC_PROTECT"
| "phase_ok nt Q ns c b P_published \<longleftrightarrow> b = hd ns \<and> nt < length ns \<and> Q \<subseteq> set (take nt ns) \<and> Q \<noteq> {} \<and> c = of_nat (card Q)"
| "phase_ok nt Q ns c b P_freeing \<longleftrightarrow> c = 0 \<and> Q = {}"

definition batch_ok :: "nat \<Rightarrow> (nptr, hy_node) fmap \<Rightarrow> nptr set \<Rightarrow> nptr \<Rightarrow> nptr list \<times> phase \<Rightarrow> bool" where
  "batch_ok nt N Q r b \<longleftrightarrow> batch_nodes N r (fst b) \<and> (\<exists>c f. refs_node N r c f \<and> phase_ok nt (Q \<inter> set (fst b)) (fst b) c f (snd b))"

section \<open>Calls\<close>

text \<open>The batch that a call owns, with the phase that the call implies; the nodes that a call has still to give back; the node whose
  object is ejected but which is not deleted yet.\<close>

abbreviation cnt_added :: "u64 \<Rightarrow> nat" where
  "cnt_added cnt \<equiv> unat (cnt + REFC_PROTECT)"

fun call_owner :: "hy_call \<Rightarrow> (nptr \<times> phase) multiset" where
  "call_owner (H_add_batch f r) = {#(r, P_local)#}"
| "call_owner (H_add_load i cur r cnt) = {#(r, P_adding i (cnt_added cnt))#}"
| "call_owner (H_add_cas i cur r cnt prev) = {#(r, P_adding i (cnt_added cnt))#}"
| "call_owner (H_free_batch r) = {#(r, P_freeing)#}"
| "call_owner (H_free r type n) = {#(r, P_freeing)#}"
| "call_owner (H_free_next r type n m) = {#(r, P_freeing)#}"
| "call_owner (H_dtor_node n r) = {#(r, P_local)#}"
| "call_owner (H_dtor_next n m r) = {#(r, P_local)#}"
| "call_owner _ = {#}"

fun call_outs :: "(nptr, hy_node) fmap \<Rightarrow> hy_call \<Rightarrow> nptr multiset" where
  "call_outs N (H_traverse p) = mset (chain N p)"
| "call_outs N _ = {#}"

fun call_ejected :: "hy_call \<Rightarrow> nptr set" where
  "call_ejected (H_free_next r type n m) = {n}"
| "call_ejected (H_dtor_next n m r) = {n}"
| "call_ejected _ = {}"

fun call_ok :: "nat \<Rightarrow> (nptr, hy_node) fmap \<Rightarrow> ghost \<Rightarrow> hy_call \<Rightarrow> bool" where
  "call_ok nt N g (H_add_batch f r) \<longleftrightarrow> (\<exists>ns. g r = Some (ns, P_local) \<and> f = hd ns \<and> nt < length ns)"
| "call_ok nt N g (H_add_load i cur r cnt) \<longleftrightarrow> (\<exists>ns. g r = Some (ns, P_adding i (cnt_added cnt)) \<and> cur = ns ! i)"
| "call_ok nt N g (H_add_cas i cur r cnt prev) \<longleftrightarrow>
     (\<exists>ns. g r = Some (ns, P_adding i (cnt_added cnt)) \<and> cur = ns ! i) \<and> i < nt \<and> prev \<noteq> invptr"
| "call_ok nt N g (H_traverse p) \<longleftrightarrow> (\<exists>xs. npath N p xs)"
| "call_ok nt N g (H_free_batch r) \<longleftrightarrow> (\<exists>ns. g r = Some (ns, P_freeing) \<and> map_option hn_blink (fmlookup N r) = Some (hd ns))"
| "call_ok nt N g (H_free r type n) \<longleftrightarrow> (\<exists>ns. g r = Some (ns, P_freeing) \<and> n = hd ns) \<and> type = RT_decrement_strong_count"
| "call_ok nt N g (H_free_next r type n m) \<longleftrightarrow>
     (\<exists>ns. g r = Some (ns, P_freeing) \<and> n = hd ns \<and> m = (if tl ns = [] then null_node else hd (tl ns))) \<and> type = RT_decrement_strong_count"
| "call_ok nt N g (H_dtor_node n r) \<longleftrightarrow> (\<exists>ns. g r = Some (ns, P_local) \<and> n = hd ns)"
| "call_ok nt N g (H_dtor_next n m r) \<longleftrightarrow> (\<exists>ns. g r = Some (ns, P_local) \<and> n = hd ns \<and> (tl ns \<noteq> [] \<longrightarrow> m = hd (tl ns)))"
| "call_ok nt N g (H_dtor_while i) \<longleftrightarrow> i < nt"
| "call_ok nt N g _ \<longleftrightarrow> True"

definition local_ok :: "ghost \<Rightarrow> hy_batch \<Rightarrow> bool" where
  "local_ok g b \<longleftrightarrow> (if b_first b = null_node then b_counter b = 0
     else \<exists>ns. g (b_refs b) = Some (ns, P_local) \<and> b_first b = hd ns \<and> b_counter b = of_nat (length ns))"

definition local_owner :: "hy_batch \<Rightarrow> (nptr \<times> phase) multiset" where
  "local_owner b = (if b_first b = null_node then {#} else {#(b_refs b, P_local)#})"

definition owners :: "nat \<Rightarrow> (tid \<Rightarrow> hy_batch) \<Rightarrow> hy_call multiset \<Rightarrow> (nptr \<times> phase) multiset" where
  "owners nt loc A = (\<Sum>t<nt. local_owner (loc t)) + (\<Sum>c\<in>#A. call_owner c)"

definition outs :: "nat \<Rightarrow> (nptr, hy_node) fmap \<Rightarrow> (tid \<Rightarrow> nptr) \<Rightarrow> hy_call multiset \<Rightarrow> nptr multiset" where
  "outs nt N rsrv A = (\<Sum>t<nt. mset (chain N (rsrv t))) + (\<Sum>c\<in>#A. call_outs N c)"

fun owner_due :: "nptr \<Rightarrow> (nptr list \<times> phase) option \<Rightarrow> (nptr \<times> phase) multiset" where
  "owner_due r None = {#}"
| "owner_due r (Some (ns, ph)) = (if ph = P_published then {#} else {#(r, ph)#})"

definition hy_inv :: "nat \<Rightarrow> (nptr, hy_node) fmap \<Rightarrow> (tid \<Rightarrow> nptr) \<Rightarrow> (tid \<Rightarrow> hy_batch) \<Rightarrow> ghost \<Rightarrow> hy_call multiset \<Rightarrow> bool" where
  "hy_inv nt N rsrv loc g A \<longleftrightarrow>
     (\<forall>r b. g r = Some b \<longrightarrow> batch_ok nt N (set_mset (outs nt N rsrv A)) r b) \<and>
     (\<forall>r r' b b'. g r = Some b \<longrightarrow> g r' = Some b' \<longrightarrow> r \<noteq> r' \<longrightarrow> set (fst b) \<inter> set (fst b') = {}) \<and>
     (\<forall>x. x \<in> fset (fmdom N) \<longleftrightarrow> (\<exists>r b. g r = Some b \<and> x \<in> set (fst b))) \<and>
     (\<forall>x\<in>fset (fmdom N). x \<noteq> null_node \<and> x \<noteq> invptr) \<and>
     (\<forall>x. count (outs nt N rsrv A) x \<le> 1) \<and>
     (\<forall>t<nt. rsrv t = invptr \<or> (\<exists>xs. npath N (rsrv t) xs)) \<and>
     (\<forall>t<nt. local_ok g (loc t)) \<and>
     (\<forall>c\<in>#A. call_ok nt N g c) \<and>
     (\<forall>r. filter_mset (\<lambda>e. fst e = r) (owners nt loc A) = owner_due r (g r))"


lemma hy_invD:
  assumes "hy_inv nt N rsrv loc g A"
  shows "g r = Some b \<Longrightarrow> batch_ok nt N (set_mset (outs nt N rsrv A)) r b"
    and "g r = Some b \<Longrightarrow> g r' = Some b' \<Longrightarrow> r \<noteq> r' \<Longrightarrow> set (fst b) \<inter> set (fst b') = {}"
    and "x \<in> fset (fmdom N) \<longleftrightarrow> (\<exists>r b. g r = Some b \<and> x \<in> set (fst b))"
    and "x \<in> fset (fmdom N) \<Longrightarrow> x \<noteq> null_node \<and> x \<noteq> invptr"
    and "count (outs nt N rsrv A) x \<le> 1"
    and "t < nt \<Longrightarrow> rsrv t = invptr \<or> (\<exists>xs. npath N (rsrv t) xs)"
    and "t < nt \<Longrightarrow> local_ok g (loc t)"
    and "c \<in># A \<Longrightarrow> call_ok nt N g c"
    and "filter_mset (\<lambda>e. fst e = r) (owners nt loc A) = owner_due r (g r)"
proof -
  have 1: "\<forall>r b. g r = Some b \<longrightarrow> batch_ok nt N (set_mset (outs nt N rsrv A)) r b"
    and 2: "\<forall>r r' b b'. g r = Some b \<longrightarrow> g r' = Some b' \<longrightarrow> r \<noteq> r' \<longrightarrow> set (fst b) \<inter> set (fst b') = {}"
    and 3: "\<forall>x. x \<in> fset (fmdom N) \<longleftrightarrow> (\<exists>r b. g r = Some b \<and> x \<in> set (fst b))"
    and 4: "\<forall>x\<in>fset (fmdom N). x \<noteq> null_node \<and> x \<noteq> invptr" and 5: "\<forall>x. count (outs nt N rsrv A) x \<le> 1"
    and 6: "\<forall>t<nt. rsrv t = invptr \<or> (\<exists>xs. npath N (rsrv t) xs)" and 7: "\<forall>t<nt. local_ok g (loc t)"
    and 8: "\<forall>c\<in>#A. call_ok nt N g c"
    and 9: "\<forall>r. filter_mset (\<lambda>e. fst e = r) (owners nt loc A) = owner_due r (g r)"
    using assms unfolding hy_inv_def by - (elim conjE, assumption)+
  show "g r = Some b \<Longrightarrow> batch_ok nt N (set_mset (outs nt N rsrv A)) r b" using 1 by blast
  show "g r = Some b \<Longrightarrow> g r' = Some b' \<Longrightarrow> r \<noteq> r' \<Longrightarrow> set (fst b) \<inter> set (fst b') = {}" using 2 by blast
  show "x \<in> fset (fmdom N) \<longleftrightarrow> (\<exists>r b. g r = Some b \<and> x \<in> set (fst b))" by (rule 3 [rule_format])
  show "x \<in> fset (fmdom N) \<Longrightarrow> x \<noteq> null_node \<and> x \<noteq> invptr" by (rule 4 [rule_format])
  show "count (outs nt N rsrv A) x \<le> 1" by (rule 5 [rule_format])
  show "t < nt \<Longrightarrow> rsrv t = invptr \<or> (\<exists>xs. npath N (rsrv t) xs)" by (rule 6 [rule_format])
  show "t < nt \<Longrightarrow> local_ok g (loc t)" by (rule 7 [rule_format])
  show "c \<in># A \<Longrightarrow> call_ok nt N g c" by (rule 8 [rule_format])
  show "filter_mset (\<lambda>e. fst e = r) (owners nt loc A) = owner_due r (g r)" by (rule 9 [rule_format])
qed

lemma batch_ok_refs: "batch_ok nt N Q r b \<Longrightarrow> r \<in> set (fst b)"
  by (auto simp: batch_ok_def batch_nodes_def)

lemma batch_ok_frame:
  assumes "batch_ok nt N Q r b" and "\<And>x. x \<in> set (fst b) \<Longrightarrow> fmlookup N' x = fmlookup N x"
    and "Q' \<inter> set (fst b) = Q \<inter> set (fst b)"
  shows "batch_ok nt N' Q' r b"
proof -
  have r: "fmlookup N' r = fmlookup N r" by (rule assms(2) [OF batch_ok_refs [OF assms(1)]])
  have "slot_node N' r (fst b ! i) y = slot_node N r (fst b ! i) y" if "Suc i < length (fst b)" for i y
    unfolding slot_node_def assms(2) [OF nth_mem [OF Suc_lessD [OF that]]] ..
  then have "batch_nodes N' r (fst b) = batch_nodes N r (fst b)" unfolding batch_nodes_def by simp
  with assms(1) show ?thesis unfolding batch_ok_def assms(3) refs_node_def r by simp
qed

lemma owner_due_filter:
  "filter_mset (\<lambda>e. fst e = r) (owner_due r b) = owner_due r b"
  "r' \<noteq> r \<Longrightarrow> filter_mset (\<lambda>e. fst e = r') (owner_due r b) = {#}"
  by (cases "(r, b)" rule: owner_due.cases; simp)+

lemma owners_swap:
  assumes "owners nt loc A = owner_due r (g r) + W" and "owners nt loc' A' = owner_due r b + W"
    and "\<forall>r. filter_mset (\<lambda>e. fst e = r) (owners nt loc A) = owner_due r (g r)"
  shows "filter_mset (\<lambda>e. fst e = r') (owners nt loc' A') = owner_due r' ((g(r := b)) r')"
  using assms(3) [rule_format, of r'] unfolding assms(1,2)
  by (cases "r' = r") (simp_all add: owner_due_filter)

lemma call_ok_frame:
  assumes "call_ok nt N g c" and "g' = g \<and> map_option hn_blink (fmlookup N' r) = map_option hn_blink (fmlookup N r) \<or> r \<notin> fst ` set_mset (call_owner c)"
    and "\<And>r'. r' \<noteq> r \<Longrightarrow> g' r' = g r'" and "\<And>r' b. g r' = Some b \<Longrightarrow> r' \<noteq> r \<Longrightarrow> fmlookup N' r' = fmlookup N r'"
    and "\<And>p. c = H_traverse p \<Longrightarrow> \<exists>xs. npath N' p xs"
  shows "call_ok nt N' g' c"
  using assms
proof (cases c)
  case (H_free_batch r0)
  with assms show ?thesis by (cases "r0 = r") auto
qed auto

text \<open>A step that changes one batch.\<close>

lemma hy_inv_update:
  assumes inv: "hy_inv nt N rsrv loc g (C + A)"
    and own: "owners nt loc (C + A) = owner_due r (g r) + W" "owners nt loc' (C' + A) = owner_due r b' + W"
    and N: "\<And>x. x \<notin> D \<Longrightarrow> fmlookup N' x = fmlookup N x"
    and D: "\<And>r' b x. g r' = Some b \<Longrightarrow> r' \<noteq> r \<Longrightarrow> x \<in> set (fst b) \<Longrightarrow> x \<notin> D"
      "\<And>b. g r = Some b \<Longrightarrow> set (fst b) \<subseteq> D" "\<And>b. b' = Some b \<Longrightarrow> set (fst b) \<subseteq> D"
      "\<And>x. x \<in> D \<Longrightarrow> x \<in> fset (fmdom N') \<longleftrightarrow> (\<exists>b. b' = Some b \<and> x \<in> set (fst b))"
      "\<And>x. x \<in> D \<Longrightarrow> x \<in> fset (fmdom N') \<Longrightarrow> x \<noteq> null_node \<and> x \<noteq> invptr"
    and Q: "\<And>x. x \<notin> D \<Longrightarrow> x \<in># outs nt N' rsrv' (C' + A) \<longleftrightarrow> x \<in># outs nt N rsrv (C + A)"
      "\<And>x. count (outs nt N' rsrv' (C' + A)) x \<le> 1"
    and b: "\<And>b. b' = Some b \<Longrightarrow> batch_ok nt N' (set_mset (outs nt N' rsrv' (C' + A))) r b"
    and rs: "\<And>t. t < nt \<Longrightarrow> rsrv' t = invptr \<or> (\<exists>xs. npath N' (rsrv' t) xs)"
    and calls: "\<And>c. c \<in># C' \<Longrightarrow> call_ok nt N' (g(r := b')) c"
    and frame: "g r = b' \<and> map_option hn_blink (fmlookup N' r) = map_option hn_blink (fmlookup N r) \<or>
      (\<forall>c\<in>#A. r \<notin> fst ` set_mset (call_owner c))"
    and trav: "\<And>p. H_traverse p \<in># A \<Longrightarrow> \<exists>xs. npath N' p xs"
    and loc: "\<And>t. t < nt \<Longrightarrow> local_ok (g(r := b')) (loc' t)"
  shows "hy_inv nt N' rsrv' loc' (g(r := b')) (C' + A)"
  unfolding hy_inv_def
proof (intro conjI allI impI ballI)
  note invD = hy_invD [OF inv]
  let ?g = "g(r := b')"
  fix r0 b0 assume g0: "?g r0 = Some b0"
  show "batch_ok nt N' (set_mset (outs nt N' rsrv' (C' + A))) r0 b0"
  proof (cases "r0 = r")
    case True
    with g0 b show ?thesis by simp
  next
    case False
    with g0 have g: "g r0 = Some b0" by simp
    show ?thesis
      by (rule batch_ok_frame [OF invD(1) [OF g]]) (use N Q(1) D(1) [OF g False] in auto)
  qed
next
  fix r1 r2 b1 b2 assume "(g(r := b')) r1 = Some b1" "(g(r := b')) r2 = Some b2" "r1 \<noteq> r2"
  then show "set (fst b1) \<inter> set (fst b2) = {}"
    using hy_invD(2) [OF inv, of r1 b1 r2 b2] D(1) [of r1 b1] D(1) [of r2 b2] D(3) by (auto split: if_splits)
next
  fix x
  note invD = hy_invD(3) [OF inv, of x]
  show "x \<in> fset (fmdom N') \<longleftrightarrow> (\<exists>r0 b. (g(r := b')) r0 = Some b \<and> x \<in> set (fst b))"
  proof (cases "x \<in> D")
    case True
    then show ?thesis using D(1,4) by (auto split: if_splits)
  next
    case False
    then have "x \<in> fset (fmdom N') \<longleftrightarrow> x \<in> fset (fmdom N)" using N by (simp add: fmlookup_dom_iff)
    also have "\<dots> \<longleftrightarrow> (\<exists>r0 b. (g(r := b')) r0 = Some b \<and> x \<in> set (fst b))"
      unfolding invD using False D(2,3) by (metis fun_upd_apply subsetD)
    finally show ?thesis .
  qed
next
  fix x assume x: "x \<in> fset (fmdom N')"
  have "x \<in> fset (fmdom N)" if "x \<notin> D" using x N [OF that] by (simp add: fmlookup_dom_iff)
  with hy_invD(4) [OF inv, of x] D(5) x show "x \<noteq> null_node" "x \<noteq> invptr" by blast+
next
  fix c assume c: "c \<in># C' + A"
  show "call_ok nt N' (g(r := b')) c"
  proof (cases "c \<in># C'")
    case False
    with c have c: "c \<in># A" by simp
    show ?thesis
    proof (rule call_ok_frame [where r = r, OF hy_invD(8) [OF inv]])
      show "c \<in># C + A" using c by simp
      show "g(r := b') = g \<and> map_option hn_blink (fmlookup N' r) = map_option hn_blink (fmlookup N r) \<or>
          r \<notin> fst ` set_mset (call_owner c)"
        using frame c by auto
      fix r' b assume "g r' = Some b" "r' \<noteq> r"
      then show "fmlookup N' r' = fmlookup N r'"
        using N D(1) batch_ok_refs hy_invD(1) [OF inv] by metis
    qed (use trav c in auto)
  qed (rule calls)
next
  fix r'
  show "filter_mset (\<lambda>e. fst e = r') (owners nt loc' (C' + A)) = owner_due r' ((g(r := b')) r')"
    by (rule owners_swap [where g = g, OF own]) (simp add: hy_invD(9) [OF inv])
qed (use Q(2) rs loc in auto)

end
