(* ===== verification/Hyaline_Steps.thy ===== *)
theory Hyaline_Steps
  imports Hyaline_Batches
begin

text \<open>Every step of Hyaline keeps the invariant of the batches, whatever the other threads are doing.\<close>

section \<open>Frames\<close>

definition head_ok :: "(nptr, hy_node) fmap \<Rightarrow> nptr \<Rightarrow> bool" where
  "head_ok N p \<longleftrightarrow> p = invptr \<or> (\<exists>xs. npath N p xs)"

lemma head_npath: "head_ok N p \<Longrightarrow> p \<noteq> invptr \<Longrightarrow> npath N p (chain N p)"
  by (auto simp: head_ok_def npath_chain)

lemma chain_frame:
  assumes "head_ok N p" and "\<And>x. x \<in> set (chain N p) \<Longrightarrow> map_option hn_next (fmlookup N' x) = map_option hn_next (fmlookup N x)"
  shows "chain N' p = chain N p \<and> head_ok N' p \<and> (p \<noteq> invptr \<longrightarrow> npath N' p (chain N p))"
proof (cases "p = invptr")
  case False
  with assms have "npath N' p (chain N p)" by (intro npath_frame [OF head_npath]) auto
  then show ?thesis by (auto simp: npath_chain head_ok_def)
qed (simp add: head_ok_def)

lemma outs_simps [simp]:
  "outs nt N rsrv (add_mset c A) = call_outs N c + outs nt N rsrv A"
  "owners nt loc (add_mset c A) = call_owner c + owners nt loc A"
  by (simp_all add: outs_def owners_def)

lemma outs_union: "outs nt N rsrv (C + A) = (\<Sum>c\<in>#C. call_outs N c) + outs nt N rsrv A"
  by (simp add: outs_def ac_simps)

lemma in_outs:
  "x \<in># outs nt N rsrv A \<longleftrightarrow> (\<exists>t<nt. x \<in> set (chain N (rsrv t))) \<or> (\<exists>p. H_traverse p \<in># A \<and> x \<in> set (chain N p))"
proof -
  have "(\<exists>t<nt. x \<in># mset (chain N (rsrv t))) \<longleftrightarrow> x \<in># (\<Sum>t<nt. mset (chain N (rsrv t)))"
    by (induction nt) (auto simp: less_Suc_eq)
  moreover have "x \<in># (\<Sum>c\<in>#A. call_outs N c) \<longleftrightarrow> (\<exists>p. H_traverse p \<in># A \<and> x \<in> set (chain N p))"
  proof (induction A)
    case (add c A)
    then show ?case by (cases c) auto
  qed simp
  ultimately show ?thesis by (auto simp: outs_def)
qed

definition heads_ok :: "nat \<Rightarrow> (nptr, hy_node) fmap \<Rightarrow> (tid \<Rightarrow> nptr) \<Rightarrow> hy_call multiset \<Rightarrow> bool" where
  "heads_ok nt N rsrv A \<longleftrightarrow> (\<forall>t<nt. head_ok N (rsrv t)) \<and> (\<forall>p. H_traverse p \<in># A \<longrightarrow> (\<exists>xs. npath N p xs))"

lemma hy_inv_heads: "hy_inv nt N rsrv loc g A \<Longrightarrow> heads_ok nt N rsrv A"
  using hy_invD(6,8) by (auto simp: heads_ok_def head_ok_def) (metis call_ok.simps(4))

lemma outs_frame:
  assumes "heads_ok nt N rsrv A"
    and "\<And>x. x \<in># outs nt N rsrv A \<Longrightarrow> map_option hn_next (fmlookup N' x) = map_option hn_next (fmlookup N x)"
  shows "outs nt N' rsrv A = outs nt N rsrv A \<and> heads_ok nt N' rsrv A \<and> (\<Sum>c\<in>#A. call_outs N' c) = (\<Sum>c\<in>#A. call_outs N c)"
proof -
  have t: "chain N' (rsrv t) = chain N (rsrv t) \<and> head_ok N' (rsrv t)" if "t < nt" for t
    using chain_frame [of N "rsrv t" N'] assms that by (auto simp: heads_ok_def in_outs)
  have p: "chain N' p = chain N p \<and> (\<exists>xs. npath N' p xs)" if "H_traverse p \<in># A" for p
  proof -
    have "p \<noteq> invptr" "head_ok N p" using assms(1) that npath_inv by (auto simp: heads_ok_def head_ok_def)
    with chain_frame [of N p N'] assms(2) that show ?thesis by (auto simp: in_outs)
  qed
  have "(\<Sum>c\<in>#B. call_outs N' c) = (\<Sum>c\<in>#B. call_outs N c)" if "B \<subseteq># A" for B
    using that
  proof (induction B)
    case (add c B)
    then have "c \<in># A" "B \<subseteq># A" by (auto dest: mset_subset_eq_insertD subset_mset.less_imp_le)
    with add p show ?case by (cases c) auto
  qed simp
  from this [of A] t p show ?thesis by (simp add: outs_def heads_ok_def)
qed

lemma outs_slot:
  assumes "heads_ok nt N rsrv A" and "x \<in># outs nt N rsrv A"
  shows "\<exists>nd q. fmlookup N x = Some nd \<and> hn_next nd = U_next q"
proof -
  from assms(2) obtain p where "x \<in> set (chain N p)" by (auto simp: in_outs)
  from npath_nodes [OF chain_npath [OF this] this] show ?thesis .
qed

section \<open>Ownership\<close>

lemma in_owners:
  "(r, ph) \<in># owners nt loc A \<longleftrightarrow> (\<exists>t<nt. (r, ph) \<in># local_owner (loc t)) \<or> (\<exists>c\<in>#A. (r, ph) \<in># call_owner c)"
proof -
  have "(\<exists>t<nt. (r, ph) \<in># local_owner (loc t)) \<longleftrightarrow> (r, ph) \<in># (\<Sum>t<nt. local_owner (loc t))"
    by (induction nt) (auto simp: less_Suc_eq)
  moreover have "(r, ph) \<in># (\<Sum>c\<in>#A. call_owner c) \<longleftrightarrow> (\<exists>c\<in>#A. (r, ph) \<in># call_owner c)"
    by (induction A) auto
  ultimately show ?thesis by (simp add: owners_def)
qed

definition unowned :: "nat \<Rightarrow> (tid \<Rightarrow> hy_batch) \<Rightarrow> hy_call multiset \<Rightarrow> nptr \<Rightarrow> bool" where
  "unowned nt loc A r \<longleftrightarrow> filter_mset (\<lambda>e. fst e = r) (owners nt loc A) = {#}"

lemma unowned_iff:
  "unowned nt loc A r \<longleftrightarrow> (\<forall>t<nt. b_first (loc t) = null_node \<or> b_refs (loc t) \<noteq> r) \<and> (\<forall>c\<in>#A. r \<notin> fst ` set_mset (call_owner c))"
proof -
  have "unowned nt loc A r \<longleftrightarrow> (\<forall>ph. (r, ph) \<notin># owners nt loc A)"
    by (auto simp: unowned_def multiset_eq_iff count_eq_zero_iff [symmetric])
  also have "\<dots> \<longleftrightarrow> (\<forall>t<nt. b_first (loc t) = null_node \<or> b_refs (loc t) \<noteq> r) \<and> (\<forall>c\<in>#A. r \<notin> fst ` set_mset (call_owner c))"
    unfolding in_owners by (auto simp: local_owner_def) force
  finally show ?thesis .
qed

lemma owned:
  assumes "hy_inv nt N rsrv loc g (add_mset c A)" and "call_owner c = {#(r, ph)#}"
  shows "\<exists>ns. g r = Some (ns, ph) \<and> ph \<noteq> P_published \<and> unowned nt loc A r"
proof -
  from hy_invD(9) [OF assms(1), of r] have "{#(r, ph)#} + filter_mset (\<lambda>e. fst e = r) (owners nt loc A) = owner_due r (g r)"
    by (simp add: assms(2))
  then show ?thesis by (cases "(r, g r)" rule: owner_due.cases) (auto simp: unowned_def split: if_splits)
qed

text \<open>A call that owns a batch changes the batch or the pace of its own work; the lists stay as they are.\<close>

lemma owner_step:
  assumes inv: "hy_inv nt N rsrv loc g (add_mset c A)" and c: "call_owner c = {#(r, ph)#}" "call_outs N c = {#}"
    and g: "g r = Some (ns, ph)"
    and C': "(\<Sum>c\<in>#C'. call_owner c) = owner_due r b'" "\<And>p. H_traverse p \<notin># C'"
    and N: "\<And>x. x \<notin> set ns \<Longrightarrow> fmlookup N' x = fmlookup N x"
      "\<And>x. x \<in># outs nt N rsrv A \<Longrightarrow> map_option hn_next (fmlookup N' x) = map_option hn_next (fmlookup N x)"
      "\<And>x. x \<in> set ns \<Longrightarrow> x \<in> fset (fmdom N') \<longleftrightarrow> (\<exists>b. b' = Some b \<and> x \<in> set (fst b))"
    and b: "\<And>b. b' = Some b \<Longrightarrow> set (fst b) \<subseteq> set ns"
      "\<And>b. b' = Some b \<Longrightarrow> batch_ok nt N' (set_mset (outs nt N rsrv A)) r b"
    and calls: "\<And>c. c \<in># C' \<Longrightarrow> call_ok nt N' (g(r := b')) c"
  shows "hy_inv nt N' rsrv loc (g(r := b')) (C' + A)"
proof -
  from owned [OF inv c(1)] g have ph: "ph \<noteq> P_published" and un: "unowned nt loc A r" by auto
  have outs: "outs nt N rsrv (add_mset c A) = outs nt N rsrv A" by (simp add: c)
  have "heads_ok nt N rsrv A" using hy_inv_heads [OF inv] by (auto simp: heads_ok_def)
  from outs_frame [OF this N(2)] have outs': "outs nt N' rsrv A = outs nt N rsrv A" "heads_ok nt N' rsrv A" by blast+
  have "(\<Sum>c\<in>#B. call_outs N' c) = {#}" if "\<And>p. H_traverse p \<notin># B" for B
    using that
  proof (induction B)
    case (add c B)
    then show ?case by (cases c) auto
  qed simp
  note C'_outs = this [OF C'(2)]
  have outs'': "outs nt N' rsrv (C' + A) = outs nt N rsrv A"
    by (simp only: outs_union C'_outs outs'(1) add_0)
  have own: "owners nt loc (C' + A) = owner_due r b' + owners nt loc A"
    by (simp add: owners_def C'(1) ac_simps)
  have dom: "set ns \<subseteq> fset (fmdom N)" using hy_invD(3) [OF inv] g by force
  have "hy_inv nt N' rsrv loc (g(r := b')) (C' + A)"
  proof (rule hy_inv_update [where C = "{#c#}" and D = "set ns" and W = "owners nt loc A" and N = N and rsrv = rsrv and loc = loc])
    fix r' b x assume "g r' = Some b" "r' \<noteq> r" "x \<in> set (fst b)"
    then show "x \<notin> set ns" using hy_invD(2) [OF inv g, of r' b] by auto
  next
    fix t assume "t < nt"
    then show "local_ok (g(r := b')) (loc t)"
      using hy_invD(7) [OF inv] un by (auto simp: local_ok_def unowned_iff)
  next
    fix x assume "x \<in> set ns" "x \<in> fset (fmdom N')"
    then show "x \<noteq> null_node \<and> x \<noteq> invptr" using hy_invD(4) [OF inv, of x] dom by auto
  next
    fix x show "count (outs nt N' rsrv (C' + A)) x \<le> 1" using hy_invD(5) [OF inv, of x] by (simp add: outs'' outs)
  qed (use inv g ph c own N b calls outs outs'' outs'(2) un in \<open>auto simp: heads_ok_def head_ok_def unowned_iff\<close>)
  then show ?thesis .
qed


section \<open>The nodes of a batch\<close>

lemma batch_slot: "batch_nodes N r ns \<Longrightarrow> Suc i < length ns \<Longrightarrow> slot_node N r (ns ! i) (ns ! Suc i) \<and> ns ! i \<noteq> r"
  by (auto simp: batch_nodes_def last_conv_nth nth_eq_iff_index_eq)

lemma batch_nodes_upd_refs:
  assumes "batch_nodes N r ns"
  shows "batch_nodes (fmupd r nd N) r ns"
proof -
  have "slot_node (fmupd r nd N) r (ns ! i) (ns ! Suc i)" if "Suc i < length ns" for i
    using batch_slot [OF assms that] by (auto simp: slot_node_def)
  with assms show ?thesis by (simp add: batch_nodes_def)
qed

lemma batch_nodes_upd_next:
  assumes "batch_nodes N r ns" and "fmlookup N x = Some nd"
  shows "batch_nodes (fmupd x (nd\<lparr>hn_next := U_next q\<rparr>) N) r ns"
proof -
  have "slot_node (fmupd x (nd\<lparr>hn_next := U_next q\<rparr>) N) r (ns ! i) (ns ! Suc i)" if "Suc i < length ns" for i
    using batch_slot [OF assms(1) that] assms(2) by (auto simp: slot_node_def)
  with assms show ?thesis by (simp add: batch_nodes_def)
qed

lemma batch_nodes_tl:
  assumes "batch_nodes N r ns" and "tl ns \<noteq> []"
  shows "batch_nodes (fmdrop (hd ns) N) r (tl ns)"
proof -
  from assms(2) obtain x ys where ns: "ns = x # ys" "ys \<noteq> []" by (cases ns) auto
  have "slot_node (fmdrop x N) r (ys ! i) (ys ! Suc i)" if "Suc i < length ys" for i
  proof -
    have "ys ! i \<noteq> x" using assms(1) that ns by (auto simp: batch_nodes_def)
    moreover have "slot_node N r (ys ! i) (ys ! Suc i)" using batch_slot [OF assms(1), of "Suc i"] that ns by simp
    ultimately show ?thesis by (simp add: slot_node_def)
  qed
  with assms(1) ns show ?thesis by (simp add: batch_nodes_def)
qed

lemma batch_nodes_Cons:
  assumes "batch_nodes N r ns" and "x \<notin> set ns" and "fmlookup N x = None"
    and "hn_refc nd = U_bnext (hd ns)" "hn_next nd = U_next q" "hn_blink nd = r"
  shows "batch_nodes (fmupd x nd N) r (x # ns)"
proof -
  have "slot_node (fmupd x nd N) r ((x # ns) ! i) ((x # ns) ! Suc i)" if "Suc i < length (x # ns)" for i
  proof (cases i)
    case 0
    with assms that show ?thesis by (cases ns) (auto simp: slot_node_def)
  next
    case (Suc j)
    with that have "j < length ns" "Suc j < length ns" by auto
    with assms(2) have "ns ! j \<noteq> x" by (metis nth_mem)
    with batch_slot [OF assms(1) \<open>Suc j < length ns\<close>] Suc show ?thesis by (simp add: slot_node_def)
  qed
  with assms(1,2) show ?thesis by (simp add: batch_nodes_def)
qed

lemma batch_ok_refs_node: "batch_ok nt N Q r (ns, ph) \<Longrightarrow> \<exists>nd c. fmlookup N r = Some nd \<and> hn_refc nd = U_refc c \<and>
    hn_next nd = U_decrement RT_decrement_strong_count \<and> phase_ok nt (Q \<inter> set ns) ns c (hn_blink nd) ph"
  by (auto simp: batch_ok_def refs_node_def)

lemma fmupd_same: "fmlookup m x = Some v \<Longrightarrow> fmupd x v m = m"
  by (rule fmap_ext) auto

text \<open>The reference node of a batch is written; the lists do not see it.\<close>

lemma refs_update:
  assumes inv: "hy_inv nt N rsrv loc g (add_mset c A)" and c: "call_owner c = {#(r, ph)#}" "call_outs N c = {#}"
    and g: "g r = Some (ns, ph)" and nd: "fmlookup N r = Some nd" "hn_refc nd' = U_refc k" "hn_next nd' = hn_next nd"
    and C': "(\<Sum>c\<in>#C'. call_owner c) = owner_due r (Some (ns, ph'))" "\<And>p. H_traverse p \<notin># C'"
    and ph: "phase_ok nt (set_mset (outs nt N rsrv A) \<inter> set ns) ns k (hn_blink nd') ph'"
    and calls: "\<And>c. c \<in># C' \<Longrightarrow> call_ok nt (fmupd r nd' N) (g(r := Some (ns, ph'))) c"
  shows "hy_inv nt (fmupd r nd' N) rsrv loc (g(r := Some (ns, ph'))) (C' + A)"
proof (rule owner_step [OF inv c g C'])
  have ok: "batch_ok nt N (set_mset (outs nt N rsrv A)) r (ns, ph)" using hy_invD(1) [OF inv g] c by simp
  have r: "r \<in> set ns" using batch_ok_refs [OF ok] by simp
  show "fmlookup (fmupd r nd' N) x = fmlookup N x" if "x \<notin> set ns" for x using that r by auto
  show "map_option hn_next (fmlookup (fmupd r nd' N) x) = map_option hn_next (fmlookup N x)" for x
    using nd by auto
  show "(x \<in> fset (fmdom (fmupd r nd' N))) = (\<exists>b. Some (ns, ph') = Some b \<and> x \<in> set (fst b))" if "x \<in> set ns" for x
    using that hy_invD(3) [OF inv, of x] g by force
  show "batch_ok nt (fmupd r nd' N) (set_mset (outs nt N rsrv A)) r b" if "Some (ns, ph') = Some b" for b
    using that ok nd ph batch_nodes_upd_refs [of N r ns nd']
    by (auto simp: batch_ok_def refs_node_def)
qed (use calls in auto)

text \<open>The phase of a batch changes, and the call that owns it.\<close>

lemma phase_update:
  assumes inv: "hy_inv nt N rsrv loc g (add_mset c A)" and c: "call_owner c = {#(r, ph)#}" "call_outs N c = {#}"
    and g: "g r = Some (ns, ph)"
    and C': "(\<Sum>c\<in>#C'. call_owner c) = owner_due r (Some (ns, ph'))" "\<And>p. H_traverse p \<notin># C'"
    and ph: "\<And>k f. phase_ok nt (set_mset (outs nt N rsrv A) \<inter> set ns) ns k f ph \<Longrightarrow>
      phase_ok nt (set_mset (outs nt N rsrv A) \<inter> set ns) ns k f ph'"
    and calls: "\<And>c. c \<in># C' \<Longrightarrow> call_ok nt N (g(r := Some (ns, ph'))) c"
  shows "hy_inv nt N rsrv loc (g(r := Some (ns, ph'))) (C' + A)"
proof -
  have ok: "batch_ok nt N (set_mset (outs nt N rsrv A)) r (ns, ph)" using hy_invD(1) [OF inv g] c by simp
  from batch_ok_refs_node [OF this] obtain nd k where
    nd: "fmlookup N r = Some nd" "hn_refc nd = U_refc k" "phase_ok nt (set_mset (outs nt N rsrv A) \<inter> set ns) ns k (hn_blink nd) ph"
    by auto
  have "hy_inv nt (fmupd r nd N) rsrv loc (g(r := Some (ns, ph'))) (C' + A)"
    by (rule refs_update [OF inv c g nd(1,2) refl C' ph [OF nd(3)]]) (simp add: calls fmupd_same [OF nd(1)])
  then show ?thesis by (simp add: fmupd_same [OF nd(1)])
qed

end
