(* ===== verification/Hyaline_Calls.thy ===== *)
theory Hyaline_Calls
  imports Hyaline_Steps
begin

text \<open>
  The calls of Hyaline, one by one: none fails, each keeps the invariant of the batches, the references of the nodes are accounted
  for, and what is held back for a thread inside a critical section stays held back.
\<close>

section \<open>What is shown of a call\<close>

fun dcalls :: "hy_call mm_call list \<Rightarrow> hy_call multiset" where
  "dcalls [] = {#}"
| "dcalls (c # cs) = (case c of C_derived d \<Rightarrow> add_mset d (dcalls cs) | _ \<Rightarrow> dcalls cs)"

lemma dcalls_append [simp]: "dcalls (cs @ cs') = dcalls cs + dcalls cs'"
  by (induction cs) (auto split: mm_call.split)

lemma in_dcalls: "d \<in># dcalls cs \<longleftrightarrow> C_derived d \<in> set cs"
  by (induction cs) (auto split: mm_call.split)

definition hy_ok :: "ghost \<Rightarrow> hy_call multiset \<Rightarrow> ('o, 'e) acquire_retire_hyaline_scheme \<Rightarrow> bool" where
  "hy_ok g A s \<longleftrightarrow> hy_threads s < 2 ^ 62 \<and> hy_inv (hy_threads s) (hy_nodes s) (hy_rsrv s) (hy_local s) g A"

text \<open>A batch is held back for thread \<open>t\<close> while it has not come to the list of \<open>t\<close> yet, and while one of its nodes is in this list.\<close>

definition held :: "tid \<Rightarrow> nptr list \<Rightarrow> nptr list \<times> phase \<Rightarrow> bool" where
  "held t xs b \<longleftrightarrow> snd b = P_local \<or> (\<exists>i k. snd b = P_adding i k \<and> i \<le> t) \<or> set xs \<inter> set (fst b) \<noteq> {}"

definition held_at :: "tid \<Rightarrow> nptr \<Rightarrow> ghost \<Rightarrow> ('o, 'e) acquire_retire_hyaline_scheme \<Rightarrow> nptr list \<Rightarrow> bool" where
  "held_at t r g s ns \<longleftrightarrow> (\<exists>ph. g r = Some (ns, ph) \<and> held t (chain (hy_nodes s) (hy_rsrv s t)) (ns, ph))"

definition keeps :: "ghost \<Rightarrow> ('o, 'e) acquire_retire_hyaline_scheme \<Rightarrow> ghost \<Rightarrow> ('o, 'e) acquire_retire_hyaline_scheme \<Rightarrow> bool" where
  "keeps g s g' s' \<longleftrightarrow>
     (\<forall>t r ns. t < hy_threads s \<longrightarrow> hy_rsrv s t \<noteq> invptr \<longrightarrow> held_at t r g s ns \<longrightarrow> (\<exists>ns'. held_at t r g' s' ns' \<and> set ns \<subseteq> set ns')) \<and>
     (\<forall>t. hy_rsrv s' t = invptr \<longleftrightarrow> hy_rsrv s t = invptr) \<and>
     (\<forall>x nd nd'. fmlookup (hy_nodes s) x = Some nd \<longrightarrow> fmlookup (hy_nodes s') x = Some nd' \<longrightarrow> hn_obj nd' = hn_obj nd)"

text \<open>The references that the nodes hold.\<close>

definition ejected :: "hy_call multiset \<Rightarrow> nptr set" where
  "ejected A = (\<Union>c\<in>set_mset A. call_ejected c)"

definition node_tokens :: "(nptr, hy_node) fmap \<Rightarrow> hy_call multiset \<Rightarrow> tokens" where
  "node_tokens N A = (\<Sum>x\<in>fset (fmdom N) - ejected A. {#(T_strong, hn_obj (the (fmlookup N x)))#})"

definition hy_good :: "tokens \<Rightarrow> hy_call multiset \<Rightarrow> ghost \<Rightarrow> hy_call multiset \<Rightarrow> ('o, 'e) acquire_retire_hyaline_scheme \<Rightarrow>
    hy_call mm_call list \<Rightarrow> ('o, 'e) acquire_retire_hyaline_scheme \<Rightarrow> bool" where
  "hy_good T C g A s new s' \<longleftrightarrow>
     heap s' = heap s \<and> num_allocated s' = num_allocated s \<and> hy_threads s' = hy_threads s \<and>
     (\<exists>g'. hy_ok g' (dcalls new + A) s' \<and> keeps g s g' s') \<and>
     calls_tokens (\<lambda>_. {#}) new + node_tokens (hy_nodes s') (dcalls new + A) = T + node_tokens (hy_nodes s) (C + A)"

lemma hy_ok_batch:
  assumes "hy_ok g A s" and "g r = Some (ns, ph)"
  shows "batch_nodes (hy_nodes s) r ns"
    and "\<exists>nd c. fmlookup (hy_nodes s) r = Some nd \<and> hn_refc nd = U_refc c \<and> hn_next nd = U_decrement RT_decrement_strong_count \<and>
      phase_ok (hy_threads s) (set_mset (outs (hy_threads s) (hy_nodes s) (hy_rsrv s) A) \<inter> set ns) ns c (hn_blink nd) ph"
  using hy_invD(1) [of "hy_threads s" "hy_nodes s" "hy_rsrv s" "hy_local s" g A r "(ns, ph)"] batch_ok_refs_node assms
  by (auto simp: hy_ok_def batch_ok_def)

lemma hy_ok_call: "hy_ok g (add_mset c A) s \<Longrightarrow> call_ok (hy_threads s) (hy_nodes s) g c"
  unfolding hy_ok_def using hy_invD(8) by (metis union_single_eq_member)

lemma held_mono: "held t xs (ns, ph) \<Longrightarrow> set xs \<subseteq> set ys \<Longrightarrow> held t ys (ns, ph)"
  by (auto simp: held_def)

lemma keepsI:
  assumes "\<And>r'. r' \<noteq> r \<Longrightarrow> g' r' = g r'"
    and "\<And>t. t < hy_threads s \<Longrightarrow> hy_rsrv s t \<noteq> invptr \<Longrightarrow>
      set (chain (hy_nodes s) (hy_rsrv s t)) \<subseteq> set (chain (hy_nodes s') (hy_rsrv s' t))"
    and "\<And>t. hy_rsrv s' t = invptr \<longleftrightarrow> hy_rsrv s t = invptr"
    and "\<And>x nd nd'. fmlookup (hy_nodes s) x = Some nd \<Longrightarrow> fmlookup (hy_nodes s') x = Some nd' \<Longrightarrow> hn_obj nd' = hn_obj nd"
    and "\<And>t ns. t < hy_threads s \<Longrightarrow> hy_rsrv s t \<noteq> invptr \<Longrightarrow> held_at t r g s ns \<Longrightarrow> (\<exists>ns'. held_at t r g' s' ns' \<and> set ns \<subseteq> set ns')"
  shows "keeps g s g' s'"
  unfolding keeps_def
proof (intro conjI allI impI)
  fix t r0 ns assume t: "t < hy_threads s" "hy_rsrv s t \<noteq> invptr" and h: "held_at t r0 g s ns"
  show "\<exists>ns'. held_at t r0 g' s' ns' \<and> set ns \<subseteq> set ns'"
  proof (cases "r0 = r")
    case True
    with assms(5) t h show ?thesis by simp
  next
    case False
    with h assms(1) [OF False] held_mono [OF _ assms(2) [OF t]] show ?thesis by (auto simp: held_at_def)
  qed
qed (use assms(3,4) in blast)+

lemma chain_same:
  assumes "\<And>x. map_option hn_next (fmlookup N' x) = map_option hn_next (fmlookup N x)"
  shows "chain N' p = chain N p"
proof -
  have "npath N' p xs = npath N p xs" for xs
    using npath_frame [of N p xs N'] npath_frame [of N' p xs N] assms by metis
  then have "npath N' p = npath N p" by (simp add: fun_eq_iff)
  then show ?thesis by (simp add: chain_def)
qed

lemma node_tokens_same:
  assumes "fmdom N' = fmdom N" and "\<And>x nd nd'. fmlookup N x = Some nd \<Longrightarrow> fmlookup N' x = Some nd' \<Longrightarrow> hn_obj nd' = hn_obj nd"
    and "ejected A' = ejected A"
  shows "node_tokens N' A' = node_tokens N A"
proof -
  have "hn_obj (the (fmlookup N' x)) = hn_obj (the (fmlookup N x))" if "x \<in> fset (fmdom N)" for x
  proof -
    from that assms(1) obtain nd nd' where nd: "fmlookup N x = Some nd" "fmlookup N' x = Some nd'"
      by (metis fmlookup_dom_iff)
    from assms(2) [OF nd] nd show ?thesis by simp
  qed
  then show ?thesis unfolding node_tokens_def assms(1,3) by (intro sum.cong refl) simp
qed

lemma ejected_simps [simp]:
  "ejected {#} = {}" "ejected (add_mset c A) = call_ejected c \<union> ejected A" "ejected (A + B) = ejected A \<union> ejected B"
  by (auto simp: ejected_def)

lemma fmdom_upd_same: "fmlookup m x = Some v \<Longrightarrow> fmdom (fmupd x w m) = fmdom m"
  by (simp add: fmlookup_dom_iff finsert_absorb fmdomI)

section \<open>Adding a batch\<close>

lemma unat_small: "k < 2 ^ 64 \<Longrightarrow> unat (of_nat k :: u64) = k"
  by (simp add: unat_of_nat take_bit_nat_eq_self)

lemma of_nat_u64_zero: "k < 2 ^ 64 \<Longrightarrow> of_nat k = (0 :: u64) \<longleftrightarrow> k = 0"
  by (simp add: word_unat_eq_iff unat_small)

lemma unat_protect: "unat REFC_PROTECT = 2 ^ 62"
  by (simp add: REFC_PROTECT_def)

lemma cnt_added: "of_nat (cnt_added cnt) = cnt + REFC_PROTECT"
  by simp

lemma hy_add_batch_good:
  assumes ok: "hy_ok g (add_mset (H_add_batch f r) A) s"
  shows "\<exists>new s'. hy_add_batch f r s = Inr (new, s') \<and> hy_good {#} {#H_add_batch f r#} g A s new s'"
proof -
  from hy_ok_call [OF ok] obtain ns where ns: "g r = Some (ns, P_local)" "f = hd ns" "hy_threads s < length ns" by auto
  from hy_ok_batch(2) [OF ok ns(1)] obtain nd where nd: "fmlookup (hy_nodes s) r = Some nd" "hn_refc nd = U_refc REFC_PROTECT"
    and Q: "set_mset (outs (hy_threads s) (hy_nodes s) (hy_rsrv s) A) \<inter> set ns = {}" by auto
  define nd' where "nd' = nd\<lparr>hn_blink := f\<rparr>"
  let ?g = "g(r := Some (ns, P_adding 0 0))" and ?C = "{#H_add_load 0 f r (- REFC_PROTECT)#}"
  have ne: "ns \<noteq> []" using ns(3) by auto
  have inv: "hy_inv (hy_threads s) (fmupd r nd' (hy_nodes s)) (hy_rsrv s) (hy_local s) ?g (?C + A)"
    by (rule refs_update [where c = "H_add_batch f r" and nd = nd and k = REFC_PROTECT])
      (use ok ns nd Q ne in \<open>simp_all add: hy_ok_def nd'_def hd_conv_nth\<close>)
  have next_same: "map_option hn_next (fmlookup (fmupd r nd' (hy_nodes s)) x) = map_option hn_next (fmlookup (hy_nodes s) x)" for x
    using nd by (auto simp: nd'_def)
  have "keeps g s ?g (put_node r nd' s)"
    by (rule keepsI [where r = r]) (use nd chain_same [OF next_same] ns in \<open>auto simp: put_node_def nd'_def held_at_def held_def split: if_splits\<close>)
  moreover have "node_tokens (fmupd r nd' (hy_nodes s)) (?C + A) = node_tokens (hy_nodes s) ({#H_add_batch f r#} + A)"
    by (rule node_tokens_same) (use nd fmdom_upd_same [OF nd(1), of nd'] in \<open>auto simp: nd'_def split: if_splits\<close>)
  ultimately show ?thesis
    using inv ok nd(1) by (auto simp: hy_add_batch_def with_node_def nd'_def hy_good_def put_node_def hy_ok_def intro!: exI [of _ ?g])
qed

text \<open>A call that leaves the nodes and the lists alone.\<close>

lemma phase_good:
  assumes ok: "hy_ok g (add_mset c A) s" and c: "call_owner c = {#(r, ph)#}" "\<And>N. call_outs N c = {#}" "call_ejected c = {}"
    and g: "g r = Some (ns, ph)"
    and new: "(\<Sum>c\<in>#dcalls new. call_owner c) = owner_due r (Some (ns, ph'))" "\<And>p. H_traverse p \<notin># dcalls new"
      "ejected (dcalls new) = {}" "calls_tokens (\<lambda>_. {#}) new = {#}"
    and ph: "\<And>k f. phase_ok (hy_threads s) (set_mset (outs (hy_threads s) (hy_nodes s) (hy_rsrv s) A) \<inter> set ns) ns k f ph \<Longrightarrow>
      phase_ok (hy_threads s) (set_mset (outs (hy_threads s) (hy_nodes s) (hy_rsrv s) A) \<inter> set ns) ns k f ph'"
    and calls: "\<And>c. c \<in># dcalls new \<Longrightarrow> call_ok (hy_threads s) (hy_nodes s) (g(r := Some (ns, ph'))) c"
    and held: "\<And>t xs. t < hy_threads s \<Longrightarrow> hy_rsrv s t \<noteq> invptr \<Longrightarrow> held t xs (ns, ph) \<Longrightarrow> held t xs (ns, ph')"
  shows "hy_good {#} {#c#} g A s new s"
proof -
  let ?g = "g(r := Some (ns, ph'))"
  have "hy_inv (hy_threads s) (hy_nodes s) (hy_rsrv s) (hy_local s) ?g (dcalls new + A)"
    by (rule phase_update [where c = c and r = r and ph = ph]) (use ok c g new ph calls in \<open>auto simp: hy_ok_def\<close>)
  moreover have "keeps g s ?g s"
    by (rule keepsI [where r = r]) (use g held in \<open>auto simp: held_at_def\<close>)
  moreover have "node_tokens (hy_nodes s) (dcalls new + A) = node_tokens (hy_nodes s) ({#c#} + A)"
    by (rule node_tokens_same) (use c(3) new(3) in auto)
  ultimately show ?thesis using ok new(4) by (auto simp: hy_good_def hy_ok_def)
qed

lemma adding_node:
  assumes "hy_ok g A s" and "g r = Some (ns, P_adding i k)" and "i < hy_threads s"
  shows "\<exists>nd q. fmlookup (hy_nodes s) (ns ! i) = Some nd \<and> hn_refc nd = U_bnext (ns ! Suc i) \<and> hn_next nd = U_next q"
    and "ns ! i \<notin># outs (hy_threads s) (hy_nodes s) (hy_rsrv s) A" and "ns ! i \<noteq> r" and "ns ! i \<in> set ns"
    and "k \<le> i" and "hy_threads s < length ns"
proof -
  from hy_ok_batch [OF assms(1,2)] have b: "batch_nodes (hy_nodes s) r ns" and len: "hy_threads s < length ns" and k: "k \<le> i"
    and Q: "set_mset (outs (hy_threads s) (hy_nodes s) (hy_rsrv s) A) \<inter> set ns \<subseteq> set (take i ns)" by auto
  then have i: "Suc i < length ns" using assms(3) by simp
  show "\<exists>nd q. fmlookup (hy_nodes s) (ns ! i) = Some nd \<and> hn_refc nd = U_bnext (ns ! Suc i) \<and> hn_next nd = U_next q"
    and "ns ! i \<noteq> r" using batch_slot [OF b i] by (auto simp: slot_node_def)
  show "ns ! i \<in> set ns" using i by simp
  moreover have "ns ! i \<notin> set (take i ns)"
    using b i by (auto simp: batch_nodes_def in_set_conv_nth nth_eq_iff_index_eq)
  ultimately show "ns ! i \<notin># outs (hy_threads s) (hy_nodes s) (hy_rsrv s) A" using Q by auto
  show "k \<le> i" "hy_threads s < length ns" by fact+
qed

lemma phase_ok_next:
  assumes "phase_ok nt Q ns c f (P_adding i k)" and "i < nt"
  shows "phase_ok nt Q ns c f (P_adding (Suc i) k)"
proof -
  have "set (take i ns) \<subseteq> set (take (Suc i) ns)" by (rule set_take_subset_set_take) simp
  with assms show ?thesis by auto
qed

lemma held_next: "held t xs (ns, P_adding i k) \<Longrightarrow> t \<noteq> i \<Longrightarrow> held t xs (ns, P_adding (Suc i) k')"
  by (auto simp: held_def)

lemma hy_add_load_good:
  assumes ok: "hy_ok g (add_mset (H_add_load i cur r cnt) A) s"
  shows "\<exists>new s'. hy_add_load i cur r cnt s = Inr (new, s') \<and> hy_good {#} {#H_add_load i cur r cnt#} g A s new s'"
proof -
  let ?nt = "hy_threads s" and ?c = "H_add_load i cur r cnt" and ?k = "cnt_added cnt"
  from hy_ok_call [OF ok] obtain ns where ns: "g r = Some (ns, P_adding i ?k)" "cur = ns ! i" by auto
  from hy_ok_batch(2) [OF ok ns(1)] obtain nd c where nd: "fmlookup (hy_nodes s) r = Some nd" "hn_refc nd = U_refc c"
    and ph: "phase_ok ?nt (set_mset (outs ?nt (hy_nodes s) (hy_rsrv s) A) \<inter> set ns) ns c (hn_blink nd) (P_adding i ?k)" by auto
  then have i: "i \<le> ?nt" "?k \<le> i" "?nt < length ns" by auto
  consider (skip) "i < ?nt" "hy_rsrv s i = invptr" | (cas) "i < ?nt" "hy_rsrv s i \<noteq> invptr" | (finish) "i = ?nt" using i(1) by linarith
  then show ?thesis
  proof cases
    case skip
    from adding_node(1) [OF ok ns(1) skip(1)] obtain nd1 where
      nd1: "fmlookup (hy_nodes s) cur = Some nd1" "hn_refc nd1 = U_bnext (ns ! Suc i)" by (auto simp: ns(2))
    have held: "held t xs (ns, P_adding (Suc i) ?k)" if "held t xs (ns, P_adding i ?k)" "hy_rsrv s t \<noteq> invptr" for t xs
      by (rule held_next [OF that(1)]) (use skip that(2) in auto)
    have "hy_good {#} {#?c#} g A s [C_derived (H_add_load (Suc i) (ns ! Suc i) r cnt)] s"
      by (rule phase_good [where r = r and ns = ns and ph = "P_adding i ?k" and ph' = "P_adding (Suc i) ?k"])
        (use ok ns skip phase_ok_next [OF _ skip(1)] held in \<open>auto simp del: phase_ok.simps\<close>)
    with skip nd1 show ?thesis by (auto simp: hy_add_load_def hy_add_round_def with_node_def)
  next
    case cas
    have "hy_good {#} {#?c#} g A s [C_derived (H_add_cas i cur r cnt (hy_rsrv s i))] s"
      by (rule phase_good [where r = r and ns = ns and ph = "P_adding i ?k" and ph' = "P_adding i ?k"])
        (use ok ns cas in auto)
    with cas show ?thesis by (auto simp: hy_add_load_def)
  next
    case finish
    let ?Q = "set_mset (outs ?nt (hy_nodes s) (hy_rsrv s) A) \<inter> set ns"
    define nd' where "nd' = nd\<lparr>hn_refc := U_refc (c + cnt)\<rparr>"
    define ph' where "ph' = (if ?Q = {} then P_freeing else P_published)"
    define new :: "hy_call mm_call list" where "new = (if ?Q = {} then [C_derived (H_free_batch r)] else [])"
    have "c + cnt + REFC_PROTECT = of_nat (card ?Q) + REFC_PROTECT" using ph cnt_added [of cnt] by (simp add: ac_simps)
    then have c: "c + cnt = of_nat (card ?Q)" by simp
    have fin: "finite ?Q" by simp
    have "card ?Q \<le> ?nt" using ph i by simp
    then have "card ?Q < 2 ^ 64" using ok by (simp add: hy_ok_def)
    then have "of_nat (card ?Q) = (0 :: u64) \<longleftrightarrow> ?Q = {}" using fin by (simp add: of_nat_u64_zero)
    then have z: "c = - cnt \<longleftrightarrow> ?Q = {}" by (simp add: eq_neg_iff_add_eq_0 c)
    let ?g = "g(r := Some (ns, ph'))"
    have inv: "hy_inv ?nt (fmupd r nd' (hy_nodes s)) (hy_rsrv s) (hy_local s) ?g (dcalls new + A)"
    proof (rule refs_update [where c = ?c and nd = nd and k = "c + cnt" and ph = "P_adding i ?k"])
      show "phase_ok ?nt ?Q ns (c + cnt) (hn_blink nd') ph'"
        using ph finish c by (cases "?Q = {}") (simp_all add: nd'_def ph'_def)
      show "call_ok ?nt (fmupd r nd' (hy_nodes s)) ?g d" if "d \<in># dcalls new" for d
        using that ph by (cases "?Q = {}") (simp_all add: new_def ph'_def nd'_def)
    qed (use ok ns nd in \<open>simp_all add: hy_ok_def nd'_def ph'_def new_def\<close>)
    have next_same: "map_option hn_next (fmlookup (fmupd r nd' (hy_nodes s)) x) = map_option hn_next (fmlookup (hy_nodes s) x)" for x
      using nd by (auto simp: nd'_def)
    have "keeps g s ?g (put_node r nd' s)"
    proof (rule keepsI [where r = r])
      fix t ns' assume t: "t < ?nt" "held_at t r g s ns'"
      then have "set (chain (hy_nodes s) (hy_rsrv s t)) \<inter> set ns \<noteq> {}" "ns' = ns"
        using ns finish by (auto simp: held_at_def held_def)
      then show "\<exists>ns''. held_at t r ?g (put_node r nd' s) ns'' \<and> set ns' \<subseteq> set ns''"
        using chain_same [OF next_same] by (auto simp: held_at_def held_def put_node_def)
    qed (use nd chain_same [OF next_same] in \<open>auto simp: put_node_def nd'_def split: if_splits\<close>)
    moreover have "node_tokens (fmupd r nd' (hy_nodes s)) (dcalls new + A) = node_tokens (hy_nodes s) ({#?c#} + A)"
      by (rule node_tokens_same) (use nd fmdom_upd_same [OF nd(1), of nd'] in \<open>auto simp: nd'_def new_def split: if_splits\<close>)
    moreover have "hy_add_load i cur r cnt s = Inr (new, put_node r nd' s)"
      using finish nd z by (simp add: hy_add_load_def with_node_def atomic_defs nd'_def new_def)
    moreover have "calls_tokens (\<lambda>_. {#}) new = {#}" by (simp add: new_def)
    ultimately show ?thesis using inv ok by (auto simp: hy_good_def put_node_def hy_ok_def)
  qed
qed

lemma chains_frame:
  assumes "heads_ok nt N rsrv A" and "t < nt"
    and "\<And>x. x \<in># outs nt N rsrv A \<Longrightarrow> map_option hn_next (fmlookup N' x) = map_option hn_next (fmlookup N x)"
  shows "chain N' (rsrv t) = chain N (rsrv t)"
  using chain_frame [of N "rsrv t" N'] assms by (auto simp: heads_ok_def in_outs)

lemma hy_ok_heads: "hy_ok g A s \<Longrightarrow> heads_ok (hy_threads s) (hy_nodes s) (hy_rsrv s) A"
  by (auto simp: hy_ok_def intro: hy_inv_heads)

text \<open>The node is hung into the list of thread \<open>i\<close>.\<close>

lemma insert_node:
  assumes inv: "hy_inv nt N rsrv loc g (add_mset (H_add_cas i x r cnt (rsrv i)) A)" and nt: "nt < 2 ^ 62"
    and g: "g r = Some (ns, P_adding i (cnt_added cnt))" and x: "x = ns ! i" "i < nt" "rsrv i \<noteq> invptr"
    and nd: "fmlookup N x = Some nd" "x \<noteq> r" "x \<notin># outs nt N rsrv A"
  defines "N' \<equiv> fmupd x (nd\<lparr>hn_next := U_next (rsrv i)\<rparr>) N"
  shows "hy_inv nt N' (rsrv(i := x)) loc (g(r := Some (ns, P_adding (Suc i) (Suc (cnt_added cnt)))))
      (add_mset (H_add_load (Suc i) (ns ! Suc i) r (cnt + 1)) A) \<and> chain N' x = x # chain N (rsrv i)"
proof -
  let ?c = "H_add_cas i x r cnt (rsrv i)" and ?k = "cnt_added cnt" and ?Q = "set_mset (outs nt N rsrv A)"
  let ?c' = "H_add_load (Suc i) (ns ! Suc i) r (cnt + 1)" and ?b = "(ns, P_adding (Suc i) (Suc ?k))"
  from owned [OF inv, of r "P_adding i ?k"] have un: "unowned nt loc A r" by auto
  have ok: "batch_ok nt N ?Q r (ns, P_adding i ?k)" using hy_invD(1) [OF inv g] by simp
  from batch_ok_refs_node [OF ok] obtain rn c where rn: "fmlookup N r = Some rn" "hn_refc rn = U_refc c"
      "hn_next rn = U_decrement RT_decrement_strong_count"
    and ph: "phase_ok nt (?Q \<inter> set ns) ns c (hn_blink rn) (P_adding i ?k)" by auto
  have len: "nt < length ns" "?k \<le> i" using ph by auto
  have xns: "x \<in> set ns" "x \<noteq> null_node" "x \<noteq> invptr"
    using x len hy_invD(4) [OF inv, of x] nd(1) by (auto simp: fmlookup_dom_iff)
  have k: "cnt_added (cnt + 1) = Suc ?k"
  proof -
    have "?k + 1 < 2 ^ 64" using len x(2) nt by simp
    then show ?thesis using unat_small [of "?k + 1"] cnt_added [of cnt] by (simp add: ac_simps)
  qed
  have heads: "heads_ok nt N rsrv A" using hy_inv_heads [OF inv] by (auto simp: heads_ok_def)
  have next_same: "map_option hn_next (fmlookup N' y) = map_option hn_next (fmlookup N y)" if "y \<in># outs nt N rsrv A" for y
    using that nd by (auto simp: N'_def)
  note fr = outs_frame [OF heads next_same]
  have ch: "chain N' (rsrv t) = chain N (rsrv t)" if "t < nt" for t by (rule chains_frame [OF heads that next_same])
  have np: "npath N' (rsrv i) (chain N (rsrv i))"
    using fr x ch [OF x(2)] head_npath [of N' "rsrv i"] by (simp add: heads_ok_def)
  then have npx: "npath N' x (x # chain N (rsrv i))" using xns by (auto simp: N'_def)
  note chx = npath_chain [OF this]
  have sum: "(\<Sum>t<nt. mset (chain N' ((rsrv(i := x)) t))) = add_mset x (\<Sum>t<nt. mset (chain N (rsrv t)))"
    using sum_lessThan_upd [OF x(2), of "\<lambda>p. mset (chain N' p)" rsrv x] chx ch x(2) by simp
  have outs': "outs nt N' (rsrv(i := x)) (add_mset ?c' A) = add_mset x (outs nt N rsrv A)"
    using fr sum by (simp add: outs_def ch)
  have Q: "insert x ?Q \<inter> set ns = insert x (?Q \<inter> set ns)" using xns by auto
  have card: "card (insert x (?Q \<inter> set ns)) = Suc (card (?Q \<inter> set ns))" using nd(3) by simp
  have "batch_nodes N' r ns" unfolding N'_def by (rule batch_nodes_upd_next) (use ok nd in \<open>auto simp: batch_ok_def\<close>)
  moreover have "insert x (?Q \<inter> set ns) \<subseteq> set (take (Suc i) ns)"
    using ph x(1,2) len set_take_subset_set_take [of i "Suc i" ns] by (auto simp: take_Suc_conv_app_nth)
  then have "phase_ok nt (insert x (?Q \<inter> set ns)) ns c (hn_blink rn) (P_adding (Suc i) (Suc ?k))"
    using ph x(2) card by (simp add: ac_simps)
  ultimately have b: "batch_ok nt N' (set_mset (add_mset x (outs nt N rsrv A))) r ?b"
    using rn nd(2) by (auto simp: batch_ok_def refs_node_def N'_def Q simp del: phase_ok.simps)
  have "hy_inv nt N' (rsrv(i := x)) loc (g(r := Some ?b)) ({#?c'#} + A)"
  proof (rule hy_inv_update [where C = "{#?c#}" and D = "set ns" and W = "owners nt loc A" and N = N and rsrv = rsrv and loc = loc])
    fix r' b y assume "g r' = Some b" "r' \<noteq> r" "y \<in> set (fst b)"
    then show "y \<notin> set ns" using hy_invD(2) [OF inv g, of r' b] by auto
  next
    fix y assume y: "y \<in> set ns"
    then have "y \<in> fset (fmdom N)" using hy_invD(3) [OF inv, of y] g by force
    with y hy_invD(4) [OF inv, of y] show "(y \<in> fset (fmdom N')) = (\<exists>b. Some ?b = Some b \<and> y \<in> set (fst b))"
      and "y \<in> fset (fmdom N') \<Longrightarrow> y \<noteq> null_node \<and> y \<noteq> invptr" by (auto simp: N'_def)
  next
    fix y show "count (outs nt N' (rsrv(i := x)) ({#?c'#} + A)) y \<le> 1"
      using hy_invD(5) [OF inv, of y] nd(3) outs' by (auto simp: not_in_iff)
  next
    fix t assume "t < nt"
    then show "(rsrv(i := x)) t = invptr \<or> (\<exists>xs. npath N' ((rsrv(i := x)) t) xs)"
      using exI [of "npath N' x", OF npx] fr by (auto simp: heads_ok_def head_ok_def simp del: npath.simps)
  next
    fix t assume "t < nt"
    then show "local_ok (g(r := Some ?b)) (loc t)"
      using hy_invD(7) [OF inv] un by (auto simp: local_ok_def unowned_iff)
  qed (use inv g b outs' fr un k xns in \<open>auto simp: heads_ok_def unowned_iff N'_def\<close>)
  with chx show ?thesis by simp
qed

lemma hy_add_cas_good:
  assumes ok: "hy_ok g (add_mset (H_add_cas i x r cnt prev) A) s"
  shows "\<exists>new s'. hy_add_cas i x r cnt prev s = Inr (new, s') \<and> hy_good {#} {#H_add_cas i x r cnt prev#} g A s new s'"
proof -
  let ?nt = "hy_threads s" and ?c = "H_add_cas i x r cnt prev" and ?k = "cnt_added cnt"
  from hy_ok_call [OF ok] obtain ns where ns: "g r = Some (ns, P_adding i ?k)" "x = ns ! i" "i < ?nt" "prev \<noteq> invptr" by auto
  note node = adding_node [OF ok ns(1,3), folded ns(2)]
  from node(1) obtain nd where nd: "fmlookup (hy_nodes s) x = Some nd" "hn_refc nd = U_bnext (ns ! Suc i)" by auto
  define nd' where "nd' = nd\<lparr>hn_next := U_next prev\<rparr>"
  let ?N = "fmupd x nd' (hy_nodes s)"
  have xne: "x \<noteq> invptr"
    using ok nd(1) hy_invD(4) [of ?nt "hy_nodes s" "hy_rsrv s" "hy_local s" g _ x] by (fastforce simp: hy_ok_def fmlookup_dom_iff)
  have x: "x \<notin># outs ?nt (hy_nodes s) (hy_rsrv s) A" using node(2) by simp
  have next_same: "map_option hn_next (fmlookup ?N y) = map_option hn_next (fmlookup (hy_nodes s) y)"
    if "y \<in># outs ?nt (hy_nodes s) (hy_rsrv s) (add_mset ?c A)" for y
    using that x nd by auto
  have ch: "chain ?N (hy_rsrv s t) = chain (hy_nodes s) (hy_rsrv s t)" if "t < ?nt" for t
    by (rule chains_frame [OF hy_ok_heads [OF ok] that next_same])
  have obj: "hn_obj nd1' = hn_obj nd1" if "fmlookup (hy_nodes s) y = Some nd1" "fmlookup ?N y = Some nd1'" for y nd1 nd1'
    using that nd by (auto simp: nd'_def split: if_splits)
  have pend: "node_tokens ?N ({#c'#} + A) = node_tokens (hy_nodes s) ({#?c#} + A)" if "call_ejected c' = {}" for c'
    by (rule node_tokens_same [OF fmdom_upd_same [OF nd(1)] obj]) (simp_all add: that)
  show ?thesis
  proof (cases "hy_rsrv s i = prev")
    case True
    let ?g = "g(r := Some (ns, P_adding (Suc i) (Suc ?k)))" and ?c' = "H_add_load (Suc i) (ns ! Suc i) r (cnt + 1)"
    let ?s = "(put_node x nd' s)\<lparr>hy_rsrv := (hy_rsrv s)(i := x)\<rparr>"
    have ins: "hy_inv ?nt ?N ((hy_rsrv s)(i := x)) (hy_local s) ?g (add_mset ?c' A)" "chain ?N x = x # chain (hy_nodes s) prev"
      using insert_node [of ?nt "hy_nodes s" "hy_rsrv s" "hy_local s" g i x r cnt A ns nd] ok ns nd x node(3) True
      by (simp_all add: hy_ok_def nd'_def)
    have "keeps g s ?g ?s"
    proof (rule keepsI [where r = r])
      fix t ns' assume t: "t < ?nt" "held_at t r g s ns'"
      then have "held t (chain (hy_nodes s) (hy_rsrv s t)) (ns, P_adding i ?k)" "ns' = ns"
        using ns by (auto simp: held_at_def)
      then have "held t (chain ?N (hy_rsrv ?s t)) (ns, P_adding (Suc i) (Suc ?k))"
        using ins(2) ch [OF t(1)] node(4) held_next by (cases "t = i") (auto simp: held_def)
      then show "\<exists>ns''. held_at t r ?g ?s ns'' \<and> set ns' \<subseteq> set ns''"
        using \<open>ns' = ns\<close> by (auto simp: held_at_def put_node_def)
    next
      fix t assume "t < ?nt"
      then show "set (chain (hy_nodes s) (hy_rsrv s t)) \<subseteq> set (chain (hy_nodes ?s) (hy_rsrv ?s t))"
        using ins(2) ch True by (auto simp: put_node_def)
    qed (use xne True ns(4) in \<open>auto simp: put_node_def intro: obj\<close>)
    moreover have "hy_add_cas i x r cnt prev s = Inr ([C_derived ?c'], ?s)"
      using True nd by (simp add: hy_add_cas_def hy_add_round_def with_node_def atomic_defs nd'_def put_node_def)
    ultimately show ?thesis using ins(1) ok pend [of ?c'] by (auto simp: hy_good_def put_node_def hy_ok_def)
  next
    case False
    let ?c' = "H_add_load i x r cnt"
    have "hy_inv ?nt ?N (hy_rsrv s) (hy_local s) (g(r := Some (ns, P_adding i ?k))) ({#?c'#} + A)"
    proof (rule owner_step [where c = ?c and r = r and ns = ns and ph = "P_adding i ?k"])
      fix b assume "Some (ns, P_adding i ?k) = Some b"
      moreover have "batch_nodes ?N r ns" unfolding nd'_def by (rule batch_nodes_upd_next [OF hy_ok_batch(1) [OF ok ns(1)] nd(1)])
      ultimately show "batch_ok ?nt ?N (set_mset (outs ?nt (hy_nodes s) (hy_rsrv s) A)) r b"
        using hy_ok_batch(2) [OF ok ns(1)] node(3) by (auto simp: batch_ok_def refs_node_def)
    next
      fix y assume "y \<in> set ns"
      then have "y \<in> fset (fmdom (hy_nodes s))" using hy_invD(3) [of ?nt "hy_nodes s" "hy_rsrv s" "hy_local s" g] ok ns(1)
        unfolding hy_ok_def by (metis fst_conv)
      with \<open>y \<in> set ns\<close> show "(y \<in> fset (fmdom ?N)) = (\<exists>b. Some (ns, P_adding i ?k) = Some b \<and> y \<in> set (fst b))" by auto
    qed (use ok ns next_same node(4) in \<open>auto simp: hy_ok_def\<close>)
    then have inv: "hy_inv ?nt ?N (hy_rsrv s) (hy_local s) g ({#?c'#} + A)" by (simp add: fun_upd_idem ns(1))
    have "keeps g s g (put_node x nd' s)"
      by (rule keepsI [where r = r]) (use ch in \<open>auto simp: put_node_def held_at_def intro: obj\<close>)
    moreover have "hy_add_cas i x r cnt prev s = Inr ([C_derived ?c'], put_node x nd' s)"
      using False nd by (simp add: hy_add_cas_def with_node_def atomic_defs nd'_def put_node_def)
    ultimately show ?thesis using inv ok pend [of ?c'] by (auto simp: hy_good_def put_node_def hy_ok_def)
  qed
qed

section \<open>Giving nodes back\<close>

lemma hy_inv_shift:
  assumes inv: "hy_inv nt N rsrv loc g A"
    and "outs nt N rsrv' A' = outs nt N rsrv A" and "owners nt loc' A' = owners nt loc A"
    and "\<And>t. t < nt \<Longrightarrow> rsrv' t = invptr \<or> (\<exists>xs. npath N (rsrv' t) xs)"
    and "\<And>t. t < nt \<Longrightarrow> local_ok g (loc' t)" and "\<And>c. c \<in># A' \<Longrightarrow> call_ok nt N g c"
  shows "hy_inv nt N rsrv' loc' g A'"
  unfolding hy_inv_def assms(2,3)
  using hy_invD(1-5,9) [OF inv] assms(4,5,6) by (intro conjI allI impI ballI) blast+

lemma outs_batch:
  assumes inv: "hy_inv nt N rsrv loc g A" and x: "x \<in># outs nt N rsrv A" "fmlookup N x = Some nd"
  shows "\<exists>ns ph. g (hn_blink nd) = Some (ns, ph) \<and> x \<in> set ns \<and> x \<noteq> hn_blink nd \<and> ph \<noteq> P_local \<and> ph \<noteq> P_freeing"
proof -
  from x(2) have "x \<in> fset (fmdom N)" by (simp add: fmlookup_dom_iff)
  with hy_invD(3) [OF inv] obtain r ns ph where b: "g r = Some (ns, ph)" "x \<in> set ns" by (metis fst_conv surj_pair)
  from hy_invD(1) [OF inv b(1)] have ok: "batch_ok nt N (set_mset (outs nt N rsrv A)) r (ns, ph)" .
  from batch_ok_refs_node [OF ok] obtain rn c where rn: "fmlookup N r = Some rn" "hn_next rn = U_decrement RT_decrement_strong_count"
    "phase_ok nt (set_mset (outs nt N rsrv A) \<inter> set ns) ns c (hn_blink rn) ph" by auto
  with outs_slot [OF hy_inv_heads [OF inv] x(1)] have "x \<noteq> r" by auto
  moreover from b(2) obtain j where j: "j < length ns" "x = ns ! j" by (auto simp: in_set_conv_nth)
  moreover have "last ns = r" "ns \<noteq> []" using ok by (auto simp: batch_ok_def batch_nodes_def)
  ultimately have "Suc j < length ns" by (metis Suc_lessI diff_Suc_1 last_conv_nth)
  with ok have "slot_node N r x (ns ! Suc j)" using batch_slot [of N r ns j] j by (auto simp: batch_ok_def)
  with x(2) have "hn_blink nd = r" by (auto simp: slot_node_def)
  moreover have "ph \<noteq> P_local" "ph \<noteq> P_freeing" using rn(3) x(1) b(2) by auto
  ultimately show ?thesis using b \<open>x \<noteq> r\<close> by auto
qed

lemma owners_due: "hy_inv nt N rsrv loc g A \<Longrightarrow> \<exists>W. owners nt loc A = owner_due r (g r) + W"
  using hy_invD(9) [of nt N rsrv loc g A r] by (metis multiset_partition)

text \<open>The count of a batch that is still being added cannot reach zero.\<close>

lemma adding_not_last:
  assumes "phase_ok nt Q ns c f (P_adding i k)" and "nt < 2 ^ 62" and "Q \<noteq> {}" "finite Q"
  shows "c \<noteq> 1"
proof
  assume "c = 1"
  with assms(1) have eq: "1 + of_nat k = of_nat (card Q) + REFC_PROTECT" and le: "k < 2 ^ 62" "card Q \<le> k" using assms(2) by auto
  have "unat (of_nat (k + 1) :: u64) = k + 1" "unat (of_nat (card Q + 2 ^ 62) :: u64) = card Q + 2 ^ 62"
    using le by (intro unat_small; simp)+
  moreover have "(of_nat (k + 1) :: u64) = of_nat (card Q + 2 ^ 62)" using eq by (simp add: REFC_PROTECT_def)
  ultimately have "k + 1 = card Q + 2 ^ 62" by metis
  moreover have "0 < card Q" using assms(3,4) by (simp add: card_gt_0_iff)
  ultimately show False using le by simp
qed

fun released :: "nptr set \<Rightarrow> phase \<Rightarrow> phase" where
  "released Q P_published = (if Q = {} then P_freeing else P_published)"
| "released Q ph = ph"

lemma released_ok:
  assumes "phase_ok nt Q ns c f ph" and "x \<in> Q" "finite Q" "nt < 2 ^ 62"
  shows "phase_ok nt (Q - {x}) ns (c - 1) f (released (Q - {x}) ph) \<and> (c = 1 \<longleftrightarrow> ph = P_published \<and> Q - {x} = {})"
proof -
  have card: "card Q = Suc (card (Q - {x}))" using assms(2,3) by (metis card_Suc_Diff1)
  show ?thesis
  proof (cases ph)
    case (P_adding i k)
    from P_adding assms(1) have ph: "phase_ok nt Q ns c f (P_adding i k)" by simp
    then have "c + of_nat k = 1 + of_nat (card (Q - {x})) + REFC_PROTECT" by (simp add: card)
    then have "c - 1 + of_nat k = of_nat (card (Q - {x})) + REFC_PROTECT" by (simp add: algebra_simps)
    moreover have "c \<noteq> 1" using adding_not_last [OF ph assms(4)] assms(2,3) by blast
    moreover have "card (Q - {x}) \<le> k" "Q - {x} \<subseteq> set (take i ns)" using ph card by auto
    ultimately show ?thesis using P_adding ph by (simp del: phase_ok.simps add: phase_ok.simps(2))
  next
    case P_published
    with assms(1) have c: "c = 1 + of_nat (card (Q - {x}))" "Q \<subseteq> set (take nt ns)" by (auto simp: card)
    then have "card Q \<le> nt" using card_mono [of "set (take nt ns)" Q] card_length [of "take nt ns"] by simp
    then have "card (Q - {x}) < 2 ^ 64" using card assms(4) by simp
    then have "c = 1 \<longleftrightarrow> Q - {x} = {}" using c(1) assms(3) by (simp add: of_nat_u64_zero)
    moreover have "c - 1 = of_nat (card (Q - {x}))" using c(1) by simp
    ultimately show ?thesis using P_published assms(1) by auto
  qed (use assms in auto)
qed

lemma hy_traverse_good:
  assumes ok: "hy_ok g (add_mset (H_traverse p) A) s"
  shows "\<exists>new s'. hy_traverse p s = Inr (new, s') \<and> hy_good {#} {#H_traverse p#} g A s new s'"
proof (cases "p = null_node")
  case True
  have inv: "hy_inv (hy_threads s) (hy_nodes s) (hy_rsrv s) (hy_local s) g (add_mset (H_traverse p) A)" using ok by (simp add: hy_ok_def)
  have "hy_inv (hy_threads s) (hy_nodes s) (hy_rsrv s) (hy_local s) g A"
    by (rule hy_inv_shift [OF inv]) (use True hy_invD(6,7,8) [OF inv] in auto)
  moreover have "node_tokens (hy_nodes s) (dcalls [] + A) = node_tokens (hy_nodes s) ({#H_traverse p#} + A)" by (rule node_tokens_same) auto
  ultimately show ?thesis using ok True by (auto simp: hy_traverse_def hy_good_def hy_ok_def keeps_def intro!: exI [of _ g])
next
  case False
  let ?nt = "hy_threads s" and ?N = "hy_nodes s" and ?c = "H_traverse p"
  have inv: "hy_inv ?nt ?N (hy_rsrv s) (hy_local s) g (add_mset ?c A)" and nt: "?nt < 2 ^ 62" using ok by (auto simp: hy_ok_def)
  from hy_ok_call [OF ok] obtain xs where xs: "npath ?N p xs" by auto
  with False obtain nd q ys where nd: "fmlookup ?N p = Some nd" "hn_next nd = U_next q" "npath ?N q ys" "xs = p # ys" "p \<noteq> invptr"
    by (cases xs) auto
  note ch = npath_chain [OF xs, unfolded nd(4)] npath_chain [OF nd(3)]
  let ?O = "outs ?nt ?N (hy_rsrv s) (add_mset ?c A)" and ?r = "hn_blink nd"
  from outs_batch [OF inv _ nd(1)] ch obtain ns ph where b: "g ?r = Some (ns, ph)" "p \<in> set ns" "p \<noteq> ?r" "ph \<noteq> P_local" "ph \<noteq> P_freeing"
    by auto
  from hy_ok_batch(2) [OF ok b(1)] obtain rn c where rn: "fmlookup ?N ?r = Some rn" "hn_refc rn = U_refc c"
      "hn_next rn = U_decrement RT_decrement_strong_count" and ph: "phase_ok ?nt (set_mset ?O \<inter> set ns) ns c (hn_blink rn) ph" by auto
  define rn' where "rn' = rn\<lparr>hn_refc := U_refc (c - 1)\<rparr>"
  have rn'_simps: "hn_refc rn' = U_refc (c - 1)" "hn_next rn' = hn_next rn" "hn_blink rn' = hn_blink rn" by (simp_all add: rn'_def)
  let ?Q = "set_mset ?O \<inter> set ns - {p}"
  define ph' where "ph' = released ?Q ph"
  define cs where "cs = (if c = 1 then [C_derived (H_free_batch ?r)] else []) @ [C_derived (H_traverse q)]"
  have rel: "phase_ok ?nt ?Q ns (c - 1) (hn_blink rn) ph'" "c = 1 \<longleftrightarrow> ph = P_published \<and> ?Q = {}"
    using released_ok [OF ph, of p] b(2) nt ch by (auto simp: ph'_def)
  let ?N' = "fmupd ?r rn' ?N"
  have next_same: "map_option hn_next (fmlookup ?N' x) = map_option hn_next (fmlookup ?N x)" for x using rn by (auto simp: rn'_def)
  have chs: "chain ?N' x = chain ?N x" for x by (rule chain_same [OF next_same])
  have np: "npath ?N' x xs = npath ?N x xs" for x xs using npath_frame next_same by metis
  have "(\<Sum>c\<in>#B. call_outs ?N' c) = (\<Sum>c\<in>#B. call_outs ?N c)" for B
  proof (induction B)
    case (add c B)
    then show ?case by (cases c) (auto simp: chs)
  qed simp
  then have outs_same: "outs ?nt ?N' (hy_rsrv s) B = outs ?nt ?N (hy_rsrv s) B" for B by (simp add: outs_def chs)
  have O: "?O = add_mset p (outs ?nt ?N' (hy_rsrv s) (dcalls cs + A))"
    unfolding outs_same by (simp add: cs_def ch)
  have pO: "p \<notin># outs ?nt ?N' (hy_rsrv s) (dcalls cs + A)" using hy_invD(5) [OF inv, of p] unfolding O by (simp add: not_in_iff)
  then have Q: "set_mset (outs ?nt ?N' (hy_rsrv s) (dcalls cs + A)) \<inter> set ns = ?Q" using O by auto
  obtain W where W: "owners ?nt (hy_local s) ({#?c#} + A) = owner_due ?r (g ?r) + W" using owners_due [OF inv] by auto
  have "hy_inv ?nt ?N' (hy_rsrv s) (hy_local s) (g(?r := Some (ns, ph'))) (dcalls cs + A)"
  proof (rule hy_inv_update [where C = "{#?c#}" and D = "set ns" and W = W])
    fix r' b' y assume "g r' = Some b'" "r' \<noteq> ?r" "y \<in> set (fst b')"
    then show "y \<notin> set ns" using hy_invD(2) [OF inv b(1), of r' b'] by auto
  next
    fix y assume y: "y \<in> set ns"
    then have "y \<in> fset (fmdom ?N)" using hy_invD(3) [OF inv, of y] b(1) by force
    with y hy_invD(4) [OF inv, of y] show "(y \<in> fset (fmdom ?N')) = (\<exists>b. Some (ns, ph') = Some b \<and> y \<in> set (fst b))"
      and "y \<in> fset (fmdom ?N') \<Longrightarrow> y \<noteq> null_node \<and> y \<noteq> invptr" by auto
  next
    fix b' assume "Some (ns, ph') = Some b'"
    then show "batch_ok ?nt ?N' (set_mset (outs ?nt ?N' (hy_rsrv s) (dcalls cs + A))) ?r b'"
      using rel(1) [folded Q] rn batch_nodes_upd_refs [OF hy_ok_batch(1) [OF ok b(1)], of rn'] by (auto simp: batch_ok_def refs_node_def rn'_simps)
  next
    fix t assume t: "t < ?nt"
    show "local_ok (g(?r := Some (ns, ph'))) (hy_local s t)"
      using hy_invD(7) [OF inv t] b by (auto simp: local_ok_def)
    show "hy_rsrv s t = invptr \<or> (\<exists>xs. npath ?N' (hy_rsrv s t) xs)" using hy_invD(6) [OF inv t] np by simp
  next
    fix d assume "d \<in># dcalls cs"
    then show "call_ok ?nt ?N' (g(?r := Some (ns, ph'))) d"
      using rel ph nd(3) np by (auto simp: cs_def ph'_def rn'_def split: if_splits)
  next
    have "\<forall>c\<in>#A. ?r \<notin> fst ` set_mset (call_owner c)" if "ph = P_published"
      using hy_invD(9) [OF inv, of ?r] b(1) that unowned_iff [of ?nt "hy_local s" "add_mset ?c A" ?r] by (simp add: unowned_def)
    moreover have "ph \<noteq> P_published \<Longrightarrow> ph' = ph" using b by (cases ph) (auto simp: ph'_def)
    ultimately show "g ?r = Some (ns, ph') \<and> map_option hn_blink (fmlookup ?N' ?r) = map_option hn_blink (fmlookup ?N ?r) \<or>
        (\<forall>c\<in>#A. ?r \<notin> fst ` set_mset (call_owner c))"
      using b(1) rn by (auto simp: rn'_def)
  next
    show "owners ?nt (hy_local s) (dcalls cs + A) = owner_due ?r (Some (ns, ph')) + W"
      using W b rel(2) by (cases ph) (auto simp: owners_def cs_def ph'_def)
  next
    fix x
    have "count (outs ?nt ?N' (hy_rsrv s) (dcalls cs + A)) x \<le> count ?O x" unfolding O by simp
    with hy_invD(5) [OF inv, of x] show "count (outs ?nt ?N' (hy_rsrv s) (dcalls cs + A)) x \<le> 1" by linarith
    assume x: "x \<notin> set ns"
    have "?O = outs ?nt ?N (hy_rsrv s) ({#?c#} + A)" by simp
    with x b(2) show "x \<in># outs ?nt ?N' (hy_rsrv s) (dcalls cs + A) \<longleftrightarrow> x \<in># outs ?nt ?N (hy_rsrv s) ({#?c#} + A)"
      unfolding O [symmetric] by (metis O insert_iff set_mset_add_mset_insert)
    have "?r \<in> set ns" using batch_ok_refs [OF hy_invD(1) [OF inv b(1)]] by simp
    with x show "fmlookup ?N' x = fmlookup ?N x" by auto
  next
    fix x assume "H_traverse x \<in># A"
    then show "\<exists>xs. npath ?N' x xs" using hy_inv_heads [OF inv] by (simp add: heads_ok_def np)
  qed (use inv W b in auto)
  moreover have "keeps g s (g(?r := Some (ns, ph'))) (put_node ?r rn' s)"
  proof (rule keepsI [where r = ?r])
    fix t ns' assume t: "t < ?nt" "held_at t ?r g s ns'"
    then have h: "held t (chain ?N (hy_rsrv s t)) (ns, ph)" "ns' = ns" using b by (auto simp: held_at_def)
    have "p \<notin> set (chain ?N (hy_rsrv s t))" using pO t(1) by (auto simp: outs_same in_outs)
    moreover have "set (chain ?N (hy_rsrv s t)) \<subseteq> set_mset ?O" using t(1) unfolding subset_iff in_outs by blast
    ultimately have "ph = P_published \<Longrightarrow> ?Q \<noteq> {}" using h by (auto simp: held_def simp del: outs_simps)
    then have "ph' = ph" using b by (cases ph) (auto simp: ph'_def)
    with h show "\<exists>ns''. held_at t ?r (g(?r := Some (ns, ph'))) (put_node ?r rn' s) ns'' \<and> set ns' \<subseteq> set ns''"
      by (auto simp: held_at_def put_node_def chs)
  qed (use rn chs in \<open>auto simp: put_node_def rn'_def split: if_splits\<close>)
  moreover have "node_tokens ?N' (dcalls cs + A) = node_tokens ?N ({#?c#} + A)"
    by (rule node_tokens_same [OF fmdom_upd_same [OF rn(1)]]) (use rn in \<open>auto simp: rn'_def cs_def split: if_splits\<close>)
  moreover have "hy_traverse p s = Inr (cs, put_node ?r rn' s)"
    using False nd rn by (simp add: hy_traverse_def with_node_def atomic_defs cs_def rn'_def Let_def)
  moreover have "calls_tokens (\<lambda>_. {#}) cs = {#}" by (simp add: cs_def)
  ultimately show ?thesis using ok by (auto simp: hy_good_def put_node_def hy_ok_def)
qed

section \<open>Freeing a batch\<close>

lemma hy_free_batch_good:
  assumes ok: "hy_ok g (add_mset (H_free_batch r) A) s"
  shows "\<exists>new s'. hy_free_batch r s = Inr (new, s') \<and> hy_good {#} {#H_free_batch r#} g A s new s'"
proof -
  from hy_ok_call [OF ok] obtain ns where ns: "g r = Some (ns, P_freeing)" "map_option hn_blink (fmlookup (hy_nodes s) r) = Some (hd ns)" by auto
  from hy_ok_batch(2) [OF ok ns(1)] ns(2) obtain nd where nd: "fmlookup (hy_nodes s) r = Some nd"
    "hn_next nd = U_decrement RT_decrement_strong_count" "hn_blink nd = hd ns" by auto
  have "hy_good {#} {#H_free_batch r#} g A s [C_derived (H_free r RT_decrement_strong_count (hd ns))] s"
    by (rule phase_good [where r = r and ns = ns and ph = P_freeing and ph' = P_freeing]) (use ok ns in auto)
  with nd show ?thesis by (simp add: hy_free_batch_def with_node_def)
qed

text \<open>The node at the head of a batch that no other call owns is in no one else's hands.\<close>

lemma not_ejected:
  assumes inv: "hy_inv nt N rsrv loc g (add_mset c A)" and c: "call_owner c = {#(r, ph)#}" and g: "g r = Some (ns, ph)" and x: "x \<in> set ns"
  shows "x \<notin> ejected A"
proof
  assume "x \<in> ejected A"
  then obtain d where d: "d \<in># A" "x \<in> call_ejected d" by (auto simp: ejected_def)
  then have "\<exists>r' ns' ph'. g r' = Some (ns', ph') \<and> ns' \<noteq> [] \<and> x = hd ns' \<and> r' \<in> fst ` set_mset (call_owner d)"
  proof -
    have ne: "ns \<noteq> []" if "g r = Some (ns, ph)" for r ns ph
      using hy_invD(1) [OF inv that] by (auto simp: batch_ok_def batch_nodes_def)
    from hy_invD(8) [OF inv, of d] d show ?thesis by (cases d) (use ne in fastforce)+
  qed
  then obtain r' ns' ph' where b: "g r' = Some (ns', ph')" "x \<in> set ns'" "r' \<in> fst ` set_mset (call_owner d)" by (metis hd_in_set)
  with owned [OF inv c] d(1) have "r' \<noteq> r" by (auto simp: unowned_iff)
  with hy_invD(2) [OF inv g b(1)] x b(2) show False by auto
qed

lemma node_tokens_eject:
  assumes "x \<in> fset (fmdom N) - ejected A" and "ejected A' = insert x (ejected A)"
  shows "node_tokens N A = add_mset (T_strong, hn_obj (the (fmlookup N x))) (node_tokens N A')"
proof -
  have eq: "fset (fmdom N) - ejected A = insert x (fset (fmdom N) - ejected A')" using assms by auto
  show ?thesis unfolding node_tokens_def eq by (subst sum.insert) (use assms in auto)
qed

lemma node_tokens_delete:
  assumes "x \<notin> ejected A" and "ejected A' = insert x (ejected A)"
  shows "node_tokens (fmdrop x N) A = node_tokens N A'"
  unfolding node_tokens_def by (rule sum.cong) (use assms in auto)

lemma keeps_same: "keeps g s g s"
  by (auto simp: keeps_def)

text \<open>The first node is taken out of a batch that no thread holds.\<close>

lemma remove_node:
  assumes inv: "hy_inv nt N rsrv loc g (add_mset c A)" and c: "call_owner c = {#(r, ph)#}" "call_outs N c = {#}"
    and g: "g r = Some (ns, ph)" and ph: "ph = P_freeing \<or> ph = P_local"
    and C': "(\<Sum>c\<in>#C'. call_owner c) = owner_due r (if tl ns = [] then None else Some (tl ns, ph))" "\<And>p. H_traverse p \<notin># C'"
    and calls: "\<And>c. c \<in># C' \<Longrightarrow> tl ns \<noteq> [] \<Longrightarrow> call_ok nt (fmdrop (hd ns) N) (g(r := Some (tl ns, ph))) c"
      "tl ns = [] \<Longrightarrow> C' = {#}"
  shows "hy_inv nt (fmdrop (hd ns) N) rsrv loc (g(r := if tl ns = [] then None else Some (tl ns, ph))) (C' + A)"
proof (rule owner_step [OF inv c g C'])
  have ok: "batch_ok nt N (set_mset (outs nt N rsrv A)) r (ns, ph)" using hy_invD(1) [OF inv g] c by simp
  then have ns: "ns \<noteq> []" "distinct ns" "last ns = r" by (auto simp: batch_ok_def batch_nodes_def)
  have Q: "set_mset (outs nt N rsrv A) \<inter> set ns = {}" using ok ph by (auto simp: batch_ok_def)
  show "fmlookup (fmdrop (hd ns) N) x = fmlookup N x" if "x \<notin> set ns" for x using that ns(1) by auto
  show "map_option hn_next (fmlookup (fmdrop (hd ns) N) x) = map_option hn_next (fmlookup N x)" if "x \<in># outs nt N rsrv A" for x
    using that Q ns(1) by (metis (no_types, lifting) IntI emptyE fmlookup_drop list.set_sel(1))
  show "x \<in> fset (fmdom (fmdrop (hd ns) N)) \<longleftrightarrow> (\<exists>b. (if tl ns = [] then None else Some (tl ns, ph)) = Some b \<and> x \<in> set (fst b))"
    if "x \<in> set ns" for x
  proof -
    have "x \<in> fset (fmdom N)" using that hy_invD(3) [OF inv, of x] g by force
    moreover have "x = hd ns \<or> x \<in> set (tl ns)" "hd ns \<notin> set (tl ns)" using that ns by (cases ns; auto)+
    ultimately show ?thesis by auto
  qed
  show "batch_ok nt (fmdrop (hd ns) N) (set_mset (outs nt N rsrv A)) r b"
    if b: "(if tl ns = [] then None else Some (tl ns, ph)) = Some b" for b
  proof -
    from b have tl: "tl ns \<noteq> []" "b = (tl ns, ph)" by (auto split: if_splits)
    with ns have "hd ns \<noteq> r" by (cases ns) auto
    moreover have "set_mset (outs nt N rsrv A) \<inter> set (tl ns) = {}" using Q ns(1) by (cases ns) auto
    moreover have "batch_nodes (fmdrop (hd ns) N) r (tl ns)" by (rule batch_nodes_tl) (use ok tl in \<open>auto simp: batch_ok_def\<close>)
    ultimately show ?thesis using ok ph tl Q by (auto simp: batch_ok_def refs_node_def)
  qed
  show "set (fst b) \<subseteq> set ns" if "(if tl ns = [] then None else Some (tl ns, ph)) = Some b" for b
    using that by (cases ns) (auto split: if_splits)
qed (use calls in \<open>auto split: if_splits\<close>)

lemma freeing_keeps:
  assumes ok: "hy_ok g A s" and g: "g r = Some (ns, P_freeing)"
  shows "keeps g s (g(r := b)) (delete_node (hd ns) s)"
proof -
  let ?nt = "hy_threads s" and ?O = "outs (hy_threads s) (hy_nodes s) (hy_rsrv s) A"
  from hy_ok_batch [OF ok g] have Q: "set_mset ?O \<inter> set ns = {}" and ns: "ns \<noteq> []" by (auto simp: batch_nodes_def)
  have chs: "chain (fmdrop (hd ns) (hy_nodes s)) (hy_rsrv s t) = chain (hy_nodes s) (hy_rsrv s t)" if "t < ?nt" for t
  proof (rule chains_frame [OF hy_ok_heads [OF ok] that])
    fix x assume "x \<in># ?O"
    with Q ns have "x \<noteq> hd ns" by auto
    then show "map_option hn_next (fmlookup (fmdrop (hd ns) (hy_nodes s)) x) = map_option hn_next (fmlookup (hy_nodes s) x)" by simp
  qed
  show ?thesis
  proof (rule keepsI [where r = r])
    fix t ns' assume t: "t < ?nt" "held_at t r g s ns'"
    then have "set (chain (hy_nodes s) (hy_rsrv s t)) \<inter> set ns \<noteq> {}" using g by (auto simp: held_at_def held_def)
    moreover have "set (chain (hy_nodes s) (hy_rsrv s t)) \<subseteq> set_mset ?O" using t(1) unfolding subset_iff in_outs by blast
    ultimately have False using Q by auto
    then show "\<exists>ns''. held_at t r (g(r := b)) (delete_node (hd ns) s) ns'' \<and> set ns' \<subseteq> set ns''" ..
  qed (auto simp: delete_node_def chs split: if_splits)
qed

lemma hy_free_good:
  assumes ok: "hy_ok g (add_mset (H_free r type n) A) s"
  shows "\<exists>new s'. hy_free r type n s = Inr (new, s') \<and> hy_good {#} {#H_free r type n#} g A s new s'"
proof -
  let ?c = "H_free r type n"
  have inv: "hy_inv (hy_threads s) (hy_nodes s) (hy_rsrv s) (hy_local s) g (add_mset ?c A)" using ok by (simp add: hy_ok_def)
  from hy_ok_call [OF ok] obtain ns where ns: "g r = Some (ns, P_freeing)" "n = hd ns" "type = RT_decrement_strong_count" by auto
  note b = hy_ok_batch [OF ok ns(1)]
  from b have ne: "ns \<noteq> []" by (auto simp: batch_nodes_def)
  then have "n \<in> set ns" by (simp add: ns(2))
  then have "n \<in> fset (fmdom (hy_nodes s))" using hy_invD(3) [OF inv, of n] ns(1) by force
  then obtain nd where nd: "fmlookup (hy_nodes s) n = Some nd" by (auto simp: fmlookup_dom_iff)
  have "as_bnext (hn_refc nd) = (if tl ns = [] then null_node else hd (tl ns))"
  proof (cases "tl ns = []")
    case True
    with ne b(1) have "n = r" by (cases ns) (auto simp: batch_nodes_def ns(2))
    with b(2) nd True show ?thesis by auto
  next
    case False
    with ne obtain y zs where "ns = n # y # zs" by (cases ns; cases "tl ns") (auto simp: ns(2))
    with batch_slot [OF b(1), of 0] nd show ?thesis by (auto simp: slot_node_def)
  qed
  then have bn: "call_ok (hy_threads s) (hy_nodes s) g (H_free_next r type n (as_bnext (hn_refc nd)))" using ns by simp
  let ?c' = "H_free_next r type n (as_bnext (hn_refc nd))"
  have "hy_inv (hy_threads s) (hy_nodes s) (hy_rsrv s) (hy_local s) g ({#?c'#} + A)"
    by (rule hy_inv_shift [OF inv]) (use hy_invD(6,7,8) [OF inv] bn in auto)
  moreover have "n \<notin> ejected A" by (rule not_ejected [OF inv _ ns(1) \<open>n \<in> set ns\<close>]) simp
  then have "node_tokens (hy_nodes s) ({#?c#} + A) = add_mset (T_strong, hn_obj nd) (node_tokens (hy_nodes s) ({#?c'#} + A))"
    using node_tokens_eject [of n "hy_nodes s" "{#?c#} + A" "{#?c'#} + A"] \<open>n \<in> fset (fmdom (hy_nodes s))\<close> nd by simp
  moreover have "n \<noteq> invptr" using hy_invD(4) [OF inv, of n] \<open>n \<in> fset (fmdom (hy_nodes s))\<close> by simp
  ultimately show ?thesis using ok nd ns(3) keeps_same [of g s]
    by (auto simp: hy_free_def with_node_def hy_good_def hy_ok_def)
qed

lemma hy_free_next_good:
  assumes ok: "hy_ok g (add_mset (H_free_next r type n m) A) s"
  shows "\<exists>new s'. hy_free_next r type n m s = Inr (new, s') \<and> hy_good {#} {#H_free_next r type n m#} g A s new s'"
proof -
  let ?c = "H_free_next r type n m"
  have inv: "hy_inv (hy_threads s) (hy_nodes s) (hy_rsrv s) (hy_local s) g (add_mset ?c A)" using ok by (simp add: hy_ok_def)
  from hy_ok_call [OF ok] obtain ns where ns: "g r = Some (ns, P_freeing)" "n = hd ns" "m = (if tl ns = [] then null_node else hd (tl ns))"
    "type = RT_decrement_strong_count" by auto
  have ne: "ns \<noteq> []" using hy_ok_batch(1) [OF ok ns(1)] by (auto simp: batch_nodes_def)
  then have n: "n \<in> set ns" by (simp add: ns(2))
  have dom: "x \<in> fset (fmdom (hy_nodes s))" if "x \<in> set ns" for x using that hy_invD(3) [OF inv, of x] ns(1) by force
  then obtain nd where nd: "fmlookup (hy_nodes s) n = Some nd" using n by (meson fmlookup_dom_iff)
  have m: "m = null_node \<longleftrightarrow> tl ns = []"
    using hy_invD(4) [OF inv dom, of "hd (tl ns)"] ne ns(3) by (auto dest!: list.set_sel(1) list.set_sel(2) [OF ne])
  define b where "b = (if tl ns = [] then None else Some (tl ns, P_freeing))"
  define new :: "hy_call mm_call list" where "new = (if m \<noteq> null_node then [C_derived (H_free r type m)] else [])"
  have "hy_inv (hy_threads s) (fmdrop (hd ns) (hy_nodes s)) (hy_rsrv s) (hy_local s) (g(r := b)) (dcalls new + A)"
    unfolding b_def by (rule remove_node [where c = ?c]) (use inv ns m in \<open>auto simp: new_def split: if_splits\<close>)
  moreover have "keeps g s (g(r := b)) (delete_node (hd ns) s)" by (rule freeing_keeps [OF ok ns(1)])
  moreover have "n \<notin> ejected A" by (rule not_ejected [OF inv _ ns(1) n]) simp
  then have "node_tokens (fmdrop n (hy_nodes s)) (dcalls new + A) = node_tokens (hy_nodes s) ({#?c#} + A)"
    by (intro node_tokens_delete) (auto simp: new_def)
  moreover have "calls_tokens (\<lambda>_. {#}) new = {#}" by (simp add: new_def)
  ultimately show ?thesis using ok nd ns(2)
    by (auto simp: hy_free_next_def with_node_def hy_good_def hy_ok_def delete_node_def new_def)
qed

section \<open>Local batches\<close>

lemma local_split:
  assumes "t < nt"
  shows "owners nt loc A = local_owner (loc t) + owners nt (loc(t := new_hy_batch)) A"
    and "owners nt (loc(t := b)) A = local_owner b + owners nt (loc(t := new_hy_batch)) A"
proof -
  have e: "local_owner new_hy_batch = {#}" by (simp add: local_owner_def new_hy_batch_def)
  have "(\<Sum>i<nt. local_owner ((loc(t := new_hy_batch)) i)) + local_owner (loc t) = (\<Sum>i<nt. local_owner (loc i))"
    using sum_lessThan_upd [OF assms, of local_owner loc new_hy_batch] by (simp add: e)
  moreover have "(\<Sum>i<nt. local_owner ((loc(t := b)) i)) = (\<Sum>i<nt. local_owner ((loc(t := new_hy_batch)) i)) + local_owner b"
    using sum_lessThan_upd [OF assms, of local_owner "loc(t := new_hy_batch)" b] by (simp add: e)
  ultimately show "owners nt loc A = local_owner (loc t) + owners nt (loc(t := new_hy_batch)) A"
    and "owners nt (loc(t := b)) A = local_owner b + owners nt (loc(t := new_hy_batch)) A"
    by (simp_all add: owners_def ac_simps)
qed

lemma local_owned:
  assumes inv: "hy_inv nt N rsrv loc g A" and t: "t < nt" "b_first (loc t) \<noteq> null_node"
  shows "\<exists>ns. g (b_refs (loc t)) = Some (ns, P_local) \<and> b_first (loc t) = hd ns \<and> b_counter (loc t) = of_nat (length ns) \<and>
    unowned nt (loc(t := new_hy_batch)) A (b_refs (loc t))"
proof -
  from hy_invD(7) [OF inv t(1)] t(2) obtain ns where ns: "g (b_refs (loc t)) = Some (ns, P_local)" "b_first (loc t) = hd ns"
    "b_counter (loc t) = of_nat (length ns)" by (auto simp: local_ok_def)
  with hy_invD(9) [OF inv, of "b_refs (loc t)"] local_split(1) [OF t(1), of loc A] t(2) show ?thesis
    by (auto simp: local_owner_def unowned_def)
qed

lemma sum_mset_none: "(\<And>c. c \<in># B \<Longrightarrow> f c = {#}) \<Longrightarrow> (\<Sum>c\<in>#B. f c) = {#}"
  by (induction B) auto

lemma unat_of_nat_le: "unat (of_nat k :: u64) \<le> k"
  by (simp add: unat_of_nat take_bit_nat_eq_self_iff)

text \<open>A batch leaves the hands of its thread.\<close>

lemma hand_over:
  assumes inv: "hy_inv nt N rsrv loc g (C + A)" and t: "t < nt" "b_first (loc t) \<noteq> null_node"
    and C: "\<And>c. c \<in># C \<Longrightarrow> call_owner c = {#} \<and> call_outs N c = {#}"
    and C': "(\<Sum>c\<in>#C'. call_owner c) = {#(b_refs (loc t), P_local)#}" "\<And>c. c \<in># C' \<Longrightarrow> call_outs N c = {#} \<and> call_ok nt N g c"
    and b: "b_first b = null_node" "b_counter b = 0"
  shows "hy_inv nt N rsrv (loc(t := b)) g (C' + A)"
proof (rule hy_inv_shift [OF inv])
  have "(\<Sum>c\<in>#C. call_outs N c) = {#}" "(\<Sum>c\<in>#C'. call_outs N c) = {#}" "(\<Sum>c\<in>#C. call_owner c) = {#}"
    by (simp_all add: sum_mset_none C C'(2))
  note sums = this
  show "outs nt N rsrv (C' + A) = outs nt N rsrv (C + A)" by (simp only: outs_union sums)
  have "local_owner b = {#}" "local_owner (loc t) = {#(b_refs (loc t), P_local)#}" using b t(2) by (simp_all add: local_owner_def)
  then have "(\<Sum>i<nt. local_owner ((loc(t := b)) i)) + {#(b_refs (loc t), P_local)#} = (\<Sum>i<nt. local_owner (loc i))"
    using sum_lessThan_upd [OF t(1), of local_owner loc b] by simp
  moreover have "owners nt loc' (B + A) = (\<Sum>i<nt. local_owner (loc' i)) + (\<Sum>c\<in>#B. call_owner c) + (\<Sum>c\<in>#A. call_owner c)" for loc' B
    by (simp add: owners_def)
  ultimately show "owners nt (loc(t := b)) (C' + A) = owners nt loc (C + A)" by (simp only: sums C'(1) add_0_right)
  show "local_ok g ((loc(t := b)) u)" if "u < nt" for u using hy_invD(7) [OF inv that] b by (simp add: local_ok_def)
  show "call_ok nt N g c" if "c \<in># C' + A" for c using that C'(2) hy_invD(8) [OF inv, of c] by auto
qed (use hy_invD(6) [OF inv] in auto)

lemma hy_retire_loop_good:
  assumes ok: "hy_ok g (add_mset H_retire_loop A) s" and t: "t < hy_threads s"
  shows "\<exists>new s'. hy_retire_loop t s = Inr (new, s') \<and> hy_good {#} {#H_retire_loop#} g A s new s'"
proof -
  let ?nt = "hy_threads s" and ?b = "hy_local s t"
  have inv: "hy_inv ?nt (hy_nodes s) (hy_rsrv s) (hy_local s) g ({#H_retire_loop#} + A)" and nt: "?nt < 2 ^ 62" using ok by (auto simp: hy_ok_def)
  show ?thesis
  proof (cases "\<not> hy_in_progress s t \<and> hy_batch_size * ?nt < unat (b_counter ?b)")
    case True
    then have "b_counter ?b \<noteq> 0" by auto
    with hy_invD(7) [OF inv t] have first: "b_first ?b \<noteq> null_node" by (simp add: local_ok_def split: if_splits)
    from local_owned [OF inv t this] obtain ns where ns: "g (b_refs ?b) = Some (ns, P_local)" "b_first ?b = hd ns" "b_counter ?b = of_nat (length ns)"
      by auto
    have "?nt < length ns" using True ns(3) unat_of_nat_le [of "length ns"] by (simp add: hy_batch_size_def)
    let ?C' = "{#H_add_batch (b_first ?b) (b_refs ?b), H_retire_next#}" and ?b' = "?b\<lparr>b_first := null_node, b_counter := 0\<rparr>"
    have "hy_inv ?nt (hy_nodes s) (hy_rsrv s) ((hy_local s)(t := ?b')) g (?C' + A)"
      by (rule hand_over [OF inv t first]) (use ns \<open>?nt < length ns\<close> in auto)
    moreover have "node_tokens (hy_nodes s) (?C' + A) = node_tokens (hy_nodes s) ({#H_retire_loop#} + A)" by (rule node_tokens_same) auto
    ultimately show ?thesis using True nt
      by (auto simp: hy_retire_loop_def hy_good_def hy_ok_def keeps_def held_at_def Let_def intro!: exI [of _ g])
  next
    case False
    have "hy_inv ?nt (hy_nodes s) (hy_rsrv s) (hy_local s) g A"
      by (rule hy_inv_shift [OF inv]) (use hy_invD(6,7,8) [OF inv] in auto)
    moreover have "node_tokens (hy_nodes s) (dcalls [] + A) = node_tokens (hy_nodes s) ({#H_retire_loop#} + A)" by (rule node_tokens_same) auto
    moreover have "hy_retire_loop t s = Inr ([], s)" using False by (auto simp: hy_retire_loop_def)
    ultimately show ?thesis using nt keeps_same by (auto simp: hy_good_def hy_ok_def)
  qed
qed

text \<open>Calls that only write a flag.\<close>

lemma flag_good:
  assumes ok: "hy_ok g (add_mset c A) s" and c: "call_owner c = {#}" "call_outs (hy_nodes s) c = {#}" "call_ejected c = {}"
    and new: "\<And>d. d \<in># dcalls new \<Longrightarrow> call_owner d = {#} \<and> call_outs (hy_nodes s) d = {#} \<and> call_ejected d = {} \<and> call_ok (hy_threads s) (hy_nodes s) g d"
      "calls_tokens (\<lambda>_. {#}) new = {#}"
    and s': "heap s' = heap s" "num_allocated s' = num_allocated s" "hy_threads s' = hy_threads s" "hy_nodes s' = hy_nodes s"
      "hy_rsrv s' = hy_rsrv s" "hy_local s' = hy_local s"
  shows "hy_good {#} {#c#} g A s new s'"
proof -
  have inv: "hy_inv (hy_threads s) (hy_nodes s) (hy_rsrv s) (hy_local s) g (add_mset c A)" using ok by (simp add: hy_ok_def)
  have sums: "(\<Sum>c\<in>#dcalls new. call_outs (hy_nodes s) c) = {#}" "(\<Sum>c\<in>#dcalls new. call_owner c) = {#}"
    by (simp_all add: sum_mset_none new)
  have "owners (hy_threads s) (hy_local s) (dcalls new + A) = (\<Sum>c\<in>#dcalls new. call_owner c) + owners (hy_threads s) (hy_local s) A"
    by (simp add: owners_def ac_simps)
  then have "hy_inv (hy_threads s) (hy_nodes s) (hy_rsrv s) (hy_local s) g (dcalls new + A)"
    by (intro hy_inv_shift [OF inv]) (use c new hy_invD(6,7,8) [OF inv] in \<open>auto simp: outs_union sums\<close>)
  moreover have "node_tokens (hy_nodes s) (dcalls new + A) = node_tokens (hy_nodes s) ({#c#} + A)"
    by (rule node_tokens_same) (use c new in \<open>auto simp: ejected_def\<close>)
  ultimately show ?thesis using ok new(2) s' keeps_same [of g s]
    by (auto simp: hy_good_def hy_ok_def keeps_def held_at_def)
qed

lemma hy_retire_next_good:
  "hy_ok g (add_mset H_retire_next A) s \<Longrightarrow> \<exists>new s'. hy_retire_next t s = Inr (new, s') \<and> hy_good {#} {#H_retire_next#} g A s new s'"
  by (auto simp: hy_retire_next_def intro!: flag_good)

lemma hy_leave_good:
  "hy_ok g (add_mset H_leave A) s \<Longrightarrow> \<exists>new s'. hy_leave t s = Inr (new, s') \<and> hy_good {#} {#H_leave#} g A s new s'"
  by (auto simp: hy_leave_def intro!: flag_good)

end
