(* ===== verification/Hyaline_Retire.thy ===== *)
theory Hyaline_Retire
  imports Hyaline_Calls
begin

text \<open>
  Retiring with Hyaline and its destructor, the last of the calls; then, for all calls together: no call fails and the references are accounted for,
  whatever the other threads are doing. A batch has one function that ejects, so this holds for programs that retire strong references only.
\<close>

section \<open>Retiring\<close>

definition good_alloc :: "node_alloc \<Rightarrow> bool" where
  "good_alloc alloc \<longleftrightarrow> (\<forall>N. fmlookup N (alloc N) = None \<and> alloc N \<noteq> null_node \<and> alloc N \<noteq> invptr)"

lemma batch_dom:
  assumes "hy_inv nt N rsrv loc g A" and "g r = Some b"
  shows "set (fst b) \<subseteq> fset (fmdom N)" and "r \<in> set (fst b)" and "fst b \<noteq> []"
proof -
  show "set (fst b) \<subseteq> fset (fmdom N)" using hy_invD(3) [OF assms(1)] assms(2) by blast
  show "r \<in> set (fst b)" by (rule batch_ok_refs [OF hy_invD(1) [OF assms]])
  then show "fst b \<noteq> []" by auto
qed

lemma ejected_dom:
  assumes "hy_inv nt N rsrv loc g A"
  shows "ejected A \<subseteq> fset (fmdom N)"
proof
  fix x assume "x \<in> ejected A"
  then obtain c where c: "c \<in># A" "x \<in> call_ejected c" by (auto simp: ejected_def)
  with hy_invD(8) [OF assms c(1)] obtain r ns ph where b: "g r = Some (ns, ph)" "x = hd ns" by (cases c) auto
  with batch_dom [OF assms b(1)] show "x \<in> fset (fmdom N)" by (cases ns) auto
qed

lemma outs_dom: "hy_inv nt N rsrv loc g A \<Longrightarrow> x \<in># outs nt N rsrv A \<Longrightarrow> x \<in> fset (fmdom N)"
  using outs_slot [OF hy_inv_heads] by (metis fmlookup_dom_iff)

text \<open>A new node, at the head of the batch of thread \<open>t\<close>.\<close>

lemma new_node:
  assumes inv: "hy_inv nt N rsrv loc g A" and t: "t < nt" and n: "fmlookup N n = None" "n \<noteq> null_node" "n \<noteq> invptr"
    and ns: "b_first (loc t) = null_node \<and> ns = [] \<and> r = n \<or>
      b_first (loc t) \<noteq> null_node \<and> g (b_refs (loc t)) = Some (ns, P_local) \<and> r = b_refs (loc t)"
    and nd: "ns = [] \<Longrightarrow> hn_refc nd = U_refc REFC_PROTECT \<and> hn_next nd = U_decrement RT_decrement_strong_count"
      "ns \<noteq> [] \<Longrightarrow> hn_refc nd = U_bnext (b_first (loc t)) \<and> hn_next nd = U_next null_node \<and> hn_blink nd = r"
    and b: "b_first b = n" "b_refs b = r" "b_counter b = b_counter (loc t) + 1"
  shows "hy_inv nt (fmupd n nd N) rsrv (loc(t := b)) (g(r := Some (n # ns, P_local))) (add_mset H_retire_loop A)"
proof -
  let ?N = "fmupd n nd N" and ?W = "owners nt (loc(t := new_hy_batch)) A"
  have nn: "n \<notin> fset (fmdom N)" using n(1) by (simp add: fmlookup_dom_iff)
  have gn: "g n = None" using batch_dom [OF inv, of n] nn by (metis option.exhaust subsetD)
  note loct = hy_invD(7) [OF inv t]
  have un: "unowned nt (loc(t := new_hy_batch)) A r" and own: "owners nt loc A = owner_due r (g r) + ?W"
    and g: "g r = (if ns = [] then None else Some (ns, P_local))" and ok: "ns \<noteq> [] \<Longrightarrow> batch_ok nt N (set_mset (outs nt N rsrv A)) r (ns, P_local)"
    and first: "ns \<noteq> [] \<Longrightarrow> b_first (loc t) = hd ns" and cnt: "b_counter (loc t) = of_nat (length ns)"
  proof -
    show "unowned nt (loc(t := new_hy_batch)) A r"
    proof (cases "b_first (loc t) = null_node")
      case True
      with ns have "filter_mset (\<lambda>e. fst e = r) (owners nt loc A) = {#}" using hy_invD(9) [OF inv, of r] gn by simp
      with local_split(1) [OF t, of loc A] show ?thesis by (simp add: unowned_def)
    next
      case False
      with local_owned [OF inv t] ns show ?thesis by auto
    qed
    show g: "g r = (if ns = [] then None else Some (ns, P_local))"
      using ns gn batch_dom(3) [OF inv, of r "(ns, P_local)"] by auto
    show "owners nt loc A = owner_due r (g r) + ?W"
      using local_split(1) [OF t, of loc A] ns gn g by (auto simp: local_owner_def)
    show "ns \<noteq> [] \<Longrightarrow> batch_ok nt N (set_mset (outs nt N rsrv A)) r (ns, P_local)" using hy_invD(1) [OF inv, of r] g by simp
    show "ns \<noteq> [] \<Longrightarrow> b_first (loc t) = hd ns" "b_counter (loc t) = of_nat (length ns)"
      using loct ns by (auto simp: local_ok_def split: if_splits)
  qed
  have nsN: "set ns \<subseteq> fset (fmdom N)" using batch_dom(1) [OF inv, of r "(ns, P_local)"] g by (cases "ns = []") auto
  have next_same: "map_option hn_next (fmlookup ?N x) = map_option hn_next (fmlookup N x)" if "x \<in># outs nt N rsrv A" for x
    using outs_dom [OF inv that] nn by auto
  note fr = outs_frame [OF hy_inv_heads [OF inv] next_same]
  have outs': "outs nt ?N rsrv ({#H_retire_loop#} + A) = outs nt N rsrv A" using fr by simp
  have nO: "n \<notin># outs nt N rsrv A" using outs_dom [OF inv] nn by blast
  have bok: "batch_ok nt ?N (set_mset (outs nt N rsrv A)) r (n # ns, P_local)"
  proof (cases "ns = []")
    case True
    then have "r = n" using ns batch_dom(3) [OF inv] by (metis fst_conv)
    with True nd(1) nO show ?thesis by (auto simp: batch_ok_def batch_nodes_def refs_node_def)
  next
    case False
    note bn = ok [OF False]
    then have "batch_nodes ?N r (n # ns)"
      by (intro batch_nodes_Cons [where q = null_node]) (use n nn nsN nd(2) [OF False] first [OF False] in \<open>auto simp: batch_ok_def\<close>)
    moreover have "n \<noteq> r" using batch_ok_refs [OF bn] nsN nn by auto
    ultimately show ?thesis using bn nO by (auto simp: batch_ok_def refs_node_def)
  qed
  have "hy_inv nt ?N rsrv (loc(t := b)) (g(r := Some (n # ns, P_local))) ({#H_retire_loop#} + A)"
  proof (rule hy_inv_update [where C = "{#}" and D = "insert n (set ns)" and W = ?W and N = N and rsrv = rsrv and loc = loc])
    show "hy_inv nt N rsrv loc g ({#} + A)" using inv by simp
    show "owners nt loc ({#} + A) = owner_due r (g r) + ?W" using own by simp
    show "owners nt (loc(t := b)) ({#H_retire_loop#} + A) = owner_due r (Some (n # ns, P_local)) + ?W"
      using local_split(2) [OF t, of loc b A] b n by (simp add: local_owner_def)
    fix r' b' x assume r': "g r' = Some b'" "r' \<noteq> r" "x \<in> set (fst b')"
    then have "x \<noteq> n" using batch_dom(1) [OF inv r'(1)] nn by auto
    moreover have "x \<notin> set ns" using hy_invD(2) [OF inv r'(1), of r "(ns, P_local)"] g r' by (cases "ns = []") auto
    ultimately show "x \<notin> insert n (set ns)" by simp
  next
    fix x assume x: "x \<in> insert n (set ns)"
    then show "x \<in> fset (fmdom ?N) \<longleftrightarrow> (\<exists>b. Some (n # ns, P_local) = Some b \<and> x \<in> set (fst b))" using nsN by auto
    show "x \<noteq> null_node \<and> x \<noteq> invptr" using x n nsN hy_invD(4) [OF inv, of x] by auto
  next
    fix u assume u: "u < nt"
    have "local_ok (g(r := Some (n # ns, P_local))) b" using b n cnt by (simp add: local_ok_def)
    moreover have "local_ok (g(r := Some (n # ns, P_local))) (loc u)" if "u \<noteq> t"
      using hy_invD(7) [OF inv u] un that u by (auto simp: local_ok_def unowned_iff split: if_splits)
    ultimately show "local_ok (g(r := Some (n # ns, P_local))) ((loc(t := b)) u)" by simp
    show "rsrv u = invptr \<or> (\<exists>xs. npath ?N (rsrv u) xs)" using fr u by (auto simp: heads_ok_def head_ok_def)
  qed (use g fr outs' bok hy_invD(5) [OF inv] un in \<open>auto simp: heads_ok_def unowned_iff split: if_splits\<close>)
  then show ?thesis by simp
qed

lemma hy_retire_good:
  assumes ok: "hy_ok g A s" and t: "t < hy_threads s" and alloc: "good_alloc alloc" and p: "p \<noteq> nullptr"
  shows "\<exists>new s'. hy_retire alloc t p RT_decrement_strong_count s = Inr (new, s') \<and> hy_good {#(T_strong, p)#} {#} g A s new s'"
proof -
  let ?nt = "hy_threads s" and ?N = "hy_nodes s" and ?b = "hy_local s t"
  define n where "n = alloc ?N"
  have n: "fmlookup ?N n = None" "n \<noteq> null_node" "n \<noteq> invptr" using alloc by (simp_all add: good_alloc_def n_def)
  have inv: "hy_inv ?nt ?N (hy_rsrv s) (hy_local s) g A" and nt: "?nt < 2 ^ 62" using ok by (auto simp: hy_ok_def)
  define nd where "nd = (if b_first ?b = null_node
      then (new_hy_node p)\<lparr>hn_refc := U_refc REFC_PROTECT, hn_next := U_decrement RT_decrement_strong_count\<rparr>
      else (new_hy_node p)\<lparr>hn_blink := b_refs ?b, hn_refc := U_bnext (b_first ?b)\<rparr>)"
  define b where "b = ?b\<lparr>b_refs := (if b_first ?b = null_node then n else b_refs ?b), b_first := n, b_counter := b_counter ?b + 1\<rparr>"
  let ?s = "(put_node n nd s)\<lparr>hy_local := (hy_local s)(t := b)\<rparr>"
  obtain ns r where ns: "b_first ?b = null_node \<and> ns = [] \<and> r = n \<or>
      b_first ?b \<noteq> null_node \<and> g (b_refs ?b) = Some (ns, P_local) \<and> r = b_refs ?b"
    using local_owned [OF inv t] by (cases "b_first ?b = null_node") blast+
  then have e: "ns = [] \<longleftrightarrow> b_first ?b = null_node" using batch_dom(3) [OF inv] by force
  let ?g = "g(r := Some (n # ns, P_local))"
  have "hy_inv ?nt (fmupd n nd ?N) (hy_rsrv s) ((hy_local s)(t := b)) ?g (add_mset H_retire_loop A)"
    by (rule new_node [OF inv t n ns]) (use ns e in \<open>auto simp: nd_def b_def new_hy_node_def\<close>)
  moreover have nO: "x \<noteq> n" if "x \<in> fset (fmdom ?N)" for x using that n(1) by (auto simp: fmlookup_dom_iff)
  have chs: "chain (fmupd n nd ?N) (hy_rsrv s u) = chain ?N (hy_rsrv s u)" if "u < ?nt" for u
  proof (rule chains_frame [OF hy_ok_heads [OF ok] that])
    fix x assume "x \<in># outs ?nt ?N (hy_rsrv s) A"
    with outs_dom [OF inv] nO show "map_option hn_next (fmlookup (fmupd n nd ?N) x) = map_option hn_next (fmlookup ?N x)" by force
  qed
  have gr: "g r = (if ns = [] then None else Some (ns, P_local))"
    using ns e batch_dom(1,2) [OF inv, of n] nO by (cases "g n") auto
  have "keeps g s ?g ?s"
    by (rule keepsI [where r = r]) (use gr n chs in \<open>auto simp: put_node_def held_at_def held_def split: if_splits\<close>)
  moreover have "node_tokens (fmupd n nd ?N) (add_mset H_retire_loop A) = add_mset (T_strong, p) (node_tokens ?N A)"
  proof -
    have eq: "fset (fmdom (fmupd n nd ?N)) - ejected (add_mset H_retire_loop A) = insert n (fset (fmdom ?N) - ejected A)"
      using ejected_dom [OF inv] nO by auto
    have same: "(\<Sum>x\<in>fset (fmdom ?N) - ejected A. {#(T_strong, hn_obj (the (fmlookup (fmupd n nd ?N) x)))#}) = node_tokens ?N A"
      unfolding node_tokens_def by (rule sum.cong) (use nO in auto)
    have "hn_obj nd = p" by (simp add: nd_def new_hy_node_def)
    then show ?thesis unfolding node_tokens_def [of "fmupd n nd ?N"] eq using nO same
      by (subst sum.insert) auto
  qed
  moreover have "hy_retire alloc t p RT_decrement_strong_count s = Inr ([C_derived H_retire_loop], ?s)"
    using p by (auto simp: hy_retire_def Let_def nd_def b_def n_def)
  ultimately show ?thesis using nt by (auto simp: hy_good_def hy_ok_def put_node_def)
qed

section \<open>The destructor\<close>

definition no_readers :: "('o, 'e) acquire_retire_hyaline_scheme \<Rightarrow> bool" where
  "no_readers s \<longleftrightarrow> (\<forall>t<hy_threads s. hy_rsrv s t = invptr)"

lemma hy_dtor_for_good:
  assumes "hy_ok g (add_mset (H_dtor_for i) A) s" and "no_readers s"
  shows "\<exists>new s'. hy_dtor_for t i s = Inr (new, s') \<and> hy_good {#} {#H_dtor_for i#} g A s new s'"
  using assms flag_good [OF assms(1), of "[C_derived (H_dtor_while i)]" s]
    flag_good [OF assms(1), of "[C_derived (H_dtor_for 0)]" s] flag_good [OF assms(1), of "[]" s]
  by (auto simp: hy_dtor_for_def no_readers_def)

lemma hy_dtor_while_good:
  assumes ok: "hy_ok g (add_mset (H_dtor_while i) A) s"
  shows "\<exists>new s'. hy_dtor_while i s = Inr (new, s') \<and> hy_good {#} {#H_dtor_while i#} g A s new s'"
proof (cases "b_first (hy_local s i) = null_node")
  case True
  then show ?thesis using flag_good [OF ok, of "[C_derived (H_dtor_for (Suc i))]" s] by (simp add: hy_dtor_while_def)
next
  case False
  let ?nt = "hy_threads s" and ?b = "hy_local s i"
  have inv: "hy_inv ?nt (hy_nodes s) (hy_rsrv s) (hy_local s) g ({#H_dtor_while i#} + A)" and i: "i < ?nt"
    using ok hy_ok_call [OF ok] by (auto simp: hy_ok_def)
  from local_owned [OF inv i False] obtain ns where ns: "g (b_refs ?b) = Some (ns, P_local)" "b_first ?b = hd ns" by auto
  let ?C' = "{#H_dtor_node (b_first ?b) (b_refs ?b), H_dtor_while i#}" and ?b' = "?b\<lparr>b_first := null_node, b_counter := 0\<rparr>"
  have "hy_inv ?nt (hy_nodes s) (hy_rsrv s) ((hy_local s)(i := ?b')) g (?C' + A)"
    by (rule hand_over [OF inv i False]) (use ns i in auto)
  moreover have "node_tokens (hy_nodes s) (?C' + A) = node_tokens (hy_nodes s) ({#H_dtor_while i#} + A)" by (rule node_tokens_same) auto
  ultimately show ?thesis using False ok
    by (auto simp: hy_dtor_while_def hy_good_def hy_ok_def keeps_def held_at_def Let_def intro!: exI [of _ g])
qed

lemma hy_dtor_node_good:
  assumes ok: "hy_ok g (add_mset (H_dtor_node n r) A) s"
  shows "\<exists>new s'. hy_dtor_node t n r s = Inr (new, s') \<and> hy_good {#} {#H_dtor_node n r#} g A s new s'"
proof -
  let ?c = "H_dtor_node n r"
  have inv: "hy_inv (hy_threads s) (hy_nodes s) (hy_rsrv s) (hy_local s) g (add_mset ?c A)" using ok by (simp add: hy_ok_def)
  from hy_ok_call [OF ok] obtain ns where ns: "g r = Some (ns, P_local)" "n = hd ns" by auto
  note b = hy_ok_batch [OF ok ns(1)]
  from b have ne: "ns \<noteq> []" by (auto simp: batch_nodes_def)
  then have n: "n \<in> set ns" by (simp add: ns(2))
  then have dom: "n \<in> fset (fmdom (hy_nodes s))" using batch_dom(1) [OF inv ns(1)] by auto
  then obtain nd where nd: "fmlookup (hy_nodes s) n = Some nd" by (auto simp: fmlookup_dom_iff)
  from b(2) obtain rn where rn: "fmlookup (hy_nodes s) r = Some rn" "hn_next rn = U_decrement RT_decrement_strong_count" by auto
  let ?c' = "H_dtor_next n (as_bnext (hn_refc nd)) r"
  have "as_bnext (hn_refc nd) = hd (tl ns)" if "tl ns \<noteq> []"
  proof -
    from that ne obtain y zs where "ns = n # y # zs" by (cases ns; cases "tl ns") (auto simp: ns(2))
    with batch_slot [OF b(1), of 0] nd show ?thesis by (auto simp: slot_node_def)
  qed
  then have "hy_inv (hy_threads s) (hy_nodes s) (hy_rsrv s) (hy_local s) g ({#?c'#} + A)"
    by (intro hy_inv_shift [OF inv]) (use hy_invD(6,7,8) [OF inv] ns in auto)
  moreover have "n \<notin> ejected A" by (rule not_ejected [OF inv _ ns(1) n]) simp
  then have "node_tokens (hy_nodes s) ({#?c#} + A) = add_mset (T_strong, hn_obj nd) (node_tokens (hy_nodes s) ({#?c'#} + A))"
    using node_tokens_eject [of n "hy_nodes s" "{#?c#} + A" "{#?c'#} + A"] dom nd by simp
  moreover have "n \<noteq> null_node" using hy_invD(4) [OF inv dom] by simp
  ultimately show ?thesis using ok nd rn
    by (auto simp: hy_dtor_node_def with_node_def hy_good_def hy_ok_def keeps_def held_at_def intro!: exI [of _ g])
qed

lemma hy_dtor_next_good:
  assumes ok: "hy_ok g (add_mset (H_dtor_next n m r) A) s" and nr: "no_readers s"
  shows "\<exists>new s'. hy_dtor_next t n m r s = Inr (new, s') \<and> hy_good {#} {#H_dtor_next n m r#} g A s new s'"
proof -
  let ?c = "H_dtor_next n m r"
  have inv: "hy_inv (hy_threads s) (hy_nodes s) (hy_rsrv s) (hy_local s) g (add_mset ?c A)" using ok by (simp add: hy_ok_def)
  from hy_ok_call [OF ok] obtain ns where ns: "g r = Some (ns, P_local)" "n = hd ns" "tl ns \<noteq> [] \<longrightarrow> m = hd (tl ns)" by auto
  have b: "ns \<noteq> []" "distinct ns" "last ns = r" using hy_ok_batch(1) [OF ok ns(1)] by (auto simp: batch_nodes_def)
  then have n: "n \<in> set ns" by (simp add: ns(2))
  then obtain nd where nd: "fmlookup (hy_nodes s) n = Some nd" using batch_dom(1) [OF inv ns(1)] by (auto simp: fmlookup_dom_iff)
  have e: "n = r \<longleftrightarrow> tl ns = []" using b ns(2) by (cases ns) (auto split: if_splits dest: last_in_set)
  define b where "b = (if tl ns = [] then None else Some (tl ns, P_local))"
  define new :: "hy_call mm_call list" where "new = (if n = r then [] else [C_derived (H_dtor_node m r)])"
  have "hy_inv (hy_threads s) (fmdrop (hd ns) (hy_nodes s)) (hy_rsrv s) (hy_local s) (g(r := b)) (dcalls new + A)"
    unfolding b_def by (rule remove_node [where c = ?c]) (use inv ns e in \<open>auto simp: new_def split: if_splits\<close>)
  moreover have "keeps g s (g(r := b)) ((delete_node n s)\<lparr>hy_in_progress := p\<rparr>)" for p
    using nr by (auto simp: keeps_def no_readers_def delete_node_def split: if_splits)
  moreover have "n \<notin> ejected A" by (rule not_ejected [OF inv _ ns(1) n]) simp
  then have "node_tokens (fmdrop n (hy_nodes s)) (dcalls new + A) = node_tokens (hy_nodes s) ({#?c#} + A)"
    by (intro node_tokens_delete) (auto simp: new_def)
  moreover have "calls_tokens (\<lambda>_. {#}) new = {#}" by (simp add: new_def)
  ultimately show ?thesis using ok nd ns(2)
    by (auto simp: hy_dtor_next_def with_node_def hy_good_def hy_ok_def delete_node_def new_def)
qed

fun dtor_call :: "hy_call \<Rightarrow> bool" where
  "dtor_call (H_dtor_for i) \<longleftrightarrow> True"
| "dtor_call (H_dtor_while i) \<longleftrightarrow> True"
| "dtor_call (H_dtor_node n r) \<longleftrightarrow> True"
| "dtor_call (H_dtor_next n m r) \<longleftrightarrow> True"
| "dtor_call _ \<longleftrightarrow> False"

lemmas hy_good_rules = hy_add_batch_good hy_add_load_good hy_add_cas_good hy_traverse_good hy_free_batch_good hy_free_good
  hy_free_next_good hy_retire_next_good hy_leave_good hy_dtor_while_good hy_dtor_node_good

text \<open>Every call of the scheme, whatever the other threads are doing.\<close>

lemma hy_derived_good:
  assumes "hy_ok g (add_mset d A) s" and "t < hy_threads s" and "dtor_call d \<Longrightarrow> no_readers s"
  shows "\<exists>new s'. hy_derived t d s = Inr (new, s') \<and> hy_good {#} {#d#} g A s new s'"
  using assms by (cases d) (simp_all add: hy_good_rules hy_retire_loop_good hy_dtor_for_good hy_dtor_next_good)

section \<open>Strong references only\<close>

definition strong_only :: "tokens \<Rightarrow> bool" where
  "strong_only T \<longleftrightarrow> fst ` set_mset T \<subseteq> {T_strong, T_release_end, T_destroy}"

lemma strong_only_simps [simp]:
  "strong_only {#}" "strong_only (add_mset (k, p) T) \<longleftrightarrow> k \<in> {T_strong, T_release_end, T_destroy} \<and> strong_only T"
  "strong_only (A + B) \<longleftrightarrow> strong_only A \<and> strong_only B"
  by (auto simp: strong_only_def)

lemma mm_step_strong:
  assumes ok: "mm_ok (call_tokens w c + R) s" and strong: "strong_only (call_tokens w c + R + heap_tokens s)"
    and c: "\<And>p type. c \<noteq> C_retire p type" "\<And>d. c \<noteq> C_derived d" and step: "mm_step retire derived t c s = Inr (new, s')"
  shows "strong_only (calls_tokens w new + heap_tokens s')"
proof (cases c)
  case (C_eject p type)
  with strong have "type = RT_decrement_strong_count" by (cases type) auto
  with C_eject step strong show ?thesis by (auto simp: mm_eject_def split: if_splits)
next
  case (C_decrement_ref_cnt p)
  with ok have "mm_ok (add_mset (T_strong, p) R) s" by simp
  then obtain ob k where ob: "fmlookup (heap s) p = Some ob" and k: "k = token_count (R + heap_tokens s) p"
      "object_ok ob (k(T_strong := Suc (k T_strong)))" by (rule mm_ok_object)
  have "k T_weak = 0" using strong k(1) by (force simp: strong_only_def token_count_def count_eq_zero_iff image_subset_iff)
  with k(2) have rep: "strong_rep ob (Suc (k T_strong))" "weak_rep ob 1" by (auto simp: object_ok_def weak_total_def split: if_splits)
  obtain x where x: "release_refs 1 ob = (if k T_strong = 0 then EA_destroy else EA_nothing, ob\<lparr>ref_cnt := x\<rparr>)"
    using release_refs_rep [OF rep(1) _ rep(2)] by (auto cong: if_cong)
  have same: "heap_tokens (put_object p (ob\<lparr>ref_cnt := x\<rparr>) s) = heap_tokens s" by (rule heap_tokens_put_same [OF ob]) simp
  have disp: "heap_tokens (put_object p ob' s) + members_tokens ms = heap_tokens s"
    if "dispose_begin (ob\<lparr>ref_cnt := x\<rparr>) = Some (ms, ob')" for ms ob'
    using heap_tokens_put [OF ob, of ob'] that by (auto simp: dispose_begin_def object_tokens_def split: option.splits)
  have "strong_only (heap_tokens (put_object p ob' s) + members_tokens ms)"
    if "dispose_begin (ob\<lparr>ref_cnt := x\<rparr>) = Some (ms, ob')" for ms ob'
    using strong unfolding disp [OF that] by simp
  with C_decrement_ref_cnt step ob x same strong show ?thesis
    by (auto simp: decrement_ref_cnt_def with_object_def get_use_count_rep [OF rep(1)] members_dtor_tokens split: if_splits option.splits)
next
  case (C_delayed_decrement_ref_cnt p)
  with step strong show ?thesis
    by (auto simp: delayed_decrement_ref_cnt_def with_object_Inr case_prod_beta Let_def heap_tokens_put_same split: if_splits)
next
  case (C_release_end p)
  with step strong show ?thesis
    by (auto simp: release_end_def with_object_Inr dispose_end_def heap_tokens_put_same)
next
  case (C_destroy p)
  with step obtain ob where ob: "fmlookup (heap s) p = Some ob" "s' = delete_object t p s" "new = []"
    by (auto simp: mm_destroy_def with_object_Inr case_prod_beta Let_def split: if_splits)
  have "heap_tokens s' + object_tokens ob = heap_tokens s"
    using fmsum_drop [OF ob(1), of object_tokens] ob(2) by (simp add: heap_tokens_def delete_object_def decrement_allocations_def)
  then have "strong_only (heap_tokens s' + object_tokens ob)" using strong by simp
  with ob(3) show ?thesis by simp
qed (use strong c in \<open>auto simp: strong_only_def\<close>)

section \<open>All calls\<close>

definition hy_conf :: "ghost \<Rightarrow> tokens \<Rightarrow> hy_call multiset \<Rightarrow> (('v, 'x) counted_object_scheme, 'e) acquire_retire_hyaline_scheme \<Rightarrow> bool" where
  "hy_conf g T A s \<longleftrightarrow> hy_ok g A s \<and> mm_ok (T + node_tokens (hy_nodes s) A) s \<and> strong_only (T + heap_tokens s)"

abbreviation hy_tokens :: "hy_call mm_call list \<Rightarrow> tokens" where
  "hy_tokens cs \<equiv> calls_tokens (\<lambda>_. {#}) cs"

lemma node_tokens_strong: "strong_only (node_tokens N A)"
proof -
  have "strong_only (\<Sum>x\<in>X. {#(T_strong, f x)#})" if "finite X" for X :: "nptr set" and f
    using that by (induction X) auto
  then show ?thesis by (simp add: node_tokens_def)
qed

lemma hy_more_fields:
  "mm.more s' = mm.more s \<Longrightarrow>
   hy_threads s' = hy_threads s \<and> hy_nodes s' = hy_nodes s \<and> hy_critical s' = hy_critical s \<and> hy_rsrv s' = hy_rsrv s \<and>
   hy_local s' = hy_local s \<and> hy_in_progress s' = hy_in_progress s"
  for s s' :: "('o, 'e) acquire_retire_hyaline_scheme"
  by (cases s; cases s') simp

lemma hy_good_conf:
  assumes "hy_conf g (T + T0) (C + A) s" and "hy_good T C g A s new s'" and "strong_only (hy_tokens new)"
  shows "\<exists>g'. hy_conf g' (hy_tokens new + T0) (dcalls new + A) s' \<and> keeps g s g' s'"
proof -
  from assms(2) have heap: "heap s' = heap s" and tok: "hy_tokens new + node_tokens (hy_nodes s') (dcalls new + A) = T + node_tokens (hy_nodes s) (C + A)"
    by (auto simp: hy_good_def)
  have "heap_tokens s' = heap_tokens s" using heap by (simp add: heap_tokens_def)
  moreover have "mm_ok (hy_tokens new + T0 + node_tokens (hy_nodes s') (dcalls new + A)) s'"
  proof -
    have "hy_tokens new + T0 + node_tokens (hy_nodes s') (dcalls new + A) = (hy_tokens new + node_tokens (hy_nodes s') (dcalls new + A)) + T0"
      by (simp add: ac_simps)
    also have "\<dots> = T + T0 + node_tokens (hy_nodes s) (C + A)" unfolding tok by (simp add: ac_simps)
    finally have eq: "hy_tokens new + T0 + node_tokens (hy_nodes s') (dcalls new + A) = T + T0 + node_tokens (hy_nodes s) (C + A)" .
    show ?thesis unfolding eq using assms(1) mm_ok_cong [OF heap] by (simp add: hy_conf_def)
  qed
  ultimately show ?thesis using assms by (auto simp: hy_good_def hy_conf_def)
qed

text \<open>The calls that the scheme makes eject strong references.\<close>

lemma hy_good_strong:
  assumes "hy_good T C g A s new s'" and "strong_only T"
  shows "strong_only (hy_tokens new)"
proof -
  have "strong_only (hy_tokens new + node_tokens (hy_nodes s') (dcalls new + A))"
    using assms node_tokens_strong [of "hy_nodes s" "C + A"] by (simp add: hy_good_def)
  then show ?thesis by simp
qed

lemma dcalls_base:
  assumes "\<And>d. C_derived d \<notin> set cs"
  shows "dcalls cs = {#}"
  using assms in_dcalls [of _ cs] by (metis multiset_nonemptyE)

lemma hy_step_conf:
  assumes conf: "hy_conf g (call_tokens (\<lambda>_. {#}) c + T) (dcalls [c] + A) s" and t: "t < hy_threads s" and alloc: "good_alloc alloc"
    and dtor: "\<And>d. c = C_derived d \<Longrightarrow> dtor_call d \<Longrightarrow> no_readers s"
  shows "\<exists>new s' g'. hy_step alloc t c s = Inr (new, s') \<and> hy_conf g' (hy_tokens new + T) (dcalls new + A) s' \<and> keeps g s g' s' \<and>
    hy_threads s' = hy_threads s \<and> ((\<exists>p type. c = C_retire p type) \<or> (\<exists>d. c = C_derived d) \<longrightarrow> heap s' = heap s)"
proof -
  have ok: "hy_ok g (dcalls [c] + A) s" and mm: "mm_ok (call_tokens (\<lambda>_. {#}) c + T + node_tokens (hy_nodes s) (dcalls [c] + A)) s"
    and strong: "strong_only (call_tokens (\<lambda>_. {#}) c + T + heap_tokens s)" using conf by (simp_all add: hy_conf_def)
  consider (retire) p type where "c = C_retire p type" | (derived) d where "c = C_derived d"
    | (base) "\<And>p type. c \<noteq> C_retire p type" "\<And>d. c \<noteq> C_derived d"
    by blast
  then show ?thesis
  proof cases
    case retire
    with strong have type: "type = RT_decrement_strong_count" by (cases type) auto
    have "mm_ok (add_mset (T_strong, p) (T + node_tokens (hy_nodes s) A)) s" using mm retire type by simp
    then have p: "p \<noteq> nullptr" by (auto elim: mm_ok_object)
    have "hy_ok g A s" using ok retire by simp
    from hy_retire_good [OF this t alloc p] obtain new s' where
      s': "hy_retire alloc t p RT_decrement_strong_count s = Inr (new, s')" "hy_good {#(T_strong, p)#} {#} g A s new s'" by blast
    have "hy_conf g ({#(T_strong, p)#} + T) ({#} + A) s" using conf retire type by simp
    from hy_good_conf [OF this s'(2) hy_good_strong [OF s'(2)]] s' retire type show ?thesis
      by (auto simp: hy_step_def hy_good_def)
  next
    case derived
    then have "hy_ok g (add_mset d A) s" using ok by simp
    from hy_derived_good [OF this t dtor [OF derived]] obtain new s' where
      s': "hy_derived t d s = Inr (new, s')" "hy_good {#} {#d#} g A s new s'" by blast
    have "hy_conf g ({#} + T) ({#d#} + A) s" using conf derived by simp
    from hy_good_conf [OF this s'(2) hy_good_strong [OF s'(2)]] s' derived show ?thesis
      by (auto simp: hy_step_def hy_good_def)
  next
    case base
    have d: "dcalls [c] = {#}" using base by (cases c) auto
    let ?R = "T + node_tokens (hy_nodes s) A"
    have "mm_ok (call_tokens (\<lambda>_. {#}) c + ?R) s" using mm d by (simp add: ac_simps)
    note mm1 = this
    from mm_step_ok [OF this base, of "hy_retire alloc" hy_derived t] obtain new s' where
      s': "mm_step (hy_retire alloc) hy_derived t c s = Inr (new, s')" "mm_ok (hy_tokens new + ?R) s'" "mm.more s' = mm.more s" by blast
    note f = hy_more_fields [OF s'(3)]
    have "strong_only (hy_tokens new + heap_tokens s')"
      by (rule mm_step_strong [OF mm1 _ base s'(1)]) (use strong node_tokens_strong in auto)
    moreover have "dcalls new = {#}" by (rule dcalls_base) (rule mm_step_base [OF s'(1) base])
    ultimately have "hy_conf g (hy_tokens new + T) (dcalls new + A) s'"
      using s'(2) ok strong f d by (simp add: hy_conf_def hy_ok_def ac_simps)
    moreover have "keeps g s g s'" using f by (auto simp: keeps_def held_at_def)
    ultimately show ?thesis using s'(1) f base by (auto simp: hy_step_def)
  qed
qed

end
