(* ===== verification/Hyaline_Threads.thy ===== *)
theory Hyaline_Threads
  imports Hyaline_Retire Places
begin

text \<open>
  Threads that use Hyaline at the same time. A thread inside a critical section reads atomic pointers, takes references, stores into
  locations and drops what it owns; the calls of the memory manager that this sets off are interleaved with those of the other threads, call by call and
  loop iteration by loop iteration. In every interleaving no call fails and what a thread has read since it
  entered its section is alive.
\<close>

section \<open>The machine\<close>

text \<open>
  \<open>w_calls\<close> are the calls that a thread has still to run, \<open>w_reads\<close> (for the statement only) the pointers that it has
  read in its section. Variables and locations are shared; a place is one of them or a member of a managed object.
\<close>

record 'v hy_world =
  w_prog :: "'v counted_object acquire_retire_hyaline prog"
  w_calls :: "tid \<Rightarrow> hy_call mm_call list"
  w_reads :: "tid \<Rightarrow> ptr set"

abbreviation w_mm :: "'v hy_world \<Rightarrow> 'v counted_object acquire_retire_hyaline" where
  "w_mm w \<equiv> snd (w_prog w)"

inductive hy_world_step :: "node_alloc \<Rightarrow> 'v hy_world \<Rightarrow> 'v hy_world \<Rightarrow> bool" for alloc where
  call: "t < hy_threads (w_mm w) \<Longrightarrow> w_calls w t = c # cs \<Longrightarrow> hy_step alloc t c (w_mm w) = Inr (new, s') \<Longrightarrow>
    hy_world_step alloc w (w\<lparr>w_prog := (fst (w_prog w), s'), w_calls := (w_calls w)(t := new @ cs)\<rparr>)"
| enter: "t < hy_threads (w_mm w) \<Longrightarrow> w_calls w t = [] \<Longrightarrow> hy_begin_critical_section t (w_mm w) = (True, s') \<Longrightarrow>
    hy_world_step alloc w (w\<lparr>w_prog := (fst (w_prog w), s')\<rparr>)"
| leave: "t < hy_threads (w_mm w) \<Longrightarrow> w_calls w t = [] \<Longrightarrow> hy_end_critical_section t (w_mm w) = Inr (new, s') \<Longrightarrow>
    hy_world_step alloc w (w\<lparr>w_prog := (fst (w_prog w), s'), w_calls := (w_calls w)(t := new), w_reads := (w_reads w)(t := {})\<rparr>)"
| read: "t < hy_threads (w_mm w) \<Longrightarrow> w_calls w t = [] \<Longrightarrow> hy_in_critical_section t (w_mm w) \<Longrightarrow>
    place_get pl (w_prog w) = Inr (M_arc p) \<Longrightarrow> hy_acquire p \<noteq> nullptr \<Longrightarrow>
    hy_world_step alloc w (w\<lparr>w_reads := (w_reads w)(t := insert (hy_acquire p) (w_reads w t))\<rparr>)"
| share: "t < hy_threads (w_mm w) \<Longrightarrow> w_calls w t = [] \<Longrightarrow> p \<in> w_reads w t \<or> place_get (Var y) (w_prog w) = Inr (M_rc p) \<Longrightarrow>
    place_get (Var x) (w_prog w) = Inr (M_rc nullptr) \<Longrightarrow> strong_room p (w_mm w) \<Longrightarrow> increment_ref_cnt p (w_mm w) = Inr (True, s') \<Longrightarrow>
    place_put (Var x) (M_rc p) (fst (w_prog w), s') = Inr st \<Longrightarrow> hy_world_step alloc w (w\<lparr>w_prog := st\<rparr>)"
| store: "t < hy_threads (w_mm w) \<Longrightarrow> w_calls w t = [] \<Longrightarrow> place_get pl (w_prog w) = Inr (M_arc old) \<Longrightarrow>
    place_get (Var x) (w_prog w) = Inr (M_rc p) \<Longrightarrow> place_put (Var x) (M_rc nullptr) (w_prog w) = Inr st1 \<Longrightarrow>
    place_put pl (M_arc p) st1 = Inr st \<Longrightarrow>
    hy_world_step alloc w (w\<lparr>w_prog := st, w_calls := (w_calls w)(t := member_dtor (M_arc old))\<rparr>)"
| drop: "t < hy_threads (w_mm w) \<Longrightarrow> w_calls w t = [] \<Longrightarrow> place_get (Var x) (w_prog w) = Inr (M_rc p) \<Longrightarrow>
    place_put (Var x) (M_rc nullptr) (w_prog w) = Inr st \<Longrightarrow>
    hy_world_step alloc w (w\<lparr>w_prog := st, w_calls := (w_calls w)(t := member_dtor (M_rc p))\<rparr>)"
| create: "t < hy_threads (w_mm w) \<Longrightarrow> w_calls w t = [] \<Longrightarrow> p \<noteq> nullptr \<Longrightarrow> fmlookup (heap (w_mm w)) p = None \<Longrightarrow>
    place_get (Var x) (w_prog w) = Inr (M_rc nullptr) \<Longrightarrow> \<forall>m\<in>set (members v). member_ptr m = nullptr \<Longrightarrow>
    place_put (Var x) (M_rc p) (fst (w_prog w), hy_create_object t p v (w_mm w)) = Inr st \<Longrightarrow>
    hy_world_step alloc w (w\<lparr>w_prog := st\<rparr>)"

definition hy_world_init :: "nat \<Rightarrow> member list \<Rightarrow> 'v hy_world" where
  "hy_world_init nt vs = \<lparr>w_prog = (vs, acquire_retire_hyaline_init nt), w_calls = (\<lambda>_. []), w_reads = (\<lambda>_. {})\<rparr>"

inductive hy_world_reach :: "node_alloc \<Rightarrow> nat \<Rightarrow> 'v hy_world \<Rightarrow> bool" for alloc nt where
  start: "\<forall>m\<in>set vs. member_ptr m = nullptr \<Longrightarrow> hy_world_reach alloc nt (hy_world_init nt vs)"
| step: "hy_world_reach alloc nt w \<Longrightarrow> hy_world_step alloc w w' \<Longrightarrow> hy_world_reach alloc nt w'"

section \<open>The invariant\<close>

definition w_tokens :: "'v hy_world \<Rightarrow> tokens" where
  "w_tokens w = members_tokens (fst (w_prog w)) + (\<Sum>t<hy_threads (w_mm w). hy_tokens (w_calls w t))"

definition w_derived :: "'v hy_world \<Rightarrow> hy_call multiset" where
  "w_derived w = (\<Sum>t<hy_threads (w_mm w). dcalls (w_calls w t))"

text \<open>A pointer that thread \<open>t\<close> has read is in an atomic location, or on its way into a batch, or in a batch held back for \<open>t\<close>.\<close>

definition node_held :: "tid \<Rightarrow> ghost \<Rightarrow> ptr \<Rightarrow> ('o, 'e) acquire_retire_hyaline_scheme \<Rightarrow> bool" where
  "node_held t g p s \<longleftrightarrow> (\<exists>r ns x nd. held_at t r g s ns \<and> x \<in> set ns \<and> fmlookup (hy_nodes s) x = Some nd \<and> hn_obj nd = p)"

definition w_guarded :: "ghost \<Rightarrow> tid \<Rightarrow> ptr \<Rightarrow> 'v hy_world \<Rightarrow> bool" where
  "w_guarded g t p w \<longleftrightarrow> M_arc p \<in> set (fst (w_prog w)) \<or> heap_holds p (w_mm w) \<or>
     (\<exists>u<hy_threads (w_mm w). \<exists>c\<in>set (w_calls w u). call_guards (\<lambda>_. False) p c) \<or> node_held t g p (w_mm w)"

definition section_ok :: "tid \<Rightarrow> 'v hy_world \<Rightarrow> bool" where
  "section_ok t w \<longleftrightarrow>
     (if C_derived H_leave \<in> set (w_calls w t)
      then hy_critical (w_mm w) t \<and> hy_rsrv (w_mm w) t = invptr \<and> (\<exists>cs. w_calls w t = cs @ [C_derived H_leave] \<and> C_derived H_leave \<notin> set cs)
      else hy_critical (w_mm w) t \<longleftrightarrow> hy_rsrv (w_mm w) t \<noteq> invptr) \<and>
     (w_reads w t \<noteq> {} \<longrightarrow> hy_rsrv (w_mm w) t \<noteq> invptr) \<and>
     (\<forall>d. C_derived d \<in> set (w_calls w t) \<longrightarrow> \<not> dtor_call d)"

definition world_inv :: "ghost \<Rightarrow> 'v hy_world \<Rightarrow> bool" where
  "world_inv g w \<longleftrightarrow> hy_conf g (w_tokens w) (w_derived w) (w_mm w) \<and>
     (\<forall>t<hy_threads (w_mm w). section_ok t w \<and> (\<forall>p\<in>w_reads w t. p \<noteq> nullptr \<and> w_guarded g t p w))"

lemma w_tokens_split:
  assumes "t < hy_threads (w_mm w)"
  shows "w_tokens w = hy_tokens (w_calls w t) + (w_tokens (w\<lparr>w_calls := (w_calls w)(t := [])\<rparr>))"
    and "w_tokens (w\<lparr>w_calls := (w_calls w)(t := cs)\<rparr>) = hy_tokens cs + w_tokens (w\<lparr>w_calls := (w_calls w)(t := [])\<rparr>)"
    and "w_derived w = dcalls (w_calls w t) + (w_derived (w\<lparr>w_calls := (w_calls w)(t := [])\<rparr>))"
    and "w_derived (w\<lparr>w_calls := (w_calls w)(t := cs)\<rparr>) = dcalls cs + w_derived (w\<lparr>w_calls := (w_calls w)(t := [])\<rparr>)"
  using sum_lessThan_upd [OF assms, of hy_tokens "w_calls w" "[]"] sum_lessThan_upd [OF assms, of hy_tokens "(w_calls w)(t := [])" cs]
    sum_lessThan_upd [OF assms, of dcalls "w_calls w" "[]"] sum_lessThan_upd [OF assms, of dcalls "(w_calls w)(t := [])" cs]
  by (simp_all add: w_tokens_def w_derived_def ac_simps)

section \<open>Calls\<close>

lemmas hy_call_defs = hy_retire_loop_def hy_retire_next_def hy_add_batch_def hy_add_load_def hy_add_round_def hy_add_cas_def hy_traverse_def
  hy_free_batch_def hy_free_def hy_free_next_def hy_leave_def

lemma with_node_Inr: "with_node n s f = Inr r \<longleftrightarrow> (\<exists>nd. fmlookup (hy_nodes s) n = Some nd \<and> f nd = Inr r)"
  by (auto simp: with_node_def split: option.splits)

lemma hy_derived_frame:
  assumes "hy_derived t d s = Inr (new, s')" and "\<not> dtor_call d"
  shows "C_derived H_leave \<notin> set new \<and> (\<forall>d. C_derived d \<in> set new \<longrightarrow> \<not> dtor_call d) \<and>
    hy_critical s' = (if d = H_leave then (hy_critical s)(t := False) else hy_critical s)"
  using assms by (cases d)
    (auto simp: hy_call_defs with_node_Inr put_node_def delete_node_def atomic_defs Let_def split: if_splits)

lemma hy_step_frame:
  assumes "hy_step alloc t c s = Inr (new, s')" and "\<And>d. c = C_derived d \<Longrightarrow> \<not> dtor_call d"
  shows "C_derived H_leave \<notin> set new \<and> (\<forall>d. C_derived d \<in> set new \<longrightarrow> \<not> dtor_call d) \<and>
    hy_critical s' = (if c = C_derived H_leave then (hy_critical s)(t := False) else hy_critical s)"
proof -
  consider (retire) p type where "c = C_retire p type" | (derived) d where "c = C_derived d"
    | (base) "\<And>p type. c \<noteq> C_retire p type" "\<And>d. c \<noteq> C_derived d"
    by blast
  then show ?thesis
  proof cases
    case retire
    with assms(1) show ?thesis by (auto simp: hy_step_def hy_retire_def put_node_def Let_def split: if_splits)
  next
    case derived
    with assms hy_derived_frame [of t d s new s'] show ?thesis by (auto simp: hy_step_def)
  next
    case base
    note step = assms(1) [unfolded hy_step_def]
    have "hy_critical s' = hy_critical s" using hy_more_fields [OF mm_step_more [OF step base]] by simp
    with mm_step_base [OF step base] base show ?thesis by auto
  qed
qed

lemma retired_held:
  assumes "hy_retire alloc t p type s = Inr (new, s')" and "hy_ok g' A s'" and "p \<noteq> nullptr" and t: "t < hy_threads s'" and "good_alloc alloc"
  shows "node_held u g' p s'"
proof -
  let ?n = "alloc (hy_nodes s)"
  have n: "?n \<noteq> null_node" using assms(5) by (simp add: good_alloc_def)
  from assms(1,3) have first: "b_first (hy_local s' t) = ?n" and nd: "\<exists>nd. fmlookup (hy_nodes s') ?n = Some nd \<and> hn_obj nd = p"
    by (auto simp: hy_retire_def put_node_def new_hy_node_def Let_def split: if_splits)
  have "hy_inv (hy_threads s') (hy_nodes s') (hy_rsrv s') (hy_local s') g' A" using assms(2) by (simp add: hy_ok_def)
  note inv = this
  from local_owned [OF inv t] first n obtain ns where ns: "g' (b_refs (hy_local s' t)) = Some (ns, P_local)" "?n = hd ns" by auto
  moreover have "?n \<in> set ns" using batch_dom(3) [OF inv ns(1)] ns(2) by simp
  ultimately show ?thesis using nd by (auto simp: node_held_def held_at_def held_def)
qed

lemma keeps_held:
  assumes "keeps g s g' s'" and "node_held t g p s" and "t < hy_threads s" "hy_rsrv s t \<noteq> invptr" and "hy_ok g' A s'"
  shows "node_held t g' p s'"
proof -
  from assms(2) obtain r ns x nd where x: "held_at t r g s ns" "x \<in> set ns" "fmlookup (hy_nodes s) x = Some nd" "hn_obj nd = p"
    by (auto simp: node_held_def)
  with assms(1,3,4) obtain ns' where ns': "held_at t r g' s' ns'" "set ns \<subseteq> set ns'" unfolding keeps_def by blast
  have inv: "hy_inv (hy_threads s') (hy_nodes s') (hy_rsrv s') (hy_local s') g' A" using assms(5) by (simp add: hy_ok_def)
  from ns'(1) obtain ph where "g' r = Some (ns', ph)" by (auto simp: held_at_def)
  from batch_dom(1) [OF inv this] ns'(2) x(2) obtain nd' where "fmlookup (hy_nodes s') x = Some nd'"
    by (metis fmlookup_dom_iff fst_conv subsetD)
  with assms(1) x(3,4) have "hn_obj nd' = p" unfolding keeps_def by blast
  with ns' x(2) \<open>fmlookup (hy_nodes s') x = Some nd'\<close> show ?thesis by (auto simp: node_held_def)
qed

lemma destroy_storage:
  assumes "mm_ok (add_mset (T_destroy, q) R) s" and "fmlookup (heap s) q = Some ob"
  shows "storage ob = None"
  using assms by (auto elim!: mm_ok_object simp: object_ok_def split: if_splits)

text \<open>A step of a call keeps what is guarded.\<close>

lemma hy_step_guards:
  assumes step: "hy_step alloc t c s = Inr (new, s')" and mm: "mm_ok (call_tokens (\<lambda>_. {#}) c + R) s" and p: "p \<noteq> nullptr"
    and heap: "(\<exists>q type. c = C_retire q type) \<or> (\<exists>d. c = C_derived d) \<longrightarrow> heap s' = heap s"
    and alloc: "good_alloc alloc" and ok: "hy_ok g' A s'" "t < hy_threads s'"
  shows "heap_holds p s \<Longrightarrow> heap_holds p s' \<or> (\<exists>c\<in>set new. call_guards (\<lambda>_. False) p c)"
    and "call_guards (\<lambda>_. False) p c \<Longrightarrow> (\<exists>c\<in>set new. call_guards (\<lambda>_. False) p c) \<or> node_held u g' p s'"
proof -
  consider (scheme) "(\<exists>q type. c = C_retire q type) \<or> (\<exists>d. c = C_derived d)"
    | (base) "\<And>p type. c \<noteq> C_retire p type" "\<And>d. c \<noteq> C_derived d" by blast
  note cases = this
  show "heap_holds p s' \<or> (\<exists>c\<in>set new. call_guards (\<lambda>_. False) p c)" if "heap_holds p s"
  proof (cases rule: cases [case_names scheme base])
    case scheme
    with heap that show ?thesis by (simp add: heap_holds_def)
  next
    case base
    have "storage ob = None" if "c = C_destroy q" "fmlookup (heap s) q = Some ob" for q ob
      using destroy_storage [of q R s ob] mm that by simp
    then have "heap_holds p s' \<or> C_delayed_decrement_ref_cnt p \<in> set new"
      by (rule mm_step_holds [OF step [unfolded hy_step_def] \<open>heap_holds p s\<close> p base])
    then show ?thesis by (auto intro: bexI [of _ "C_delayed_decrement_ref_cnt p"])
  qed
  show "(\<exists>c\<in>set new. call_guards (\<lambda>_. False) p c) \<or> node_held u g' p s'" if "call_guards (\<lambda>_. False) p c"
  proof (cases c)
    case (C_delayed_decrement_ref_cnt q)
    with that step show ?thesis
      by (auto simp: hy_step_def delayed_decrement_ref_cnt_def with_object_Inr case_prod_beta Let_def split: if_splits)
  next
    case (C_retire q type)
    with that step have "hy_retire alloc t p type s = Inr (new, s')" by (simp add: hy_step_def)
    from retired_held [OF this ok(1) p ok(2) alloc] show ?thesis by blast
  qed (use that in auto)
qed

lemma world_call:
  assumes inv: "world_inv g w" and alloc: "good_alloc alloc" and t: "t < hy_threads (w_mm w)" and cs: "w_calls w t = c # cs"
  shows "\<exists>new s' g'. hy_step alloc t c (w_mm w) = Inr (new, s') \<and> hy_threads s' = hy_threads (w_mm w) \<and>
    world_inv g' (w\<lparr>w_prog := (fst (w_prog w), s'), w_calls := (w_calls w)(t := new @ cs)\<rparr>)"
proof -
  let ?w0 = "w\<lparr>w_calls := (w_calls w)(t := [])\<rparr>" and ?s = "w_mm w"
  let ?T = "hy_tokens cs + w_tokens ?w0" and ?A = "dcalls cs + w_derived ?w0"
  have conf: "hy_conf g (call_tokens (\<lambda>_. {#}) c + ?T) (dcalls [c] + ?A) ?s"
    using inv w_tokens_split(1,3) [OF t] cs by (simp add: world_inv_def ac_simps split: mm_call.splits)
  have sec: "section_ok u w" if "u < hy_threads ?s" for u using inv that by (simp add: world_inv_def)
  have nd: "\<not> dtor_call d" if "c = C_derived d" for d using sec [OF t] cs that by (auto simp: section_ok_def)
  from hy_step_conf [OF conf t alloc] nd obtain new s' g' where
    s': "hy_step alloc t c ?s = Inr (new, s')" "hy_conf g' (hy_tokens new + ?T) (dcalls new + ?A) s'" "keeps g ?s g' s'"
      "hy_threads s' = hy_threads ?s" and heap: "(\<exists>p type. c = C_retire p type) \<or> (\<exists>d. c = C_derived d) \<longrightarrow> heap s' = heap ?s"
    by blast
  note fr = hy_step_frame [OF s'(1) nd]
  let ?w = "w\<lparr>w_prog := (fst (w_prog w), s'), w_calls := (w_calls w)(t := new @ cs)\<rparr>"
  have wt: "w_tokens ?w = w_tokens (w\<lparr>w_calls := (w_calls w)(t := new @ cs)\<rparr>)" "w_derived ?w = w_derived (w\<lparr>w_calls := (w_calls w)(t := new @ cs)\<rparr>)"
    by (simp_all add: w_tokens_def w_derived_def s'(4))
  have "hy_conf g' (w_tokens ?w) (w_derived ?w) s'"
    using s'(2) unfolding wt w_tokens_split(2,4) [OF t, of "new @ cs"] by (simp add: ac_simps)
  moreover have "section_ok u ?w" if u: "u < hy_threads ?s" for u
  proof -
    have rs: "hy_rsrv s' u = invptr \<longleftrightarrow> hy_rsrv ?s u = invptr" using s'(3) by (simp add: keeps_def)
    show ?thesis
    proof (cases "u = t")
      case False
      with sec [OF u] rs fr show ?thesis by (simp add: section_ok_def fun_upd_def split: if_splits)
    next
      case True
      show ?thesis
      proof (cases "c = C_derived H_leave")
        case leave: True
        with sec [OF t] cs have "cs = []" "hy_rsrv ?s t = invptr" by (auto simp: section_ok_def Cons_eq_append_conv split: if_splits)
        with True leave sec [OF t] rs fr show ?thesis by (auto simp: section_ok_def)
      next
        case nl: False
        have "(\<exists>cs0. new @ cs = cs0 @ [C_derived H_leave] \<and> C_derived H_leave \<notin> set cs0)" if "C_derived H_leave \<in> set cs"
        proof -
          from sec [OF t] cs that obtain cs1 where "cs = cs1 @ [C_derived H_leave]" "C_derived H_leave \<notin> set cs1"
            using nl by (auto simp: section_ok_def Cons_eq_append_conv split: if_splits)
          with fr show ?thesis by (intro exI [of _ "new @ cs1"]) auto
        qed
        with True nl sec [OF t] cs rs fr show ?thesis by (auto simp: section_ok_def split: if_splits)
      qed
    qed
  qed
  moreover have "w_guarded g' u p ?w" if u: "u < hy_threads ?s" and p: "p \<in> w_reads w u" for u p
  proof -
    from inv u p have pn: "p \<noteq> nullptr" and gd: "w_guarded g u p w" by (auto simp: world_inv_def)
    have ok: "hy_ok g' (dcalls new + ?A) s'" "t < hy_threads s'" using s'(2,4) t by (auto simp: hy_conf_def)
    have mm: "mm_ok (call_tokens (\<lambda>_. {#}) c + (?T + node_tokens (hy_nodes ?s) (dcalls [c] + ?A))) ?s"
      using conf by (simp add: hy_conf_def ac_simps)
    note g = hy_step_guards [OF s'(1) mm pn heap alloc ok]
    have new: "w_guarded g' u p ?w" if "\<exists>c\<in>set new. call_guards (\<lambda>_. False) p c"
      using that t s'(4) by (auto simp: w_guarded_def)
    have "hy_rsrv ?s u \<noteq> invptr" using sec [OF u] p by (auto simp: section_ok_def)
    from keeps_held [OF s'(3) _ u this ok(1)] have held: "node_held u g p ?s \<Longrightarrow> node_held u g' p s'" .
    from gd consider "M_arc p \<in> set (fst (w_prog w))" | "heap_holds p ?s" | "node_held u g p ?s"
      | v d where "v < hy_threads ?s" "d \<in> set (w_calls w v)" "call_guards (\<lambda>_. False) p d" by (auto simp: w_guarded_def)
    then show ?thesis
    proof cases
      case 1
      then show ?thesis by (simp add: w_guarded_def)
    next
      case 2
      from g(1) [OF this] show ?thesis
      proof
        assume "heap_holds p s'"
        then show ?thesis by (simp add: w_guarded_def)
      qed (rule new)
    next
      case 3
      with held show ?thesis by (simp add: w_guarded_def)
    next
      case 4
      show ?thesis
      proof (cases "v = t \<and> d = c")
        case True
        with 4 have "call_guards (\<lambda>_. False) p c" by simp
        from g(2) [OF this, of u] show ?thesis
        proof
          assume "node_held u g' p s'"
          then show ?thesis by (simp add: w_guarded_def)
        qed (rule new)
      next
        case False
        with 4 cs s'(4) show ?thesis by (auto simp: w_guarded_def intro!: exI [of _ v] bexI [of _ d])
      qed
    qed
  qed
  ultimately have "world_inv g' ?w" using inv by (simp add: world_inv_def s'(4))
  with s' show ?thesis by blast
qed

section \<open>Operations of the threads\<close>

lemma place_put_tokens:
  assumes "place_get pl st = Inr m" and "place_put pl m' st = Inr st'"
  shows "members_tokens (fst st') + heap_tokens (snd st') + member_tokens m = members_tokens (fst st) + heap_tokens (snd st) + member_tokens m'"
    and "mm.more (snd st') = mm.more (snd st)"
proof -
  obtain vs s where st: "st = (vs, s)" by (cases st)
  have "members_tokens (fst st') + heap_tokens (snd st') + member_tokens m = members_tokens (fst st) + heap_tokens (snd st) + member_tokens m' \<and>
    mm.more (snd st') = mm.more (snd st)"
  proof (cases pl)
    case (Var x)
    with assms st have x: "x < length vs" "vs ! x = m" "st' = (vs[x := m'], s)" by (auto split: if_splits)
    have "members_tokens (vs[x := m']) + heap_tokens s + member_tokens m = members_tokens (vs[x := m']) + member_tokens m + heap_tokens s"
      by (simp only: ac_simps)
    also have "\<dots> = members_tokens vs + member_tokens m' + heap_tokens s" using members_tokens_update [OF x(1), of m'] x(2) by simp
    finally show ?thesis using x st by (simp add: ac_simps)
  next
    case (Field p i)
    with assms st obtain ob mg where ob: "fmlookup (heap s) p = Some ob" "storage ob = Some mg" "i < length (members mg)" "members mg ! i = m"
        "st' = (vs, put_object p (ob\<lparr>storage := Some (mg\<lparr>members := (members mg)[i := m']\<rparr>)\<rparr>) s)"
      by (auto simp: with_storage_Inr split: if_splits)
    let ?ob = "ob\<lparr>storage := Some (mg\<lparr>members := (members mg)[i := m']\<rparr>)\<rparr>"
    have obt: "object_tokens ?ob + member_tokens m = object_tokens ob + member_tokens m'"
      using members_tokens_update [OF ob(3), of m'] ob by (simp add: object_tokens_def)
    have "heap_tokens (put_object p ?ob s) + member_tokens m + object_tokens ob = heap_tokens s + (object_tokens ?ob + member_tokens m)"
      using heap_tokens_put [OF ob(1), of ?ob] by (simp add: ac_simps)
    then have "heap_tokens (put_object p ?ob s) + member_tokens m = heap_tokens s + member_tokens m'" unfolding obt by simp
    with ob(5) st show ?thesis by (simp add: ac_simps)
  qed
  then show "members_tokens (fst st') + heap_tokens (snd st') + member_tokens m = members_tokens (fst st) + heap_tokens (snd st) + member_tokens m'"
    and "mm.more (snd st') = mm.more (snd st)" by blast+
qed

abbreviation prog_holds :: "ptr \<Rightarrow> (('v, 'x) counted_object_scheme, 'e) mm_scheme prog \<Rightarrow> bool" where
  "prog_holds p st \<equiv> M_arc p \<in> set (fst st) \<or> heap_holds p (snd st)"

lemma place_put_holds:
  assumes "place_get pl st = Inr m" and "place_put pl m' st = Inr st'" and "prog_holds p st"
  shows "prog_holds p st' \<or> m = M_arc p"
proof -
  obtain vs s where st: "st = (vs, s)" by (cases st)
  have upd: "y \<in> set (xs[i := z])" if "y \<in> set xs" "xs ! i \<noteq> y" for y :: member and xs i z
  proof -
    from that obtain j where "j < length xs" "xs ! j = y" "j \<noteq> i" by (auto simp: in_set_conv_nth)
    then show ?thesis by (metis length_list_update nth_list_update_neq nth_mem)
  qed
  show ?thesis
  proof (cases pl)
    case (Var x)
    with assms st upd [of "M_arc p" vs x m'] show ?thesis by (auto split: if_splits)
  next
    case (Field q i)
    with assms st obtain ob mg where ob: "fmlookup (heap s) q = Some ob" "storage ob = Some mg" "i < length (members mg)" "members mg ! i = m"
        "st' = (vs, put_object q (ob\<lparr>storage := Some (mg\<lparr>members := (members mg)[i := m']\<rparr>)\<rparr>) s)"
      by (auto simp: with_storage_Inr split: if_splits)
    have "object_holds p (ob\<lparr>storage := Some (mg\<lparr>members := (members mg)[i := m']\<rparr>)\<rparr>)" if "m \<noteq> M_arc p" "object_holds p ob"
      using that ob upd [of "M_arc p" "members mg" i m'] by (auto simp: object_holds_def)
    with heap_holds_put [OF ob(1), of p] assms(3) ob(5) st show ?thesis by auto
  qed
qed

lemma place_get_holds: "place_get pl st = Inr (M_arc p) \<Longrightarrow> prog_holds p st"
  by (cases "(pl, st)" rule: place_get.cases)
    (force simp: with_storage_Inr heap_holds_def object_holds_def in_set_conv_nth split: if_splits)+

text \<open>Operations that leave the scheme alone.\<close>

lemma world_client:
  assumes inv: "world_inv g w" and t: "t < hy_threads (w_mm w)" and more: "mm.more (snd st) = mm.more (w_mm w)"
    and cs: "w_calls w t = []" "\<And>d. C_derived d \<notin> set cs"
    and mm: "\<And>R. mm_ok (R + members_tokens (fst (w_prog w))) (w_mm w) \<Longrightarrow> mm_ok (R + hy_tokens cs + members_tokens (fst st)) (snd st)"
    and strong: "strong_only (members_tokens (fst (w_prog w)) + heap_tokens (w_mm w)) \<Longrightarrow>
      strong_only (hy_tokens cs + members_tokens (fst st) + heap_tokens (snd st))"
    and holds: "\<And>p. p \<noteq> nullptr \<Longrightarrow> prog_holds p (w_prog w) \<Longrightarrow> prog_holds p st \<or> (\<exists>c\<in>set cs. call_guards (\<lambda>_. False) p c)"
  shows "world_inv g (w\<lparr>w_prog := st, w_calls := (w_calls w)(t := cs)\<rparr>)"
proof -
  let ?s = "w_mm w" and ?w = "w\<lparr>w_prog := st, w_calls := (w_calls w)(t := cs)\<rparr>"
  define K where "K = (\<Sum>u<hy_threads ?s. hy_tokens (w_calls w u))"
  note f = hy_more_fields [OF more]
  have calls: "(\<Sum>u<hy_threads ?s. hy_tokens (((w_calls w)(t := cs)) u)) = hy_tokens cs + K"
      "(\<Sum>u<hy_threads ?s. dcalls (((w_calls w)(t := cs)) u)) = w_derived w"
    using sum_lessThan_upd [OF t, of hy_tokens "w_calls w" cs] sum_lessThan_upd [OF t, of dcalls "w_calls w" cs] cs dcalls_base [OF cs(2)]
    by (simp_all add: w_derived_def K_def ac_simps)
  have wd: "w_derived ?w = w_derived w" using calls(2) f by (simp add: w_derived_def)
  have wt: "w_tokens ?w = K + hy_tokens cs + members_tokens (fst st)" using calls(1) f by (simp add: w_tokens_def ac_simps)
  have conf: "hy_ok g (w_derived w) ?s" "mm_ok (K + node_tokens (hy_nodes ?s) (w_derived w) + members_tokens (fst (w_prog w))) ?s"
    "strong_only K" "strong_only (members_tokens (fst (w_prog w)) + heap_tokens ?s)"
    using inv by (simp_all add: world_inv_def hy_conf_def w_tokens_def K_def ac_simps)
  have "hy_conf g (w_tokens ?w) (w_derived ?w) (snd st)"
    using mm [OF conf(2)] strong [OF conf(4)] conf(1,3) f unfolding hy_conf_def wd wt by (simp add: hy_ok_def ac_simps)
  moreover have "section_ok u ?w \<and> (\<forall>p\<in>w_reads w u. p \<noteq> nullptr \<and> w_guarded g u p ?w)" if u: "u < hy_threads ?s" for u
  proof -
    have old: "section_ok u w" "\<forall>p\<in>w_reads w u. p \<noteq> nullptr \<and> w_guarded g u p w" using inv u by (auto simp: world_inv_def)
    have "section_ok u ?w" using old(1) f cs by (auto simp: section_ok_def split: if_splits)
    moreover have "w_guarded g u p ?w" if "p \<in> w_reads w u" for p
    proof -
      from old(2) that have p: "p \<noteq> nullptr" and gd: "w_guarded g u p w" by auto
      from gd consider "prog_holds p (w_prog w)" | "node_held u g p ?s"
        | v d where "v < hy_threads ?s" "d \<in> set (w_calls w v)" "call_guards (\<lambda>_. False) p d" by (auto simp: w_guarded_def)
      then show ?thesis
      proof cases
        case 1
        from holds [OF p 1] show ?thesis using t f by (auto simp: w_guarded_def)
      next
        case 2
        with f show ?thesis by (simp add: w_guarded_def node_held_def held_at_def)
      next
        case 3
        then have "v \<noteq> t" using cs(1) by auto
        with 3 f show ?thesis by (auto simp: w_guarded_def)
      qed
    qed
    ultimately show ?thesis using old(2) by blast
  qed
  ultimately show ?thesis using f by (simp add: world_inv_def)
qed

lemma put_account:
  assumes "place_get pl st = Inr m" and "place_put pl m' st = Inr st'"
  shows "mm_ok (R + member_tokens m' + members_tokens (fst st)) (snd st) \<Longrightarrow> mm_ok (R + member_tokens m + members_tokens (fst st')) (snd st')"
    and "strong_only (T + member_tokens m' + members_tokens (fst st) + heap_tokens (snd st)) \<Longrightarrow>
      strong_only (T + member_tokens m + members_tokens (fst st') + heap_tokens (snd st'))"
proof -
  show "mm_ok (R + member_tokens m + members_tokens (fst st')) (snd st')" if "mm_ok (R + member_tokens m' + members_tokens (fst st)) (snd st)"
    using place_swap [OF assms(1), of m' R] assms(2) that by (auto simp: ac_simps)
  assume a: "strong_only (T + member_tokens m' + members_tokens (fst st) + heap_tokens (snd st))"
  have "T + member_tokens m + members_tokens (fst st') + heap_tokens (snd st') = T + (members_tokens (fst st') + heap_tokens (snd st') + member_tokens m)"
    by (simp add: ac_simps)
  also have "\<dots> = T + member_tokens m' + members_tokens (fst st) + heap_tokens (snd st)"
    unfolding place_put_tokens(1) [OF assms] by (simp add: ac_simps)
  finally show "strong_only (T + member_tokens m + members_tokens (fst st') + heap_tokens (snd st'))" using a by (simp only:)
qed

lemma world_drop:
  assumes inv: "world_inv g w" and t: "t < hy_threads (w_mm w)" "w_calls w t = []"
    and get: "place_get (Var x) (w_prog w) = Inr (M_rc p)" and put: "place_put (Var x) (M_rc nullptr) (w_prog w) = Inr st"
  shows "world_inv g (w\<lparr>w_prog := st, w_calls := (w_calls w)(t := member_dtor (M_rc p))\<rparr>)"
proof (rule world_client [OF inv t(1) place_put_tokens(2) [OF get put] t(2)])
  have tok: "hy_tokens (member_dtor (M_rc p)) = member_tokens (M_rc p)" by simp
  show "mm_ok (R + hy_tokens (member_dtor (M_rc p)) + members_tokens (fst st)) (snd st)"
    if "mm_ok (R + members_tokens (fst (w_prog w))) (w_mm w)" for R
    using put_account(1) [OF get put, of R] that unfolding tok by simp
  show "strong_only (hy_tokens (member_dtor (M_rc p)) + members_tokens (fst st) + heap_tokens (snd st))"
    if "strong_only (members_tokens (fst (w_prog w)) + heap_tokens (w_mm w))"
    using put_account(2) [OF get put, of "{#}"] that unfolding tok by simp
  show "prog_holds q st \<or> (\<exists>c\<in>set (member_dtor (M_rc p)). call_guards (\<lambda>_. False) q c)" if "prog_holds q (w_prog w)" for q
    using place_put_holds [OF get put that] by simp
qed simp

lemma world_store:
  assumes inv: "world_inv g w" and t: "t < hy_threads (w_mm w)" "w_calls w t = []"
    and get: "place_get pl (w_prog w) = Inr (M_arc old)" "place_get (Var x) (w_prog w) = Inr (M_rc p)"
    and put: "place_put (Var x) (M_rc nullptr) (w_prog w) = Inr st1" "place_put pl (M_arc p) st1 = Inr st"
  shows "world_inv g (w\<lparr>w_prog := st, w_calls := (w_calls w)(t := member_dtor (M_arc old))\<rparr>)"
proof (rule world_client [OF inv t(1) _ t(2)])
  have "pl \<noteq> Var x" using get by auto
  from place_get_put_other [OF put(1) this] get(1) have get1: "place_get pl st1 = Inr (M_arc old)" by simp
  note more = place_put_tokens(2) [OF get(2) put(1)] place_put_tokens(2) [OF get1 put(2)]
  from more show "mm.more (snd st) = mm.more (w_mm w)" by simp
  have tok: "hy_tokens (member_dtor (M_arc old)) = member_tokens (M_arc old)" "member_tokens (M_arc p) = member_tokens (M_rc p)" by simp_all
  show "mm_ok (R + hy_tokens (member_dtor (M_arc old)) + members_tokens (fst st)) (snd st)"
    if "mm_ok (R + members_tokens (fst (w_prog w))) (w_mm w)" for R
    using put_account(1) [OF get1 put(2), of R] put_account(1) [OF get(2) put(1), of R] that unfolding tok by simp
  show "strong_only (hy_tokens (member_dtor (M_arc old)) + members_tokens (fst st) + heap_tokens (snd st))"
    if "strong_only (members_tokens (fst (w_prog w)) + heap_tokens (w_mm w))"
    using put_account(2) [OF get1 put(2), of "{#}"] put_account(2) [OF get(2) put(1), of "{#}"] that unfolding tok by simp
  show "prog_holds q st \<or> (\<exists>c\<in>set (member_dtor (M_arc old)). call_guards (\<lambda>_. False) q c)"
    if q: "q \<noteq> nullptr" and "prog_holds q (w_prog w)" for q
  proof -
    from place_put_holds [OF get(2) put(1) that(2)] have "prog_holds q st1" by simp
    from place_put_holds [OF get1 put(2) this] q show ?thesis by auto
  qed
qed simp

lemma world_share:
  assumes inv: "world_inv g w" and t: "t < hy_threads (w_mm w)" "w_calls w t = []"
    and get: "place_get (Var x) (w_prog w) = Inr (M_rc nullptr)" and room: "strong_room p (w_mm w)"
    and inc: "increment_ref_cnt p (w_mm w) = Inr (True, s')" and put: "place_put (Var x) (M_rc p) (fst (w_prog w), s') = Inr st"
  shows "world_inv g (w\<lparr>w_prog := st\<rparr>)"
proof -
  let ?vs = "fst (w_prog w)" and ?s = "w_mm w"
  from inc obtain ob where ob: "fmlookup (heap ?s) p = Some ob" "p \<noteq> nullptr" "s' = put_object p (snd (add_refs 1 ob)) ?s"
    by (auto simp: increment_ref_cnt_def with_object_Inr case_prod_beta split: if_splits)
  have st: "storage (snd (add_refs 1 ob)) = storage ob" by (simp add: add_refs_def case_prod_beta)
  have same: "heap_tokens s' = heap_tokens ?s" "mm.more s' = mm.more ?s"
    using heap_tokens_put_same [OF ob(1) st] ob(3) by simp_all
  have hold: "heap_holds q s'" if "heap_holds q ?s" for q
    unfolding ob(3) by (rule heap_holds_put [OF ob(1) that]) (simp add: object_holds_storage [OF st])
  from get put have get': "place_get (Var x) (?vs, s') = Inr (M_rc nullptr)" by (cases "w_prog w") (auto split: if_splits)
  have acc: "mm_ok (R + {#(T_strong, p)#}) s'" if ok: "mm_ok R ?s" for R
    using increment_ref_cnt_ok [OF ok ob(1) room refl] inc by (auto split: if_splits)
  have "world_inv g (w\<lparr>w_prog := st, w_calls := (w_calls w)(t := [])\<rparr>)"
  proof (rule world_client [OF inv t(1) _ t(2)])
    show "mm.more (snd st) = mm.more ?s" using place_put_tokens(2) [OF get' put] same(2) by simp
    show "mm_ok (R + hy_tokens [] + members_tokens (fst st)) (snd st)" if ok: "mm_ok (R + members_tokens ?vs) ?s" for R
    proof -
      have "mm_ok (R + member_tokens (M_rc p) + members_tokens (fst (?vs, s'))) (snd (?vs, s'))"
        using acc [OF ok] ob(2) by (simp add: ac_simps)
      from put_account(1) [OF get' put this] show ?thesis by simp
    qed
    show "strong_only (hy_tokens [] + members_tokens (fst st) + heap_tokens (snd st))"
      if "strong_only (members_tokens ?vs + heap_tokens ?s)"
      using put_account(2) [OF get' put, of "{#}"] that same(1) by simp
    show "prog_holds q st \<or> (\<exists>c\<in>set []. call_guards (\<lambda>_. False) q c)" if "prog_holds q (w_prog w)" for q
      using place_put_holds [OF get' put, of q] that hold by auto
  qed simp
  then show ?thesis using t(2) by (simp add: fun_upd_idem)
qed

lemma null_members_tokens: "\<forall>m\<in>set ms. member_ptr m = nullptr \<Longrightarrow> members_tokens ms = {#}"
proof (induction ms)
  case (Cons m ms)
  then show ?case by (cases m) auto
qed simp

lemma world_create:
  assumes inv: "world_inv g w" and t: "t < hy_threads (w_mm w)" "w_calls w t = []" and p: "p \<noteq> nullptr" "fmlookup (heap (w_mm w)) p = None"
    and get: "place_get (Var x) (w_prog w) = Inr (M_rc nullptr)" and v: "\<forall>m\<in>set (members v). member_ptr m = nullptr"
    and put: "place_put (Var x) (M_rc p) (fst (w_prog w), hy_create_object t p v (w_mm w)) = Inr st"
  shows "world_inv g (w\<lparr>w_prog := st\<rparr>)"
proof -
  let ?vs = "fst (w_prog w)" and ?s = "w_mm w"
  define s' where "s' = hy_create_object t p v ?s"
  have s': "s' = create_object t p (new_counted_object v) ?s" by (simp add: s'_def hy_create_object_def create_object_def)
  have nov: "members_tokens (members v) = {#}" by (rule null_members_tokens [OF v])
  have same: "heap_tokens s' = heap_tokens ?s" "mm.more s' = mm.more ?s"
    using fmsum_upd_new [OF p(2), of "new_counted_object v" object_tokens] nov
    by (simp_all add: s' create_object_def put_object_def increment_allocations_def heap_tokens_def object_tokens_def new_counted_object_def)
  have hold: "heap_holds q s'" if "heap_holds q ?s" for q
  proof -
    from that obtain q1 ob where "fmlookup (heap ?s) q1 = Some ob" "object_holds q ob" by (auto simp: heap_holds_def)
    with p(2) show ?thesis
      by (auto simp: heap_holds_def s' create_object_def put_object_def increment_allocations_def intro!: exI [of _ q1])
  qed
  from get put have get': "place_get (Var x) (?vs, s') = Inr (M_rc nullptr)" by (cases "w_prog w") (auto simp: s'_def split: if_splits)
  note put = put [folded s'_def]
  have "world_inv g (w\<lparr>w_prog := st, w_calls := (w_calls w)(t := [])\<rparr>)"
  proof (rule world_client [OF inv t(1) _ t(2)])
    show "mm.more (snd st) = mm.more ?s" using place_put_tokens(2) [OF get' put] same(2) by simp
    show "mm_ok (R + hy_tokens [] + members_tokens (fst st)) (snd st)" if ok: "mm_ok (R + members_tokens ?vs) ?s" for R
    proof -
      have "mm_ok (add_mset (T_strong, p) (R + members_tokens ?vs)) s'"
        unfolding s' by (rule create_object_ok [OF _ fresh_new_counted_object p]) (simp add: nov ok)
      then have "mm_ok (R + member_tokens (M_rc p) + members_tokens (fst (?vs, s'))) (snd (?vs, s'))" using p(1) by (simp add: ac_simps)
      from put_account(1) [OF get' put this] show ?thesis by simp
    qed
    show "strong_only (hy_tokens [] + members_tokens (fst st) + heap_tokens (snd st))"
      if "strong_only (members_tokens ?vs + heap_tokens ?s)"
      using put_account(2) [OF get' put, of "{#}"] that same(1) by simp
    show "prog_holds q st \<or> (\<exists>c\<in>set []. call_guards (\<lambda>_. False) q c)" if "prog_holds q (w_prog w)" for q
      using place_put_holds [OF get' put, of q] that hold by auto
  qed simp
  then show ?thesis using t(2) by (simp add: fun_upd_idem)
qed

section \<open>Critical sections\<close>

lemma world_read:
  assumes inv: "world_inv g w" and t: "t < hy_threads (w_mm w)" "w_calls w t = []" "hy_in_critical_section t (w_mm w)"
    and get: "place_get pl (w_prog w) = Inr (M_arc p)" and p: "p \<noteq> nullptr"
  shows "world_inv g (w\<lparr>w_reads := (w_reads w)(t := insert p (w_reads w t))\<rparr>)"
proof -
  let ?w = "w\<lparr>w_reads := (w_reads w)(t := insert p (w_reads w t))\<rparr>"
  have same: "w_tokens ?w = w_tokens w" "w_derived ?w = w_derived w" "w_guarded g u q ?w = w_guarded g u q w" for u q
    by (simp_all add: w_tokens_def w_derived_def w_guarded_def)
  have "w_guarded g u p w" for u using place_get_holds [OF get] by (auto simp: w_guarded_def)
  moreover have "section_ok u ?w" if "u < hy_threads (w_mm w)" for u
    using inv that t by (auto simp: world_inv_def section_ok_def hy_in_critical_section_def)
  ultimately show ?thesis using inv p by (auto simp: world_inv_def same)
qed

lemma hy_conf_enter:
  assumes "hy_conf g T A s" and "hy_rsrv s t = invptr" and "heap s' = heap s" "hy_threads s' = hy_threads s" "hy_nodes s' = hy_nodes s"
    "hy_local s' = hy_local s" "hy_rsrv s' = (hy_rsrv s)(t := null_node)"
  shows "hy_conf g T A s'"
proof -
  have inv: "hy_inv (hy_threads s) (hy_nodes s) (hy_rsrv s) (hy_local s) g A" using assms(1) by (simp add: hy_conf_def hy_ok_def)
  have "hy_inv (hy_threads s) (hy_nodes s) ((hy_rsrv s)(t := null_node)) (hy_local s) g A"
  proof (rule hy_inv_shift [OF inv])
    have "chain (hy_nodes s) (((hy_rsrv s)(t := null_node)) u) = chain (hy_nodes s) (hy_rsrv s u)" for u using assms(2) by simp
    then show "outs (hy_threads s) (hy_nodes s) ((hy_rsrv s)(t := null_node)) A = outs (hy_threads s) (hy_nodes s) (hy_rsrv s) A"
      by (simp add: outs_def)
    show "((hy_rsrv s)(t := null_node)) u = invptr \<or> (\<exists>xs. npath (hy_nodes s) (((hy_rsrv s)(t := null_node)) u) xs)"
      if "u < hy_threads s" for u
      using hy_invD(6) [OF inv that] by (auto intro: exI [of _ "[]"])
  qed (use hy_invD(7,8) [OF inv] in auto)
  with assms mm_ok_cong [OF assms(3)] show ?thesis by (simp add: hy_conf_def hy_ok_def heap_tokens_def)
qed

lemma world_enter:
  assumes inv: "world_inv g w" and t: "t < hy_threads (w_mm w)" "w_calls w t = []"
    and enter: "hy_begin_critical_section t (w_mm w) = (True, s')"
  shows "world_inv g (w\<lparr>w_prog := (fst (w_prog w), s')\<rparr>)"
proof -
  let ?s = "w_mm w" and ?w = "w\<lparr>w_prog := (fst (w_prog w), s')\<rparr>"
  from enter have nc: "\<not> hy_critical ?s t" and s': "s' = ?s\<lparr>hy_rsrv := (hy_rsrv ?s)(t := null_node), hy_critical := (hy_critical ?s)(t := True)\<rparr>"
    by (auto simp: hy_begin_critical_section_def exchange_def split: if_splits)
  have sec: "section_ok u w" if "u < hy_threads ?s" for u using inv that by (simp add: world_inv_def)
  from sec [OF t(1)] t(2) nc have rs: "hy_rsrv ?s t = invptr" by (auto simp: section_ok_def)
  have eq: "w_tokens ?w = w_tokens w" "w_derived ?w = w_derived w" by (simp_all add: w_tokens_def w_derived_def s')
  have "hy_conf g (w_tokens ?w) (w_derived ?w) s'"
    unfolding eq by (rule hy_conf_enter [OF _ rs]) (use inv in \<open>simp_all add: world_inv_def s'\<close>)
  moreover have "section_ok u ?w" if "u < hy_threads ?s" for u
    using sec [OF that] t(2) by (auto simp: section_ok_def s' invptr_def split: if_splits)
  moreover have "w_guarded g u p ?w" if u: "u < hy_threads ?s" "p \<in> w_reads w u" for u p
  proof -
    have "u \<noteq> t" using sec [OF u(1)] u(2) rs by (auto simp: section_ok_def)
    then have "node_held u g p s' = node_held u g p ?s" by (simp add: node_held_def held_at_def s')
    moreover have "heap_holds p s' = heap_holds p ?s" by (simp add: heap_holds_def s')
    ultimately show ?thesis using inv u by (auto simp: world_inv_def w_guarded_def s')
  qed
  ultimately show ?thesis using inv by (simp add: world_inv_def s')
qed

lemma world_leave:
  assumes inv: "world_inv g w" and t: "t < hy_threads (w_mm w)" "w_calls w t = []" and crit: "hy_critical (w_mm w) t"
  shows "\<exists>new s'. hy_end_critical_section t (w_mm w) = Inr (new, s') \<and>
    world_inv g (w\<lparr>w_prog := (fst (w_prog w), s'), w_calls := (w_calls w)(t := new), w_reads := (w_reads w)(t := {})\<rparr>)"
proof -
  let ?s = "w_mm w" and ?nt = "hy_threads (w_mm w)"
  have sec: "section_ok u w" if "u < ?nt" for u using inv that by (simp add: world_inv_def)
  from sec [OF t(1)] t(2) crit have rs: "hy_rsrv ?s t \<noteq> invptr" by (auto simp: section_ok_def)
  define p where "p = hy_rsrv ?s t"
  define s' where "s' = ?s\<lparr>hy_rsrv := (hy_rsrv ?s)(t := invptr)\<rparr>"
  define cs :: "hy_call mm_call list" where "cs = [C_derived (H_traverse p), C_derived H_leave]"
  let ?w = "w\<lparr>w_prog := (fst (w_prog w), s'), w_calls := (w_calls w)(t := cs), w_reads := (w_reads w)(t := {})\<rparr>"
  have run: "hy_end_critical_section t ?s = Inr (cs, s')"
    using crit rs by (simp add: hy_end_critical_section_def exchange_def p_def s'_def cs_def)
  have tok: "w_tokens ?w = w_tokens w" "w_derived ?w = {#H_traverse p, H_leave#} + w_derived w"
    using sum_lessThan_upd [OF t(1), of hy_tokens "w_calls w" cs] sum_lessThan_upd [OF t(1), of dcalls "w_calls w" cs] t(2)
    by (simp_all add: w_tokens_def w_derived_def s'_def cs_def ac_simps)
  have conf: "hy_conf g (w_tokens w) (w_derived w) ?s" using inv by (simp add: world_inv_def)
  then have hinv: "hy_inv ?nt (hy_nodes ?s) (hy_rsrv ?s) (hy_local ?s) g (w_derived w)" by (simp add: hy_conf_def hy_ok_def)
  have "hy_inv ?nt (hy_nodes ?s) ((hy_rsrv ?s)(t := invptr)) (hy_local ?s) g ({#H_traverse p, H_leave#} + w_derived w)"
  proof (rule hy_inv_shift [OF hinv])
    show "outs ?nt (hy_nodes ?s) ((hy_rsrv ?s)(t := invptr)) ({#H_traverse p, H_leave#} + w_derived w) =
        outs ?nt (hy_nodes ?s) (hy_rsrv ?s) (w_derived w)"
      using sum_lessThan_upd [OF t(1), of "\<lambda>q. mset (chain (hy_nodes ?s) q)" "hy_rsrv ?s" invptr] by (simp add: outs_def p_def ac_simps)
    show "call_ok ?nt (hy_nodes ?s) g c" if "c \<in># {#H_traverse p, H_leave#} + w_derived w" for c
      using that hy_invD(8) [OF hinv, of c] hy_invD(6) [OF hinv t(1)] rs by (auto simp: p_def)
  qed (use hy_invD(6,7) [OF hinv] in auto)
  moreover have "node_tokens (hy_nodes ?s) ({#H_traverse p, H_leave#} + w_derived w) = node_tokens (hy_nodes ?s) (w_derived w)"
    by (rule node_tokens_same) auto
  moreover have heap: "heap s' = heap ?s" by (simp add: s'_def)
  ultimately have "hy_conf g (w_tokens ?w) (w_derived ?w) s'"
    using conf mm_ok_cong [OF heap] unfolding tok by (simp add: hy_conf_def hy_ok_def s'_def heap_tokens_def)
  moreover have "section_ok u ?w" if "u < ?nt" for u
    using sec [OF that] crit by (cases "u = t") (auto simp: section_ok_def s'_def cs_def split: if_splits)
  moreover have "w_guarded g u q ?w" if u: "u < ?nt" "u \<noteq> t" "q \<in> w_reads w u" for u q
  proof -
    from inv u have gd: "w_guarded g u q w" by (simp add: world_inv_def)
    have "node_held u g q s' = node_held u g q ?s" using u(2) by (simp add: node_held_def held_at_def s'_def)
    moreover have "heap_holds q s' = heap_holds q ?s" by (simp add: heap_holds_def heap)
    moreover have "v \<noteq> t" if "c \<in> set (w_calls w v)" for c v using that t(2) by auto
    ultimately show ?thesis using gd unfolding w_guarded_def s'_def by simp blast
  qed
  ultimately have "world_inv g ?w" using inv by (auto simp: world_inv_def s'_def)
  with run show ?thesis by blast
qed

section \<open>All interleavings\<close>

lemma world_init: "nt < 2 ^ 62 \<Longrightarrow> \<forall>m\<in>set vs. member_ptr m = nullptr \<Longrightarrow> world_inv (\<lambda>_. None) (hy_world_init nt vs)"
proof -
  assume nt: "nt < 2 ^ 62" and vs: "\<forall>m\<in>set vs. member_ptr m = nullptr"
  let ?s = "acquire_retire_hyaline_init nt :: 'a counted_object acquire_retire_hyaline"
  have "outs nt fmempty (\<lambda>_. invptr) {#} = {#}" "owners nt (\<lambda>_. new_hy_batch) {#} = {#}"
    by (simp_all add: outs_def owners_def local_owner_def new_hy_batch_def)
  then have "hy_inv nt fmempty (\<lambda>_. invptr) (\<lambda>_. new_hy_batch) (\<lambda>_. None) {#}"
    by (simp add: hy_inv_def local_ok_def new_hy_batch_def)
  then have "hy_ok (\<lambda>_. None) {#} ?s" using nt by (simp add: hy_ok_def acquire_retire_hyaline_init_def)
  moreover have "mm_ok {#} ?s" by (rule mm_ok_empty) (simp add: acquire_retire_hyaline_init_def)
  ultimately have "hy_conf (\<lambda>_. None) {#} {#} ?s"
    by (simp add: hy_conf_def node_tokens_def acquire_retire_hyaline_init_def heap_tokens_def)
  then show ?thesis using null_members_tokens [OF vs]
    by (simp add: world_inv_def hy_world_init_def w_tokens_def w_derived_def section_ok_def acquire_retire_hyaline_init_def)
qed

lemma world_step:
  assumes "hy_world_step alloc w w'" and "good_alloc alloc" and "world_inv g w"
  shows "(\<exists>g'. world_inv g' w') \<and> hy_threads (w_mm w') = hy_threads (w_mm w)"
  using assms(1)
proof cases
  case (call t c cs new s')
  with world_call [OF assms(3,2) call(2,3)] show ?thesis by auto
next
  case (enter t s')
  then have "hy_threads s' = hy_threads (w_mm w)" by (auto simp: hy_begin_critical_section_def split: if_splits)
  with enter world_enter [OF assms(3) enter(2,3,4)] show ?thesis by auto
next
  case (leave t new s')
  then have "hy_critical (w_mm w) t" "hy_threads s' = hy_threads (w_mm w)"
    by (auto simp: hy_end_critical_section_def exchange_def split: if_splits)
  with leave world_leave [OF assms(3) leave(2,3)] show ?thesis by auto
next
  case (read t pl p)
  with world_read [OF assms(3) read(2,3,4,5)] show ?thesis by (auto simp: hy_acquire_def)
next
  case (share t p y x s' st)
  have "world_inv g w'" unfolding share(1) by (rule world_share [OF assms(3) share(2,3,5,6,7,8)])
  moreover have "mm.more s' = mm.more (w_mm w)"
    using share(7) by (auto simp: increment_ref_cnt_def with_object_Inr case_prod_beta split: if_splits)
  moreover have "mm.more (snd st) = mm.more s'" using share(8) by (auto split: if_splits)
  ultimately show ?thesis using share(1) hy_more_fields [of "snd st" "w_mm w"] by auto
next
  case (store t pl old x p st1 st)
  have "pl \<noteq> Var x" using store(4,5) by auto
  from place_get_put_other [OF store(6) this] store(4) have "place_get pl st1 = Inr (M_arc old)" by simp
  from place_put_tokens(2) [OF this store(7)] place_put_tokens(2) [OF store(5,6)] have "mm.more (snd st) = mm.more (w_mm w)" by simp
  with store(1) world_store [OF assms(3) store(2-7)] hy_more_fields [of "snd st" "w_mm w"] show ?thesis by auto
next
  case (drop t x p st)
  with world_drop [OF assms(3) drop(2-5)] hy_more_fields [OF place_put_tokens(2) [OF drop(4,5)]] show ?thesis by auto
next
  case (create t p x v st)
  have "world_inv g w'" unfolding create(1) by (rule world_create [OF assms(3) create(2-8)])
  moreover have "mm.more (snd st) = mm.more (w_mm w)"
    using create(8) by (auto simp: hy_create_object_def put_object_def increment_allocations_def split: if_splits)
  ultimately show ?thesis using create(1) hy_more_fields [of "snd st" "w_mm w"] by auto
qed

lemma world_reach:
  assumes "hy_world_reach alloc nt w" and "good_alloc alloc" and "nt < 2 ^ 62"
  shows "(\<exists>g. world_inv g w) \<and> hy_threads (w_mm w) = nt"
  using assms(1)
proof induction
  case (start vs)
  with world_init [OF assms(3), of vs] show ?case by (auto simp: hy_world_init_def acquire_retire_hyaline_init_def)
next
  case (step w w')
  with world_step [OF step(2) assms(2)] show ?case by auto
qed

end
