(* ===== verification/Hyaline_Interleaved.thy ===== *)
theory Hyaline_Interleaved
  imports Hyaline_Threads
begin

text \<open>
  What holds of Hyaline in every interleaving of its threads: calls do not fail and readers are safe, and when the threads come
  to rest the references held back are few.
\<close>

section \<open>Readers\<close>

lemma held_not_ejected:
  assumes ok: "hy_ok g A s" and t: "t < hy_threads s" and nd: "\<And>d. d \<in># A \<Longrightarrow> \<not> dtor_call d"
    and held: "held_at t r g s ns" and x: "x \<in> set ns"
  shows "x \<notin> ejected A"
proof
  assume "x \<in> ejected A"
  then obtain c where c: "c \<in># A" "x \<in> call_ejected c" by (auto simp: ejected_def)
  have inv: "hy_inv (hy_threads s) (hy_nodes s) (hy_rsrv s) (hy_local s) g A" using ok by (simp add: hy_ok_def)
  from hy_invD(8) [OF inv c(1)] c nd [OF c(1)] obtain r' ns' where r': "g r' = Some (ns', P_freeing)" "x = hd ns'" by (cases c) auto
  then have "x \<in> set ns'" using batch_dom(3) [OF inv r'(1)] by simp
  from held obtain ph where ph: "g r = Some (ns, ph)" "held t (chain (hy_nodes s) (hy_rsrv s t)) (ns, ph)" by (auto simp: held_at_def)
  have "r' = r" using hy_invD(2) [OF inv r'(1) ph(1)] \<open>x \<in> set ns'\<close> x by auto
  then have "ph = P_freeing" using r'(1) ph(1) by simp
  with ph(2) have "set (chain (hy_nodes s) (hy_rsrv s t)) \<inter> set ns \<noteq> {}" by (simp add: held_def)
  moreover have "set (chain (hy_nodes s) (hy_rsrv s t)) \<subseteq> set_mset (outs (hy_threads s) (hy_nodes s) (hy_rsrv s) A)"
    using t unfolding subset_iff in_outs by blast
  moreover from hy_ok_batch(2) [OF ok ph(1)] \<open>ph = P_freeing\<close> have "set_mset (outs (hy_threads s) (hy_nodes s) (hy_rsrv s) A) \<inter> set ns = {}" by auto
  ultimately show False by auto
qed

lemma sum_node_tokens:
  assumes "finite X" and "x \<in> X"
  shows "{#f x#} \<subseteq># (\<Sum>y\<in>X. {#f y#})"
  using assms by (metis mset_subset_eq_add_left sum.remove)

lemma calls_tokens_mem: "d \<in> set cs \<Longrightarrow> x \<in># call_tokens f d \<Longrightarrow> x \<in># calls_tokens f cs"
  by (induction cs) auto

lemma world_reads_alive:
  assumes inv: "world_inv g w" and t: "t < hy_threads (w_mm w)" and p: "p \<in> w_reads w t"
  shows "\<exists>ob n. fmlookup (heap (w_mm w)) p = Some ob \<and> storage ob \<noteq> None \<and> get_use_count ob = (n, ob) \<and> n \<noteq> 0"
proof -
  let ?s = "w_mm w"
  from inv t p have conf: "hy_conf g (w_tokens w) (w_derived w) ?s" and pn: "p \<noteq> nullptr" and gd: "w_guarded g t p w"
    by (auto simp: world_inv_def)
  then have mm: "mm_ok (w_tokens w + node_tokens (hy_nodes ?s) (w_derived w)) ?s" and ok: "hy_ok g (w_derived w) ?s" by (auto simp: hy_conf_def)
  from gd consider "M_arc p \<in> set (fst (w_prog w))" | "heap_holds p ?s" | "node_held t g p ?s"
    | u d where "u < hy_threads ?s" "d \<in> set (w_calls w u)" "call_guards (\<lambda>_. False) p d" by (auto simp: w_guarded_def)
  then have "(T_strong, p) \<in># w_tokens w + node_tokens (hy_nodes ?s) (w_derived w) + heap_tokens ?s"
  proof cases
    case 1
    then have "(T_strong, p) \<in># members_tokens (fst (w_prog w))" using pn by (force simp: in_set_conv_nth intro: members_tokens_nth)
    then show ?thesis by (simp add: w_tokens_def)
  next
    case 2
    with pn show ?thesis by (simp add: heap_holds_token)
  next
    case 3
    then obtain r ns x nd where x: "held_at t r g ?s ns" "x \<in> set ns" "fmlookup (hy_nodes ?s) x = Some nd" "hn_obj nd = p"
      by (auto simp: node_held_def)
    have "\<not> dtor_call d" if "d \<in># w_derived w" for d
    proof -
      from that obtain u where "u < hy_threads ?s" "d \<in># dcalls (w_calls w u)"
        unfolding w_derived_def by (metis in_sum_tokens)
      with inv show ?thesis by (auto simp: world_inv_def section_ok_def in_dcalls)
    qed
    from held_not_ejected [OF ok t this x(1,2)] x(3) have "x \<in> fset (fmdom (hy_nodes ?s)) - ejected (w_derived w)"
      by (simp add: fmlookup_dom_iff)
    from sum_node_tokens [OF _ this, of "\<lambda>y. (T_strong, hn_obj (the (fmlookup (hy_nodes ?s) y)))"] x(3,4)
    have "(T_strong, p) \<in># node_tokens (hy_nodes ?s) (w_derived w)" by (simp add: node_tokens_def)
    then show ?thesis by simp
  next
    case 4
    from 4(3) have "(T_strong, p) \<in># call_tokens (\<lambda>_. {#}) d" by (cases d) auto
    from 4(2) this have "(T_strong, p) \<in># hy_tokens (w_calls w u)" by (rule calls_tokens_mem)
    with 4(1) have "(T_strong, p) \<in># (\<Sum>t<hy_threads ?s. hy_tokens (w_calls w t))" by (metis in_sum_tokens)
    then show ?thesis by (simp add: w_tokens_def)
  qed
  from strong_token_alive [OF mm this] show ?thesis .
qed

text \<open>
  (C6) Hyaline, with the calls of all threads interleaved at every access to shared memory: in every reachable state the next call of a thread
  does not fail (no node or object is used after it was freed or freed twice, no assertion is violated), a thread can leave its critical
  section, and every pointer that a thread has read since it entered its section refers to an object that is alive and has references. The
  allocator may be any that returns fresh nodes, and the program retires strong references only.
\<close>

theorem hyaline_readers_safe:
  assumes "good_alloc alloc" and "hy_world_reach alloc nt w" and "nt < 2 ^ 62" and "t < nt"
  shows "(\<forall>c cs. w_calls w t = c # cs \<longrightarrow> (\<exists>new s'. hy_step alloc t c (w_mm w) = Inr (new, s'))) \<and>
    (w_calls w t = [] \<and> hy_in_critical_section t (w_mm w) \<longrightarrow> (\<exists>new s'. hy_end_critical_section t (w_mm w) = Inr (new, s'))) \<and>
    (\<forall>p\<in>w_reads w t. \<exists>ob n. fmlookup (heap (w_mm w)) p = Some ob \<and> storage ob \<noteq> None \<and> get_use_count ob = (n, ob) \<and> n \<noteq> 0)"
proof -
  from world_reach [OF assms(2,1,3)] obtain g where inv: "world_inv g w" and nt: "hy_threads (w_mm w) = nt" by blast
  show ?thesis
    using world_call [OF inv assms(1), of t] world_leave [OF inv, of t] world_reads_alive [OF inv, of t] assms(4) nt
    unfolding hy_in_critical_section_def by meson
qed

definition next_free :: node_alloc where
  "next_free N = Suc (Suc (Max (insert 0 (fset (fmdom N)))))"

lemma next_free_good: "good_alloc next_free"
  unfolding good_alloc_def
proof (intro allI conjI)
  fix N :: "(nptr, hy_node) fmap"
  let ?m = "Max (insert 0 (fset (fmdom N)))"
  have "x \<le> ?m" if "x \<in> fset (fmdom N)" for x using that by (intro Max_ge) auto
  then have "Suc (Suc ?m) \<notin> fset (fmdom N)" by fastforce
  then show "fmlookup N (next_free N) = None" by (simp add: next_free_def fmlookup_dom_iff)
qed (simp_all add: next_free_def invptr_def)

text \<open>Two threads: one reads, the other replaces what it read and starts to retire it.\<close>

definition hy_made :: "nat counted_object acquire_retire_hyaline" where
  "hy_made = hy_create_object 0 16 \<lparr>payload = 7, members = []\<rparr> (acquire_retire_hyaline_init 2)"

definition hy_stored :: "member list \<Rightarrow> nat counted_object acquire_retire_hyaline \<Rightarrow> hy_call mm_call list \<Rightarrow> ptr set \<Rightarrow> nat hy_world" where
  "hy_stored vs s cs rs = \<lparr>w_prog = (vs, s), w_calls = (\<lambda>_. [])(1 := cs), w_reads = (\<lambda>_. {})(0 := rs)\<rparr>"

lemma hy_stored_fields [simp]:
  "w_prog (hy_stored vs s cs rs) = (vs, s)" "w_calls (hy_stored vs s cs rs) = (\<lambda>_. [])(1 := cs)"
  "w_reads (hy_stored vs s cs rs) = (\<lambda>_. {})(0 := rs)"
  by (simp_all add: hy_stored_def)

lemma hy_made_fields:
  "hy_threads hy_made = 2" "hy_nodes hy_made = fmempty" "hy_in_progress hy_made t = False" "hy_critical hy_made t = False"
  "b_first (hy_local hy_made t) = null_node" "b_counter (hy_local hy_made t) = 0"
  "fmlookup (heap hy_made) 16 = Some (new_counted_object \<lparr>payload = 7, members = []\<rparr>)"
  by (simp_all add: hy_made_def acquire_retire_hyaline_init_def hy_create_object_def put_object_def increment_allocations_def new_hy_batch_def)

lemma hy_stored_reach: "hy_world_reach next_free 2 (hy_stored [M_arc 16, M_rc nullptr] hy_made [] {})"
proof -
  let ?w0 = "hy_world_init 2 [M_arc nullptr, M_rc nullptr] :: nat hy_world"
  have r0: "hy_world_reach next_free 2 ?w0" by (rule hy_world_reach.start) simp
  have "hy_world_step next_free ?w0 (hy_stored [M_arc nullptr, M_rc 16] hy_made [] {})"
    using hy_world_step.create [of 0 ?w0 16 1 "\<lparr>payload = 7, members = []\<rparr>" "([M_arc nullptr, M_rc 16], hy_made)" next_free]
    by (simp add: hy_world_init_def hy_made_def hy_stored_def acquire_retire_hyaline_init_def fun_upd_idem)
  with r0 have r1: "hy_world_reach next_free 2 (hy_stored [M_arc nullptr, M_rc 16] hy_made [] {})" by (rule hy_world_reach.step)
  have "hy_world_step next_free (hy_stored [M_arc nullptr, M_rc 16] hy_made [] {}) (hy_stored [M_arc 16, M_rc nullptr] hy_made [] {})"
    using hy_world_step.store [of 0 "hy_stored [M_arc nullptr, M_rc 16] hy_made [] {}" "Var 0" nullptr 1 16
        "([M_arc nullptr, M_rc nullptr], hy_made)" "([M_arc 16, M_rc nullptr], hy_made)" next_free] hy_made_fields(1)
    by (simp add: hy_stored_def fun_upd_idem)
  with r1 show ?thesis by (rule hy_world_reach.step)
qed

text \<open>Thread 1 replaces the pointer in the location by null.\<close>

lemma hy_stored_replaced:
  assumes "hy_world_reach next_free 2 (hy_stored [M_arc 16, M_rc nullptr] s [] rs)" and "hy_threads s = 2"
  shows "hy_world_reach next_free 2 (hy_stored [M_arc nullptr, M_rc nullptr] s [C_delayed_decrement_ref_cnt 16] rs)"
  using hy_world_reach.step [OF assms(1) hy_world_step.store [of 1 _ "Var 0" 16 1 nullptr "([M_arc 16, M_rc nullptr], s)"
        "([M_arc nullptr, M_rc nullptr], s)" next_free]] assms(2)
  by (simp add: hy_stored_def)

theorem hyaline_readers_safe_witness:
  "\<exists>w :: nat hy_world. hy_world_reach next_free 2 w \<and> w_calls w 1 = [C_delayed_decrement_ref_cnt 16] \<and>
     (\<exists>new s'. hy_step next_free 1 (C_delayed_decrement_ref_cnt 16) (w_mm w) = Inr (new, s')) \<and>
     (\<exists>ob n. 16 \<in> w_reads w 0 \<and> fmlookup (heap (w_mm w)) 16 = Some ob \<and> storage ob \<noteq> None \<and> get_use_count ob = (n, ob) \<and> n \<noteq> 0)"
proof -
  define s where "s = snd (hy_begin_critical_section 0 hy_made)"
  have s: "hy_threads s = 2" "hy_critical s 0" "hy_begin_critical_section 0 hy_made = (True, s)"
    using hy_made_fields by (simp_all add: s_def hy_begin_critical_section_def)
  let ?w = "hy_stored [M_arc 16, M_rc nullptr] s []"
  have "hy_world_step next_free (hy_stored [M_arc 16, M_rc nullptr] hy_made [] {}) (?w {})"
    using hy_world_step.enter [of 0 "hy_stored [M_arc 16, M_rc nullptr] hy_made [] {}" s next_free] s(3) hy_made_fields(1) by (simp add: hy_stored_def)
  with hy_stored_reach have r1: "hy_world_reach next_free 2 (?w {})" by (rule hy_world_reach.step)
  have "hy_world_step next_free (?w {}) (?w {16})"
    using hy_world_step.read [of 0 "?w {}" "Var 0" 16 next_free] s by (simp add: hy_stored_def hy_acquire_def hy_in_critical_section_def)
  with r1 have "hy_world_reach next_free 2 (?w {16})" by (rule hy_world_reach.step)
  note r = hy_stored_replaced [OF this s(1)]
  from hyaline_readers_safe [OF next_free_good r, of 0] hyaline_readers_safe [OF next_free_good r, of 1] r show ?thesis
    by (intro exI [of _ "hy_stored [M_arc nullptr, M_rc nullptr] s [C_delayed_decrement_ref_cnt 16] {16}"]) simp
qed

section \<open>At rest\<close>

text \<open>A thread between two operations has looked at its batch after the last retire.\<close>

definition batch_small :: "hy_call mm_call list \<Rightarrow> tid \<Rightarrow> ('o, 'e) acquire_retire_hyaline_scheme \<Rightarrow> bool" where
  "batch_small cs t s \<longleftrightarrow> count (dcalls cs) H_retire_next = (if hy_in_progress s t then 1 else 0) \<and>
     (hy_in_progress s t \<or> H_retire_loop \<in># dcalls cs \<or> unat (b_counter (hy_local s t)) \<le> hy_batch_size * hy_threads s)"

lemma batch_small_cong:
  "dcalls cs' = dcalls cs \<Longrightarrow> hy_in_progress s' t = hy_in_progress s t \<Longrightarrow> hy_local s' t = hy_local s t \<Longrightarrow> hy_threads s' = hy_threads s \<Longrightarrow>
   batch_small cs' t s' \<longleftrightarrow> batch_small cs t s"
  by (simp add: batch_small_def)

lemma hy_derived_local:
  assumes "hy_derived t d s = Inr (new, s')" and "\<not> dtor_call d" and "d \<noteq> H_retire_loop" "d \<noteq> H_retire_next"
  shows "hy_in_progress s' = hy_in_progress s \<and> hy_local s' = hy_local s \<and> hy_threads s' = hy_threads s \<and>
    H_retire_next \<notin># dcalls new \<and> H_retire_loop \<notin># dcalls new"
  using assms by (cases d)
    (auto simp: hy_call_defs with_node_Inr put_node_def delete_node_def atomic_defs Let_def split: if_splits)

lemma batch_small_step:
  assumes step: "hy_step alloc t c s = Inr (new, s')" and small: "batch_small (c # cs) t s" and nd: "\<And>d. c = C_derived d \<Longrightarrow> \<not> dtor_call d"
  shows "batch_small (new @ cs) t s' \<and> (\<forall>u. u \<noteq> t \<longrightarrow> hy_in_progress s' u = hy_in_progress s u \<and> hy_local s' u = hy_local s u)"
proof -
  consider (retire) p type where "c = C_retire p type" | (loop) "c = C_derived H_retire_loop" | (more) "c = C_derived H_retire_next"
    | (derived) d where "c = C_derived d" "d \<noteq> H_retire_loop" "d \<noteq> H_retire_next"
    | (base) "\<And>p type. c \<noteq> C_retire p type" "\<And>d. c \<noteq> C_derived d"
    by blast
  then show ?thesis
  proof cases
    case retire
    with step small show ?thesis
      by (auto simp: hy_step_def hy_retire_def put_node_def Let_def batch_small_def split: if_splits)
  next
    case loop
    with step small show ?thesis
      by (auto simp: hy_step_def hy_retire_loop_def Let_def batch_small_def split: if_splits)
  next
    case more
    with step small show ?thesis
      by (auto simp: hy_step_def hy_retire_next_def batch_small_def split: if_splits)
  next
    case derived
    with step hy_derived_local [of t d s new s'] nd have "hy_in_progress s' = hy_in_progress s" "hy_local s' = hy_local s"
        "hy_threads s' = hy_threads s" "H_retire_next \<notin># dcalls new" "H_retire_loop \<notin># dcalls new" by (auto simp: hy_step_def)
    with small derived show ?thesis by (auto simp: batch_small_def not_in_iff)
  next
    case base
    note step = step [unfolded hy_step_def]
    note f = hy_more_fields [OF mm_step_more [OF step base]]
    have "dcalls new = {#}" by (rule dcalls_base) (rule mm_step_base [OF step base])
    moreover have "dcalls (c # cs) = dcalls cs" using base by (cases c) auto
    ultimately show ?thesis using f small by (simp add: batch_small_def)
  qed
qed

definition world_small :: "'v hy_world \<Rightarrow> bool" where
  "world_small w \<longleftrightarrow> (\<forall>t<hy_threads (w_mm w). batch_small (w_calls w t) t (w_mm w))"

lemma world_small_keep:
  assumes "world_small w" and "mm.more (snd st) = mm.more (w_mm w)" and "dcalls cs = dcalls (w_calls w t)"
  shows "world_small (w\<lparr>w_prog := st, w_calls := (w_calls w)(t := cs)\<rparr>)"
  using assms(1,3) hy_more_fields [OF assms(2)] by (auto simp: world_small_def batch_small_def)

lemma world_step_small:
  assumes "hy_world_step alloc w w'" and "world_inv g w" and small: "world_small w" and alloc: "good_alloc alloc"
  shows "world_small w'"
  using assms(1)
proof cases
  case (call t c cs new s')
  have "batch_small (c # cs) t (w_mm w)" using small call(2,3) by (force simp: world_small_def)
  moreover have "\<not> dtor_call d" if "c = C_derived d" for d
    using assms(2) call(2,3) that by (auto simp: world_inv_def section_ok_def)
  ultimately have "batch_small (new @ cs) t s' \<and> (\<forall>u. u \<noteq> t \<longrightarrow> hy_in_progress s' u = hy_in_progress (w_mm w) u \<and> hy_local s' u = hy_local (w_mm w) u)"
    using batch_small_step [OF call(4)] by blast
  moreover have "hy_threads s' = hy_threads (w_mm w)" using world_call [OF assms(2) alloc call(2,3)] call(4) by auto
  ultimately show ?thesis using small unfolding call(1) world_small_def by (auto simp: batch_small_def)
next
  case (enter t s')
  then have "hy_in_progress s' = hy_in_progress (w_mm w)" "hy_local s' = hy_local (w_mm w)" "hy_threads s' = hy_threads (w_mm w)"
    by (auto simp: hy_begin_critical_section_def Let_def split: if_splits)
  with small enter(1) show ?thesis by (simp add: world_small_def batch_small_def)
next
  case (leave t new s')
  then have "hy_in_progress s' = hy_in_progress (w_mm w)" "hy_local s' = hy_local (w_mm w)" "hy_threads s' = hy_threads (w_mm w)"
      "H_retire_next \<notin># dcalls new" "H_retire_loop \<notin># dcalls new" "dcalls (w_calls w t) = {#}"
    by (auto simp: hy_end_critical_section_def exchange_def split: if_splits)
  moreover have "batch_small (w_calls w t) t (w_mm w)" using small leave(2) by (simp add: world_small_def)
  ultimately have "batch_small new t s'" by (simp add: batch_small_def not_in_iff split: if_splits)
  with small leave(1) \<open>hy_in_progress s' = _\<close> \<open>hy_local s' = _\<close> \<open>hy_threads s' = _\<close> show ?thesis
    by (auto simp: world_small_def batch_small_def)
next
  case (read t pl p)
  then show ?thesis using small by (simp add: world_small_def)
next
  case (share t p y x s' st)
  have "mm.more s' = mm.more (w_mm w)"
    using share(7) by (auto simp: increment_ref_cnt_def with_object_Inr case_prod_beta split: if_splits)
  moreover have "mm.more (snd st) = mm.more s'" using share(8) by (auto split: if_splits)
  ultimately show ?thesis using world_small_keep [OF small, of st "w_calls w t" t] share(1) by simp
next
  case (store t pl old x p st1 st)
  have "pl \<noteq> Var x" using store(4,5) by auto
  from place_get_put_other [OF store(6) this] store(4) have "place_get pl st1 = Inr (M_arc old)" by simp
  from place_put_tokens(2) [OF this store(7)] place_put_tokens(2) [OF store(5,6)] have "mm.more (snd st) = mm.more (w_mm w)" by simp
  then show ?thesis unfolding store(1) by (rule world_small_keep [OF small]) (use store(3) in simp)
next
  case (drop t x p st)
  show ?thesis unfolding drop(1)
    by (rule world_small_keep [OF small place_put_tokens(2) [OF drop(4,5)]]) (use drop(3) in simp)
next
  case (create t p x v st)
  have "mm.more (snd st) = mm.more (w_mm w)"
    using create(8) by (auto simp: hy_create_object_def put_object_def increment_allocations_def split: if_splits)
  then show ?thesis using world_small_keep [OF small, of st "w_calls w t" t] create(1) by simp
qed

lemma world_reach_small:
  assumes "hy_world_reach alloc nt w" and "good_alloc alloc" and "nt < 2 ^ 62"
  shows "world_small w"
  using assms(1)
proof induction
  case (start vs)
  then show ?case
    by (simp add: world_small_def batch_small_def hy_world_init_def acquire_retire_hyaline_init_def new_hy_batch_def)
next
  case (step w w')
  from world_reach [OF step(1) assms(2,3)] world_step_small [OF step(2) _ step.IH assms(2)] show ?case by blast
qed

text \<open>When no call is under way and no thread is inside a section, all nodes are in the batches of the threads.\<close>

lemma rest_local:
  assumes inv: "hy_inv nt N rsrv loc g {#}" and rest: "\<And>t. t < nt \<Longrightarrow> rsrv t = invptr" and x: "x \<in> fset (fmdom N)"
  shows "\<exists>t<nt. b_first (loc t) \<noteq> null_node \<and> (\<exists>ns. g (b_refs (loc t)) = Some (ns, P_local) \<and> x \<in> set ns)"
proof -
  from hy_invD(3) [OF inv] x obtain r ns ph where r: "g r = Some (ns, ph)" "x \<in> set ns" by (metis fst_conv surj_pair)
  have "outs nt N rsrv {#} = {#}" using rest by (simp add: outs_def)
  with batch_ok_refs_node [OF hy_invD(1) [OF inv r(1)]] have "ph \<noteq> P_published" by auto
  with hy_invD(9) [OF inv, of r] r(1) have "(r, ph) \<in># filter_mset (\<lambda>e. fst e = r) (owners nt loc {#})" by simp
  then have "(r, ph) \<in># owners nt loc {#}" by simp
  then obtain t where "t < nt" "(r, ph) \<in># local_owner (loc t)" by (auto simp: in_owners)
  with r show ?thesis by (auto simp: local_owner_def split: if_splits)
qed

text \<open>
  (C36) Hyaline holds back little: when every thread is outside its critical section and has finished its calls, all nodes are in
  the batches that the threads are filling, and a batch that is not yet full has at most \<^verbatim>\<open>batch_size*num_threads\<close> nodes; so at most
  twice the square of the number of threads many references are not yet dropped. (The number of nodes is assumed to fit in the 64-bit
  counters.)
\<close>

theorem hyaline_garbage_bounded:
  assumes "good_alloc alloc" and "hy_world_reach alloc nt w" and "nt < 2 ^ 62" and "fcard (fmdom (hy_nodes (w_mm w))) < 2 ^ 64"
    and "\<forall>t<nt. w_calls w t = [] \<and> \<not> hy_in_critical_section t (w_mm w)"
  shows "fcard (fmdom (hy_nodes (w_mm w))) \<le> nt * (hy_batch_size * nt)"
proof -
  let ?s = "w_mm w" and ?N = "hy_nodes (w_mm w)"
  from world_reach [OF assms(2,1,3)] obtain g where inv: "world_inv g w" and nt: "hy_threads ?s = nt" by blast
  have "w_derived w = {#}" using assms(5) nt by (simp add: w_derived_def)
  then have hinv: "hy_inv nt ?N (hy_rsrv ?s) (hy_local ?s) g {#}" using inv nt by (simp add: world_inv_def hy_conf_def hy_ok_def)
  have rs: "hy_rsrv ?s t = invptr" if "t < nt" for t
    using inv assms(5) that nt by (auto simp: world_inv_def section_ok_def hy_in_critical_section_def)
  define B where "B t = (if b_first (hy_local ?s t) = null_node then {} else set (fst (the (g (b_refs (hy_local ?s t))))))" for t
  have dom: "fset (fmdom ?N) \<subseteq> (\<Union>t<nt. B t)"
  proof
    fix x assume "x \<in> fset (fmdom ?N)"
    from rest_local [OF hinv rs this] show "x \<in> (\<Union>t<nt. B t)" by (force simp: B_def)
  qed
  have "card (B t) \<le> hy_batch_size * nt" if t: "t < nt" for t
  proof (cases "b_first (hy_local ?s t) = null_node")
    case False
    from local_owned [OF hinv t False] obtain ns where ns: "g (b_refs (hy_local ?s t)) = Some (ns, P_local)"
        "b_counter (hy_local ?s t) = of_nat (length ns)" by auto
    have "distinct ns" using hy_invD(1) [OF hinv ns(1)] by (auto simp: batch_ok_def batch_nodes_def)
    then have "card (set ns) = length ns" by (rule distinct_card)
    moreover have "card (set ns) \<le> fcard (fmdom ?N)"
      using batch_dom(1) [OF hinv ns(1)] card_mono [of "fset (fmdom ?N)" "set ns"] by (simp add: fcard.rep_eq)
    ultimately have "unat (b_counter (hy_local ?s t)) = length ns" using assms(4) ns(2) unat_small by simp
    moreover have "batch_small [] t ?s" using world_reach_small [OF assms(2,1,3)] assms(5) t nt by (simp add: world_small_def)
    ultimately have "length ns \<le> hy_batch_size * nt" using nt by (simp add: batch_small_def split: if_splits)
    then show ?thesis using False ns(1) \<open>card (set ns) = length ns\<close> by (simp add: B_def)
  qed (simp add: B_def)
  then have "(\<Sum>t<nt. card (B t)) \<le> nt * (hy_batch_size * nt)" using sum_bounded_above [of "{..<nt}" "\<lambda>t. card (B t)"] by simp
  moreover have "card (fset (fmdom ?N)) \<le> (\<Sum>t<nt. card (B t))"
    using card_mono [OF _ dom] card_UN_le [of "{..<nt}" B] by (fastforce simp: B_def)
  ultimately show ?thesis by (simp add: fcard.rep_eq)
qed

text \<open>Thread 1 drops the reference of the location: its calls run to the end and leave one node in its batch.\<close>

definition hy_retired :: "nat counted_object acquire_retire_hyaline" where
  "hy_retired = (put_node 2 ((new_hy_node 16)\<lparr>hn_refc := U_refc REFC_PROTECT, hn_next := U_decrement RT_decrement_strong_count\<rparr>) hy_made)
    \<lparr>hy_local := (hy_local hy_made)(1 := (hy_local hy_made 1)\<lparr>b_refs := 2, b_first := 2, b_counter := 1\<rparr>)\<rparr>"

lemma hy_stored_call:
  assumes "hy_world_reach next_free 2 (hy_stored vs s [c] rs)" and "hy_threads s = 2" and "hy_step next_free 1 c s = Inr (new, s')"
  shows "hy_world_reach next_free 2 (hy_stored vs s' new rs)"
  using hy_world_reach.step [OF assms(1) hy_world_step.call [of 1 _ c "[]" next_free new s']] assms(2,3)
  by (simp add: hy_stored_def)

lemma hy_retired_steps:
  "hy_step next_free 1 (C_delayed_decrement_ref_cnt 16) hy_made = Inr ([C_retire 16 RT_decrement_strong_count], hy_made)"
  "hy_step next_free 1 (C_retire 16 RT_decrement_strong_count) hy_made = Inr ([C_derived H_retire_loop], hy_retired)"
  "hy_step next_free 1 (C_derived H_retire_loop) hy_retired = Inr ([], hy_retired)"
proof -
  have alloc: "next_free fmempty = 2" by (simp add: next_free_def)
  show "hy_step next_free 1 (C_delayed_decrement_ref_cnt 16) hy_made = Inr ([C_retire 16 RT_decrement_strong_count], hy_made)"
    by (simp add: hy_step_def delayed_decrement_ref_cnt_def with_object_def hy_made_fields(7) put_object_same [OF hy_made_fields(7)]
        get_use_count_rep [OF new_counted_object_rep(1)])
  show "hy_step next_free 1 (C_retire 16 RT_decrement_strong_count) hy_made = Inr ([C_derived H_retire_loop], hy_retired)"
    using hy_made_fields alloc by (simp add: hy_step_def hy_retire_def hy_retired_def)
  show "hy_step next_free 1 (C_derived H_retire_loop) hy_retired = Inr ([], hy_retired)"
    using hy_made_fields by (simp add: hy_step_def hy_retire_loop_def hy_retired_def put_node_def hy_batch_size_def)
qed

theorem hyaline_garbage_bounded_witness:
  "\<exists>w :: nat hy_world. hy_world_reach next_free 2 w \<and>
     (\<forall>t<2. w_calls w t = [] \<and> \<not> hy_in_critical_section t (w_mm w)) \<and> fst (w_prog w) = [M_arc nullptr, M_rc nullptr] \<and>
     fmdom (hy_nodes (w_mm w)) = {|2|} \<and> fcard (fmdom (hy_nodes (w_mm w))) \<le> 2 * (hy_batch_size * 2)"
proof -
  let ?w = "hy_stored [M_arc nullptr, M_rc nullptr] hy_retired [] {}"
  have th: "hy_threads hy_retired = 2" using hy_made_fields(1) by (simp add: hy_retired_def put_node_def)
  have r: "hy_world_reach next_free 2 ?w"
    using hy_stored_call [OF hy_stored_call [OF hy_stored_call [OF hy_stored_replaced [OF hy_stored_reach hy_made_fields(1)]
        hy_made_fields(1) hy_retired_steps(1)] hy_made_fields(1) hy_retired_steps(2)] th hy_retired_steps(3)] .
  have rest: "\<forall>t<2. w_calls ?w t = [] \<and> \<not> hy_in_critical_section t (w_mm ?w)"
    using hy_made_fields(4) by (simp add: hy_in_critical_section_def hy_retired_def put_node_def)
  have nodes: "fmdom (hy_nodes (w_mm ?w)) = {|2|}" using hy_made_fields(2) by (simp add: hy_retired_def put_node_def)
  from hyaline_garbage_bounded [OF next_free_good r _ _ rest] r rest nodes show ?thesis
    by (intro exI [of _ ?w]) (simp add: fcard.rep_eq)
qed

section \<open>A batch of two kinds\<close>

text \<open>Three objects of thread 0, the only one.\<close>

definition hy_demo :: "unit counted_object acquire_retire_hyaline" where
  "hy_demo = hy_create_object 0 48 \<lparr>payload = (), members = []\<rparr> (hy_create_object 0 32 \<lparr>payload = (), members = []\<rparr>
     (hy_create_object 0 16 \<lparr>payload = (), members = []\<rparr> (acquire_retire_hyaline_init 1)))"

lemma hy_create_leaf_ok:
  assumes "mm_ok R s" and "p \<noteq> nullptr" "fmlookup (heap s) p = None"
  shows "mm_ok (add_mset (T_strong, p) R) (hy_create_object t p \<lparr>payload = v, members = []\<rparr> s)"
  using create_object_ok [OF _ fresh_new_counted_object assms(2,3), of "\<lparr>payload = v, members = []\<rparr>" R t] assms(1)
  by (simp add: hy_create_object_def create_object_def members_tokens_def)

lemma hy_create_heap [simp]:
  "heap (hy_create_object t p v s) = fmupd p (new_counted_object v) (heap s)"
  by (simp add: hy_create_object_def put_object_def increment_allocations_def)

lemma hy_demo_ok: "mm_ok {#(T_strong, 48), (T_strong, 32), (T_strong, 16)#} hy_demo"
  unfolding hy_demo_def by (intro hy_create_leaf_ok) (simp_all add: mm_ok_empty acquire_retire_hyaline_init_def)

definition mixed_calls :: "hy_call mm_call list" where
  "mixed_calls = [C_retire 16 RT_decrement_strong_count, C_retire 32 RT_decrement_weak_count,
     C_retire 48 RT_decrement_strong_count, C_decrement_ref_cnt 32]"

text \<open>
  (C37) A batch keeps the kind of its first retire only. A thread that owns three objects and a weak reference to the second gives back exactly
  what it owns: it retires the first strongly, the second weakly, the third strongly, which fills the batch, and then drops
  its strong reference to the second, which has been dropped before by the batch: the assertion of \<^verbatim>\<open>decrement_ref_cnt\<close> fails.
\<close>

theorem hyaline_mixed_batch:
  "\<exists>s. increment_weak_cnt 32 hy_demo = Inr (True, s) \<and> mm_ok (hy_tokens mixed_calls) s \<and>
     mm_run (hy_step next_free) 0 mixed_calls s = Some (Inl (AssertionFailed ''ptr->get_use_count() >= 1''))"
proof -
  have run: "case increment_weak_cnt 32 hy_demo of Inr (b, s) \<Rightarrow>
      (case mm_run (hy_step next_free) 0 mixed_calls s of Some (Inl e) \<Rightarrow> e = AssertionFailed ''ptr->get_use_count() >= 1'' | _ \<Rightarrow> False)
    | _ \<Rightarrow> False"
    by code_simp
  have "weak_room 32 hy_demo" by code_simp
  from increment_weak_cnt_ok [OF hy_demo_ok this] obtain s where s: "increment_weak_cnt 32 hy_demo = Inr (True, s)"
      "mm_ok {#(T_weak, 32), (T_strong, 48), (T_strong, 32), (T_strong, 16)#} s"
    by (auto simp: token_count_def)
  moreover have "hy_tokens mixed_calls = {#(T_weak, 32), (T_strong, 48), (T_strong, 32), (T_strong, 16)#}"
    by (simp add: mixed_calls_def)
  ultimately show ?thesis using run by (auto split: option.splits sum.splits)
qed

end
