(* ===== verification/Spec2Isabelle.thy ===== *)
theory Spec2Isabelle
  imports Sticky_Counter Marked_Ptr Thread_Utils Stack_Dtor Linked_Lists Hyaline_Interleaved
begin

text \<open>
  A verification development for the concurrent deferred reference counting library (CDRC), the headers under
  \<^verbatim>\<open>include/cdrc\<close>. Reference-counted pointers are shared in atomic locations; a reader announces
  what it reads, and the reference that a writer takes out of a location is decremented only when no reader announces it.

  \<^bold>\<open>The parts and how they interact.\<close> A \<^verbatim>\<open>counted_object\<close> holds a managed object and two \<^verbatim>\<open>StickyCounter\<close>s, which
  cannot leave zero. \<^verbatim>\<open>memory_manager_base\<close> has the operations on counts; destroying an object runs the destructors of
  its members, which decrement or retire further objects. A reclamation scheme (hazard pointers, epochs, intervals, Hyaline) derives from it and
  holds retired references back. \<^verbatim>\<open>rc_ptr\<close> and \<^verbatim>\<open>weak_ptr\<close> own a count, \<^verbatim>\<open>snapshot_ptr\<close> an announcement or a
  count, \<^verbatim>\<open>atomic_rc_ptr\<close> and \<^verbatim>\<open>atomic_weak_ptr\<close> are the locations.

  \<^bold>\<open>Theories and code.\<close>
  \<^item> \<open>Prelude\<close>: word types, atomic primitives, errors, the error monad, lists and maps.
  \<^item> \<open>Sticky_Counter\<close>: \<^verbatim>\<open>StickyCounter\<close> of \<^verbatim>\<open>internal/utils.h\<close>, as functions on a 32-bit word and as an
    interleaved machine \<open>sc_step\<close> with one step per atomic access. In every interleaving at most one decrement is told that it
    reached zero and zero is final; between operations the counter is a natural number whose zero is sticky.
  \<^item> \<open>Thread_Utils\<close>: \<^verbatim>\<open>ThreadID\<close>, \<^verbatim>\<open>hash64_2\<close>, \<^verbatim>\<open>rand\<close> of \<^verbatim>\<open>internal/utils.h\<close>. Identifiers are unique, the
    hash is injective, the generator does not degenerate.
  \<^item> \<open>Marked_Ptr\<close>: \<^verbatim>\<open>marked_ptr\<close> and the policies of \<^verbatim>\<open>marked_arc_ptr.h\<close>. Pointer and mark are independent;
    the update loops return at the first attempt that finds the expected word and change only its mark.
  \<^item> \<open>Counted_Object\<close>, \<open>Memory_Manager\<close>: \<^verbatim>\<open>internal/counted_object.h\<close>, \<^verbatim>\<open>internal/memory_manager_base.h\<close>.
    The mutually recursive calls are an explicit stack: one definition per member function runs its body up to the calls it
    makes. The second half of \<open>Memory_Manager\<close> accounts for references: each is a token, and \<open>mm_inv\<close> says that the counts of an object are
    the numbers of its tokens and that an object without tokens is gone.
  \<^item> \<open>Call_Machine\<close>: running a stack of calls (\<open>mm_run\<close>, a partial function with \<open>None\<close> for a run that does not end),
    the locale \<open>reclamation_scheme\<close> with what a scheme promises, and that under these promises every run ends without an error.
  \<^item> \<open>Protection\<close>, \<open>Deferred_Lists\<close>: guarded pointers, shared by the schemes.
  \<^item> \<open>Acquire_Retire\<close>, \<open>Acquire_Retire_EBR\<close>, \<open>Acquire_Retire_IBR\<close>: the schemes of \<^verbatim>\<open>internal/smr\<close>, with
    \<open>Epoch_Tracker\<close> for \<^verbatim>\<open>internal/epoch_tracker.h\<close>. Each interprets \<open>reclamation_scheme\<close>; an announced object is not
    destroyed, runs end without an error, the lists of hazard pointers are bounded, the destructors drain the lists. The loops of
    \<^verbatim>\<open>acquire\<close> and \<^verbatim>\<open>protect_snapshot\<close> are characterised for every script of reads: which round ends them, what they return and what they leave.
  \<^item> \<open>Places\<close>: the state of a program, its variables and the memory manager; a place is a variable or a member of a managed object.
  \<^item> \<open>Rc_Ptr\<close>, \<open>Snapshot_Ptr\<close>, \<open>Atomic_Ptr\<close>: \<^verbatim>\<open>rc_ptr.h\<close>, \<^verbatim>\<open>weak_ptr.h\<close>, \<^verbatim>\<open>snapshot_ptr.h\<close>, \<^verbatim>\<open>weak_snapshot_ptr.h\<close>,
    \<^verbatim>\<open>atomic_rc_ptr.h\<close>, \<^verbatim>\<open>atomic_weak_ptr.h\<close>. The record \<open>memory_manager\<close> is the template parameter. The locales \<open>owning_pointer\<close> and
    \<open>shared_location\<close> state once what holds of strong and of weak pointers.
  \<^item> \<open>Smart_Backend\<close>, \<open>Backends\<close>: what the smart pointers rely on (the locale \<open>smart_backend\<close>), and its interpretations on
    the memory managers of \<^verbatim>\<open>internal/fwd_decl.h\<close>.
  \<^item> \<open>Client\<close>, \<open>Clients\<close>: programs over the smart pointers. \<open>exec\<close> runs a statement of a thread with the definitions of the
    classes; \<open>gc_step\<close> is what the statement means for plain pointers under a garbage collector. Every well-typed statement returns
    and means just that; counts are exact; two uses that break the accounts are shown at the end.

  \<^item> \<open>Guarded_Runs\<close>, \<open>Snapshot_Guard\<close>, \<open>Snapshot_Safety\<close>, \<open>Hp_Snapshots\<close>: snapshots over the statements of a client. A snapshot is guarded while
    its slot announces the pointer and a location or a deferred entry still holds a reference; every statement but \<^verbatim>\<open>exchange\<close> keeps
    guards (\<^verbatim>\<open>atomic_rc_ptr::swap\<close>, which hands a reference out in the same way, is not a statement of clients), so a snapshot of the hazard-pointer backend can be dereferenced for as long as it exists.
  \<^item> \<open>Atomic_Stack\<close>: \<^verbatim>\<open>examples/stack.h\<close>, a client of the library, as threads that interleave after every operation on a smart pointer, and the atomic stack
    it promises to be. \<open>Stack_Chains\<close>: linked lists of nodes in the heap. \<open>Stack_Ops\<close>: what the operations of the library do to the nodes, from the guarded
    snapshots of any backend. \<open>Stack_Linear\<close>: every step is invisible or the effect of its operation on the atomic stack. \<open>Stacks\<close>: over hazard pointers the stack is
    linearizable, no step fails, and a thread that runs alone comes to its response. \<open>Stack_Dtor\<close>: the destructor, which ends and takes the list apart.
  \<^item> \<open>Linked_List\<close>: \<^verbatim>\<open>examples/linked_list.h\<close>, a sorted list with marked pointers, as threads that interleave at every access to a \<^verbatim>\<open>next\<close> pointer, and the atomic set it
    promises to be; nodes stay allocated, so that only the algorithm is modelled and not the counting under it. \<open>List_Chains\<close>: the shape of the list and what an exchange or a mark does to it.
    \<open>List_Linear\<close>: every step is invisible, the effect of its operation, or settles what the operation has seen. \<open>Linked_Lists\<close>: the list is linearizable and no step
    fails for keys between the sentinels; what the largest \<^verbatim>\<open>int\<close> does to it.
  \<^item> \<open>Acquire_Retire_Hyaline\<close>: \<^verbatim>\<open>internal/smr/acquire_retire_hyaline.h\<close>, the tracker, the guard and the scheme, with the nodes in a heap of their own and a
    call for every access to memory that threads share. \<open>Hyaline_Batches\<close> has the invariant: a ghost map gives for every batch its nodes and its phase (being
    filled, being hung into the lists, published, being freed), and the reference count of a published batch is the number of its nodes that threads and calls still
    have to give back. \<open>Hyaline_Steps\<close>, \<open>Hyaline_Calls\<close>, \<open>Hyaline_Retire\<close>: every call keeps the invariant and accounts for the references in the
    nodes. \<open>Hyaline_Threads\<close>: threads that interleave between any two calls, with readers inside critical sections. \<open>Hyaline_Interleaved\<close>: no call fails, what a reader has
    read stays alive until it leaves, what is held back at rest is bounded; and what happens when retires of two kinds meet in a batch.

  \<^bold>\<open>What is assumed and what bounds there are.\<close> Memory is sequentially consistent. In \<open>sc_step\<close>, \<open>tid_step\<close>, \<open>epoch_step\<close>, \<open>hy_world_step\<close> and \<open>list_step\<close> threads interleave at
  atomic accesses; the calls of the other schemes run to their end, and clients, the stack among them, take turns with whole operations on smart pointers. A location that other threads change
  during an operation is a script, the list of values that the loop reads; a script that is too short gives \<open>None\<close>. Counts are 32-bit words with two flag
  bits, and operations that increment require room in the count (\<open>strong_room\<close>, \<open>weak_room\<close>). The allocator is an argument: the address of a new object, required to be
  fresh and not null; the nodes of Hyaline are numbered by \<open>nat\<close> and come from a function of the nodes in use that gives a fresh one
  (\<open>good_alloc\<close>). The counters of allocated objects are unbounded integers. The safety of Hyaline is for clients
  with strong references only, because a batch has one kind, and for fewer than \<open>2 ^ 62\<close> threads, so that the protecting bias of a batch under construction is
  larger than its count. The list is correct for keys strictly between the two sentinels. No fuel is used: runs of calls are proved to end by a measure.

  \<^bold>\<open>Not modelled.\<close> The alias templates of \<^verbatim>\<open>fwd_decl.h\<close> and \<^verbatim>\<open>marked_arc_ptr.h\<close>, which
  have no behaviour; padding and alignment; \<^verbatim>\<open>release()\<close> and the constant \<^verbatim>\<open>operator->\<close> of the snapshot classes, which call a member function that
  does not exist; memory orders weaker than sequential consistency; marked pointers in the counted locations of \<open>Places\<close>, so that
  the reclamation of list nodes is not part of \<open>Linked_List\<close>; benchmarks and tests.
\<close>

end
